(* ===== verification/Prelude.thy ===== *)
theory Prelude
  imports Main "HOL-Library.Word"
begin

text \<open>
  Shared vocabulary of the development: the code units and machine integers of the C++ sources,
  exceptions as values, the vector operations the sources use (with their failing cases written
  out), and the effect monad of the composition controller with its total-correctness triples.

  \<^item> \<open>char16\<close>, \<open>char32\<close> are \<open>char16_t\<close> and \<open>char32_t\<close>; \<open>u8\<close>, \<open>u32\<close>, \<open>u64\<close> the unsigned
    integers of the protocols.
  \<^item> The 64-bit counters that start at 0 or 1 and only count up one at a time (entry ids, content
    revisions, conversion sequences, epochs) are natural numbers; the 32-bit entry version, which
    is only compared for equality, is a word and wraps.
  \<^item> \<open>exn\<close> names the exceptions the modelled code can throw; a fallible function returns
    \<open>exn + 'a\<close>, and \<open>('w, 'a) ctl\<close> is a computation over a state that may throw but keeps the
    state it had reached, as a C++ exception does.
\<close>

section \<open>Machine types\<close>

type_synonym char16 = "16 word"
type_synonym char32 = "32 word"
type_synonym u16string = "16 word list"
type_synonym u32string = "32 word list"
type_synonym u8 = "8 word"
type_synonym u32 = "32 word"
type_synonym u64 = "64 word"

named_theorems wf_intros \<open>introduction rules of the well-formedness invariants\<close>
named_theorems frame_simps \<open>fields an operation leaves alone\<close>

section \<open>Exceptions as values\<close>

datatype exn =
    Out_of_range
  | Logic_error
  | Runtime_error
  | Invalid_argument
  | Invalid_code_point

definition rbind :: "exn + 'a \<Rightarrow> ('a \<Rightarrow> exn + 'b) \<Rightarrow> exn + 'b" where
  "rbind m f = (case m of Inl e \<Rightarrow> Inl e | Inr x \<Rightarrow> f x)"

lemma rbind_simps [simp]:
  "rbind (Inl e) f = Inl e"
  "rbind (Inr x) f = f x"
  by (simp_all add: rbind_def)

lemma rbind_Inr_iff: "rbind m f = Inr y \<longleftrightarrow> (\<exists>x. m = Inr x \<and> f x = Inr y)"
  by (auto simp: rbind_def split: sum.splits)

text \<open>Running a fallible function over a list stops at the first exception.\<close>

fun mapR :: "('a \<Rightarrow> exn + 'b) \<Rightarrow> 'a list \<Rightarrow> exn + 'b list" where
  "mapR f [] = Inr []"
| "mapR f (x # xs) = rbind (f x) (\<lambda>y. rbind (mapR f xs) (\<lambda>ys. Inr (y # ys)))"

lemma mapR_Inr: "(\<And>x. x \<in> set xs \<Longrightarrow> f x = Inr (g x)) \<Longrightarrow> mapR f xs = Inr (map g xs)"
  by (induction xs) simp_all

lemma mapR_ex: "(\<And>x. x \<in> set xs \<Longrightarrow> \<exists>y. f x = Inr y) \<Longrightarrow> \<exists>ys. mapR f xs = Inr ys"
proof (induction xs)
  case (Cons x xs)
  then obtain y ys where "f x = Inr y" "mapR f xs = Inr ys" by fastforce
  then show ?case by simp
qed simp

lemma mapR_append:
  "mapR f (xs @ ys) = rbind (mapR f xs) (\<lambda>as. rbind (mapR f ys) (\<lambda>bs. Inr (as @ bs)))"
  by (induction xs) (simp_all add: rbind_def split: sum.splits)

lemma length_mapR: "mapR f xs = Inr ys \<Longrightarrow> length ys = length xs"
  by (induction xs arbitrary: ys) (auto simp: rbind_Inr_iff)

lemma mapR_cong [fundef_cong]:
  "xs = ys \<Longrightarrow> (\<And>x. x \<in> set ys \<Longrightarrow> f x = g x) \<Longrightarrow> mapR f xs = mapR g ys"
  by (induction ys arbitrary: xs) auto

lemma mapR_nth: "mapR f xs = Inr ys \<Longrightarrow> i < length xs \<Longrightarrow> f (xs ! i) = Inr (ys ! i)"
proof (induction xs arbitrary: ys i)
  case (Cons x xs)
  then show ?case by (cases i) (auto simp: rbind_Inr_iff)
qed simp

section \<open>Vectors\<close>

definition list_insert :: "nat \<Rightarrow> 'a \<Rightarrow> 'a list \<Rightarrow> 'a list" where
  "list_insert i x xs = take i xs @ x # drop i xs"

definition list_erase :: "nat \<Rightarrow> 'a list \<Rightarrow> 'a list" where
  "list_erase i xs = take i xs @ drop (Suc i) xs"

lemma length_list_insert [simp]: "length (list_insert i x xs) = Suc (length xs)"
  by (simp add: list_insert_def)

lemma length_list_erase [simp]: "i < length xs \<Longrightarrow> length (list_erase i xs) = length xs - 1"
  by (simp add: list_erase_def)

lemma set_list_insert [simp]: "set (list_insert i x xs) = insert x (set xs)"
  by (metis append_take_drop_id list.simps(15) list_insert_def set_append Un_insert_right)

lemma set_list_erase_subset: "set (list_erase i xs) \<subseteq> set xs"
  by (auto simp: list_erase_def dest: in_set_takeD in_set_dropD)

lemma nth_list_insert_eq [simp]: "i \<le> length xs \<Longrightarrow> list_insert i x xs ! i = x"
  by (simp add: list_insert_def nth_append)

lemma nth_update_at: "j < length xs \<Longrightarrow> xs[i := x] ! j = (if i = j then x else xs ! j)"
  by (cases "i = j") simp_all

lemma map_list_insert: "map f (list_insert i x xs) = list_insert i (f x) (map f xs)"
  by (simp add: list_insert_def take_map drop_map)

lemma map_list_erase: "map f (list_erase i xs) = list_erase i (map f xs)"
  by (simp add: list_erase_def take_map drop_map)

lemma distinct_insert_mid:
  "distinct (as @ x # bs) \<longleftrightarrow> x \<notin> set (as @ bs) \<and> distinct (as @ bs)"
  by auto

lemma distinct_list_insert [simp]:
  "distinct (list_insert i x xs) \<longleftrightarrow> x \<notin> set xs \<and> distinct xs"
  unfolding list_insert_def distinct_insert_mid append_take_drop_id ..

lemma distinct_list_erase: "distinct xs \<Longrightarrow> distinct (list_erase i xs)"
  unfolding list_erase_def distinct_append
  using set_take_disj_set_drop_if_distinct [of xs i "Suc i"] by simp

text \<open>The first position of an element, as \<open>std::ranges::find\<close> reports it.\<close>

fun find_index :: "('a \<Rightarrow> bool) \<Rightarrow> 'a list \<Rightarrow> nat option" where
  "find_index P [] = None"
| "find_index P (x # xs) = (if P x then Some 0 else map_option Suc (find_index P xs))"

lemma find_index_SomeD:
  "find_index P xs = Some i \<Longrightarrow> i < length xs \<and> P (xs ! i) \<and> (\<forall>j < i. \<not> P (xs ! j))"
proof (induction xs arbitrary: i)
  case (Cons x xs)
  then show ?case
    by (auto split: if_splits simp: less_Suc_eq_0_disj)
qed simp

lemma find_index_None: "find_index P xs = None \<longleftrightarrow> (\<forall>x \<in> set xs. \<not> P x)"
  by (induction xs) auto

lemma find_index_less [dest]: "find_index P xs = Some i \<Longrightarrow> i < length xs"
  by (drule find_index_SomeD) simp

lemma find_index_in_set: "find_index P xs = Some i \<Longrightarrow> xs ! i \<in> set xs"
  by (drule find_index_SomeD) simp

lemma find_index_SomeI: "x \<in> set xs \<Longrightarrow> P x \<Longrightarrow> \<exists>i. find_index P xs = Some i"
  by (cases "find_index P xs") (auto simp: find_index_None)

lemma find_index_cong:
  "(\<And>x. x \<in> set xs \<Longrightarrow> P x = Q x) \<Longrightarrow> find_index P xs = find_index Q xs"
  by (induction xs) auto

lemma find_index_map: "find_index P (map f xs) = find_index (\<lambda>x. P (f x)) xs"
  by (induction xs) auto

end
