(* ===== verification/Bopomofo.thy ===== *)
theory Bopomofo
  imports Prelude
begin

text \<open>
  \<open>frontend/src/core/bopomofo.hpp\<close>: the Zhuyin keyboard layout, the character table
  (\<open>HanziMapEngine\<close>) and one syllable of a composition (\<open>BopomofoPos\<close>) with every operation
  on it.  The character table is read from a file of a submodule, so its contents are a value of
  \<open>hanzi_engine\<close>; UTF-16 encoding is the third-party \<open>utf8::append16\<close>, so it is the field
  \<open>append16\<close> of \<open>env\<close>.  The lemmas show the layout's shape, that an operation keeps a syllable
  well formed (\<open>pos_wf\<close>), and that a well-formed syllable always displays (\<open>current\<close> cannot throw).
\<close>

section \<open>The keyboard layout\<close>

definition vkToBopomofo :: "(32 word \<times> char16) list" where
  "vkToBopomofo =
    [(0x31, 0x3105), (0x32, 0x3109), (0x35, 0x3113), (0x38, 0x311A), (0x39, 0x311E),
     (0x30, 0x3122), (0xBD, 0x3126),
     (0x51, 0x3106), (0x57, 0x310A), (0x45, 0x310D), (0x52, 0x3110), (0x54, 0x3114),
     (0x59, 0x3117), (0x55, 0x3127), (0x49, 0x311B), (0x4F, 0x311F), (0x50, 0x3123),
     (0x41, 0x3107), (0x53, 0x310B), (0x44, 0x310E), (0x46, 0x3111), (0x47, 0x3115),
     (0x48, 0x3118), (0x4A, 0x3128), (0x4B, 0x311C), (0x4C, 0x3120), (0xBA, 0x3124),
     (0x5A, 0x3108), (0x58, 0x310C), (0x43, 0x310F), (0x56, 0x3112), (0x42, 0x3116),
     (0x4E, 0x3119), (0x4D, 0x3129), (0xBC, 0x311D), (0xBE, 0x3121), (0xBF, 0x3125),
     (0x20, 0x0020), (0x36, 0x02CA), (0x33, 0x02C7), (0x34, 0x02CB), (0x37, 0x02D9)]"

definition initial_set :: "char16 list" where
  "initial_set =
    [0x3105, 0x3106, 0x3107, 0x3108, 0x3109, 0x310A, 0x310B, 0x310C, 0x310D, 0x310E, 0x310F,
     0x3110, 0x3111, 0x3112, 0x3113, 0x3114, 0x3115, 0x3116, 0x3117, 0x3118, 0x3119]"

definition medial_set :: "char16 list" where
  "medial_set = [0x3127, 0x3128, 0x3129]"

definition final_set :: "char16 list" where
  "final_set =
    [0x311A, 0x311B, 0x311C, 0x311D, 0x311E, 0x311F, 0x3120, 0x3121, 0x3122, 0x3123, 0x3124,
     0x3125, 0x3126]"

definition tone_set :: "char16 list" where
  "tone_set = [0x0020, 0x02CA, 0x02C7, 0x02CB, 0x02D9]"

definition lookup :: "32 word \<Rightarrow> char16 option" where
  "lookup vk = map_of vkToBopomofo vk"

section \<open>The character table\<close>

record hanzi_engine =
  mapping :: "u16string \<rightharpoonup> u32string"
  hanzi_set :: "char32 set"

definition lookup_first :: "hanzi_engine \<Rightarrow> u16string \<Rightarrow> exn + char32" where
  "lookup_first h bopomofo =
     (case mapping h bopomofo of
        Some cs \<Rightarrow> if length cs = 0 then Inl Logic_error else Inr (cs ! 0)
      | None \<Rightarrow> Inr 0x4E)"

definition lookup_all :: "hanzi_engine \<Rightarrow> u16string \<Rightarrow> u32string option" where
  "lookup_all h bopomofo = mapping h bopomofo"

definition contains :: "hanzi_engine \<Rightarrow> char32 \<Rightarrow> bool" where
  "contains h word \<longleftrightarrow> word \<in> hanzi_set h"

text \<open>
  The constructor, over the parsed file \<open>temp\<close> (in its iteration order) and the third-party UTF-8
  conversions; \<open>utf8to32(item)[0]\<close> is the terminating zero for an empty item.
\<close>

fun load_items :: "(string \<Rightarrow> u32string) \<Rightarrow> string list \<Rightarrow> u32string" where
  "load_items utf8to32 [] = []"
| "load_items utf8to32 (item # v) =
     (case utf8to32 item of [] \<Rightarrow> 0 | c # _ \<Rightarrow> c) # load_items utf8to32 v"

fun load_mapping ::
  "(string \<Rightarrow> u16string) \<Rightarrow> (string \<Rightarrow> u32string) \<Rightarrow> (string \<times> string list) list \<Rightarrow> hanzi_engine \<Rightarrow> hanzi_engine"
where
  "load_mapping utf8to16 utf8to32 [] h = h"
| "load_mapping utf8to16 utf8to32 ((k, v) # temp) h =
     (let wvec = load_items utf8to32 v in
      load_mapping utf8to16 utf8to32 temp
        (h\<lparr>mapping := (mapping h)(utf8to16 k \<mapsto> wvec), hanzi_set := hanzi_set h \<union> set wvec\<rparr>))"

record env =
  hanzi :: hanzi_engine
  append16 :: "char32 \<Rightarrow> exn + u16string"

section \<open>One syllable\<close>

record pos =
  initial :: char16
  medial :: char16
  final :: char16
  tone :: char16
  choose_index :: int
  chosen :: bool
  predicted :: bool
  conversion_pending :: bool
  manually_selected :: bool
  compositable :: bool
  invalid :: bool
  model_converted :: bool
  entry_id :: nat
  version :: u32
  converted_by :: nat
  candidates :: u32string
  predicted_candidate :: "u32string option"

definition new_pos :: pos where
  "new_pos = \<lparr>initial = 0, medial = 0, final = 0, tone = 0, choose_index = 0, chosen = False,
     predicted = False, conversion_pending = False, manually_selected = False,
     compositable = False, invalid = False, model_converted = False, entry_id = 0, version = 0,
     converted_by = 0, candidates = [], predicted_candidate = None\<rparr>"

definition to_toneless_bopomofo_string :: "pos \<Rightarrow> u16string" where
  "to_toneless_bopomofo_string p =
     (if initial p \<noteq> 0 then [initial p] else []) @
     (if medial p \<noteq> 0 then [medial p] else []) @
     (if final p \<noteq> 0 then [final p] else [])"

definition to_bopomofo_string :: "pos \<Rightarrow> u16string" where
  "to_bopomofo_string p =
     to_toneless_bopomofo_string p @ (if tone p \<noteq> 0 then [tone p] else [])"

definition is_null :: "pos \<Rightarrow> bool" where
  "is_null p \<longleftrightarrow> initial p = 0 \<and> medial p = 0 \<and> final p = 0 \<and> tone p = 0"

definition is_compositable :: "pos \<Rightarrow> bool" where
  "is_compositable p \<longleftrightarrow> compositable p"

definition is_predictable_by_engine :: "pos \<Rightarrow> bool" where
  "is_predictable_by_engine p \<longleftrightarrow> chosen p \<or> compositable p"

definition is_invalid :: "pos \<Rightarrow> bool" where
  "is_invalid p \<longleftrightarrow> invalid p"

definition single_reading_literal :: "pos \<Rightarrow> char32 option" where
  "single_reading_literal p =
     (let reading = to_toneless_bopomofo_string p in
      if reading = [] \<and> tone p \<noteq> 0 \<and> tone p \<noteq> 0x20 then Some (ucast (tone p))
      else if tone p \<noteq> 0x20 then None
      else case reading of [c] \<Rightarrow> Some (ucast c) | _ \<Rightarrow> None)"

definition multi_reading_literal :: "pos \<Rightarrow> u16string option" where
  "multi_reading_literal p =
     (let reading = to_toneless_bopomofo_string p in
      if tone p = 0 \<or> length reading < 2 then None
      else Some (if tone p \<noteq> 0x20 then reading @ [tone p] else reading))"

definition set_chosen_candidate :: "pos \<Rightarrow> char32 \<Rightarrow> pos" where
  "set_chosen_candidate p ch =
     p\<lparr>initial := 0, medial := 0, final := 0, tone := 0, choose_index := 0, chosen := True,
       predicted := True, conversion_pending := False, manually_selected := False,
       compositable := True, invalid := False, model_converted := False,
       predicted_candidate := None, candidates := [ch]\<rparr>"

definition accept :: "env \<Rightarrow> pos \<Rightarrow> char16 \<Rightarrow> bool \<times> pos" where
  "accept E p c =
     (if is_compositable p \<or> invalid p then (False, p)
      else if c \<in> set initial_set then (True, p\<lparr>initial := c\<rparr>)
      else if c \<in> set medial_set then (True, p\<lparr>medial := c\<rparr>)
      else if c \<in> set final_set then (True, p\<lparr>final := c\<rparr>)
      else if c \<in> set tone_set then
        (let p' = p\<lparr>tone := c\<rparr>;
             candi = lookup_all (hanzi E) (to_bopomofo_string p') in
         case single_reading_literal p' of
           Some literal \<Rightarrow>
             (case candi of
                None \<Rightarrow> (True, set_chosen_candidate p' literal)
              | Some cs \<Rightarrow>
                  if \<forall>candidate \<in> set cs. candidate = literal
                  then (True, set_chosen_candidate p' literal)
                  else (True, p'\<lparr>compositable := True, candidates := cs,
                                 conversion_pending := True\<rparr>))
         | None \<Rightarrow>
             (case candi of
                None \<Rightarrow> (True, p'\<lparr>invalid := True\<rparr>)
              | Some cs \<Rightarrow> (True, p'\<lparr>compositable := True, candidates := cs,
                                    conversion_pending := True\<rparr>)))
      else (True, p))"

text \<open>\<open>candidates.at(i)\<close>: a negative index converts to a huge one, so it is out of range too.\<close>

definition candidate_at :: "u32string \<Rightarrow> int \<Rightarrow> exn + char32" where
  "candidate_at cs i =
     (if 0 \<le> i \<and> i < int (length cs) then Inr (cs ! nat i) else Inl Out_of_range)"

definition current :: "env \<Rightarrow> pos \<Rightarrow> exn + u16string" where
  "current E p =
     (if \<not> is_compositable p then Inr (to_bopomofo_string p)
      else rbind (candidate_at (candidates p) (choose_index p)) (append16 E))"

definition current32 :: "pos \<Rightarrow> exn + char32" where
  "current32 p =
     (if \<not> is_compositable p then Inl Logic_error
      else candidate_at (candidates p) (choose_index p))"

definition get_candidates :: "pos \<Rightarrow> exn + u32string" where
  "get_candidates p =
     (if \<not> is_compositable p then Inl Runtime_error
      else case single_reading_literal p of
             None \<Rightarrow> Inr (candidates p)
           | Some literal \<Rightarrow>
               (let displayed = filter (\<lambda>c. c \<noteq> literal) (candidates p);
                    offset = min 8 (length displayed) in
                Inr (list_insert offset literal displayed)))"

definition get_candidate_texts :: "env \<Rightarrow> pos \<Rightarrow> exn + u16string list" where
  "get_candidate_texts E p =
     rbind (get_candidates p) (\<lambda>cs.
     rbind (mapR (append16 E) cs) (\<lambda>displayed.
       Inr (displayed @ (case multi_reading_literal p of None \<Rightarrow> [] | Some r \<Rightarrow> [r]))))"

definition choose_candidate :: "pos \<Rightarrow> char32 \<Rightarrow> pos" where
  "choose_candidate p ch =
     (let p' = (case find_index (\<lambda>c. c = ch) (candidates p) of
                  None \<Rightarrow> p\<lparr>candidates := ch # candidates p, choose_index := 0\<rparr>
                | Some i \<Rightarrow> p\<lparr>choose_index := int i\<rparr>)
      in p'\<lparr>chosen := True, predicted := True, conversion_pending := False\<rparr>)"

definition set_choose_index :: "pos \<Rightarrow> int \<Rightarrow> exn + pos" where
  "set_choose_index p i =
     rbind (get_candidates p) (\<lambda>cs.
     rbind (candidate_at cs i) (\<lambda>selected.
       Inr ((if single_reading_literal p = Some selected
             then set_chosen_candidate p selected
             else choose_candidate p selected)\<lparr>manually_selected := True\<rparr>)))"

definition was_manually_selected :: "pos \<Rightarrow> bool" where
  "was_manually_selected p = manually_selected p"

definition set_candaiates :: "pos \<Rightarrow> u32string \<Rightarrow> pos" where
  "set_candaiates p nc = p\<lparr>candidates := nc\<rparr>"

definition pop_last_bopomofo :: "pos \<Rightarrow> bool \<times> pos" where
  "pop_last_bopomofo p =
     (let p' = p\<lparr>compositable := False, invalid := False, chosen := False, predicted := False,
                 conversion_pending := False, manually_selected := False,
                 model_converted := False, converted_by := 0, predicted_candidate := None,
                 candidates := []\<rparr> in
      if tone p' \<noteq> 0 then (True, p'\<lparr>tone := 0\<rparr>)
      else if final p' \<noteq> 0 then (True, p'\<lparr>final := 0\<rparr>)
      else if medial p' \<noteq> 0 then (True, p'\<lparr>medial := 0\<rparr>)
      else if initial p' \<noteq> 0 then (True, p'\<lparr>initial := 0\<rparr>)
      else (False, p'))"

section \<open>Shape of the layout\<close>

lemmas layout_defs = vkToBopomofo_def initial_set_def medial_set_def final_set_def tone_set_def

definition layout_symbols :: "char16 list" where
  "layout_symbols = initial_set @ medial_set @ final_set @ tone_set"

lemma layout_symbols_distinct: "distinct layout_symbols"
  by (simp add: layout_symbols_def layout_defs)

lemma layout_keys_distinct: "distinct (map fst vkToBopomofo)"
  by (simp add: layout_defs)

lemma layout_values_distinct: "distinct (map snd vkToBopomofo)"
  by (simp add: layout_defs)

lemma layout_values: "set (map snd vkToBopomofo) = set layout_symbols"
  unfolding layout_symbols_def layout_defs by simp blast

lemma zero_not_in_layout: "0 \<notin> set layout_symbols"
  by (simp add: layout_symbols_def layout_defs)

lemma lookup_symbol: "lookup vk = Some c \<Longrightarrow> c \<in> set layout_symbols"
  unfolding lookup_def layout_values [symmetric]
  by (drule map_of_SomeD) force

lemma lookup_surj: "c \<in> set layout_symbols \<Longrightarrow> \<exists>vk. lookup vk = Some c"
  unfolding lookup_def layout_values [symmetric]
  using layout_keys_distinct by (auto simp: map_of_eq_Some_iff)

lemma lookup_inj: "lookup vk = Some c \<Longrightarrow> lookup vk' = Some c \<Longrightarrow> vk = vk'"
  unfolding lookup_def
  by (drule map_of_SomeD, drule map_of_SomeD)
    (use layout_values_distinct in \<open>metis (no_types, lifting) eq_key_imp_eq_value
       distinct_map inj_on_def prod.sel(1) prod.sel(2)\<close>)

section \<open>Well-formed syllables\<close>

text \<open>
  What every syllable of a composition satisfies: a completed syllable points at one of its own,
  displayable candidates; an unfinished one carries no candidates and nothing chosen; the reading
  slots hold symbols of their own class.
\<close>

definition displayable :: "env \<Rightarrow> char32 \<Rightarrow> bool" where
  "displayable E c \<longleftrightarrow> (\<exists>s. append16 E c = Inr s)"

definition env_ok :: "env \<Rightarrow> bool" where
  "env_ok E \<longleftrightarrow>
     (\<forall>r cs. mapping (hanzi E) r = Some cs \<longrightarrow> cs \<noteq> [] \<and> (\<forall>c \<in> set cs. displayable E c)) \<and>
     (\<forall>c \<in> set layout_symbols. displayable E (ucast c))"

definition slots_wf :: "pos \<Rightarrow> bool" where
  "slots_wf p \<longleftrightarrow>
     initial p \<in> insert 0 (set initial_set) \<and> medial p \<in> insert 0 (set medial_set) \<and>
     final p \<in> insert 0 (set final_set) \<and> tone p \<in> insert 0 (set tone_set)"

definition pos_wf :: "env \<Rightarrow> pos \<Rightarrow> bool" where
  "pos_wf E p \<longleftrightarrow> slots_wf p \<and>
     (if compositable p
      then 0 \<le> choose_index p \<and> choose_index p < int (length (candidates p)) \<and>
           (\<forall>c \<in> set (candidates p). displayable E c) \<and> \<not> invalid p
      else choose_index p = 0 \<and> candidates p = [] \<and> \<not> chosen p \<and> \<not> predicted p \<and>
           \<not> conversion_pending p \<and> \<not> model_converted p)"

lemma pos_wf_slots: "pos_wf E p \<Longrightarrow> slots_wf p"
  by (simp add: pos_wf_def)

lemma pos_wf_composed:
  "pos_wf E p \<Longrightarrow> compositable p \<Longrightarrow>
     0 \<le> choose_index p \<and> choose_index p < int (length (candidates p)) \<and>
     (\<forall>c \<in> set (candidates p). displayable E c) \<and> \<not> invalid p"
  by (simp add: pos_wf_def)

lemma pos_wf_unfinished:
  "pos_wf E p \<Longrightarrow> \<not> compositable p \<Longrightarrow>
     choose_index p = 0 \<and> candidates p = [] \<and> \<not> chosen p \<and> \<not> predicted p \<and>
     \<not> conversion_pending p \<and> \<not> model_converted p"
  by (simp add: pos_wf_def)

lemma new_pos_wf [wf_intros]: "pos_wf E (new_pos\<lparr>entry_id := i\<rparr>)"
  by (simp add: pos_wf_def new_pos_def slots_wf_def)

lemma pos_wf_entry_id [simp]: "pos_wf E (p\<lparr>entry_id := i\<rparr>) \<longleftrightarrow> pos_wf E p"
  by (simp add: pos_wf_def slots_wf_def)

lemma pos_wf_version [simp]: "pos_wf E (p\<lparr>version := v\<rparr>) \<longleftrightarrow> pos_wf E p"
  by (simp add: pos_wf_def slots_wf_def)

lemma pos_wf_manually [simp]: "pos_wf E (p\<lparr>manually_selected := b\<rparr>) \<longleftrightarrow> pos_wf E p"
  by (simp add: pos_wf_def slots_wf_def)

lemma set_chosen_candidate_wf [wf_intros]:
  "displayable E ch \<Longrightarrow> pos_wf E (set_chosen_candidate p ch)"
  by (simp add: pos_wf_def set_chosen_candidate_def slots_wf_def)

lemma slots_symbols:
  assumes "slots_wf p" and "c \<in> set (to_bopomofo_string p)"
  shows "c \<in> set layout_symbols"
  using assms
  by (auto simp: to_bopomofo_string_def to_toneless_bopomofo_string_def slots_wf_def
      layout_symbols_def split: if_splits)

lemma single_reading_literal_symbol:
  assumes "slots_wf p" and "single_reading_literal p = Some l"
  shows "\<exists>c \<in> set layout_symbols. l = ucast c"
proof -
  have "\<exists>c \<in> set (to_bopomofo_string p). l = ucast c"
    using assms(2)
    by (auto simp: single_reading_literal_def to_bopomofo_string_def Let_def
        split: if_splits list.splits)
  then show ?thesis using slots_symbols [OF assms(1)] by blast
qed

lemma single_reading_literal_displayable:
  "env_ok E \<Longrightarrow> slots_wf p \<Longrightarrow> single_reading_literal p = Some l \<Longrightarrow> displayable E l"
  by (drule single_reading_literal_symbol, assumption) (auto simp: env_ok_def)

lemma accept_frame [frame_simps]:
  "entry_id (snd (accept E p c)) = entry_id p"
  "version (snd (accept E p c)) = version p"
  "converted_by (snd (accept E p c)) = converted_by p"
  by (auto simp: accept_def Let_def set_chosen_candidate_def split: option.splits)

lemma accept_wf [wf_intros]:
  assumes E: "env_ok E" and wf: "pos_wf E p"
  shows "pos_wf E (snd (accept E p c))"
proof (cases "is_compositable p \<or> invalid p")
  case True
  then show ?thesis using wf by (simp add: accept_def)
next
  case False
  then have un: "\<not> compositable p" "\<not> invalid p" by (simp_all add: is_compositable_def)
  from pos_wf_unfinished [OF wf un(1)] pos_wf_slots [OF wf] un
  have tone_case: "pos_wf E (p\<lparr>tone := c, compositable := True, candidates := cs, conversion_pending := True\<rparr>)"
    if "c \<in> set tone_set" "lookup_all (hanzi E) r = Some cs" for r cs
    using that E
    by (auto simp: pos_wf_def slots_wf_def lookup_all_def env_ok_def)
  have lit: "displayable E l" if "c \<in> set tone_set" "single_reading_literal (p\<lparr>tone := c\<rparr>) = Some l" for l
    using E _ that(2)
    by (rule single_reading_literal_displayable)
      (use pos_wf_slots [OF wf] that(1) in \<open>simp add: slots_wf_def\<close>)
  show ?thesis
    using pos_wf_unfinished [OF wf un(1)] pos_wf_slots [OF wf] un tone_case lit
    by (auto simp: accept_def is_compositable_def Let_def pos_wf_def slots_wf_def
        set_chosen_candidate_def split: option.splits)
qed

lemma candidate_at_Inr:
  "0 \<le> i \<Longrightarrow> i < int (length cs) \<Longrightarrow> candidate_at cs i = Inr (cs ! nat i)"
  by (simp add: candidate_at_def)

lemma candidate_at_InrD: "candidate_at cs i = Inr c \<Longrightarrow> c \<in> set cs"
  by (auto simp: candidate_at_def split: if_splits)

lemma current_total: "pos_wf E p \<Longrightarrow> \<exists>s. current E p = Inr s"
proof (cases "compositable p")
  case True
  assume wf: "pos_wf E p"
  from pos_wf_composed [OF wf True]
  have "candidate_at (candidates p) (choose_index p) = Inr (candidates p ! nat (choose_index p))"
    and "displayable E (candidates p ! nat (choose_index p))"
    by (auto intro: candidate_at_Inr)
  then show ?thesis by (auto simp: current_def is_compositable_def displayable_def)
qed (simp add: current_def is_compositable_def)

lemma get_candidates_total: "compositable p \<Longrightarrow> \<exists>cs. get_candidates p = Inr cs"
  by (auto simp: get_candidates_def is_compositable_def Let_def split: option.splits)

lemma get_candidates_set:
  "get_candidates p = Inr cs \<Longrightarrow> c \<in> set cs \<Longrightarrow>
     c \<in> set (candidates p) \<or> single_reading_literal p = Some c"
  by (auto simp: get_candidates_def Let_def split: if_splits option.splits)

lemma get_candidates_displayable:
  assumes "env_ok E" "pos_wf E p" "get_candidates p = Inr cs" "c \<in> set cs"
  shows "displayable E c"
proof -
  have "compositable p"
    using assms(3) by (auto simp: get_candidates_def is_compositable_def split: if_splits)
  with assms show ?thesis
    using get_candidates_set [OF assms(3,4)] pos_wf_composed [OF assms(2)]
      single_reading_literal_displayable [OF assms(1) pos_wf_slots [OF assms(2)]]
    by blast
qed

lemma get_candidate_texts_total:
  assumes "env_ok E" "pos_wf E p" "compositable p"
  shows "\<exists>ts. get_candidate_texts E p = Inr ts"
proof -
  obtain cs where cs: "get_candidates p = Inr cs" using get_candidates_total [OF assms(3)] by blast
  have "\<exists>ys. mapR (append16 E) cs = Inr ys"
    by (rule mapR_ex) (use get_candidates_displayable [OF assms(1,2) cs] in \<open>auto simp: displayable_def\<close>)
  then show ?thesis by (auto simp: get_candidate_texts_def cs)
qed

lemma choose_candidate_wf [wf_intros]:
  assumes "pos_wf E p" "compositable p" "displayable E ch"
  shows "pos_wf E (choose_candidate p ch)"
  using assms pos_wf_composed [OF assms(1,2)]
  by (auto simp: choose_candidate_def Let_def pos_wf_def slots_wf_def split: option.splits)

lemma choose_candidate_frame [frame_simps]:
  "entry_id (choose_candidate p ch) = entry_id p"
  "version (choose_candidate p ch) = version p"
  "compositable (choose_candidate p ch) = compositable p"
  by (simp_all add: choose_candidate_def Let_def split: option.splits)

lemma set_chosen_candidate_frame [frame_simps]:
  "entry_id (set_chosen_candidate p ch) = entry_id p"
  "version (set_chosen_candidate p ch) = version p"
  by (simp_all add: set_chosen_candidate_def)

lemma set_chosen_candidate_flags [simp]:
  "compositable (set_chosen_candidate p ch)"
  "chosen (set_chosen_candidate p ch)"
  "\<not> conversion_pending (set_chosen_candidate p ch)"
  by (simp_all add: set_chosen_candidate_def)

lemma set_choose_index_wf [wf_intros]:
  assumes "env_ok E" "pos_wf E p" "set_choose_index p i = Inr q"
  shows "pos_wf E q \<and> compositable q \<and> entry_id q = entry_id p \<and> version q = version p"
proof -
  from assms(3) obtain cs sel where cs: "get_candidates p = Inr cs" and sel: "candidate_at cs i = Inr sel"
    and q: "q = (if single_reading_literal p = Some sel then set_chosen_candidate p sel
                 else choose_candidate p sel)\<lparr>manually_selected := True\<rparr>"
    by (auto simp: set_choose_index_def rbind_Inr_iff)
  have comp: "compositable p"
    using cs by (auto simp: get_candidates_def is_compositable_def split: if_splits)
  have "displayable E sel"
    by (rule get_candidates_displayable [OF assms(1,2) cs candidate_at_InrD [OF sel]])
  with comp assms(2) show ?thesis
    unfolding q by (auto simp: frame_simps intro!: wf_intros)
qed

lemma set_choose_index_Inr:
  assumes "get_candidates p = Inr cs" "i < length cs"
  shows "\<exists>q. set_choose_index p (int i) = Inr q"
  using assms by (simp add: set_choose_index_def candidate_at_def)

text \<open>What the user picked is what the syllable then shows.\<close>

lemma current32_set_choose_index:
  assumes "get_candidates p = Inr cs" "i < length cs" "set_choose_index p (int i) = Inr q"
  shows "current32 q = Inr (cs ! i) \<and> chosen q \<and> manually_selected q"
proof -
  have "compositable p"
    using assms(1) by (auto simp: get_candidates_def is_compositable_def split: if_splits)
  then show ?thesis
    using assms
    by (auto simp: set_choose_index_def current32_def is_compositable_def candidate_at_def
        set_chosen_candidate_def choose_candidate_def Let_def
        split: option.splits dest: find_index_SomeD)
qed

lemma pop_last_bopomofo_wf [wf_intros]:
  assumes "pos_wf E p" "\<not> compositable p"
  shows "pos_wf E (snd (pop_last_bopomofo p))"
  using pos_wf_unfinished [OF assms] pos_wf_slots [OF assms(1)]
  by (auto simp: pop_last_bopomofo_def Let_def pos_wf_def slots_wf_def)

lemma pop_last_bopomofo_frame [frame_simps]:
  "entry_id (snd (pop_last_bopomofo p)) = entry_id p"
  "version (snd (pop_last_bopomofo p)) = version p"
  "compositable (snd (pop_last_bopomofo p)) = False"
  by (simp_all add: pop_last_bopomofo_def Let_def)

end
