(* ===== verification/Composition_Buffer.thy ===== *)
theory Composition_Buffer
  imports Bopomofo
begin

text \<open>
  \<open>frontend/src/core/buffer.hpp\<close> and \<open>frontend/src/core/training.hpp\<close>: the text being composed,
  with its caret, its content revision and its entry ids.  Operations that display text are
  fallible, because displaying a syllable is.  The lemmas show that every operation keeps a buffer
  well formed (\<open>buf_wf\<close>), how the revision and the caret move, and what merging a conversion
  result may and may not change.
\<close>

section \<open>State\<close>

record comp_buffer =
  buffer :: "pos list"
  idx :: int
  immediate_conversion_enabled :: bool
  revision :: nat
  next_id :: nat

definition new_buffer :: comp_buffer where
  "new_buffer = \<lparr>buffer = [], idx = -1, immediate_conversion_enabled = False, revision = 0, next_id = 1\<rparr>"

record conversion_snapshot =
  snap_revision :: nat
  snap_entries :: "pos list"

record merge_outcome =
  changed :: bool
  held :: "(pos \<times> pos) option"

record commit_input_entry =
  entry_reading :: u16string
  entry_output :: u16string
  entry_manually_selected :: bool

record commit_sample =
  context_text :: u16string
  answer :: u16string
  commit_input :: "commit_input_entry list"

section \<open>Helpers of the class\<close>

definition display :: "env \<Rightarrow> comp_buffer \<Rightarrow> pos \<Rightarrow> exn + u16string" where
  "display E b item =
     (if \<not> immediate_conversion_enabled b \<and> conversion_pending item \<and> \<not> chosen item
      then Inr (to_toneless_bopomofo_string item)
      else current E item)"

definition caret_on_entry :: "comp_buffer \<Rightarrow> bool" where
  "caret_on_entry b \<longleftrightarrow> 0 \<le> idx b \<and> idx b < int (length (buffer b))"

text \<open>\<open>edited(item)\<close>, the item given by its position.\<close>

definition edited :: "comp_buffer \<Rightarrow> nat \<Rightarrow> comp_buffer" where
  "edited b i =
     b\<lparr>buffer := (buffer b)[i := (buffer b ! i)\<lparr>version := version (buffer b ! i) + 1\<rparr>],
       revision := revision b + 1\<rparr>"

text \<open>Afterwards the new item is the one at the caret.\<close>

definition insert_after_caret :: "comp_buffer \<Rightarrow> comp_buffer" where
  "insert_after_caret b =
     (let i = idx b + 1 in
      b\<lparr>idx := i,
        buffer := list_insert (nat i) (new_pos\<lparr>entry_id := next_id b\<rparr>) (buffer b),
        next_id := next_id b + 1,
        revision := revision b + 1\<rparr>)"

definition erase_at_caret :: "comp_buffer \<Rightarrow> comp_buffer" where
  "erase_at_caret b =
     b\<lparr>buffer := list_erase (nat (idx b)) (buffer b), idx := idx b - 1, revision := revision b + 1\<rparr>"

definition candidate_target_index :: "comp_buffer \<Rightarrow> int" where
  "candidate_target_index b =
     (if buffer b = [] then -1
      else let size = int (length (buffer b)); right_of_caret = idx b + 1 in
        if 0 \<le> right_of_caret \<and> right_of_caret < size then right_of_caret
        else if 0 \<le> idx b \<and> idx b < size then idx b
        else -1)"

definition find_entry :: "comp_buffer \<Rightarrow> nat \<Rightarrow> nat option" where
  "find_entry b i = find_index (\<lambda>item. entry_id item = i) (buffer b)"

section \<open>Queries\<close>

definition has_uncomposed_reading :: "comp_buffer \<Rightarrow> bool" where
  "has_uncomposed_reading b \<longleftrightarrow> (\<exists>item \<in> set (buffer b). \<not> is_compositable item)"

definition has_pending_conversion :: "comp_buffer \<Rightarrow> bool" where
  "has_pending_conversion b \<longleftrightarrow> (\<exists>item \<in> set (buffer b). conversion_pending item)"

definition shows_unconverted :: "comp_buffer \<Rightarrow> bool" where
  "shows_unconverted b \<longleftrightarrow> \<not> immediate_conversion_enabled b \<and> has_pending_conversion b"

definition ready_to_commit :: "comp_buffer \<Rightarrow> bool" where
  "ready_to_commit b \<longleftrightarrow>
     buffer b \<noteq> [] \<and> \<not> has_uncomposed_reading b \<and> \<not> has_pending_conversion b"

definition output_is_trusted :: "comp_buffer \<Rightarrow> bool" where
  "output_is_trusted b \<longleftrightarrow> (\<forall>item \<in> set (buffer b). chosen item \<or> model_converted item)"

definition current_invalid :: "comp_buffer \<Rightarrow> bool" where
  "current_invalid b \<longleftrightarrow> caret_on_entry b \<and> is_invalid (buffer b ! nat (idx b))"

definition current_compositable :: "comp_buffer \<Rightarrow> bool" where
  "current_compositable b \<longleftrightarrow> caret_on_entry b \<and> is_compositable (buffer b ! nat (idx b))"

definition current_has_candidate_list :: "env \<Rightarrow> comp_buffer \<Rightarrow> exn + bool" where
  "current_has_candidate_list E b =
     (let target = candidate_target_index b in
      if target < 0 then Inr False
      else let item = buffer b ! nat target in
        if \<not> immediate_conversion_enabled b \<and> conversion_pending item \<and> \<not> chosen item then Inr False
        else if \<not> is_compositable item then Inr False
        else rbind (get_candidate_texts E item) (\<lambda>ts. Inr (1 < length ts)))"

definition cur :: "comp_buffer \<Rightarrow> exn + pos" where
  "cur b = (if \<not> caret_on_entry b then Inl Runtime_error else Inr (buffer b ! nat (idx b)))"

definition candidate_target :: "comp_buffer \<Rightarrow> exn + pos" where
  "candidate_target b =
     (let target = candidate_target_index b in
      if target < 0 then Inl Runtime_error else Inr (buffer b ! nat target))"

definition to_string :: "env \<Rightarrow> comp_buffer \<Rightarrow> exn + u16string" where
  "to_string E b = rbind (mapR (display E b) (buffer b)) (\<lambda>ss. Inr (concat ss))"

definition final_text :: "env \<Rightarrow> comp_buffer \<Rightarrow> exn + u16string" where
  "final_text E b = rbind (mapR (current E) (buffer b)) (\<lambda>ss. Inr (concat ss))"

definition caret_offset :: "env \<Rightarrow> comp_buffer \<Rightarrow> exn + nat" where
  "caret_offset E b =
     rbind (mapR (display E b) (take (nat (idx b + 1)) (buffer b))) (\<lambda>ss. Inr (length (concat ss)))"

definition current_invalid_span :: "env \<Rightarrow> comp_buffer \<Rightarrow> exn + (nat \<times> nat) option" where
  "current_invalid_span E b =
     (if \<not> current_invalid b then Inr None
      else rbind (mapR (display E b) (take (nat (idx b)) (buffer b))) (\<lambda>ss.
           rbind (display E b (buffer b ! nat (idx b))) (\<lambda>s.
             Inr (Some (length (concat ss), length s)))))"

definition candidate_target_span :: "env \<Rightarrow> comp_buffer \<Rightarrow> exn + nat \<times> nat" where
  "candidate_target_span E b =
     (let target = candidate_target_index b in
      if target < 0 then Inl Runtime_error
      else rbind (mapR (display E b) (take (nat target) (buffer b))) (\<lambda>ss.
           rbind (display E b (buffer b ! nat target)) (\<lambda>s.
             Inr (length (concat ss), length s))))"

definition commit_entry :: "env \<Rightarrow> pos \<Rightarrow> exn + commit_input_entry" where
  "commit_entry E item =
     rbind (current E item) (\<lambda>out.
       Inr \<lparr>entry_reading = to_bopomofo_string item, entry_output = out,
            entry_manually_selected = was_manually_selected item\<rparr>)"

definition commit_sample_of :: "env \<Rightarrow> comp_buffer \<Rightarrow> u16string \<Rightarrow> exn + commit_sample" where
  "commit_sample_of E b ctxt =
     rbind (mapR (commit_entry E) (buffer b)) (\<lambda>es.
       Inr \<lparr>context_text = ctxt, answer = concat (map entry_output es), commit_input = es\<rparr>)"

text \<open>\<open>training_sample\<close>: only trusted output teaches the model.\<close>

definition training_sample :: "env \<Rightarrow> comp_buffer \<Rightarrow> u16string \<Rightarrow> exn + commit_sample option" where
  "training_sample E b preceding =
     (if \<not> output_is_trusted b then Inr None
      else rbind (commit_sample_of E b preceding) (\<lambda>s. Inr (Some s)))"

definition conversion_snapshot_of :: "comp_buffer \<Rightarrow> conversion_snapshot option" where
  "conversion_snapshot_of b =
     (if buffer b = [] then None
      else if \<not> (\<forall>p \<in> set (buffer b). is_predictable_by_engine p) then None
      else if \<forall>p \<in> set (buffer b). chosen p then None
      else Some \<lparr>snap_revision = revision b, snap_entries = buffer b\<rparr>)"

section \<open>Edits\<close>

definition set_immediate_conversion :: "bool \<Rightarrow> comp_buffer \<Rightarrow> comp_buffer" where
  "set_immediate_conversion enabled b = b\<lparr>immediate_conversion_enabled := enabled\<rparr>"

definition pre :: "comp_buffer \<Rightarrow> bool \<times> comp_buffer" where
  "pre b = (if idx b < 0 then (False, b) else (True, b\<lparr>idx := idx b - 1\<rparr>))"

definition next_entry :: "comp_buffer \<Rightarrow> bool \<times> comp_buffer" where
  "next_entry b =
     (if idx b + 1 \<ge> int (length (buffer b)) then (False, b) else (True, b\<lparr>idx := idx b + 1\<rparr>))"

definition clamp_caret :: "comp_buffer \<Rightarrow> comp_buffer" where
  "clamp_caret b =
     (if buffer b = [] then b\<lparr>idx := -1\<rparr>
      else if idx b \<ge> int (length (buffer b)) then b\<lparr>idx := int (length (buffer b)) - 1\<rparr>
      else b)"

definition remove_last :: "comp_buffer \<Rightarrow> bool \<times> comp_buffer" where
  "remove_last b =
     (if \<not> caret_on_entry b then (False, b)
      else let i = nat (idx b); item = buffer b ! i in
        if is_compositable item then (True, clamp_caret (erase_at_caret b))
        else case pop_last_bopomofo item of (popped, item') \<Rightarrow>
          let b' = b\<lparr>buffer := (buffer b)[i := item']\<rparr> in
          if \<not> popped \<or> is_null item' then (True, clamp_caret (erase_at_caret b'))
          else (True, clamp_caret (edited b' i)))"

definition discard_current_reading :: "comp_buffer \<Rightarrow> bool \<times> comp_buffer" where
  "discard_current_reading b =
     (if \<not> caret_on_entry b \<or> is_compositable (buffer b ! nat (idx b)) then (False, b)
      else (True, erase_at_caret b))"

definition clear_buffer :: "comp_buffer \<Rightarrow> comp_buffer" where
  "clear_buffer b = b\<lparr>revision := revision b + 1, buffer := [], idx := -1\<rparr>"

definition add :: "env \<Rightarrow> comp_buffer \<Rightarrow> char16 \<Rightarrow> comp_buffer" where
  "add E b ch =
     (let b = (if current_invalid b then erase_at_caret b else b); i = nat (idx b) in
      if caret_on_entry b \<and> fst (accept E (buffer b ! i) ch)
      then edited (b\<lparr>buffer := (buffer b)[i := snd (accept E (buffer b ! i) ch)]\<rparr>) i
      else let b' = insert_after_caret b; j = nat (idx b') in
           b'\<lparr>buffer := (buffer b')[j := snd (accept E (buffer b' ! j) ch)]\<rparr>)"

definition add_chosen_candidate :: "comp_buffer \<Rightarrow> char32 \<Rightarrow> comp_buffer" where
  "add_chosen_candidate b ch =
     (let b = (if current_invalid b then erase_at_caret b else b);
          b' = insert_after_caret b; j = nat (idx b') in
      b'\<lparr>buffer := (buffer b')[j := set_chosen_candidate (buffer b' ! j) ch]\<rparr>)"

text \<open>Each symbol of a reading as fixed text, with fresh ids from \<open>n\<close> on.\<close>

fun make_literals :: "nat \<Rightarrow> bool \<Rightarrow> u16string \<Rightarrow> pos list" where
  "make_literals n manual [] = []"
| "make_literals n manual (ch # chs) =
     (set_chosen_candidate (new_pos\<lparr>entry_id := n\<rparr>) (ucast ch))\<lparr>manually_selected := manual\<rparr>
     # make_literals (n + 1) manual chs"

definition select_candidate :: "env \<Rightarrow> comp_buffer \<Rightarrow> nat \<Rightarrow> nat \<Rightarrow> exn + bool \<times> comp_buffer" where
  "select_candidate E b i displayed_index =
     (case find_entry b i of
        None \<Rightarrow> Inr (False, b)
      | Some position \<Rightarrow>
          let item = buffer b ! position in
          if \<not> is_compositable item then Inr (False, b)
          else rbind (get_candidate_texts E item) (\<lambda>texts.
            if length texts \<le> displayed_index then Inr (False, b)
            else rbind (get_candidates item) (\<lambda>cs.
              case multi_reading_literal item of
                Some r \<Rightarrow>
                  if displayed_index = length cs then
                    (let literals = make_literals (next_id b) True r in
                     Inr (True, b\<lparr>
                       buffer := take position (buffer b) @ literals @ drop (position + 1) (buffer b),
                       next_id := next_id b + length r,
                       idx := (if int position - 1 \<le> idx b then idx b + int (length literals) - 1 else idx b),
                       revision := revision b + 1\<rparr>))
                  else rbind (set_choose_index item (int displayed_index)) (\<lambda>item'.
                    Inr (True, edited (b\<lparr>buffer := (buffer b)[position := item']\<rparr>) position))
              | None \<Rightarrow> rbind (set_choose_index item (int displayed_index)) (\<lambda>item'.
                    Inr (True, edited (b\<lparr>buffer := (buffer b)[position := item']\<rparr>) position)))))"

section \<open>Conversion results\<close>

definition apply_result :: "nat \<Rightarrow> pos \<Rightarrow> pos \<Rightarrow> pos" where
  "apply_result sequence item out =
     item\<lparr>candidates := candidates out,
          choose_index := (if chosen out then choose_index out else 0),
          chosen := chosen out,
          conversion_pending := False,
          model_converted := True,
          converted_by := sequence\<rparr>"

definition usable :: "pos \<Rightarrow> bool" where
  "usable out \<longleftrightarrow> predicted out \<and> (chosen out \<or> candidates out \<noteq> [])"

fun merge_step ::
  "nat \<Rightarrow> nat option \<Rightarrow> comp_buffer \<times> merge_outcome \<Rightarrow> pos \<times> pos \<Rightarrow> comp_buffer \<times> merge_outcome"
where
  "merge_step sequence locked (b, outcome) (req, out) =
     (if \<not> usable out then (b, outcome)
      else case find_entry b (entry_id req) of
        None \<Rightarrow> (b, outcome)
      | Some i \<Rightarrow>
          let item = buffer b ! i in
          if version item \<noteq> version req \<or> chosen item \<or> sequence < converted_by item then (b, outcome)
          else if locked = Some (entry_id item) then (b, outcome\<lparr>held := Some (req, out)\<rparr>)
          else (b\<lparr>buffer := (buffer b)[i := apply_result sequence item out]\<rparr>,
                outcome\<lparr>changed := True\<rparr>))"

definition merge_conversion ::
  "comp_buffer \<Rightarrow> nat \<Rightarrow> pos list \<Rightarrow> pos list \<Rightarrow> nat option \<Rightarrow> comp_buffer \<times> merge_outcome"
where
  "merge_conversion b sequence requested converted locked =
     (if length requested \<noteq> length converted then (b, \<lparr>changed = False, held = None\<rparr>)
      else foldl (merge_step sequence locked) (b, \<lparr>changed = False, held = None\<rparr>)
             (zip requested converted))"

section \<open>Ending a composition early\<close>

text \<open>The loop of \<open>freeze_readings\<close>: the remaining items with the index of the first, then the
  frozen items so far, the next fresh id and the new caret.\<close>

fun freeze_loop ::
  "int \<Rightarrow> nat \<Rightarrow> pos list \<Rightarrow> pos list \<times> nat \<times> int \<Rightarrow> pos list \<times> nat \<times> int"
where
  "freeze_loop at index [] st = st"
| "freeze_loop at index (item # items) (frozen, n, caret) =
     (let r = to_bopomofo_string item;
          frozen' = (if is_compositable item then frozen @ [item] else frozen @ make_literals n False r);
          n' = (if is_compositable item then n else n + length r);
          caret' = (if int index = at then int (length frozen') - 1 else caret) in
      freeze_loop at (index + 1) items (frozen', n', caret'))"

definition freeze_readings :: "comp_buffer \<Rightarrow> bool \<times> comp_buffer" where
  "freeze_readings b =
     (if \<not> has_uncomposed_reading b then (False, b)
      else case freeze_loop (idx b) 0 (buffer b) ([], next_id b, -1) of
        (frozen, n, caret) \<Rightarrow>
          (True, b\<lparr>buffer := frozen, next_id := n, idx := caret, revision := revision b + 1\<rparr>))"

definition accept_local_candidates :: "comp_buffer \<Rightarrow> bool \<times> comp_buffer" where
  "accept_local_candidates b =
     (\<exists>item \<in> set (buffer b). conversion_pending item,
      b\<lparr>buffer := map (\<lambda>item. if conversion_pending item then item\<lparr>conversion_pending := False\<rparr> else item)
                   (buffer b)\<rparr>)"

section \<open>Well-formed buffers\<close>

definition entry_ids :: "comp_buffer \<Rightarrow> nat list" where
  "entry_ids b = map entry_id (buffer b)"

definition buf_wf :: "env \<Rightarrow> comp_buffer \<Rightarrow> bool" where
  "buf_wf E b \<longleftrightarrow>
     -1 \<le> idx b \<and> idx b < int (length (buffer b)) \<and> distinct (entry_ids b) \<and>
     (\<forall>p \<in> set (buffer b). pos_wf E p \<and> entry_id p < next_id b)"

lemma buf_wfI:
  "-1 \<le> idx b \<Longrightarrow> idx b < int (length (buffer b)) \<Longrightarrow> distinct (map entry_id (buffer b)) \<Longrightarrow>
   (\<And>p. p \<in> set (buffer b) \<Longrightarrow> pos_wf E p \<and> entry_id p < next_id b) \<Longrightarrow> buf_wf E b"
  by (simp add: buf_wf_def entry_ids_def)

lemma buf_wfD:
  assumes "buf_wf E b"
  shows "-1 \<le> idx b" "idx b < int (length (buffer b))" "distinct (map entry_id (buffer b))"
    "p \<in> set (buffer b) \<Longrightarrow> pos_wf E p" "p \<in> set (buffer b) \<Longrightarrow> entry_id p < next_id b"
  using assms by (auto simp: buf_wf_def entry_ids_def)

lemma new_buffer_wf [wf_intros]: "buf_wf E new_buffer"
  by (simp add: buf_wf_def new_buffer_def entry_ids_def)

lemma set_immediate_conversion_wf [wf_intros]:
  "buf_wf E b \<Longrightarrow> buf_wf E (set_immediate_conversion v b)"
  by (simp add: buf_wf_def set_immediate_conversion_def entry_ids_def)

lemma buf_wf_revision [simp]: "buf_wf E (b\<lparr>revision := r\<rparr>) = buf_wf E b"
  by (simp add: buf_wf_def entry_ids_def)

lemma replace_entry_wf:
  assumes "buf_wf E b" "i < length (buffer b)" "pos_wf E q" "entry_id q = entry_id (buffer b ! i)"
  shows "buf_wf E (b\<lparr>buffer := (buffer b)[i := q]\<rparr>)"
proof (rule buf_wfI)
  have "map entry_id ((buffer b)[i := q]) = map entry_id (buffer b)"
    using assms(2,4) by (metis list_update_id map_update nth_map)
  with buf_wfD(3) [OF assms(1)]
  show "distinct (map entry_id (buffer (b\<lparr>buffer := (buffer b)[i := q]\<rparr>)))" by simp
next
  fix p assume "p \<in> set (buffer (b\<lparr>buffer := (buffer b)[i := q]\<rparr>))"
  then have "p = q \<or> p \<in> set (buffer b)" using set_update_subset_insert by fastforce
  then show "pos_wf E p \<and> entry_id p < next_id (b\<lparr>buffer := (buffer b)[i := q]\<rparr>)"
    using assms buf_wfD(4,5) [OF assms(1)] nth_mem [OF assms(2)] by auto
qed (use buf_wfD(1,2) [OF assms(1)] in simp_all)

lemma edited_wf [wf_intros]:
  "buf_wf E b \<Longrightarrow> i < length (buffer b) \<Longrightarrow> buf_wf E (edited b i)"
  unfolding edited_def
  using replace_entry_wf [of E b i "(buffer b ! i)\<lparr>version := version (buffer b ! i) + 1\<rparr>"]
    buf_wfD(4) [of E b "buffer b ! i"] buf_wf_revision
  by simp

lemma insert_after_caret_wf [wf_intros]:
  assumes "buf_wf E b"
  shows "buf_wf E (insert_after_caret b)"
proof (rule buf_wfI)
  show "distinct (map entry_id (buffer (insert_after_caret b)))"
    using buf_wfD(3,5) [OF assms]
    by (fastforce simp: insert_after_caret_def Let_def map_list_insert)
next
  fix p assume "p \<in> set (buffer (insert_after_caret b))"
  then show "pos_wf E p \<and> entry_id p < next_id (insert_after_caret b)"
    using buf_wfD(4,5) [OF assms, of p] new_pos_wf
    by (auto simp: insert_after_caret_def Let_def)
qed (use buf_wfD(1,2) [OF assms] in \<open>simp_all add: insert_after_caret_def Let_def\<close>)

lemma erase_at_caret_wf [wf_intros]:
  assumes "buf_wf E b" "caret_on_entry b"
  shows "buf_wf E (erase_at_caret b)"
proof (rule buf_wfI)
  show "distinct (map entry_id (buffer (erase_at_caret b)))"
    using buf_wfD(3) [OF assms(1)] by (simp add: erase_at_caret_def map_list_erase distinct_list_erase)
next
  fix p assume "p \<in> set (buffer (erase_at_caret b))"
  then have "p \<in> set (buffer b)" using set_list_erase_subset by (force simp: erase_at_caret_def)
  then show "pos_wf E p \<and> entry_id p < next_id (erase_at_caret b)"
    using buf_wfD(4,5) [OF assms(1)] by (simp add: erase_at_caret_def)
qed (use assms in \<open>auto simp: erase_at_caret_def caret_on_entry_def\<close>)

lemma caret_on_entryD: "caret_on_entry b \<Longrightarrow> nat (idx b) < length (buffer b)"
  by (simp add: caret_on_entry_def nat_less_iff)

lemma clamp_caret_wf [wf_intros]: "buf_wf E b \<Longrightarrow> buf_wf E (clamp_caret b)"
  by (auto simp: buf_wf_def clamp_caret_def entry_ids_def)

lemma clamp_caret_id: "buf_wf E b \<Longrightarrow> clamp_caret b = b"
  by (auto simp: buf_wf_def clamp_caret_def)

lemma pre_wf [wf_intros]: "buf_wf E b \<Longrightarrow> buf_wf E (snd (pre b))"
  by (auto simp: buf_wf_def pre_def entry_ids_def)

lemma next_entry_wf [wf_intros]: "buf_wf E b \<Longrightarrow> buf_wf E (snd (next_entry b))"
  by (auto simp: buf_wf_def next_entry_def entry_ids_def)

lemma clear_buffer_wf [wf_intros]: "buf_wf E (clear_buffer b)"
  by (simp add: buf_wf_def clear_buffer_def entry_ids_def)

lemma discard_current_reading_wf [wf_intros]:
  "buf_wf E b \<Longrightarrow> buf_wf E (snd (discard_current_reading b))"
  by (auto simp: discard_current_reading_def intro: erase_at_caret_wf)

lemma remove_last_wf [wf_intros]:
  assumes "buf_wf E b"
  shows "buf_wf E (snd (remove_last b))"
proof (cases "caret_on_entry b")
  case True
  let ?i = "nat (idx b)" and ?item = "buffer b ! nat (idx b)"
  have i: "?i < length (buffer b)" by (rule caret_on_entryD [OF True])
  show ?thesis
  proof (cases "is_compositable ?item")
    case True
    with \<open>caret_on_entry b\<close> assms show ?thesis
      by (simp add: remove_last_def Let_def clamp_caret_wf erase_at_caret_wf)
  next
    case False
    let ?b' = "b\<lparr>buffer := (buffer b)[?i := snd (pop_last_bopomofo ?item)]\<rparr>"
    have "buf_wf E ?b'"
      using assms i False buf_wfD(4) [OF assms nth_mem [OF i]]
      by (intro replace_entry_wf) (auto simp: frame_simps is_compositable_def intro: wf_intros)
    moreover have "caret_on_entry ?b'" using True by (simp add: caret_on_entry_def)
    ultimately show ?thesis
      using i True False
      by (auto simp: remove_last_def Let_def intro!: wf_intros split: prod.splits)
  qed
qed (simp add: remove_last_def assms)

lemma at_caret_after_insert:
  assumes "buf_wf E b"
  shows "nat (idx (insert_after_caret b)) < length (buffer (insert_after_caret b))"
    and "buffer (insert_after_caret b) ! nat (idx (insert_after_caret b)) = new_pos\<lparr>entry_id := next_id b\<rparr>"
  using buf_wfD(1,2) [OF assms] by (auto simp: insert_after_caret_def Let_def)

definition drop_invalid :: "comp_buffer \<Rightarrow> comp_buffer" where
  "drop_invalid b = (if current_invalid b then erase_at_caret b else b)"

lemma drop_invalid_wf [wf_intros]: "buf_wf E b \<Longrightarrow> buf_wf E (drop_invalid b)"
  by (auto simp: drop_invalid_def current_invalid_def intro: erase_at_caret_wf)

lemma insert_with_wf:
  assumes "buf_wf E b" "pos_wf E q" "entry_id q = next_id b"
  shows "buf_wf E ((insert_after_caret b)\<lparr>buffer :=
      (buffer (insert_after_caret b))[nat (idx (insert_after_caret b)) := q]\<rparr>)"
  using assms at_caret_after_insert [OF assms(1)] insert_after_caret_wf [OF assms(1)]
  by (intro replace_entry_wf) auto

lemma add_wf [wf_intros]:
  assumes "env_ok E" "buf_wf E b"
  shows "buf_wf E (add E b ch)"
proof -
  let ?b = "drop_invalid b"
  have wf: "buf_wf E ?b" by (rule drop_invalid_wf [OF assms(2)])
  let ?i = "nat (idx ?b)"
  have "buf_wf E (edited (?b\<lparr>buffer := (buffer ?b)[?i := snd (accept E (buffer ?b ! ?i) ch)]\<rparr>) ?i)"
    if on: "caret_on_entry ?b"
    using caret_on_entryD [OF on] buf_wfD(4) [OF wf nth_mem [OF caret_on_entryD [OF on]]] wf assms(1)
    by (auto simp: frame_simps intro!: wf_intros replace_entry_wf)
  moreover have "buf_wf E ((insert_after_caret ?b)\<lparr>buffer :=
      (buffer (insert_after_caret ?b))[nat (idx (insert_after_caret ?b)) :=
        snd (accept E (buffer (insert_after_caret ?b) ! nat (idx (insert_after_caret ?b))) ch)]\<rparr>)"
    using at_caret_after_insert(2) [OF wf]
    by (intro insert_with_wf [OF wf]) (auto simp: frame_simps intro!: accept_wf assms(1) new_pos_wf)
  ultimately show ?thesis
    by (auto simp: add_def drop_invalid_def [symmetric] Let_def)
qed

lemma add_chosen_candidate_wf [wf_intros]:
  assumes "displayable E ch" "buf_wf E b"
  shows "buf_wf E (add_chosen_candidate b ch)"
  using at_caret_after_insert(2) [OF drop_invalid_wf [OF assms(2)]] assms
  unfolding add_chosen_candidate_def drop_invalid_def [symmetric] Let_def
  by (intro insert_with_wf drop_invalid_wf) (auto simp: frame_simps intro!: wf_intros)

lemma make_literals_ids: "map entry_id (make_literals n m chs) = [n ..< n + length chs]"
proof (induction chs arbitrary: n)
  case (Cons ch chs)
  then show ?case by (simp add: frame_simps upt_conv_Cons del: upt_Suc)
qed simp

lemma length_make_literals [simp]: "length (make_literals n m chs) = length chs"
  by (induction chs arbitrary: n) simp_all

lemma make_literals_wf:
  "(\<And>c. c \<in> set chs \<Longrightarrow> displayable E (ucast c)) \<Longrightarrow> p \<in> set (make_literals n m chs) \<Longrightarrow>
     pos_wf E p \<and> compositable p \<and> chosen p \<and> \<not> conversion_pending p"
proof (induction chs arbitrary: n)
  case (Cons ch chs)
  then show ?case
    by (auto intro!: set_chosen_candidate_wf)
qed simp

lemma make_literals_id_bounds:
  "p \<in> set (make_literals n m chs) \<Longrightarrow> n \<le> entry_id p \<and> entry_id p < n + length chs"
  using make_literals_ids [of n m chs] by (metis atLeastLessThan_iff image_eqI image_set set_upt)

lemma reading_displayable:
  "env_ok E \<Longrightarrow> pos_wf E p \<Longrightarrow> c \<in> set (to_bopomofo_string p) \<Longrightarrow> displayable E (ucast c)"
  by (drule pos_wf_slots, drule slots_symbols, assumption) (simp add: env_ok_def)

lemma select_candidate_cases:
  assumes "select_candidate E b i k = Inr (ok, b')"
  obtains (refused) "\<not> ok" "b' = b"
  | (literals) position r cs where "ok" "find_entry b i = Some position"
      "compositable (buffer b ! position)" "multi_reading_literal (buffer b ! position) = Some r"
      "get_candidates (buffer b ! position) = Inr cs" "k = length cs"
      "b' = b\<lparr>buffer := take position (buffer b) @ make_literals (next_id b) True r @
                 drop (position + 1) (buffer b),
              next_id := next_id b + length r,
              idx := (if int position - 1 \<le> idx b then idx b + int (length r) - 1 else idx b),
              revision := revision b + 1\<rparr>"
  | (index) position item' where "ok" "find_entry b i = Some position"
      "compositable (buffer b ! position)"
      "set_choose_index (buffer b ! position) (int k) = Inr item'"
      "b' = edited (b\<lparr>buffer := (buffer b)[position := item']\<rparr>) position"
proof (cases "find_entry b i")
  case None
  with assms show thesis by (intro refused) (auto simp: select_candidate_def)
next
  case (Some position)
  let ?item = "buffer b ! position"
  show thesis
  proof (cases "compositable ?item")
    case False
    with Some assms show thesis
      by (intro refused) (auto simp: select_candidate_def is_compositable_def)
  next
    case True
    from assms Some True obtain texts where texts: "get_candidate_texts E ?item = Inr texts"
      by (auto simp: select_candidate_def is_compositable_def Let_def rbind_Inr_iff)
    then obtain cs where cs: "get_candidates ?item = Inr cs"
      by (auto simp: get_candidate_texts_def rbind_Inr_iff)
    show thesis
    proof (cases "length texts \<le> k")
      case True
      with Some \<open>compositable ?item\<close> texts assms show thesis
        by (intro refused) (simp_all add: select_candidate_def is_compositable_def Let_def)
    next
      case False
      note sel = assms [unfolded select_candidate_def is_compositable_def Let_def Some option.case texts
          rbind_simps cs if_not_P [OF False] if_not_P [OF iffD2 [OF not_not \<open>compositable ?item\<close>]]]
      show thesis
      proof (cases "\<exists>r. multi_reading_literal ?item = Some r \<and> k = length cs")
        case True
        then obtain r where r: "multi_reading_literal ?item = Some r" "k = length cs" by blast
        show thesis
          by (rule literals [OF _ Some \<open>compositable ?item\<close> r(1) cs r(2)])
            (use sel r in auto)
      next
        case False
        then have "rbind (set_choose_index ?item (int k)) (\<lambda>item'.
            Inr (True, edited (b\<lparr>buffer := (buffer b)[position := item']\<rparr>) position)) = Inr (ok, b')"
          using sel by (auto split: option.splits if_splits)
        then obtain item' where "set_choose_index ?item (int k) = Inr item'" "ok"
            "b' = edited (b\<lparr>buffer := (buffer b)[position := item']\<rparr>) position"
          by (auto simp: rbind_Inr_iff)
        with Some \<open>compositable ?item\<close> show thesis by (intro index) simp_all
      qed
    qed
  qed
qed

lemma multi_reading_literal_subset:
  "multi_reading_literal p = Some r \<Longrightarrow> set r \<subseteq> set (to_bopomofo_string p) \<and> 2 \<le> length r"
  by (auto simp: multi_reading_literal_def to_bopomofo_string_def Let_def split: if_splits)

lemma splice_wf:
  assumes wf: "buf_wf E b" and pos: "position < length (buffer b)"
    and lits: "\<And>p. p \<in> set ls \<Longrightarrow> pos_wf E p" "map entry_id ls = [next_id b ..< next_id b + length ls]"
    and caret: "-1 \<le> j" "j < int (length (buffer b)) - 1 + int (length ls)"
  shows "buf_wf E (b\<lparr>buffer := take position (buffer b) @ ls @ drop (position + 1) (buffer b),
            next_id := next_id b + length ls, idx := j\<rparr>)"
proof (rule buf_wfI)
  have lid: "p \<in> set ls \<Longrightarrow> next_id b \<le> entry_id p \<and> entry_id p < next_id b + length ls" for p
    using lits(2) by (metis atLeastLessThan_iff image_eqI image_set set_upt)
  have old: "p \<in> set (take position (buffer b)) \<union> set (drop (position + 1) (buffer b)) \<Longrightarrow>
      entry_id p < next_id b \<and> pos_wf E p" for p
    using buf_wfD(4,5) [OF wf, of p] by (auto dest: in_set_takeD in_set_dropD)
  have "distinct (map entry_id (take position (buffer b) @ drop (position + 1) (buffer b)))"
    using distinct_list_erase [OF buf_wfD(3) [OF wf], of position]
    by (simp add: list_erase_def take_map drop_map)
  moreover have "distinct (map entry_id ls)" by (simp add: lits(2))
  moreover have "set (map entry_id ls) \<inter>
      set (map entry_id (take position (buffer b) @ drop (position + 1) (buffer b))) = {}"
    using lid old by fastforce
  ultimately show "distinct (map entry_id (buffer (b\<lparr>buffer := take position (buffer b) @ ls @
      drop (position + 1) (buffer b), next_id := next_id b + length ls, idx := j\<rparr>)))"
    by auto
  fix p assume "p \<in> set (buffer (b\<lparr>buffer := take position (buffer b) @ ls @
      drop (position + 1) (buffer b), next_id := next_id b + length ls, idx := j\<rparr>))"
  then show "pos_wf E p \<and> entry_id p < next_id (b\<lparr>buffer := take position (buffer b) @ ls @
      drop (position + 1) (buffer b), next_id := next_id b + length ls, idx := j\<rparr>)"
    using lid [of p] old [of p] lits(1) [of p] by auto
qed (use caret pos in auto)

lemma find_entry_less: "find_entry b i = Some k \<Longrightarrow> k < length (buffer b) \<and> entry_id (buffer b ! k) = i"
  unfolding find_entry_def by (drule find_index_SomeD) simp

lemma select_candidate_wf [wf_intros]:
  assumes E: "env_ok E" and wf: "buf_wf E b" and sel: "select_candidate E b i k = Inr (ok, b')"
  shows "buf_wf E b'"
  using sel
proof (cases rule: select_candidate_cases)
  case refused
  then show ?thesis using wf by simp
next
  case (literals position r cs)
  let ?ls = "make_literals (next_id b) True r"
  have pos: "position < length (buffer b)" using literals(2) find_entry_less by blast
  have mem: "buffer b ! position \<in> set (buffer b)" using pos by simp
  have disp: "displayable E (ucast c)" if "c \<in> set r" for c
    using reading_displayable [OF E buf_wfD(4) [OF wf mem]] multi_reading_literal_subset [OF literals(4)] that
    by blast
  have len: "2 \<le> length r" using multi_reading_literal_subset [OF literals(4)] by blast
  let ?j = "if int position - 1 \<le> idx b then idx b + int (length r) - 1 else idx b"
  have "buf_wf E (b\<lparr>buffer := take position (buffer b) @ ?ls @ drop (position + 1) (buffer b),
            next_id := next_id b + length ?ls, idx := ?j\<rparr>)"
    using len pos buf_wfD(1,2) [OF wf] make_literals_wf [OF disp]
    by (intro splice_wf [OF wf pos]) (auto simp: make_literals_ids)
  then show ?thesis unfolding literals(7)
    by (simp add: buf_wf_def entry_ids_def)
next
  case (index position item')
  have pos: "position < length (buffer b)" using index(2) find_entry_less by blast
  from set_choose_index_wf [OF E buf_wfD(4) [OF wf nth_mem [OF pos]] index(4)]
  show ?thesis unfolding index(5)
    using pos by (intro edited_wf replace_entry_wf wf) auto
qed

lemma select_candidate_total:
  assumes E: "env_ok E" and wf: "buf_wf E b"
  shows "\<exists>r. select_candidate E b i k = Inr r"
proof (cases "find_entry b i")
  case (Some position)
  then have pos: "position < length (buffer b)" using find_entry_less by blast
  let ?item = "buffer b ! position"
  show ?thesis
  proof (cases "compositable ?item")
    case True
    obtain cs where cs: "get_candidates ?item = Inr cs" using get_candidates_total [OF True] by blast
    obtain ts where ts: "get_candidate_texts E ?item = Inr ts"
      using get_candidate_texts_total [OF E buf_wfD(4) [OF wf nth_mem [OF pos]] True] by blast
    have len: "length ts = length cs + (case multi_reading_literal ?item of None \<Rightarrow> 0 | Some _ \<Rightarrow> 1)"
      using ts cs by (auto simp: get_candidate_texts_def rbind_Inr_iff length_mapR split: option.splits)
    show ?thesis
    proof (cases "k < length cs")
      case True
      then obtain q where "set_choose_index ?item (int k) = Inr q"
        using set_choose_index_Inr [OF cs] by blast
      then show ?thesis using Some cs ts True
        by (auto simp: select_candidate_def Let_def split: option.splits)
    next
      case False
      then show ?thesis using Some cs ts len
        by (auto simp: select_candidate_def Let_def split: option.splits)
    qed
  qed (auto simp add: select_candidate_def Some is_compositable_def)
qed (auto simp add: select_candidate_def)

text \<open>Results a backend may deliver: an entry answered with one choice points into its candidates,
  and every character it proposes can be displayed.\<close>

definition result_ok :: "env \<Rightarrow> pos \<Rightarrow> bool" where
  "result_ok E out \<longleftrightarrow>
     (chosen out \<longrightarrow> 0 \<le> choose_index out \<and> choose_index out < int (length (candidates out))) \<and>
     (\<forall>c \<in> set (candidates out). displayable E c)"

lemma apply_result_wf [wf_intros]:
  assumes "pos_wf E item" "compositable item" "result_ok E out" "usable out"
  shows "pos_wf E (apply_result s item out)"
  using assms pos_wf_composed [OF assms(1,2)]
  by (auto simp: pos_wf_def apply_result_def result_ok_def usable_def slots_wf_def)

lemma apply_result_frame [frame_simps]:
  "entry_id (apply_result s item out) = entry_id item"
  "version (apply_result s item out) = version item"
  "compositable (apply_result s item out) = compositable item"
  "to_bopomofo_string (apply_result s item out) = to_bopomofo_string item"
  "to_toneless_bopomofo_string (apply_result s item out) = to_toneless_bopomofo_string item"
  by (simp_all add: apply_result_def to_bopomofo_string_def to_toneless_bopomofo_string_def)

text \<open>A requested entry still in the buffer has been completed: what was sent for conversion was.\<close>

definition composed_in :: "comp_buffer \<Rightarrow> pos list \<Rightarrow> bool" where
  "composed_in b requested \<longleftrightarrow>
     (\<forall>r \<in> set requested. entry_id r < next_id b \<and>
        (\<forall>p \<in> set (buffer b). entry_id p = entry_id r \<longrightarrow> compositable p))"

lemma merge_step_cases:
  assumes "merge_step s locked (b, oc) (req, out) = (b', oc')"
  obtains (skip) "b' = b" "changed oc' = changed oc"
  | (applied) i where "usable out" "find_entry b (entry_id req) = Some i" "version (buffer b ! i) = version req"
      "\<not> chosen (buffer b ! i)" "converted_by (buffer b ! i) \<le> s" "locked \<noteq> Some (entry_id req)"
      "b' = b\<lparr>buffer := (buffer b)[i := apply_result s (buffer b ! i) out]\<rparr>"
proof (cases "usable out")
  case False
  with assms show thesis by (intro skip) simp_all
next
  case True
  show thesis
  proof (cases "find_entry b (entry_id req)")
    case None
    with True assms show thesis by (intro skip) simp_all
  next
    case (Some i)
    then have i: "entry_id (buffer b ! i) = entry_id req" using find_entry_less by blast
    show thesis
    proof (cases "version (buffer b ! i) \<noteq> version req \<or> chosen (buffer b ! i) \<or>
        s < converted_by (buffer b ! i) \<or> locked = Some (entry_id req)")
      case True
      with Some \<open>usable out\<close> assms i show thesis
        by (intro skip) (auto simp: Let_def split: if_splits)
    next
      case False
      with Some True assms i show thesis
        by (intro applied [of i]) (auto simp: Let_def)
    qed
  qed
qed

lemma merge_step_frame:
  assumes "merge_step s locked (b, oc) (req, out) = (b', oc')"
  shows "idx b' = idx b" "revision b' = revision b" "next_id b' = next_id b"
    "immediate_conversion_enabled b' = immediate_conversion_enabled b"
    "length (buffer b') = length (buffer b)"
    "map entry_id (buffer b') = map entry_id (buffer b)"
    "map compositable (buffer b') = map compositable (buffer b)"
proof -
  have "map f (buffer b') = map f (buffer b)"
    if "\<And>it. f (apply_result s it out) = f it" for f :: "pos \<Rightarrow> 'b"
    using assms
    by (cases rule: merge_step_cases)
      (auto simp: map_update that list_update_same_conv dest!: find_entry_less)
  from this [of entry_id] this [of compositable]
  show "map entry_id (buffer b') = map entry_id (buffer b)"
    "map compositable (buffer b') = map compositable (buffer b)"
    by (simp_all add: frame_simps)
  show "idx b' = idx b" "revision b' = revision b" "next_id b' = next_id b"
    "immediate_conversion_enabled b' = immediate_conversion_enabled b"
    "length (buffer b') = length (buffer b)"
    using assms by (cases rule: merge_step_cases; simp)+
qed

section \<open>Merging, entry by entry\<close>

text \<open>The specification of a merge: what one answered request does to one entry.\<close>

definition merge_entry :: "nat \<Rightarrow> nat option \<Rightarrow> pos \<Rightarrow> pos \<times> pos \<Rightarrow> pos" where
  "merge_entry sequence locked item = (\<lambda>(req, out).
     if usable out \<and> entry_id item = entry_id req \<and> version item = version req \<and> \<not> chosen item \<and>
        converted_by item \<le> sequence \<and> locked \<noteq> Some (entry_id item)
     then apply_result sequence item out else item)"

lemma merge_entry_frame [frame_simps]:
  "entry_id (merge_entry s l item ro) = entry_id item"
  "version (merge_entry s l item ro) = version item"
  "compositable (merge_entry s l item ro) = compositable item"
  "to_bopomofo_string (merge_entry s l item ro) = to_bopomofo_string item"
  "to_toneless_bopomofo_string (merge_entry s l item ro) = to_toneless_bopomofo_string item"
  by (simp_all add: merge_entry_def frame_simps split: prod.splits)

lemma merge_fold_frame [frame_simps]:
  "entry_id (foldl (merge_entry s l) item ros) = entry_id item"
  "version (foldl (merge_entry s l) item ros) = version item"
  "compositable (foldl (merge_entry s l) item ros) = compositable item"
  "to_bopomofo_string (foldl (merge_entry s l) item ros) = to_bopomofo_string item"
  "to_toneless_bopomofo_string (foldl (merge_entry s l) item ros) = to_toneless_bopomofo_string item"
  by (induction ros arbitrary: item) (simp_all add: frame_simps)

lemma merge_fold_kept:
  assumes "chosen item \<or> s < converted_by item \<or> l = Some (entry_id item) \<or>
    (\<forall>(r, out) \<in> set ros. entry_id r \<noteq> entry_id item \<or> version r \<noteq> version item \<or> \<not> usable out)"
  shows "foldl (merge_entry s l) item ros = item"
  using assms
proof (induction ros)
  case (Cons ro ros)
  then have "merge_entry s l item ro = item" by (auto simp: merge_entry_def split: prod.splits)
  with Cons show ?case by auto
qed simp

lemma merge_step_pointwise:
  assumes "distinct (entry_ids b)"
  shows "buffer (fst (merge_step s l (b, oc) ro)) = map (\<lambda>item. merge_entry s l item ro) (buffer b)"
proof -
  obtain r out where ro: "ro = (r, out)" by fastforce
  show ?thesis
  proof (cases "find_entry b (entry_id r)")
    case None
    then have "\<forall>p \<in> set (buffer b). entry_id p \<noteq> entry_id r"
      by (simp add: find_entry_def find_index_None)
    then have "map (\<lambda>item. merge_entry s l item ro) (buffer b) = buffer b"
      by (intro map_idI) (auto simp: merge_entry_def ro)
    with None show ?thesis by (simp add: ro)
  next
    case (Some i)
    then have i: "i < length (buffer b)" "entry_id (buffer b ! i) = entry_id r"
      using find_entry_less by blast+
    have other: "j < length (buffer b) \<Longrightarrow> j \<noteq> i \<Longrightarrow> entry_id (buffer b ! j) \<noteq> entry_id r" for j
      using assms i by (simp add: entry_ids_def distinct_conv_nth) (metis i(2) nth_map)
    have "buffer (fst (merge_step s l (b, oc) ro)) ! j = merge_entry s l (buffer b ! j) ro"
      if "j < length (buffer b)" for j
    proof (cases "j = i")
      case True
      then show ?thesis using Some i
        by (auto simp: ro merge_entry_def Let_def)
    next
      case False
      then show ?thesis using Some i other [OF that False]
        by (auto simp: ro merge_entry_def Let_def)
    qed
    moreover have "length (buffer (fst (merge_step s l (b, oc) ro))) = length (buffer b)"
      using merge_step_frame(5) [of s l b oc r out] by (simp add: ro prod_eq_iff)
    ultimately show ?thesis by (intro nth_equalityI) simp_all
  qed
qed

lemma merge_foldl_pointwise:
  "distinct (entry_ids b) \<Longrightarrow>
     buffer (fst (foldl (merge_step s l) (b, oc) ros)) =
     map (\<lambda>item. foldl (merge_entry s l) item ros) (buffer b)"
proof (induction ros arbitrary: b oc)
  case (Cons ro ros)
  obtain b' oc' where st: "merge_step s l (b, oc) ro = (b', oc')" by fastforce
  have ids: "entry_ids b' = entry_ids b"
    using merge_step_frame(6) [of s l b oc "fst ro" "snd ro" b' oc'] st by (simp add: entry_ids_def)
  have "buffer b' = map (\<lambda>item. merge_entry s l item ro) (buffer b)"
    using merge_step_pointwise [OF Cons.prems, of s l oc ro] st by simp
  then show ?case using Cons.IH [of b' oc'] Cons.prems ids by (simp add: st)
qed simp

lemma merge_foldl_frame:
  "foldl (merge_step s l) (b, oc) ros = (b', oc') \<Longrightarrow>
     idx b' = idx b \<and> revision b' = revision b \<and> next_id b' = next_id b \<and>
     immediate_conversion_enabled b' = immediate_conversion_enabled b"
proof (induction ros arbitrary: b oc)
  case (Cons ro ros)
  obtain b1 oc1 where st: "merge_step s l (b, oc) ro = (b1, oc1)" by fastforce
  show ?case
    using Cons.IH [of b1 oc1] Cons.prems merge_step_frame [of s l b oc "fst ro" "snd ro" b1 oc1] st
    by simp
qed simp

lemma merge_conversion_frame:
  assumes "merge_conversion b s requested converted l = (b', oc)"
  shows "idx b' = idx b" "revision b' = revision b" "next_id b' = next_id b"
    "immediate_conversion_enabled b' = immediate_conversion_enabled b"
  using assms merge_foldl_frame [of s l b _ "zip requested converted" b' oc]
  by (auto simp: merge_conversion_def split: if_splits)

lemma merge_conversion_buffer:
  assumes "distinct (entry_ids b)" "length requested = length converted"
  shows "buffer (fst (merge_conversion b s requested converted l)) =
    map (\<lambda>item. foldl (merge_entry s l) item (zip requested converted)) (buffer b)"
  using merge_foldl_pointwise [OF assms(1)] assms(2) by (simp add: merge_conversion_def)

lemma merge_conversion_ids:
  assumes "distinct (entry_ids b)"
  shows "entry_ids (fst (merge_conversion b s requested converted l)) = entry_ids b"
  using merge_conversion_buffer [OF assms, of requested converted s l]
  by (cases "length requested = length converted")
    (simp_all add: entry_ids_def frame_simps comp_def merge_conversion_def)

lemma merge_fold_wf:
  assumes "pos_wf E item"
    and "\<And>r out. (r, out) \<in> set ros \<Longrightarrow> usable out \<Longrightarrow> result_ok E out"
    and "\<And>r out. (r, out) \<in> set ros \<Longrightarrow> entry_id r = entry_id item \<Longrightarrow> compositable item"
  shows "pos_wf E (foldl (merge_entry s l) item ros)"
  using assms
proof (induction ros arbitrary: item)
  case (Cons ro ros)
  have "pos_wf E (merge_entry s l item ro)"
    using Cons.prems(1) Cons.prems(2,3) [of "fst ro" "snd ro"]
    by (cases ro) (simp add: merge_entry_def apply_result_wf)
  moreover have "compositable (merge_entry s l item ro)"
    if "(r, out) \<in> set ros" "entry_id r = entry_id (merge_entry s l item ro)" for r out
    using that Cons.prems(3) [of r out] by (simp add: frame_simps)
  ultimately show ?case using Cons.prems(2) by (auto intro!: Cons.IH)
qed simp

lemma merge_conversion_wf [wf_intros]:
  assumes wf: "buf_wf E b" and req: "composed_in b requested"
    and res: "\<And>out. out \<in> set converted \<Longrightarrow> usable out \<Longrightarrow> result_ok E out"
  shows "buf_wf E (fst (merge_conversion b s requested converted l))"
proof (cases "length requested = length converted")
  case False
  then show ?thesis using wf by (simp add: merge_conversion_def)
next
  case True
  let ?m = "fst (merge_conversion b s requested converted l)"
  have dist: "distinct (entry_ids b)" using wf by (simp add: buf_wf_def)
  note fr = merge_conversion_frame [of b s requested converted l ?m, OF surjective_pairing]
  note bufm = merge_conversion_buffer [OF dist True, of s l]
  have "pos_wf E p \<and> entry_id p < next_id b" if mem: "p \<in> set (buffer ?m)" for p
  proof -
    obtain item where item: "item \<in> set (buffer b)"
      and p: "p = foldl (merge_entry s l) item (zip requested converted)"
      using mem unfolding bufm by auto
    have "compositable item" if "(r, out) \<in> set (zip requested converted)" "entry_id r = entry_id item" for r out
      using req item that set_zip_leftD [OF that(1)] by (auto simp: composed_in_def)
    then have "pos_wf E p" unfolding p
      using buf_wfD(4) [OF wf item] res by (intro merge_fold_wf) (auto dest: set_zip_rightD)
    then show ?thesis using buf_wfD(5) [OF wf item] by (simp add: p frame_simps)
  qed
  moreover have "distinct (entry_ids ?m)" using merge_conversion_ids [OF dist] dist by metis
  moreover have "length (buffer ?m) = length (buffer b)" by (simp add: bufm)
  ultimately show ?thesis using buf_wfD(1,2) [OF wf] fr by (simp add: buf_wf_def)
qed

text \<open>A result withheld is a usable answer to the locked entry's request.\<close>

lemma merge_foldl_held:
  "foldl (merge_step s l) (b, oc) ros = (b', oc') \<Longrightarrow> held oc' = Some (r, out) \<Longrightarrow>
     held oc = Some (r, out) \<or> (r, out) \<in> set ros \<and> usable out \<and> l = Some (entry_id r)"
proof (induction ros arbitrary: b oc)
  case (Cons ro ros)
  obtain b1 oc1 where st: "merge_step s l (b, oc) ro = (b1, oc1)" by fastforce
  obtain r1 out1 where ro: "ro = (r1, out1)" by fastforce
  have "held oc1 = held oc \<or> held oc1 = Some (r1, out1) \<and> usable out1 \<and> l = Some (entry_id r1)"
    using st by (auto simp: ro Let_def split: if_splits option.splits dest: find_entry_less)
  with Cons.IH [of b1 oc1] Cons.prems st show ?case by (auto simp: ro)
qed simp

lemma merge_conversion_held:
  assumes "merge_conversion b s requested converted l = (b', oc)" "held oc = Some (r, out)"
  shows "(r, out) \<in> set (zip requested converted) \<and> usable out \<and> l = Some (entry_id r)"
  using assms merge_foldl_held [of s l b "\<lparr>changed = False, held = None\<rparr>" "zip requested converted" b' oc]
  by (auto simp: merge_conversion_def split: if_splits)

section \<open>Ending early\<close>

lemma accept_local_candidates_wf [wf_intros]:
  assumes wf: "buf_wf E b"
  shows "buf_wf E (snd (accept_local_candidates b))"
proof -
  define f where "f item = (if conversion_pending item then item\<lparr>conversion_pending := False\<rparr> else item)"
    for item :: pos
  have id: "entry_id (f p) = entry_id p" for p by (simp add: f_def)
  have keep: "pos_wf E (f p)" if "pos_wf E p" for p
    using that by (auto simp: f_def pos_wf_def slots_wf_def)
  have eq: "snd (accept_local_candidates b) = b\<lparr>buffer := map f (buffer b)\<rparr>"
    by (simp add: accept_local_candidates_def f_def [abs_def])
  show ?thesis unfolding eq
    using buf_wfD [OF wf] by (intro buf_wfI) (auto simp: comp_def id keep)
qed

lemma accept_local_candidates_pending: "\<not> has_pending_conversion (snd (accept_local_candidates b))"
  by (auto simp: accept_local_candidates_def has_pending_conversion_def)

definition freeze_item :: "nat \<Rightarrow> pos \<Rightarrow> pos list" where
  "freeze_item n item =
     (if is_compositable item then [item] else make_literals n False (to_bopomofo_string item))"

lemma freeze_loop_wf:
  assumes "env_ok E"
    and "\<And>p. p \<in> set items \<Longrightarrow> pos_wf E p \<and> entry_id p < n0"
    and "\<And>p. p \<in> set frozen \<Longrightarrow> pos_wf E p \<and> compositable p \<and> entry_id p < n"
    and "n0 \<le> n" "distinct (map entry_id items)" "distinct (map entry_id frozen)"
    and "\<And>p q. p \<in> set frozen \<Longrightarrow> q \<in> set items \<Longrightarrow> entry_id p \<noteq> entry_id q"
    and "-1 \<le> caret" "caret < int (length frozen) \<or> caret = -1"
    and "freeze_loop at k items (frozen, n, caret) = (frozen', n', caret')"
  shows "(\<forall>p \<in> set frozen'. pos_wf E p \<and> compositable p \<and> entry_id p < n') \<and>
    distinct (map entry_id frozen') \<and> n \<le> n' \<and> -1 \<le> caret' \<and> (caret' < int (length frozen') \<or> caret' = -1)"
  using assms
proof (induction items arbitrary: k frozen n caret)
  case Nil
  then show ?case by auto
next
  case (Cons item items)
  define lits where "lits = make_literals n False (to_bopomofo_string item)"
  define frozen1 where "frozen1 = (if is_compositable item then frozen @ [item] else frozen @ lits)"
  define n1 where "n1 = (if is_compositable item then n else n + length (to_bopomofo_string item))"
  define caret1 where "caret1 = (if int k = at then int (length frozen1) - 1 else caret)"
  have run: "freeze_loop at (k + 1) items (frozen1, n1, caret1) = (frozen', n', caret')"
    using Cons.prems(10) by (auto simp: frozen1_def n1_def caret1_def lits_def Let_def split: if_splits)
  have lits: "p \<in> set lits \<Longrightarrow> pos_wf E p \<and> compositable p \<and> n \<le> entry_id p \<and>
      entry_id p < n + length (to_bopomofo_string item)" for p
    using make_literals_wf [of "to_bopomofo_string item" E p n False] make_literals_id_bounds [of p n False]
      reading_displayable [OF assms(1)] Cons.prems(2) [of item] by (auto simp: lits_def)
  have items: "\<And>p. p \<in> set items \<Longrightarrow> pos_wf E p \<and> entry_id p < n0" using Cons.prems(2) by auto
  have f1: "pos_wf E p \<and> compositable p \<and> entry_id p < n1" if "p \<in> set frozen1" for p
    using that Cons.prems(3) [of p] Cons.prems(2) [of item] Cons.prems(4) lits [of p]
    by (auto simp: frozen1_def n1_def is_compositable_def split: if_splits)
  have d1: "distinct (map entry_id frozen1)"
    using Cons.prems(3,6,7) lits make_literals_ids [of n False "to_bopomofo_string item"]
    by (fastforce simp: frozen1_def lits_def)
  have x1: "entry_id p \<noteq> entry_id q" if "p \<in> set frozen1" "q \<in> set items" for p q
    using that Cons.prems(5,7) items [of q] Cons.prems(4) lits [of p]
    by (auto simp: frozen1_def split: if_splits)
  have c1: "-1 \<le> caret1" "caret1 < int (length frozen1) \<or> caret1 = -1"
    using Cons.prems(8,9) by (auto simp: caret1_def frozen1_def)
  have n1: "n \<le> n1" by (simp add: n1_def)
  have "(\<forall>p \<in> set frozen'. pos_wf E p \<and> compositable p \<and> entry_id p < n') \<and>
    distinct (map entry_id frozen') \<and> n1 \<le> n' \<and> -1 \<le> caret' \<and> (caret' < int (length frozen') \<or> caret' = -1)"
    by (rule Cons.IH [OF assms(1) items f1 _ _ d1 x1 c1 run])
      (use Cons.prems(4,5) n1 in auto)
  with n1 show ?case by simp
qed

lemma freeze_readings_wf:
  assumes "env_ok E" "buf_wf E b" "freeze_readings b = (ok, b')"
  shows "buf_wf E b' \<and> next_id b \<le> next_id b' \<and> \<not> has_uncomposed_reading b'"
proof (cases "has_uncomposed_reading b")
  case False
  then show ?thesis using assms by (auto simp: freeze_readings_def)
next
  case True
  obtain frozen n caret where loop: "freeze_loop (idx b) 0 (buffer b) ([], next_id b, -1) = (frozen, n, caret)"
    by (metis prod_cases3)
  have "(\<forall>p \<in> set frozen. pos_wf E p \<and> compositable p \<and> entry_id p < n) \<and>
    distinct (map entry_id frozen) \<and> next_id b \<le> n \<and> -1 \<le> caret \<and> (caret < int (length frozen) \<or> caret = -1)"
    by (rule freeze_loop_wf [OF assms(1) _ _ _ buf_wfD(3) [OF assms(2)] _ _ _ _ loop])
      (use buf_wfD(4,5) [OF assms(2)] in auto)
  then show ?thesis using True loop assms(3)
    by (auto simp: freeze_readings_def buf_wf_def entry_ids_def has_uncomposed_reading_def is_compositable_def)
qed

section \<open>A well-formed buffer always displays\<close>

lemma display_total: "pos_wf E p \<Longrightarrow> \<exists>s. display E b p = Inr s"
  by (auto simp: display_def intro: current_total)

lemma mapR_display_total:
  "(\<And>p. p \<in> set ps \<Longrightarrow> pos_wf E p) \<Longrightarrow> \<exists>ss. mapR (display E b) ps = Inr ss"
  by (intro mapR_ex display_total) auto

lemma to_string_total: "buf_wf E b \<Longrightarrow> \<exists>s. to_string E b = Inr s"
proof -
  assume "buf_wf E b"
  then obtain ss where "mapR (display E b) (buffer b) = Inr ss"
    using mapR_display_total buf_wfD(4) by blast
  then show ?thesis by (simp add: to_string_def)
qed

lemma mapR_current_total:
  "(\<And>p. p \<in> set ps \<Longrightarrow> pos_wf E p) \<Longrightarrow> \<exists>ss. mapR (current E) ps = Inr ss"
  by (intro mapR_ex current_total) auto

lemma final_text_total: "buf_wf E b \<Longrightarrow> \<exists>s. final_text E b = Inr s"
proof -
  assume "buf_wf E b"
  then obtain ss where "mapR (current E) (buffer b) = Inr ss"
    using mapR_current_total buf_wfD(4) by blast
  then show ?thesis by (simp add: final_text_def)
qed

lemma caret_offset_total: "buf_wf E b \<Longrightarrow> \<exists>n. caret_offset E b = Inr n"
proof -
  assume "buf_wf E b"
  then obtain ss where "mapR (display E b) (take (nat (idx b + 1)) (buffer b)) = Inr ss"
    using mapR_display_total buf_wfD(4) in_set_takeD by metis
  then show ?thesis by (simp add: caret_offset_def)
qed

lemma current_invalid_span_total: "buf_wf E b \<Longrightarrow> \<exists>x. current_invalid_span E b = Inr x"
proof -
  assume wf: "buf_wf E b"
  show ?thesis
  proof (cases "current_invalid b")
    case True
    then have "buffer b ! nat (idx b) \<in> set (buffer b)"
      using caret_on_entryD by (auto simp: current_invalid_def)
    then obtain s where s: "display E b (buffer b ! nat (idx b)) = Inr s"
      using display_total buf_wfD(4) [OF wf] by blast
    moreover obtain ss where "mapR (display E b) (take (nat (idx b)) (buffer b)) = Inr ss"
      using mapR_display_total buf_wfD(4) [OF wf] in_set_takeD by metis
    ultimately show ?thesis by (simp add: current_invalid_span_def)
  qed (simp add: current_invalid_span_def)
qed

lemma commit_entry_total: "pos_wf E p \<Longrightarrow> \<exists>x. commit_entry E p = Inr x"
  using current_total [of E p] by (auto simp: commit_entry_def)

lemma commit_sample_of_total: "buf_wf E b \<Longrightarrow> \<exists>x. commit_sample_of E b c = Inr x"
proof -
  assume wf: "buf_wf E b"
  have "\<exists>es. mapR (commit_entry E) (buffer b) = Inr es"
    by (rule mapR_ex) (use buf_wfD(4) [OF wf] commit_entry_total in blast)
  then show ?thesis by (auto simp: commit_sample_of_def)
qed

lemma training_sample_total: "buf_wf E b \<Longrightarrow> \<exists>x. training_sample E b c = Inr x"
  using commit_sample_of_total [of E b c] by (auto simp: training_sample_def)

text \<open>A composition that is ready shows exactly the text it becomes.\<close>

lemma display_settled: "\<not> conversion_pending p \<Longrightarrow> display E b p = current E p"
  by (simp add: display_def)

lemma mapR_eqI: "(\<And>x. x \<in> set xs \<Longrightarrow> f x = g x) \<Longrightarrow> mapR f xs = mapR g xs"
  by (rule mapR_cong) auto

lemma to_string_final_text: "\<not> has_pending_conversion b \<Longrightarrow> to_string E b = final_text E b"
  unfolding to_string_def final_text_def has_pending_conversion_def
  by (metis (no_types, lifting) display_settled mapR_eqI)

lemma commit_sample_answer:
  assumes "commit_sample_of E b c = Inr s"
  shows "final_text E b = Inr (answer s)" "context_text s = c" "length (commit_input s) = length (buffer b)"
proof -
  from assms obtain es where es: "mapR (commit_entry E) (buffer b) = Inr es"
    and s: "s = \<lparr>context_text = c, answer = concat (map entry_output es), commit_input = es\<rparr>"
    by (auto simp: commit_sample_of_def rbind_Inr_iff)
  have "mapR (current E) (buffer b) = Inr (map entry_output es)"
    using es
  proof (induction "buffer b" arbitrary: b es)
    case (Cons p ps)
    then show ?case
      using Cons.hyps(1) [of "b\<lparr>buffer := ps\<rparr>"]
      by (auto simp: rbind_Inr_iff commit_entry_def simp flip: Cons.hyps(2))
  qed simp
  then show "final_text E b = Inr (answer s)" by (simp add: final_text_def s)
  show "context_text s = c" by (simp add: s)
  show "length (commit_input s) = length (buffer b)" using length_mapR [OF es] by (simp add: s)
qed

end
