(* ===== verification/Buffer_Evolution.thy ===== *)
theory Buffer_Evolution
  imports Composition_Buffer
begin

text \<open>
  How a composition buffer changes under its operations, seen from a conversion that was sent
  earlier: ids are never reused and a completed syllable never becomes unfinished again, so a
  request stays mergeable (\<open>composed_in\<close>) whatever is typed, erased, chosen or frozen meanwhile.
\<close>

section \<open>Evolution\<close>

definition evolves :: "comp_buffer \<Rightarrow> comp_buffer \<Rightarrow> bool" where
  "evolves b b' \<longleftrightarrow> next_id b \<le> next_id b' \<and>
     (\<forall>p \<in> set (buffer b'). entry_id p < next_id b \<longrightarrow>
        (\<exists>q \<in> set (buffer b). entry_id q = entry_id p \<and> (compositable q \<longrightarrow> compositable p)))"

lemma evolves_refl [simp]: "evolves b b"
  by (auto simp: evolves_def)

lemma evolves_trans:
  assumes ab: "evolves a b" and bc: "evolves b c"
  shows "evolves a c"
  unfolding evolves_def
proof (intro conjI ballI impI)
  show "next_id a \<le> next_id c" using ab bc by (simp add: evolves_def)
  fix p assume p: "p \<in> set (buffer c)" "entry_id p < next_id a"
  then have "entry_id p < next_id b" using ab by (simp add: evolves_def)
  with p bc obtain q where q: "q \<in> set (buffer b)" "entry_id q = entry_id p" "compositable q \<longrightarrow> compositable p"
    unfolding evolves_def by metis
  with p(2) ab obtain r where "r \<in> set (buffer a)" "entry_id r = entry_id q" "compositable r \<longrightarrow> compositable q"
    unfolding evolves_def by metis
  with q show "\<exists>r \<in> set (buffer a). entry_id r = entry_id p \<and> (compositable r \<longrightarrow> compositable p)"
    by auto
qed

lemma evolves_composed_in:
  assumes "evolves b b'" "composed_in b requested"
  shows "composed_in b' requested"
  unfolding composed_in_def
proof (intro ballI conjI impI)
  fix r assume r: "r \<in> set requested"
  with assms(2) have old: "entry_id r < next_id b" by (simp add: composed_in_def)
  then show "entry_id r < next_id b'" using assms(1) by (simp add: evolves_def)
  fix p assume "p \<in> set (buffer b')" "entry_id p = entry_id r"
  with assms(1) old obtain q where "q \<in> set (buffer b)" "entry_id q = entry_id r" "compositable q \<longrightarrow> compositable p"
    unfolding evolves_def by metis
  with assms(2) r show "compositable p" by (auto simp: composed_in_def)
qed

text \<open>The snapshot that is sent is composed: only completed syllables are sent.\<close>

lemma snapshot_composed_in:
  assumes "buf_wf E b" "conversion_snapshot_of b = Some s"
  shows "composed_in b (snap_entries s)"
proof -
  have "entry_ids b = map entry_id (buffer b)" "\<forall>p \<in> set (buffer b). chosen p \<or> compositable p"
    "snap_entries s = buffer b"
    using assms(2) by (auto simp: conversion_snapshot_of_def is_predictable_by_engine_def entry_ids_def split: if_splits)
  moreover have "chosen p \<Longrightarrow> p \<in> set (buffer b) \<Longrightarrow> compositable p" for p
    using pos_wf_unfinished [OF buf_wfD(4) [OF assms(1)], of p] by blast
  ultimately show ?thesis
    using buf_wfD(5) [OF assms(1)] by (auto simp: composed_in_def)
qed

lemma evolves_pointwise:
  assumes "next_id b \<le> next_id b'"
    and "\<And>i. i < length (buffer b') \<Longrightarrow> i < length (buffer b) \<and>
      entry_id (buffer b' ! i) = entry_id (buffer b ! i) \<and>
      (compositable (buffer b ! i) \<longrightarrow> compositable (buffer b' ! i))"
  shows "evolves b b'"
  using assms unfolding evolves_def by (metis in_set_conv_nth)

lemma evolves_subset:
  "next_id b \<le> next_id b' \<Longrightarrow> set (buffer b') \<subseteq> set (buffer b) \<Longrightarrow> evolves b b'"
  by (auto simp: evolves_def)

lemma evolves_same: "next_id b' = next_id b \<Longrightarrow> buffer b' = buffer b \<Longrightarrow> evolves b b'"
  by (rule evolves_subset) simp_all

lemma evolves_replace:
  assumes "entry_id q = entry_id (buffer b ! i)" "compositable (buffer b ! i) \<longrightarrow> compositable q"
  shows "evolves b (b\<lparr>buffer := (buffer b)[i := q]\<rparr>)"
  using assms by (intro evolves_pointwise) (simp_all add: nth_update_at)

lemma edited_evolves: "evolves b (edited b i)"
  by (rule evolves_pointwise) (simp_all add: edited_def nth_update_at)

lemma erase_at_caret_evolves: "evolves b (erase_at_caret b)"
  by (rule evolves_subset) (simp_all add: erase_at_caret_def set_list_erase_subset)

lemma clamp_caret_evolves: "evolves b (clamp_caret b)"
  by (rule evolves_same) (simp_all add: clamp_caret_def)

lemma set_immediate_conversion_evolves: "evolves b (set_immediate_conversion v b)"
  by (rule evolves_same) (simp_all add: set_immediate_conversion_def)

lemma clear_buffer_evolves: "evolves b (clear_buffer b)"
  by (rule evolves_subset) (simp_all add: clear_buffer_def)

lemma pre_evolves: "evolves b (snd (pre b))"
  by (rule evolves_same) (simp_all add: pre_def)

lemma next_entry_evolves: "evolves b (snd (next_entry b))"
  by (rule evolves_same) (simp_all add: next_entry_def)

lemma discard_current_reading_evolves: "evolves b (snd (discard_current_reading b))"
  by (simp add: discard_current_reading_def erase_at_caret_evolves)

lemma remove_last_evolves: "evolves b (snd (remove_last b))"
proof (cases "caret_on_entry b \<and> \<not> is_compositable (buffer b ! nat (idx b))")
  case False
  then show ?thesis
    by (auto simp: remove_last_def Let_def intro: evolves_trans [OF erase_at_caret_evolves clamp_caret_evolves])
next
  case True
  let ?i = "nat (idx b)"
  let ?b' = "b\<lparr>buffer := (buffer b)[?i := snd (pop_last_bopomofo (buffer b ! ?i))]\<rparr>"
  have "evolves b ?b'"
    using True by (intro evolves_replace) (auto simp: frame_simps is_compositable_def)
  then have "evolves b (clamp_caret (erase_at_caret ?b'))" "evolves b (clamp_caret (edited ?b' ?i))"
    by (blast intro: evolves_trans erase_at_caret_evolves edited_evolves clamp_caret_evolves)+
  then show ?thesis using True
    by (auto simp: remove_last_def Let_def split: prod.splits)
qed

lemma insert_with_evolves:
  assumes "buf_wf E b" "entry_id q = next_id b"
  shows "evolves b ((insert_after_caret b)\<lparr>buffer :=
      (buffer (insert_after_caret b))[nat (idx (insert_after_caret b)) := q]\<rparr>)"
proof -
  have "p \<in> set (buffer b)"
    if "p \<in> set ((buffer (insert_after_caret b))[nat (idx (insert_after_caret b)) := q])" "entry_id p < next_id b" for p
  proof -
    from that(1) have "p \<in> insert q (set (buffer (insert_after_caret b)))"
      using set_update_subset_insert by fast
    then show ?thesis using that(2) assms(2)
      by (auto simp: insert_after_caret_def Let_def)
  qed
  then show ?thesis
    unfolding evolves_def by (auto simp: insert_after_caret_def Let_def)
qed

lemma drop_invalid_evolves: "evolves b (drop_invalid b)"
  by (simp add: drop_invalid_def erase_at_caret_evolves)

lemma accept_keeps_composed: "compositable p \<Longrightarrow> snd (accept E p ch) = p"
  by (simp add: accept_def is_compositable_def)

lemma add_evolves:
  assumes "buf_wf E b"
  shows "evolves b (add E b ch)"
proof -
  let ?b = "drop_invalid b"
  let ?i = "nat (idx ?b)" and ?j = "nat (idx (insert_after_caret ?b))"
  have wf: "buf_wf E ?b" by (rule drop_invalid_wf [OF assms])
  have "evolves ?b (edited (?b\<lparr>buffer := (buffer ?b)[?i := snd (accept E (buffer ?b ! ?i) ch)]\<rparr>) ?i)"
    by (rule evolves_trans [OF evolves_replace edited_evolves])
      (simp_all add: frame_simps accept_keeps_composed)
  moreover have "evolves ?b ((insert_after_caret ?b)\<lparr>buffer :=
      (buffer (insert_after_caret ?b))[?j := snd (accept E (buffer (insert_after_caret ?b) ! ?j) ch)]\<rparr>)"
    using at_caret_after_insert(2) [OF wf] by (intro insert_with_evolves [OF wf]) (simp add: frame_simps)
  ultimately have "evolves ?b (add E b ch)"
    by (auto simp: add_def drop_invalid_def [symmetric] Let_def)
  then show ?thesis by (rule evolves_trans [OF drop_invalid_evolves])
qed

lemma add_chosen_candidate_evolves:
  assumes "buf_wf E b"
  shows "evolves b (add_chosen_candidate b ch)"
proof (rule evolves_trans [OF drop_invalid_evolves])
  note wf = drop_invalid_wf [OF assms]
  show "evolves (drop_invalid b) (add_chosen_candidate b ch)"
    unfolding add_chosen_candidate_def drop_invalid_def [symmetric] Let_def
    by (rule insert_with_evolves [OF wf]) (simp add: frame_simps at_caret_after_insert(2) [OF wf])
qed

lemma select_candidate_evolves:
  assumes "env_ok E" "buf_wf E b" "select_candidate E b i k = Inr (ok, b')"
  shows "evolves b b'"
  using assms(3)
proof (cases rule: select_candidate_cases)
  case refused
  then show ?thesis by simp
next
  case (literals position r cs)
  show ?thesis unfolding literals(7) evolves_def
    by (auto dest!: make_literals_id_bounds in_set_takeD in_set_dropD)
next
  case (index position item')
  have pos: "position < length (buffer b)" using index(2) find_entry_less by blast
  from set_choose_index_wf [OF assms(1) buf_wfD(4) [OF assms(2) nth_mem [OF pos]] index(4)]
  show ?thesis unfolding index(5)
    by (intro evolves_trans [OF evolves_replace edited_evolves]) auto
qed

lemma merge_conversion_evolves:
  assumes "buf_wf E b"
  shows "evolves b (fst (merge_conversion b s requested converted l))"
proof (cases "length requested = length converted")
  case False
  then show ?thesis by (simp add: merge_conversion_def)
next
  case True
  have dist: "distinct (entry_ids b)" using assms by (simp add: buf_wf_def)
  have n: "next_id (fst (merge_conversion b s requested converted l)) = next_id b"
    by (rule merge_conversion_frame(3) [OF surjective_pairing])
  show ?thesis
    by (rule evolves_pointwise) (simp_all add: n merge_conversion_buffer [OF dist True] frame_simps)
qed

lemma accept_local_candidates_evolves: "evolves b (snd (accept_local_candidates b))"
  by (rule evolves_pointwise) (auto simp: accept_local_candidates_def)

lemma freeze_loop_old:
  assumes "freeze_loop at k items (frozen, n, caret) = (frozen', n', caret')" "n0 \<le> n"
  shows "n \<le> n' \<and> (\<forall>p \<in> set frozen'. entry_id p < n0 \<longrightarrow> p \<in> set frozen \<or> p \<in> set items)"
  using assms
proof (induction items arbitrary: k frozen n caret)
  case (Cons item items)
  show ?case
  proof (cases "is_compositable item")
    case True
    with Cons.IH [of "k + 1" "frozen @ [item]" n] Cons.prems show ?thesis
      by (auto simp: Let_def)
  next
    case False
    let ?r = "to_bopomofo_string item"
    from False Cons.IH [of "k + 1" "frozen @ make_literals n False ?r" "n + length ?r"] Cons.prems
    have "n + length ?r \<le> n'" "\<forall>p \<in> set frozen'. entry_id p < n0 \<longrightarrow>
        p \<in> set frozen \<or> p \<in> set (make_literals n False ?r) \<or> p \<in> set items"
      by (auto simp: Let_def)
    with Cons.prems(2) show ?thesis by (force dest: make_literals_id_bounds)
  qed
qed simp

lemma freeze_readings_evolves: "evolves b (snd (freeze_readings b))"
proof (cases "has_uncomposed_reading b")
  case True
  obtain frozen n caret where loop: "freeze_loop (idx b) 0 (buffer b) ([], next_id b, -1) = (frozen, n, caret)"
    by (metis prod_cases3)
  from freeze_loop_old [OF loop order_refl] show ?thesis
    using True loop by (auto simp: freeze_readings_def evolves_def)
qed (simp add: freeze_readings_def)

text \<open>The rules by which a request sent earlier stays mergeable.\<close>

lemmas evolution =
  edited_evolves erase_at_caret_evolves clamp_caret_evolves set_immediate_conversion_evolves clear_buffer_evolves
  pre_evolves next_entry_evolves discard_current_reading_evolves remove_last_evolves add_evolves
  add_chosen_candidate_evolves select_candidate_evolves merge_conversion_evolves
  accept_local_candidates_evolves freeze_readings_evolves

end
