(* ===== verification/Conversion.thy ===== *)
theory Conversion
  imports Buffer_Evolution
begin

text \<open>
  \<open>frontend/src/core/conversion.hpp\<close> and \<open>frontend/src/core/candidate_lock.hpp\<close>: the conversions
  sent and not answered yet, and the result held back for an entry whose candidate list is open.
  Timing traces are not modelled.  What reaches the backend is kept as a list of calls.
\<close>

text \<open>\<open>frontend/src/engine/engine_types.hpp\<close>: the input mode and whether the service answers.\<close>

datatype input_mode = Chinese | English

datatype backend_state = Connected | Unavailable

type_synonym document_id = nat

datatype conversion_status = Converted | Superseded | BackendLost

record conversion_result =
  result_sequence :: nat
  result_status :: conversion_status
  result_padding :: "pos list"

record request =
  req_epoch :: nat
  req_revision :: nat
  req_document :: document_id
  req_snapshot :: "pos list"

datatype backend_call =
    Prefill u16string
  | Predict nat nat u16string "pos list"

section \<open>ConversionTracker\<close>

record tracker =
  backend_attached :: bool
  sequence :: nat
  pending_requests :: "nat \<rightharpoonup> request"
  backend_calls :: "backend_call list"

definition new_tracker :: tracker where
  "new_tracker = \<lparr>backend_attached = False, sequence = 0, pending_requests = (\<lambda>_. None), backend_calls = []\<rparr>"

definition set_backend :: "bool \<Rightarrow> tracker \<Rightarrow> tracker" where
  "set_backend b t = t\<lparr>backend_attached := b\<rparr>"

definition tracker_prefill :: "u16string \<Rightarrow> tracker \<Rightarrow> tracker" where
  "tracker_prefill ctxt t =
     (if backend_attached t then t\<lparr>backend_calls := backend_calls t @ [Prefill ctxt]\<rparr> else t)"

definition send :: "request \<Rightarrow> u16string \<Rightarrow> tracker \<Rightarrow> nat option \<times> tracker" where
  "send request ctxt t =
     (if \<not> backend_attached t then (None, t)
      else let s = sequence t + 1 in
        (Some s, t\<lparr>sequence := s,
                   pending_requests := (pending_requests t)(s \<mapsto> request),
                   backend_calls := backend_calls t @ [Predict s (req_epoch request) ctxt (req_snapshot request)]\<rparr>))"

definition take_request :: "nat \<Rightarrow> tracker \<Rightarrow> request option \<times> tracker" where
  "take_request s t =
     (case pending_requests t s of
        None \<Rightarrow> (None, t)
      | Some r \<Rightarrow> (Some r, t\<lparr>pending_requests := (pending_requests t)(s := None)\<rparr>))"

definition is_pending :: "tracker \<Rightarrow> nat \<Rightarrow> bool" where
  "is_pending t s \<longleftrightarrow> pending_requests t s \<noteq> None"

definition outstanding :: "tracker \<Rightarrow> nat" where
  "outstanding t = card (dom (pending_requests t))"

definition tracker_clear :: "tracker \<Rightarrow> tracker" where
  "tracker_clear t = t\<lparr>pending_requests := (\<lambda>_. None)\<rparr>"

section \<open>CandidateLock\<close>

record candidate_lock =
  lock_entry :: "nat option"
  lock_held :: "(nat \<times> pos \<times> pos) option"

definition new_lock :: candidate_lock where
  "new_lock = \<lparr>lock_entry = None, lock_held = None\<rparr>"

definition lock_open :: "nat \<Rightarrow> candidate_lock \<Rightarrow> candidate_lock" where
  "lock_open e l = l\<lparr>lock_entry := Some e\<rparr>"

definition lock_hold :: "nat \<Rightarrow> pos \<Rightarrow> pos \<Rightarrow> candidate_lock \<Rightarrow> candidate_lock" where
  "lock_hold s requested converted l =
     (case lock_held l of
        Some (s', r', c') \<Rightarrow> if s < s' then l else l\<lparr>lock_held := Some (s, requested, converted)\<rparr>
      | None \<Rightarrow> l\<lparr>lock_held := Some (s, requested, converted)\<rparr>)"

definition lock_close :: "candidate_lock \<Rightarrow> (nat \<times> pos \<times> pos) option \<times> candidate_lock" where
  "lock_close l = (lock_held l, \<lparr>lock_entry = None, lock_held = None\<rparr>)"

section \<open>Facts about the tracker and the lock\<close>

text \<open>Sequences are issued in order, so an outstanding one is at most the last issued.\<close>

definition tracker_wf :: "tracker \<Rightarrow> bool" where
  "tracker_wf t \<longleftrightarrow> (\<forall>s r. pending_requests t s = Some r \<longrightarrow> 1 \<le> s \<and> s \<le> sequence t)"

lemma new_tracker_wf [wf_intros]: "tracker_wf new_tracker"
  by (simp add: tracker_wf_def new_tracker_def)

lemma set_backend_wf [wf_intros]: "tracker_wf t \<Longrightarrow> tracker_wf (set_backend b t)"
  by (simp add: tracker_wf_def set_backend_def)

lemma tracker_prefill_wf [wf_intros]: "tracker_wf t \<Longrightarrow> tracker_wf (tracker_prefill c t)"
  by (simp add: tracker_wf_def tracker_prefill_def)

lemma send_wf [wf_intros]: "tracker_wf t \<Longrightarrow> tracker_wf (snd (send r c t))"
  by (auto simp: tracker_wf_def send_def Let_def le_Suc_eq)

lemma take_request_wf [wf_intros]: "tracker_wf t \<Longrightarrow> tracker_wf (snd (take_request s t))"
  by (auto simp: tracker_wf_def take_request_def split: option.splits)

lemma tracker_clear_wf [wf_intros]: "tracker_wf (tracker_clear t)"
  by (simp add: tracker_wf_def tracker_clear_def)

lemma finite_send: "finite (dom (pending_requests t)) \<Longrightarrow> finite (dom (pending_requests (snd (send r c t))))"
  by (simp add: send_def Let_def)

text \<open>A request is answered at most once, and the answer finds what was sent.\<close>

lemma take_after_send:
  assumes "send r c t = (Some s, t')"
  shows "fst (take_request s t') = Some r" "fst (take_request s (snd (take_request s t'))) = None"
  using assms by (auto simp: send_def take_request_def Let_def split: if_splits)

lemma send_fresh: "tracker_wf t \<Longrightarrow> send r c t = (Some s, t') \<Longrightarrow> \<not> is_pending t s"
  by (auto simp: send_def tracker_wf_def is_pending_def Let_def split: if_splits)

text \<open>The lock keeps the newest of the results offered to it.\<close>

lemma lock_hold_newest:
  "lock_held (lock_hold s r c l) = Some (s', r', c') \<Longrightarrow> s \<le> s' \<and>
     (\<forall>s0 r0 c0. lock_held l = Some (s0, r0, c0) \<longrightarrow> s0 \<le> s')"
  by (auto simp: lock_hold_def split: option.splits if_splits)

end
