(* ===== verification/Effects.thy ===== *)
theory Effects
  imports Prelude
begin

text \<open>
  Stateful code as computations over an explicit state: a computation returns a value or throws,
  and in both cases yields the state it reached, as C++ does when an exception unwinds.
  \<open>ensures P m Q\<close> is the total-correctness triple: from a state in \<open>P\<close> the computation returns
  (it does not throw) and its value and state are in \<open>Q\<close>.
\<close>

type_synonym ('w, 'a) ctl = "'w \<Rightarrow> (exn + 'a) \<times> 'w"

definition ret :: "'a \<Rightarrow> ('w, 'a) ctl" where
  "ret x = (\<lambda>w. (Inr x, w))"

definition bindC :: "('w, 'a) ctl \<Rightarrow> ('a \<Rightarrow> ('w, 'b) ctl) \<Rightarrow> ('w, 'b) ctl" where
  "bindC m f = (\<lambda>w. case m w of (Inl e, w') \<Rightarrow> (Inl e, w') | (Inr x, w') \<Rightarrow> f x w')"

definition thenC :: "('w, unit) ctl \<Rightarrow> ('w, 'b) ctl \<Rightarrow> ('w, 'b) ctl" where
  "thenC m n = bindC m (\<lambda>_. n)"

definition getC :: "('w \<Rightarrow> 'a) \<Rightarrow> ('w, 'a) ctl" where
  "getC f = (\<lambda>w. (Inr (f w), w))"

definition modC :: "('w \<Rightarrow> 'w) \<Rightarrow> ('w, unit) ctl" where
  "modC f = (\<lambda>w. (Inr (), f w))"

text \<open>A pure fallible expression, its operands read from the state.\<close>

definition evalC :: "('w \<Rightarrow> exn + 'a) \<Rightarrow> ('w, 'a) ctl" where
  "evalC f = (\<lambda>w. (f w, w))"

definition whenC :: "bool \<Rightarrow> ('w, unit) ctl \<Rightarrow> ('w, unit) ctl" where
  "whenC b m = (if b then m else ret ())"

fun forC :: "('a \<Rightarrow> ('w, unit) ctl) \<Rightarrow> 'a list \<Rightarrow> ('w, unit) ctl" where
  "forC f [] = ret ()"
| "forC f (x # xs) = thenC (f x) (forC f xs)"

text \<open>\<open>try \<dots> catch (...)\<close> that only logs.\<close>

definition catchC :: "('w, unit) ctl \<Rightarrow> ('w, unit) ctl" where
  "catchC m = (\<lambda>w. (Inr (), snd (m w)))"

text \<open>Running the elementary computations.\<close>

lemma run_simps:
  "bindC (getC f) g w = g (f w) w"
  "thenC (modC h) n w = n (h w)"
  "f2 w = Inr x \<Longrightarrow> bindC (evalC f2) g2 w = g2 x w"
  "f2 w = Inl e \<Longrightarrow> bindC (evalC f2) g2 w = (Inl e, w)"
  by (simp_all add: bindC_def getC_def thenC_def modC_def evalC_def)

section \<open>Triples\<close>

definition ensures :: "('w \<Rightarrow> bool) \<Rightarrow> ('w, 'a) ctl \<Rightarrow> ('a \<Rightarrow> 'w \<Rightarrow> bool) \<Rightarrow> bool" where
  "ensures P m Q \<longleftrightarrow> (\<forall>w. P w \<longrightarrow> (case m w of (Inl e, w') \<Rightarrow> False | (Inr x, w') \<Rightarrow> Q x w'))"

lemma ensuresD:
  assumes "ensures P m Q" "P w"
  obtains x w' where "m w = (Inr x, w')" "Q x w'"
proof -
  have c: "case m w of (Inl e, w') \<Rightarrow> False | (Inr x, w') \<Rightarrow> Q x w'"
    by (rule assms(1) [unfolded ensures_def, rule_format, OF assms(2)])
  show thesis
  proof (cases "fst (m w)")
    case (Inl e)
    then show ?thesis using c by (simp add: case_prod_unfold)
  next
    case (Inr x)
    then have "m w = (Inr x, snd (m w))" "Q x (snd (m w))"
      using c by (simp_all add: case_prod_unfold prod_eq_iff)
    then show ?thesis by (rule that)
  qed
qed

lemma ensuresI:
  "(\<And>w. P w \<Longrightarrow> \<exists>x w'. m w = (Inr x, w') \<and> Q x w') \<Longrightarrow> ensures P m Q"
  by (fastforce simp: ensures_def)

lemma ensures_weaken:
  "ensures P' m Q' \<Longrightarrow> (\<And>w. P w \<Longrightarrow> P' w) \<Longrightarrow> (\<And>x w. Q' x w \<Longrightarrow> Q x w) \<Longrightarrow> ensures P m Q"
  by (fastforce simp: ensures_def split: prod.splits sum.splits)

lemma ensures_pre: "ensures P' m Q \<Longrightarrow> (\<And>w. P w \<Longrightarrow> P' w) \<Longrightarrow> ensures P m Q"
  by (rule ensures_weaken)

lemma ensures_post: "ensures P m Q' \<Longrightarrow> (\<And>x w. Q' x w \<Longrightarrow> Q x w) \<Longrightarrow> ensures P m Q"
  by (rule ensures_weaken)

lemma ensures_ret: "(\<And>w. P w \<Longrightarrow> Q x w) \<Longrightarrow> ensures P (ret x) Q"
  by (simp add: ensures_def ret_def)

lemma ensures_bind:
  "ensures P m R \<Longrightarrow> (\<And>x. ensures (R x) (f x) Q) \<Longrightarrow> ensures P (bindC m f) Q"
  unfolding ensures_def bindC_def
  by (fastforce split: prod.splits sum.splits)

lemma ensures_then:
  "ensures P m (\<lambda>_. R) \<Longrightarrow> ensures R n Q \<Longrightarrow> ensures P (thenC m n) Q"
  unfolding thenC_def by (rule ensures_bind)

lemma ensures_getC: "(\<And>w. P w \<Longrightarrow> Q (f w) w) \<Longrightarrow> ensures P (getC f) Q"
  by (simp add: ensures_def getC_def)

text \<open>Reading the state fixes what was read for the rest of the computation.\<close>

lemma ensures_get_bind:
  "(\<And>x. ensures (\<lambda>w. P w \<and> f w = x) (g x) Q) \<Longrightarrow> ensures P (bindC (getC f) g) Q"
  by (rule ensures_bind [where R = "\<lambda>x w. P w \<and> f w = x"]) (auto intro: ensures_getC)

lemma ensures_modC: "(\<And>w. P w \<Longrightarrow> Q () (f w)) \<Longrightarrow> ensures P (modC f) Q"
  by (simp add: ensures_def modC_def)

lemma ensures_eval_bind:
  "(\<And>w. P w \<Longrightarrow> \<exists>x. f w = Inr x) \<Longrightarrow> (\<And>x. ensures (\<lambda>w. P w \<and> f w = Inr x) (g x) Q) \<Longrightarrow>
   ensures P (bindC (evalC f) g) Q"
  by (rule ensures_bind [where R = "\<lambda>x w. P w \<and> f w = Inr x"])
    (fastforce simp: ensures_def evalC_def split: sum.splits)+

lemma ensures_if:
  "(c \<Longrightarrow> ensures P m Q) \<Longrightarrow> (\<not> c \<Longrightarrow> ensures P n Q) \<Longrightarrow> ensures P (if c then m else n) Q"
  by simp

lemma ensures_whenC:
  "(c \<Longrightarrow> ensures P m Q) \<Longrightarrow> (\<And>w. \<not> c \<Longrightarrow> P w \<Longrightarrow> Q () w) \<Longrightarrow> ensures P (whenC c m) Q"
  by (auto simp: whenC_def intro: ensures_ret)

lemma ensures_case_option:
  "(x = None \<Longrightarrow> ensures P m Q) \<Longrightarrow> (\<And>y. x = Some y \<Longrightarrow> ensures P (n y) Q) \<Longrightarrow>
   ensures P (case x of None \<Rightarrow> m | Some y \<Rightarrow> n y) Q"
  by (cases x) simp_all

lemma ensures_get_option:
  "(\<And>w. P w \<Longrightarrow> f w = None \<Longrightarrow> Q x w) \<Longrightarrow>
   (\<And>y. ensures (\<lambda>w. P w \<and> f w = Some y) (m y) Q) \<Longrightarrow>
   ensures P (bindC (getC f) (\<lambda>oy. case oy of None \<Rightarrow> ret x | Some y \<Rightarrow> m y)) Q"
  by (rule ensures_get_bind, rule ensures_case_option)
    (auto intro: ensures_ret)

text \<open>Two computations in a row under the same invariant.\<close>

lemma ensures_seq:
  "ensures P m (\<lambda>_. I) \<Longrightarrow> ensures I n Q \<Longrightarrow> ensures P (thenC m n) Q"
  by (rule ensures_then)

lemma ensures_case_prod:
  "(\<And>a b. x = (a, b) \<Longrightarrow> ensures P (f a b) Q) \<Longrightarrow> ensures P (case x of (a, b) \<Rightarrow> f a b) Q"
  by (cases x) simp

lemma ensures_forC:
  "(\<And>x. x \<in> set xs \<Longrightarrow> ensures I (f x) (\<lambda>_. I)) \<Longrightarrow> ensures I (forC f xs) (\<lambda>_. I)"
  by (induction xs) (auto intro: ensures_ret ensures_then)

lemma ensures_catchC:
  assumes "ensures P m (\<lambda>_. Q)"
  shows "ensures P (catchC m) (\<lambda>_. Q)"
proof (rule ensuresI)
  fix w assume "P w"
  with assms obtain x w' where "m w = (Inr x, w')" "Q w'" by (rule ensuresD)
  then show "\<exists>x w'. catchC m w = (Inr x, w') \<and> Q w'" by (simp add: catchC_def)
qed

lemma ensures_fix: "(\<And>w0. P w0 \<Longrightarrow> ensures (\<lambda>w. w = w0) m Q) \<Longrightarrow> ensures P m Q"
  by (simp add: ensures_def)

lemma ensures_pure_pre: "(p \<Longrightarrow> ensures P m Q) \<Longrightarrow> ensures (\<lambda>w. p \<and> P w) m Q"
  by (auto simp: ensures_def)

lemma ensures_vacuous: "(\<And>w. \<not> P w) \<Longrightarrow> ensures P m Q"
  by (simp add: ensures_def)

lemma ensures_false: "ensures (\<lambda>_. False) m Q"
  by (simp add: ensures_def)

text \<open>A triple read off one run.\<close>

lemma ensures_run:
  assumes "ensures P m Q" "P w" "m w = (r, w')"
  shows "\<exists>x. r = Inr x \<and> Q x w'"
  using assms by (cases r) (auto simp: ensures_def dest!: spec [of _ w])

end
