(* ===== verification/Sealed_Text.thy ===== *)
theory Sealed_Text
  imports Conversion Effects
begin

text \<open>
  \<open>frontend/src/core/composition_host.hpp\<close>, \<open>sealed_text.hpp\<close>, \<open>sealed_text.cpp\<close> and the edit queue
  of \<open>frontend/src/tsf/textService.cpp\<close>: the text a composition left in its document before its
  conversion was done.

  The document itself belongs to the host application.  What the code reads from it is the
  parameter \<open>host\<close>: functions of everything the code has done to it so far and of whatever
  happened outside (the call list, in which \<open>Outside\<close> stands for such an event).  What the code
  does to it is appended to the call list.  A queued edit (a C++ closure) is a value of \<open>edit\<close>
  with the closure's captures; \<open>run_edit\<close> is passed to the operations that queue edits, since the
  host may run an edit at once or much later.
\<close>

section \<open>The host\<close>

record rendering =
  rend_text :: u16string
  rend_caret :: nat
  rend_selection :: "(nat \<times> nat) option"

datatype host_call =
    Render document_id nat rendering
  | Commit document_id nat
  | Discard document_id nat
  | Seal document_id nat
  | Erase_before_caret document_id
  | Write_sealed document_id nat u16string
  | Erase_before_sealed document_id nat nat
  | Release_sealed document_id nat
  | Record_commit document_id nat commit_sample
  | Insert_at_caret document_id u16string
  | Discard_commit nat
  | Outside nat

record host =
  document_open :: "host_call list \<Rightarrow> document_id \<Rightarrow> bool"
  grants_at_once :: "host_call list \<Rightarrow> document_id \<Rightarrow> bool"
  preceding_text :: "host_call list \<Rightarrow> document_id \<Rightarrow> nat \<Rightarrow> u16string"
  sealed_text :: "host_call list \<Rightarrow> document_id \<Rightarrow> nat \<Rightarrow> u16string option"
  caret_after_sealed :: "host_call list \<Rightarrow> document_id \<Rightarrow> nat \<Rightarrow> bool"
  text_before_caret :: "host_call list \<Rightarrow> document_id \<Rightarrow> u16string"

datatype edit =
    Open_edit document_id nat bool
  | Show_edit document_id nat rendering
  | Commit_edit document_id nat "commit_sample option"
  | Discard_edit document_id nat
  | Seal_edit document_id nat
  | Apply_edit request nat "pos list"
  | Local_edit document_id nat
  | Backspace_edit document_id
  | Write_edit document_id
  | Insert_edit document_id u16string
  | Recheck_edit document_id u16string nat

fun edit_document :: "edit \<Rightarrow> document_id" where
  "edit_document (Open_edit d e prefill) = d"
| "edit_document (Show_edit d e r) = d"
| "edit_document (Commit_edit d e s) = d"
| "edit_document (Discard_edit d e) = d"
| "edit_document (Seal_edit d e) = d"
| "edit_document (Apply_edit r s ps) = req_document r"
| "edit_document (Local_edit d e) = d"
| "edit_document (Backspace_edit d) = d"
| "edit_document (Write_edit d) = d"
| "edit_document (Insert_edit d s) = d"
| "edit_document (Recheck_edit d s n) = d"

section \<open>SealedSegment\<close>

datatype stage = WaitingForContext | Converting nat | Finished

record segment =
  seg_epoch :: nat
  seg_document :: document_id
  seg_buffer :: comp_buffer
  seg_shown :: u16string
  seg_preceding :: "u16string option"
  seg_erased :: nat
  seg_stage :: stage
  seg_in_document :: bool

definition new_segment ::
  "env \<Rightarrow> nat \<Rightarrow> document_id \<Rightarrow> comp_buffer \<Rightarrow> u16string option \<Rightarrow> exn + segment"
where
  "new_segment E e d b preceding =
     rbind (to_string E b) (\<lambda>s.
       Inr \<lparr>seg_epoch = e, seg_document = d, seg_buffer = b, seg_shown = s,
            seg_preceding = preceding, seg_erased = 0, seg_stage = WaitingForContext,
            seg_in_document = False\<rparr>)"

definition is_finished :: "segment \<Rightarrow> bool" where
  "is_finished g \<longleftrightarrow> seg_stage g = Finished"

definition is_waiting_for_context :: "segment \<Rightarrow> bool" where
  "is_waiting_for_context g \<longleftrightarrow> seg_stage g = WaitingForContext"

definition seg_await :: "nat \<Rightarrow> segment \<Rightarrow> segment" where
  "seg_await s g = g\<lparr>seg_stage := Converting s\<rparr>"

definition seg_placed :: "segment \<Rightarrow> segment" where
  "seg_placed g = g\<lparr>seg_in_document := True\<rparr>"

definition seg_set_preceding :: "u16string \<Rightarrow> segment \<Rightarrow> segment" where
  "seg_set_preceding p g = g\<lparr>seg_preceding := Some p\<rparr>"

definition seg_merge :: "nat \<Rightarrow> pos list \<Rightarrow> pos list \<Rightarrow> segment \<Rightarrow> segment" where
  "seg_merge s requested converted g =
     (let g' = g\<lparr>seg_buffer := fst (merge_conversion (seg_buffer g) s requested converted None)\<rparr> in
      case seg_stage g of
        Converting awaited \<Rightarrow> if awaited \<le> s then g'\<lparr>seg_stage := Finished\<rparr> else g'
      | _ \<Rightarrow> g')"

definition seg_finish_locally :: "segment \<Rightarrow> segment" where
  "seg_finish_locally g =
     g\<lparr>seg_buffer := snd (accept_local_candidates (seg_buffer g)), seg_stage := Finished\<rparr>"

definition seg_erase_last :: "segment \<Rightarrow> segment" where
  "seg_erase_last g =
     (let g' = g\<lparr>seg_erased := seg_erased g + 1\<rparr> in
      if length (buffer (seg_buffer g)) \<le> seg_erased g' then g'\<lparr>seg_stage := Finished\<rparr> else g')"

definition seg_kept :: "segment \<Rightarrow> pos list" where
  "seg_kept g =
     (let entries = buffer (seg_buffer g) in
      take (length entries - min (seg_erased g) (length entries)) entries)"

definition seg_text :: "env \<Rightarrow> segment \<Rightarrow> exn + u16string" where
  "seg_text E g = rbind (mapR (current E) (seg_kept g)) (\<lambda>ss. Inr (concat ss))"

definition erases_before :: "segment \<Rightarrow> nat" where
  "erases_before g =
     (let n = length (buffer (seg_buffer g)) in
      if n < seg_erased g then seg_erased g - n else 0)"

definition is_high_surrogate :: "char16 \<Rightarrow> bool" where
  "is_high_surrogate c \<longleftrightarrow> 0xD800 \<le> c \<and> c \<le> 0xDBFF"

fun drop_last_characters :: "u16string \<Rightarrow> nat \<Rightarrow> u16string" where
  "drop_last_characters text 0 = text"
| "drop_last_characters text (Suc count) =
     (if text = [] then text
      else let t = butlast text;
               t' = (if t \<noteq> [] \<and> is_high_surrogate (last t) then butlast t else t) in
        drop_last_characters t' count)"

definition following_context :: "env \<Rightarrow> segment \<Rightarrow> exn + u16string" where
  "following_context E g =
     rbind (seg_text E g) (\<lambda>text.
       Inr (drop_last_characters (case seg_preceding g of None \<Rightarrow> [] | Some p \<Rightarrow> p) (erases_before g) @ text))"

definition seg_training_sample :: "env \<Rightarrow> segment \<Rightarrow> exn + commit_sample option" where
  "seg_training_sample E g =
     (if 0 < seg_erased g then Inr None
      else training_sample E (seg_buffer g) (case seg_preceding g of None \<Rightarrow> [] | Some p \<Rightarrow> p))"

section \<open>State of the controller\<close>

record sent_conversion =
  sent_revision :: nat
  sent_sequence :: nat

record composition =
  comp_epoch :: nat
  comp_document :: document_id
  comp_preceding :: "u16string option"
  comp_buf :: comp_buffer
  comp_candidates :: candidate_lock
  comp_sent :: "sent_conversion option"
  comp_converted :: "nat option"

record world =
  composition :: "composition option"
  next_epoch :: nat
  immediate_conversion :: bool
  conversions :: tracker
  segments :: "segment list"
  queued_edits :: "document_id \<Rightarrow> edit list"
  active_edit :: "document_id option"
  calls :: "host_call list"

definition new_world :: world where
  "new_world = \<lparr>composition = None, next_epoch = 1, immediate_conversion = False,
     conversions = new_tracker, segments = [], queued_edits = (\<lambda>_. []), active_edit = None, calls = []\<rparr>"

type_synonym 'a wctl = "(world, 'a) ctl"
type_synonym run_edit_fn = "document_id \<Rightarrow> edit \<Rightarrow> (world, bool) ctl"

text \<open>A call of the host is recorded and returns.  A host method that throws is not modelled: the caller that runs
  the queue would log it and go on with the next edit.\<close>

definition host_does :: "host_call \<Rightarrow> unit wctl" where
  "host_does c = modC (\<lambda>w. w\<lparr>calls := calls w @ [c]\<rparr>)"

definition upd_segment :: "nat \<Rightarrow> (segment \<Rightarrow> segment) \<Rightarrow> unit wctl" where
  "upd_segment i f = modC (\<lambda>w. w\<lparr>segments := (segments w)[i := f (segments w ! i)]\<rparr>)"

section \<open>SealedQueue\<close>

definition find_segment :: "world \<Rightarrow> nat \<Rightarrow> nat option" where
  "find_segment w e = find_index (\<lambda>g. seg_epoch g = e) (segments w)"

text \<open>\<open>find_last_if\<close>: the last segment of the document that its document holds.\<close>

definition last_in_document :: "segment list \<Rightarrow> document_id \<Rightarrow> nat option" where
  "last_in_document gs d =
     map_option (\<lambda>i. length gs - 1 - i)
       (find_index (\<lambda>g. seg_document g = d \<and> seg_in_document g) (rev gs))"

definition newest_at_caret :: "host \<Rightarrow> world \<Rightarrow> document_id \<Rightarrow> nat option" where
  "newest_at_caret H w d =
     (case last_in_document (segments w) d of
        None \<Rightarrow> None
      | Some i \<Rightarrow> if caret_after_sealed H (calls w) d (seg_epoch (segments w ! i)) then Some i else None)"

definition sealed_pending :: "world \<Rightarrow> document_id \<Rightarrow> bool" where
  "sealed_pending w d \<longleftrightarrow> (\<exists>g \<in> set (segments w). seg_document g = d)"

definition forget :: "document_id \<Rightarrow> world \<Rightarrow> world" where
  "forget d w = w\<lparr>segments := filter (\<lambda>g. seg_document g \<noteq> d) (segments w)\<rparr>"

text \<open>\<open>write\<close>: the text is replaced only if the user has not changed it meanwhile.\<close>

definition write_segment :: "env \<Rightarrow> host \<Rightarrow> segment \<Rightarrow> unit wctl" where
  "write_segment E H g =
     (let d = seg_document g; e = seg_epoch g in
      bindC (getC (\<lambda>w. sealed_text H (calls w) d e)) (\<lambda>now.
      thenC (whenC (now = Some (seg_shown g))
              (bindC (evalC (\<lambda>_. seg_text E g)) (\<lambda>text.
               thenC (host_does (Write_sealed d e text))
               (thenC (whenC (erases_before g \<noteq> 0) (host_does (Erase_before_sealed d e (erases_before g))))
               (bindC (evalC (\<lambda>_. seg_training_sample E g)) (\<lambda>sample.
                 case sample of None \<Rightarrow> ret () | Some s \<Rightarrow> host_does (Record_commit d e s)))))))
        (host_does (Release_sealed d e))))"

text \<open>
  The loop of \<open>write_finished\<close> with its iterator as an index \<open>i\<close>: writing and erasing a segment
  leaves \<open>i\<close> at the next one.
\<close>

definition writable :: "segment \<Rightarrow> bool \<Rightarrow> bool" where
  "writable g earlier_waiting \<longleftrightarrow>
     seg_in_document g \<and> is_finished g \<and> \<not> (earlier_waiting \<and> 0 < erases_before g)"

fun write_finished_loop :: "env \<Rightarrow> host \<Rightarrow> document_id \<Rightarrow> nat \<Rightarrow> nat \<Rightarrow> bool \<Rightarrow> unit wctl" where
  "write_finished_loop E H d 0 i earlier_waiting = ret ()"
| "write_finished_loop E H d (Suc left) i earlier_waiting =
     bindC (getC (\<lambda>w. segments w ! i)) (\<lambda>g.
       if seg_document g \<noteq> d then write_finished_loop E H d left (i + 1) earlier_waiting
       else if writable g earlier_waiting then
         thenC (write_segment E H g)
         (thenC (modC (\<lambda>w. w\<lparr>segments := list_erase i (segments w)\<rparr>))
           (write_finished_loop E H d left i earlier_waiting))
       else write_finished_loop E H d left (i + 1) True)"

definition write_finished :: "env \<Rightarrow> host \<Rightarrow> document_id \<Rightarrow> unit wctl" where
  "write_finished E H d =
     bindC (getC (\<lambda>w. length (segments w))) (\<lambda>n. write_finished_loop E H d n 0 False)"

definition write_when_possible :: "run_edit_fn \<Rightarrow> document_id \<Rightarrow> unit wctl" where
  "write_when_possible re d =
     bindC (re d (Write_edit d)) (\<lambda>accepted. whenC (\<not> accepted) (modC (forget d)))"

definition write_if_finished :: "run_edit_fn \<Rightarrow> nat \<Rightarrow> unit wctl" where
  "write_if_finished re i =
     bindC (getC (\<lambda>w. segments w ! i)) (\<lambda>g.
       whenC (is_finished g) (write_when_possible re (seg_document g)))"

text \<open>\<open>convert\<close>, its segment given by position.\<close>

definition send_conversion :: "request \<Rightarrow> u16string \<Rightarrow> nat option wctl" where
  "send_conversion r ctxt =
     (\<lambda>w. (Inr (fst (send r ctxt (conversions w))), w\<lparr>conversions := snd (send r ctxt (conversions w))\<rparr>))"

definition convert :: "nat \<Rightarrow> unit wctl" where
  "convert i =
     bindC (getC (\<lambda>w. segments w ! i)) (\<lambda>g.
     bindC (case conversion_snapshot_of (seg_buffer g) of
              None \<Rightarrow> ret None
            | Some snapshot \<Rightarrow>
                send_conversion
                  \<lparr>req_epoch = seg_epoch g, req_revision = snap_revision snapshot,
                   req_document = seg_document g, req_snapshot = snap_entries snapshot\<rparr>
                  (the (seg_preceding g))) (\<lambda>s.
       case s of
         Some s \<Rightarrow> upd_segment i (seg_await s)
       | None \<Rightarrow> upd_segment i seg_finish_locally))"

definition sealed_add ::
  "run_edit_fn \<Rightarrow> env \<Rightarrow> nat \<Rightarrow> document_id \<Rightarrow> comp_buffer \<Rightarrow> u16string option \<Rightarrow> nat option \<Rightarrow> unit wctl"
where
  "sealed_add re E e d b preceding in_flight =
     bindC (evalC (\<lambda>_. new_segment E e d b preceding)) (\<lambda>g.
     thenC (modC (\<lambda>w. w\<lparr>segments := segments w @ [g]\<rparr>))
     (bindC (getC (\<lambda>w. length (segments w) - 1)) (\<lambda>i.
      thenC (case in_flight of
               Some s \<Rightarrow> upd_segment i (seg_await s)
             | None \<Rightarrow> whenC (preceding \<noteq> None) (convert i))
       (write_if_finished re i))))"

definition sealed_context_ready :: "run_edit_fn \<Rightarrow> nat \<Rightarrow> u16string \<Rightarrow> unit wctl" where
  "sealed_context_ready re e preceding =
     bindC (getC (\<lambda>w. find_segment w e)) (\<lambda>found.
       case found of
         None \<Rightarrow> ret ()
       | Some i \<Rightarrow>
           thenC (upd_segment i (seg_set_preceding preceding))
           (bindC (getC (\<lambda>w. segments w ! i)) (\<lambda>g.
             whenC (is_waiting_for_context g)
               (thenC (convert i) (write_if_finished re i)))))"

definition sealed_placed :: "run_edit_fn \<Rightarrow> nat \<Rightarrow> unit wctl" where
  "sealed_placed re e =
     bindC (getC (\<lambda>w. find_segment w e)) (\<lambda>found.
       case found of
         None \<Rightarrow> ret ()
       | Some i \<Rightarrow> thenC (upd_segment i seg_placed) (write_if_finished re i))"

definition sealed_on_conversion ::
  "run_edit_fn \<Rightarrow> nat \<Rightarrow> nat \<Rightarrow> pos list \<Rightarrow> pos list \<Rightarrow> unit wctl"
where
  "sealed_on_conversion re e s requested converted =
     bindC (getC (\<lambda>w. find_segment w e)) (\<lambda>found.
       case found of
         None \<Rightarrow> ret ()
       | Some i \<Rightarrow>
           thenC (upd_segment i (seg_merge s requested converted)) (write_if_finished re i))"

definition erase_at_caret_sealed :: "run_edit_fn \<Rightarrow> host \<Rightarrow> document_id \<Rightarrow> bool wctl" where
  "erase_at_caret_sealed re H d =
     bindC (getC (\<lambda>w. newest_at_caret H w d)) (\<lambda>found.
       case found of
         None \<Rightarrow> ret False
       | Some i \<Rightarrow>
           thenC (upd_segment i seg_erase_last)
           (thenC (bindC (getC (\<lambda>w. segments w ! i)) (\<lambda>g.
                     whenC (is_finished g) (write_when_possible re d)))
             (ret True)))"

definition context_at_caret :: "env \<Rightarrow> host \<Rightarrow> document_id \<Rightarrow> u16string option wctl" where
  "context_at_caret E H d =
     bindC (getC (\<lambda>w. newest_at_caret H w d)) (\<lambda>found.
       case found of
         None \<Rightarrow> ret None
       | Some i \<Rightarrow>
           bindC (evalC (\<lambda>w. following_context E (segments w ! i))) (\<lambda>s. ret (Some s)))"

text \<open>The documents of the segments, each once, in the order of their first segment.\<close>

definition documents_of :: "segment list \<Rightarrow> document_id list" where
  "documents_of gs =
     foldl (\<lambda>ds g. if seg_document g \<in> set ds then ds else ds @ [seg_document g]) [] gs"

definition sealed_finish_locally :: "run_edit_fn \<Rightarrow> unit wctl" where
  "sealed_finish_locally re =
     bindC (getC (\<lambda>w. documents_of (segments w))) (\<lambda>documents.
     thenC (modC (\<lambda>w. w\<lparr>segments := map seg_finish_locally (segments w)\<rparr>))
       (forC (write_when_possible re) documents))"

end
