(* ===== verification/Controller.thy ===== *)
theory Controller
  imports Sealed_Text
begin

text \<open>
  \<open>frontend/src/core/composition_controller.hpp\<close>, \<open>composition_controller.cpp\<close> and the edit queue of
  \<open>frontend/src/tsf/textService.cpp\<close> (\<open>run_edit\<close>, \<open>run_edits\<close>, \<open>run_queued\<close>): the composition
  state machine.  \<open>live w d\<close> and \<open>live_epoch w e\<close> are the pointers of the same name; an operation
  that holds such a pointer reads the composition of the state again, which the invariant proved
  in \<open>Controller_Invariant\<close> makes the same one.
\<close>

section \<open>Composition\<close>

definition settled :: "composition \<Rightarrow> bool" where
  "settled c \<longleftrightarrow>
     ready_to_commit (comp_buf c) \<and>
     ((\<forall>p \<in> set (buffer (comp_buf c)). chosen p) \<or> comp_converted c = Some (revision (comp_buf c)))"

definition rendering_of :: "env \<Rightarrow> composition \<Rightarrow> exn + rendering" where
  "rendering_of E c =
     rbind (to_string E (comp_buf c)) (\<lambda>s.
     rbind (caret_offset E (comp_buf c)) (\<lambda>n.
     rbind (current_invalid_span E (comp_buf c)) (\<lambda>sel.
       Inr \<lparr>rend_text = s, rend_caret = n, rend_selection = sel\<rparr>)))"

definition new_composition :: "nat \<Rightarrow> document_id \<Rightarrow> bool \<Rightarrow> composition" where
  "new_composition e d immediate =
     \<lparr>comp_epoch = e, comp_document = d, comp_preceding = None,
      comp_buf = set_immediate_conversion immediate new_buffer,
      comp_candidates = new_lock, comp_sent = None, comp_converted = None\<rparr>"

section \<open>Queries and small updates\<close>

definition owns :: "world \<Rightarrow> document_id \<Rightarrow> bool" where
  "owns w d \<longleftrightarrow> (\<exists>c. composition w = Some c \<and> comp_document c = d)"

definition live :: "world \<Rightarrow> document_id \<Rightarrow> composition option" where
  "live w d = (case composition w of
                 Some c \<Rightarrow> if comp_document c = d then Some c else None
               | None \<Rightarrow> None)"

definition live_epoch :: "world \<Rightarrow> nat \<Rightarrow> composition option" where
  "live_epoch w e = (case composition w of
                       Some c \<Rightarrow> if comp_epoch c = e then Some c else None
                     | None \<Rightarrow> None)"

definition epoch_of :: "world \<Rightarrow> nat" where
  "epoch_of w = (case composition w of Some c \<Rightarrow> comp_epoch c | None \<Rightarrow> next_epoch w)"

definition controller_sealed_pending :: "world \<Rightarrow> document_id \<Rightarrow> bool" where
  "controller_sealed_pending w d \<longleftrightarrow> \<not> owns w d \<and> sealed_pending w d"

definition upd_comp :: "(composition \<Rightarrow> composition) \<Rightarrow> world \<Rightarrow> world" where
  "upd_comp f w = w\<lparr>composition := map_option f (composition w)\<rparr>"

definition upd_buf :: "(comp_buffer \<Rightarrow> comp_buffer) \<Rightarrow> world \<Rightarrow> world" where
  "upd_buf f = upd_comp (\<lambda>c. c\<lparr>comp_buf := f (comp_buf c)\<rparr>)"

definition ctrl_set_immediate_conversion :: "bool \<Rightarrow> unit wctl" where
  "ctrl_set_immediate_conversion enabled =
     modC (\<lambda>w. upd_buf (set_immediate_conversion enabled) (w\<lparr>immediate_conversion := enabled\<rparr>))"

definition ctrl_set_backend :: "bool \<Rightarrow> unit wctl" where
  "ctrl_set_backend attached = modC (\<lambda>w. w\<lparr>conversions := set_backend attached (conversions w)\<rparr>)"

text \<open>The result of \<open>run_edit\<close> is ignored.\<close>

definition run :: "run_edit_fn \<Rightarrow> edit \<Rightarrow> unit wctl" where
  "run re e = bindC (re (edit_document e) e) (\<lambda>_. ret ())"

section \<open>Showing and converting\<close>

definition show_comp :: "run_edit_fn \<Rightarrow> env \<Rightarrow> unit wctl" where
  "show_comp re E =
     bindC (getC composition) (\<lambda>oc.
       case oc of
         None \<Rightarrow> ret ()
       | Some c \<Rightarrow>
           bindC (evalC (\<lambda>_. rendering_of E c)) (\<lambda>ended.
             run re (Show_edit (comp_document c) (comp_epoch c) ended)))"

definition request_conversion :: "unit wctl" where
  "request_conversion =
     bindC (getC composition) (\<lambda>oc.
       case oc of
         None \<Rightarrow> ret ()
       | Some c \<Rightarrow>
           (case comp_preceding c of
              None \<Rightarrow> ret ()
            | Some preceding \<Rightarrow>
                (case conversion_snapshot_of (comp_buf c) of
                   None \<Rightarrow> ret ()
                 | Some snapshot \<Rightarrow>
                     if \<exists>s. comp_sent c = Some s \<and> sent_revision s = snap_revision snapshot then ret ()
                     else
                       bindC (send_conversion
                         \<lparr>req_epoch = comp_epoch c, req_revision = snap_revision snapshot,
                          req_document = comp_document c, req_snapshot = snap_entries snapshot\<rparr>
                         preceding) (\<lambda>s.
                         case s of
                           None \<Rightarrow> ret ()
                         | Some s \<Rightarrow>
                             modC (upd_comp (\<lambda>c. c\<lparr>comp_sent :=
                               Some \<lparr>sent_revision = snap_revision snapshot, sent_sequence = s\<rparr>\<rparr>))))))"

definition discard :: "run_edit_fn \<Rightarrow> unit wctl" where
  "discard re =
     bindC (getC composition) (\<lambda>oc.
       case oc of
         None \<Rightarrow> ret ()
       | Some c \<Rightarrow>
           thenC (modC (\<lambda>w. w\<lparr>composition := None\<rparr>))
             (run re (Discard_edit (comp_document c) (comp_epoch c))))"

definition update :: "run_edit_fn \<Rightarrow> env \<Rightarrow> unit wctl" where
  "update re E =
     bindC (getC composition) (\<lambda>oc.
       case oc of
         None \<Rightarrow> ret ()
       | Some c \<Rightarrow>
           if buffer (comp_buf c) = [] then discard re
           else thenC (show_comp re E) request_conversion)"

section \<open>Opening\<close>

definition open_comp :: "run_edit_fn \<Rightarrow> document_id \<Rightarrow> bool \<Rightarrow> bool wctl" where
  "open_comp re d prefill =
     bindC (getC composition) (\<lambda>oc.
       case oc of
         Some c \<Rightarrow> ret (comp_document c = d)
       | None \<Rightarrow>
           bindC (getC next_epoch) (\<lambda>e.
           thenC (modC (\<lambda>w. w\<lparr>next_epoch := e + 1,
                              composition := Some (new_composition e d (immediate_conversion w))\<rparr>))
           (thenC (run re (Open_edit d e prefill))
             (getC (\<lambda>w. composition w \<noteq> None)))))"

definition context_ready :: "run_edit_fn \<Rightarrow> nat \<Rightarrow> u16string \<Rightarrow> unit wctl" where
  "context_ready re e preceding =
     bindC (getC (\<lambda>w. live_epoch w e)) (\<lambda>oc.
       case oc of
         Some _ \<Rightarrow>
           thenC (modC (upd_comp (\<lambda>c. c\<lparr>comp_preceding := Some preceding\<rparr>))) request_conversion
       | None \<Rightarrow> sealed_context_ready re e preceding)"

section \<open>Keys\<close>

definition type_reading :: "run_edit_fn \<Rightarrow> env \<Rightarrow> document_id \<Rightarrow> char16 \<Rightarrow> unit wctl" where
  "type_reading re E d symbol =
     bindC (open_comp re d True) (\<lambda>opened.
       whenC opened
         (thenC (modC (upd_buf (\<lambda>b. add E b symbol))) (update re E)))"

definition type_text :: "run_edit_fn \<Rightarrow> env \<Rightarrow> document_id \<Rightarrow> u16string \<Rightarrow> unit wctl" where
  "type_text re E d text =
     (if text = [] then ret ()
      else bindC (open_comp re d False) (\<lambda>opened.
        whenC opened
          (thenC (modC (upd_buf (\<lambda>b. foldl (\<lambda>b ch. add_chosen_candidate b (ucast ch)) b text)))
            (update re E))))"

definition discard_reading :: "run_edit_fn \<Rightarrow> env \<Rightarrow> document_id \<Rightarrow> bool wctl" where
  "discard_reading re E d =
     bindC (getC (\<lambda>w. live w d)) (\<lambda>oc.
       case oc of
         None \<Rightarrow> ret False
       | Some c \<Rightarrow>
           if \<not> fst (discard_current_reading (comp_buf c)) then ret False
           else thenC (modC (upd_buf (\<lambda>b. snd (discard_current_reading b))))
                  (thenC (update re E) (ret True)))"

definition backspace :: "run_edit_fn \<Rightarrow> env \<Rightarrow> document_id \<Rightarrow> unit wctl" where
  "backspace re E d =
     bindC (getC (\<lambda>w. live w d)) (\<lambda>oc.
       case oc of
         None \<Rightarrow> ret ()
       | Some c \<Rightarrow>
           whenC (fst (remove_last (comp_buf c)))
             (thenC (modC (upd_buf (\<lambda>b. snd (remove_last b)))) (update re E)))"

definition caret_step :: "bool \<Rightarrow> comp_buffer \<Rightarrow> bool \<times> comp_buffer" where
  "caret_step forward b = (if forward then next_entry b else pre b)"

text \<open>\<open>while (to_edge && step()) {}\<close>\<close>

function step_to_edge :: "bool \<Rightarrow> comp_buffer \<Rightarrow> comp_buffer" where
  "step_to_edge forward b =
     (case caret_step forward b of
        (True, b') \<Rightarrow> step_to_edge forward b'
      | (False, b') \<Rightarrow> b')"
  by pat_completeness auto

termination
  by (relation "measure (\<lambda>(forward, b). if forward then nat (int (length (buffer b)) - idx b) else nat (idx b + 1))")
    (auto simp: caret_step_def next_entry_def pre_def split: if_splits)

definition move_caret :: "run_edit_fn \<Rightarrow> env \<Rightarrow> document_id \<Rightarrow> bool \<Rightarrow> bool \<Rightarrow> unit wctl" where
  "move_caret re E d forward to_edge =
     bindC (getC (\<lambda>w. live w d)) (\<lambda>oc.
       case oc of
         None \<Rightarrow> ret ()
       | Some c \<Rightarrow>
           whenC (fst (caret_step forward (comp_buf c)))
             (thenC (modC (upd_buf (\<lambda>b. snd (caret_step forward b))))
             (thenC (whenC to_edge (modC (upd_buf (step_to_edge forward))))
               (show_comp re E))))"

section \<open>Ending a composition\<close>

definition commit :: "run_edit_fn \<Rightarrow> env \<Rightarrow> unit wctl" where
  "commit re E =
     bindC (getC composition) (\<lambda>oc.
       case oc of
         None \<Rightarrow> ret ()
       | Some c \<Rightarrow>
           bindC (evalC (\<lambda>_. training_sample E (comp_buf c)
                    (case comp_preceding c of None \<Rightarrow> [] | Some p \<Rightarrow> p))) (\<lambda>sample.
           thenC (modC (\<lambda>w. w\<lparr>composition := None\<rparr>))
             (run re (Commit_edit (comp_document c) (comp_epoch c) sample))))"

text \<open>\<open>in_flight\<close>: the conversion sent for exactly the content being sealed and not answered yet.\<close>

definition in_flight_for :: "world \<Rightarrow> bool \<Rightarrow> composition \<Rightarrow> nat option" where
  "in_flight_for w frozen c =
     (case comp_sent c of
        Some s \<Rightarrow>
          if \<not> frozen \<and> sent_revision s = revision (comp_buf c) \<and>
             is_pending (conversions w) (sent_sequence s)
          then Some (sent_sequence s) else None
      | None \<Rightarrow> None)"

definition seal :: "run_edit_fn \<Rightarrow> env \<Rightarrow> unit wctl" where
  "seal re E =
     bindC (getC composition) (\<lambda>oc.
       case oc of
         None \<Rightarrow> ret ()
       | Some c0 \<Rightarrow>
           (let frozen = fst (freeze_readings (comp_buf c0));
                c = c0\<lparr>comp_buf := snd (freeze_readings (comp_buf c0))\<rparr> in
            thenC (modC (\<lambda>w. w\<lparr>composition := Some c\<rparr>))
            (if settled c then commit re E
             else
               bindC (getC (\<lambda>w. in_flight_for w frozen c)) (\<lambda>in_flight.
               thenC (modC (\<lambda>w. w\<lparr>composition := None\<rparr>))
               (thenC (sealed_add re E (comp_epoch c) (comp_document c) (comp_buf c) (comp_preceding c) in_flight)
                 (run re (Seal_edit (comp_document c) (comp_epoch c))))))))"

definition enter :: "run_edit_fn \<Rightarrow> env \<Rightarrow> document_id \<Rightarrow> unit wctl" where
  "enter re E d =
     bindC (getC (\<lambda>w. live w d)) (\<lambda>oc.
       case oc of
         None \<Rightarrow> ret ()
       | Some c \<Rightarrow>
           if has_uncomposed_reading (comp_buf c) then ret ()
           else if settled c then commit re E
           else thenC request_conversion (seal re E))"

definition escape :: "run_edit_fn \<Rightarrow> document_id \<Rightarrow> unit wctl" where
  "escape re d = bindC (getC (\<lambda>w. owns w d)) (\<lambda>mine. whenC mine (discard re))"

definition backspace_in_order :: "run_edit_fn \<Rightarrow> document_id \<Rightarrow> unit wctl" where
  "backspace_in_order re d =
     bindC (getC (\<lambda>w. owns w d)) (\<lambda>mine. whenC (\<not> mine) (run re (Backspace_edit d)))"

section \<open>Candidates\<close>

definition candidates_opened :: "nat \<Rightarrow> unit wctl" where
  "candidates_opened entry =
     modC (upd_comp (\<lambda>c. c\<lparr>comp_candidates := lock_open entry (comp_candidates c)\<rparr>))"

definition ctrl_select_candidate :: "env \<Rightarrow> nat \<Rightarrow> nat \<Rightarrow> unit wctl" where
  "ctrl_select_candidate E entry index =
     bindC (getC composition) (\<lambda>oc.
       case oc of
         None \<Rightarrow> ret ()
       | Some c \<Rightarrow>
           bindC (evalC (\<lambda>_. select_candidate E (comp_buf c) entry index)) (\<lambda>r.
             modC (upd_buf (\<lambda>_. snd r))))"

definition candidate_finalized :: "run_edit_fn \<Rightarrow> env \<Rightarrow> document_id \<Rightarrow> unit wctl" where
  "candidate_finalized re E d =
     bindC (getC (\<lambda>w. live w d)) (\<lambda>oc.
       case oc of
         None \<Rightarrow> ret ()
       | Some _ \<Rightarrow> thenC (modC (upd_buf (\<lambda>b. snd (next_entry b)))) (update re E))"

definition candidates_closed :: "run_edit_fn \<Rightarrow> env \<Rightarrow> document_id \<Rightarrow> unit wctl" where
  "candidates_closed re E d =
     bindC (getC (\<lambda>w. live w d)) (\<lambda>oc.
       case oc of
         None \<Rightarrow> ret ()
       | Some c \<Rightarrow>
           thenC (modC (upd_comp (\<lambda>c. c\<lparr>comp_candidates := snd (lock_close (comp_candidates c))\<rparr>)))
           (case fst (lock_close (comp_candidates c)) of
              None \<Rightarrow> ret ()
            | Some (s, requested, converted) \<Rightarrow>
                (let r = merge_conversion (comp_buf c) s [requested] [converted] None in
                 thenC (modC (upd_buf (\<lambda>_. fst r)))
                   (whenC (changed (snd r)) (show_comp re E)))))"

section \<open>Conversion results\<close>

text \<open>In an edit.\<close>

definition render_now :: "env \<Rightarrow> unit wctl" where
  "render_now E =
     bindC (getC composition) (\<lambda>oc.
       case oc of
         None \<Rightarrow> ret ()
       | Some c \<Rightarrow>
           bindC (evalC (\<lambda>_. rendering_of E c)) (\<lambda>r.
             host_does (Render (comp_document c) (comp_epoch c) r)))"

definition apply_conversion :: "env \<Rightarrow> request \<Rightarrow> nat \<Rightarrow> pos list \<Rightarrow> unit wctl" where
  "apply_conversion E request s converted =
     bindC (getC composition) (\<lambda>oc.
       case oc of
         None \<Rightarrow> ret ()
       | Some c \<Rightarrow>
           (let r = merge_conversion (comp_buf c) s (req_snapshot request) converted
                      (lock_entry (comp_candidates c));
                c1 = c\<lparr>comp_buf := fst r\<rparr>;
                c2 = (case held (snd r) of
                        Some (req, out) \<Rightarrow> c1\<lparr>comp_candidates := lock_hold s req out (comp_candidates c1)\<rparr>
                      | None \<Rightarrow> c1);
                c3 = (if req_revision request = revision (comp_buf c2)
                      then c2\<lparr>comp_converted := Some (req_revision request)\<rparr> else c2) in
            thenC (modC (\<lambda>w. w\<lparr>composition := Some c3\<rparr>))
              (whenC (changed (snd r)) (render_now E))))"

definition backend_lost :: "run_edit_fn \<Rightarrow> unit wctl" where
  "backend_lost re =
     thenC (modC (\<lambda>w. w\<lparr>conversions := tracker_clear (conversions w)\<rparr>))
     (thenC (sealed_finish_locally re)
     (bindC (getC composition) (\<lambda>oc.
        case oc of
          None \<Rightarrow> ret ()
        | Some c \<Rightarrow>
            thenC (modC (upd_comp (\<lambda>c. c\<lparr>comp_sent := None\<rparr>)))
              (run re (Local_edit (comp_document c) (comp_epoch c))))))"

definition take_conversion :: "nat \<Rightarrow> request option wctl" where
  "take_conversion s =
     (\<lambda>w. (Inr (fst (take_request s (conversions w))),
           w\<lparr>conversions := snd (take_request s (conversions w))\<rparr>))"

definition on_conversion :: "run_edit_fn \<Rightarrow> conversion_result \<Rightarrow> unit wctl" where
  "on_conversion re result =
     bindC (take_conversion (result_sequence result)) (\<lambda>oreq.
       case oreq of
         None \<Rightarrow> ret ()
       | Some request \<Rightarrow>
           (case result_status result of
              Superseded \<Rightarrow> ret ()
            | BackendLost \<Rightarrow> backend_lost re
            | Converted \<Rightarrow>
                bindC (getC (\<lambda>w. live_epoch w (req_epoch request))) (\<lambda>oc.
                  case oc of
                    None \<Rightarrow>
                      sealed_on_conversion re (req_epoch request) (result_sequence result)
                        (req_snapshot request) (result_padding result)
                  | Some _ \<Rightarrow>
                      run re (Apply_edit request (result_sequence result) (result_padding result)))))"

definition document_closed :: "document_id \<Rightarrow> unit wctl" where
  "document_closed d =
     modC (\<lambda>w. forget d (if owns w d then w\<lparr>composition := None\<rparr> else w))"

definition ctrl_reset :: "unit wctl" where
  "ctrl_reset = modC (\<lambda>w. w\<lparr>composition := None\<rparr>)"

definition shutdown :: "run_edit_fn \<Rightarrow> env \<Rightarrow> unit wctl" where
  "shutdown re E =
     thenC (ctrl_set_backend False)
     (thenC (modC (\<lambda>w. w\<lparr>conversions := tracker_clear (conversions w)\<rparr>))
     (thenC (seal re E) (sealed_finish_locally re)))"

section \<open>The queued edits\<close>

definition exec_open :: "run_edit_fn \<Rightarrow> env \<Rightarrow> host \<Rightarrow> document_id \<Rightarrow> nat \<Rightarrow> bool \<Rightarrow> unit wctl" where
  "exec_open re E H d e prefill =
     bindC (getC (\<lambda>w. preceding_text H (calls w) d e)) (\<lambda>read.
     bindC (context_at_caret E H d) (\<lambda>sealed.
       let preceding = (case sealed of Some ctxt \<Rightarrow> ctxt | None \<Rightarrow> read) in
       thenC (whenC prefill (modC (\<lambda>w. w\<lparr>conversions := tracker_prefill preceding (conversions w)\<rparr>)))
         (context_ready re e preceding)))"

definition exec_show :: "env \<Rightarrow> document_id \<Rightarrow> nat \<Rightarrow> rendering \<Rightarrow> unit wctl" where
  "exec_show E d e ended =
     bindC (getC (\<lambda>w. live_epoch w e)) (\<lambda>oc.
       case oc of
         Some c \<Rightarrow> bindC (evalC (\<lambda>_. rendering_of E c)) (\<lambda>r. host_does (Render d e r))
       | None \<Rightarrow> host_does (Render d e ended))"

definition exec_apply :: "run_edit_fn \<Rightarrow> env \<Rightarrow> request \<Rightarrow> nat \<Rightarrow> pos list \<Rightarrow> unit wctl" where
  "exec_apply re E request s converted =
     bindC (getC (\<lambda>w. live_epoch w (req_epoch request))) (\<lambda>oc.
       case oc of
         Some _ \<Rightarrow> apply_conversion E request s converted
       | None \<Rightarrow> sealed_on_conversion re (req_epoch request) s (req_snapshot request) converted)"

definition exec_local :: "env \<Rightarrow> document_id \<Rightarrow> nat \<Rightarrow> unit wctl" where
  "exec_local E d e =
     bindC (getC (\<lambda>w. live_epoch w e)) (\<lambda>oc.
       case oc of
         None \<Rightarrow> ret ()
       | Some c \<Rightarrow>
           (let r = accept_local_candidates (comp_buf c) in
            thenC (modC (upd_comp (\<lambda>c. c\<lparr>comp_converted := Some (revision (comp_buf c)), comp_buf := snd r\<rparr>)))
              (whenC (fst r) (render_now E))))"

definition exec_backspace :: "run_edit_fn \<Rightarrow> host \<Rightarrow> document_id \<Rightarrow> unit wctl" where
  "exec_backspace re H d =
     bindC (erase_at_caret_sealed re H d) (\<lambda>erased.
       whenC (\<not> erased) (host_does (Erase_before_caret d)))"

definition exec_insert :: "host \<Rightarrow> document_id \<Rightarrow> u16string \<Rightarrow> unit wctl" where
  "exec_insert H d s =
     bindC (getC (\<lambda>w. document_open H (calls w) d)) (\<lambda>known. whenC known (host_does (Insert_at_caret d s)))"

text \<open>The edit of \<open>discard_recent_commit\<close>: the commit is taken back if the text before the caret still ends it.\<close>

definition exec_recheck :: "host \<Rightarrow> document_id \<Rightarrow> u16string \<Rightarrow> nat \<Rightarrow> unit wctl" where
  "exec_recheck H d tail token =
     bindC (getC (\<lambda>w. backend_attached (conversions w) \<and> text_before_caret H (calls w) d = tail)) (\<lambda>same.
       whenC same (host_does (Discard_commit token)))"

fun exec_edit :: "run_edit_fn \<Rightarrow> env \<Rightarrow> host \<Rightarrow> edit \<Rightarrow> unit wctl" where
  "exec_edit re E H (Open_edit d e prefill) = exec_open re E H d e prefill"
| "exec_edit re E H (Show_edit d e ended) = exec_show E d e ended"
| "exec_edit re E H (Commit_edit d e sample) =
     thenC (host_does (Commit d e))
       (case sample of Some s \<Rightarrow> host_does (Record_commit d e s) | None \<Rightarrow> ret ())"
| "exec_edit re E H (Discard_edit d e) = host_does (Discard d e)"
| "exec_edit re E H (Seal_edit d e) = thenC (host_does (Seal d e)) (sealed_placed re e)"
| "exec_edit re E H (Apply_edit request s converted) = exec_apply re E request s converted"
| "exec_edit re E H (Local_edit d e) = exec_local E d e"
| "exec_edit re E H (Backspace_edit d) = exec_backspace re H d"
| "exec_edit re E H (Write_edit d) = write_finished E H d"
| "exec_edit re E H (Insert_edit d s) = exec_insert H d s"
| "exec_edit re E H (Recheck_edit d tail token) = exec_recheck H d tail token"

section \<open>The edit queue of the text service\<close>

text \<open>
  \<open>run_edit\<close> of an edit that is already running: the edit goes to the end of the queue being
  run.  Edits only ever queue for their own document, so the case of another document, whose
  session the host grants later, does not arise.
\<close>

definition enqueue :: "document_id \<Rightarrow> edit \<Rightarrow> world \<Rightarrow> world" where
  "enqueue d e w = w\<lparr>queued_edits := (queued_edits w)(d := queued_edits w d @ [e])\<rparr>"

definition nested_run_edit :: "host \<Rightarrow> run_edit_fn" where
  "nested_run_edit H d e =
     bindC (getC (\<lambda>w. document_open H (calls w) d)) (\<lambda>known.
       if \<not> known then ret False
       else thenC (modC (enqueue d e)) (ret True))"

text \<open>
  \<open>run_queued\<close>: runs until the queue is empty, edits queued meanwhile included.  The number of
  turns is bounded by \<open>queue_fuel\<close>, since a running edit queues at most one edit more, which
  only writes finished text and queues none.
\<close>

fun edit_weight :: "edit \<Rightarrow> nat" where
  "edit_weight (Write_edit d) = 1"
| "edit_weight _ = 2"

definition queue_fuel :: "edit list \<Rightarrow> nat" where
  "queue_fuel es = sum_list (map edit_weight es)"

fun run_queued :: "env \<Rightarrow> host \<Rightarrow> document_id \<Rightarrow> nat \<Rightarrow> unit wctl" where
  "run_queued E H d 0 = ret ()"
| "run_queued E H d (Suc fuel) =
     bindC (getC (\<lambda>w. queued_edits w d)) (\<lambda>q.
       case q of
         [] \<Rightarrow> ret ()
       | e # es \<Rightarrow>
           thenC (modC (\<lambda>w. w\<lparr>queued_edits := (queued_edits w)(d := es)\<rparr>))
           (thenC (catchC (exec_edit (nested_run_edit H) E H e))
             (run_queued E H d fuel)))"

definition run_edits :: "env \<Rightarrow> host \<Rightarrow> document_id \<Rightarrow> unit wctl" where
  "run_edits E H d =
     bindC (getC active_edit) (\<lambda>outer.
     thenC (modC (\<lambda>w. w\<lparr>active_edit := Some d\<rparr>))
     (thenC (bindC (getC (\<lambda>w. queue_fuel (queued_edits w d))) (run_queued E H d))
       (modC (\<lambda>w. w\<lparr>active_edit := outer\<rparr>))))"

definition run_edit :: "env \<Rightarrow> host \<Rightarrow> run_edit_fn" where
  "run_edit E H d e =
     bindC (getC (\<lambda>w. document_open H (calls w) d)) (\<lambda>known.
       if \<not> known then ret False
       else
         thenC (modC (enqueue d e))
         (bindC (getC (\<lambda>w. active_edit w \<noteq> Some d \<and> grants_at_once H (calls w) d)) (\<lambda>granted.
           thenC (whenC granted (run_edits E H d)) (ret True))))"

text \<open>Text typed outside a composition goes through the same queue.\<close>

definition insert_text :: "run_edit_fn \<Rightarrow> document_id \<Rightarrow> u16string \<Rightarrow> unit wctl" where
  "insert_text re d s = whenC (s \<noteq> []) (run re (Insert_edit d s))"

section \<open>What happens on the thread\<close>

datatype event =
    Type_reading document_id char16
  | Type_text document_id u16string
  | Discard_reading document_id
  | Backspace document_id
  | Move_caret document_id bool bool
  | Enter document_id
  | Escape document_id
  | Backspace_in_order document_id
  | Candidates_opened nat
  | Select_candidate nat nat
  | Candidate_finalized document_id
  | Candidates_closed document_id
  | On_conversion conversion_result
  | Seal_open
  | Document_closed document_id
  | Reset
  | Shutdown
  | Set_immediate_conversion bool
  | Set_backend bool
  | Insert_text document_id u16string
  | Recheck_commit document_id u16string nat
  | Granted document_id
  | Host_event nat

fun handle :: "env \<Rightarrow> host \<Rightarrow> event \<Rightarrow> unit wctl" where
  "handle E H (Type_reading d c) = type_reading (run_edit E H) E d c"
| "handle E H (Type_text d s) = type_text (run_edit E H) E d s"
| "handle E H (Discard_reading d) = bindC (discard_reading (run_edit E H) E d) (\<lambda>_. ret ())"
| "handle E H (Backspace d) = backspace (run_edit E H) E d"
| "handle E H (Move_caret d forward to_edge) = move_caret (run_edit E H) E d forward to_edge"
| "handle E H (Enter d) = enter (run_edit E H) E d"
| "handle E H (Escape d) = escape (run_edit E H) d"
| "handle E H (Backspace_in_order d) = backspace_in_order (run_edit E H) d"
| "handle E H (Candidates_opened e) = candidates_opened e"
| "handle E H (Select_candidate e k) = ctrl_select_candidate E e k"
| "handle E H (Candidate_finalized d) = candidate_finalized (run_edit E H) E d"
| "handle E H (Candidates_closed d) = candidates_closed (run_edit E H) E d"
| "handle E H (On_conversion r) = on_conversion (run_edit E H) r"
| "handle E H Seal_open = seal (run_edit E H) E"
| "handle E H (Document_closed d) =
     thenC (document_closed d) (modC (\<lambda>w. w\<lparr>queued_edits := (queued_edits w)(d := [])\<rparr>))"
| "handle E H Reset = ctrl_reset"
| "handle E H Shutdown = shutdown (run_edit E H) E"
| "handle E H (Set_immediate_conversion b) = ctrl_set_immediate_conversion b"
| "handle E H (Set_backend b) = ctrl_set_backend b"
| "handle E H (Insert_text d s) = insert_text (run_edit E H) d s"
| "handle E H (Recheck_commit d tail token) = run (run_edit E H) (Recheck_edit d tail token)"
| "handle E H (Granted d) = run_edits E H d"
| "handle E H (Host_event n) = host_does (Outside n)"

end
