(* ===== verification/Controller_Invariant.thy ===== *)
theory Controller_Invariant
  imports Controller
begin

text \<open>
  The invariant of the composition controller and its proof.  Every buffer the controller holds, of
  the open composition or of a sealed segment, is listed by \<open>bufs\<close> under its epoch and document;
  \<open>derives w w'\<close> says that the buffers of \<open>w'\<close> with an epoch known in \<open>w\<close> came from those of \<open>w\<close>.
  The locale \<open>edit_runner\<close> is the contract of \<open>run_edit\<close>; the operations are proved once against
  it, for the runner inside an edit and for the one of the text service.
\<close>

section \<open>The invariant\<close>

definition bufs :: "world \<Rightarrow> (nat \<times> document_id \<times> comp_buffer) list" where
  "bufs w = (case composition w of Some c \<Rightarrow> [(comp_epoch c, comp_document c, comp_buf c)] | None \<Rightarrow> []) @
            map (\<lambda>g. (seg_epoch g, seg_document g, seg_buffer g)) (segments w)"

definition derives :: "world \<Rightarrow> world \<Rightarrow> bool" where
  "derives w w' \<longleftrightarrow> next_epoch w \<le> next_epoch w' \<and>
     (\<forall>e d b'. (e, d, b') \<in> set (bufs w') \<longrightarrow> e < next_epoch w \<longrightarrow>
        (\<exists>b. (e, d, b) \<in> set (bufs w) \<and> evolves b b'))"

definition epoch_at :: "world \<Rightarrow> nat \<Rightarrow> document_id \<Rightarrow> bool" where
  "epoch_at w e d \<longleftrightarrow> e < next_epoch w \<and> (\<forall>d' b. (e, d', b) \<in> set (bufs w) \<longrightarrow> d' = d)"

definition request_ok :: "world \<Rightarrow> request \<Rightarrow> bool" where
  "request_ok w r \<longleftrightarrow> epoch_at w (req_epoch r) (req_document r) \<and>
     (\<forall>d b. (req_epoch r, d, b) \<in> set (bufs w) \<longrightarrow> composed_in b (req_snapshot r))"

definition results_ok :: "env \<Rightarrow> pos list \<Rightarrow> bool" where
  "results_ok E outs \<longleftrightarrow> (\<forall>out \<in> set outs. usable out \<longrightarrow> result_ok E out)"

fun edit_ok :: "env \<Rightarrow> world \<Rightarrow> edit \<Rightarrow> bool" where
  "edit_ok E w (Open_edit d e prefill) = epoch_at w e d"
| "edit_ok E w (Show_edit d e r) = epoch_at w e d"
| "edit_ok E w (Commit_edit d e s) = True"
| "edit_ok E w (Discard_edit d e) = True"
| "edit_ok E w (Seal_edit d e) = epoch_at w e d"
| "edit_ok E w (Apply_edit r s outs) = (request_ok w r \<and> results_ok E outs)"
| "edit_ok E w (Local_edit d e) = epoch_at w e d"
| "edit_ok E w (Backspace_edit d) = True"
| "edit_ok E w (Write_edit d) = True"
| "edit_ok E w (Insert_edit d s) = True"
| "edit_ok E w (Recheck_edit d s n) = True"

definition held_ok :: "env \<Rightarrow> composition \<Rightarrow> bool" where
  "held_ok E c \<longleftrightarrow> (\<forall>s r out. lock_held (comp_candidates c) = Some (s, r, out) \<longrightarrow>
     composed_in (comp_buf c) [r] \<and> results_ok E [out])"

definition winv :: "env \<Rightarrow> world \<Rightarrow> bool" where
  "winv E w \<longleftrightarrow>
     (\<forall>e d b. (e, d, b) \<in> set (bufs w) \<longrightarrow> e < next_epoch w \<and> buf_wf E b) \<and>
     distinct (map fst (bufs w)) \<and>
     (\<forall>c. composition w = Some c \<longrightarrow> held_ok E c) \<and>
     tracker_wf (conversions w) \<and>
     (\<forall>s r. pending_requests (conversions w) s = Some r \<longrightarrow> request_ok w r) \<and>
     (\<forall>d e. e \<in> set (queued_edits w d) \<longrightarrow> edit_document e = d \<and> edit_ok E w e)"

lemma winvI:
  assumes "\<And>e d b. (e, d, b) \<in> set (bufs w) \<Longrightarrow> e < next_epoch w \<and> buf_wf E b"
    and "distinct (map fst (bufs w))"
    and "\<And>c. composition w = Some c \<Longrightarrow> held_ok E c"
    and "tracker_wf (conversions w)"
    and "\<And>s r. pending_requests (conversions w) s = Some r \<Longrightarrow> request_ok w r"
    and "\<And>d e. e \<in> set (queued_edits w d) \<Longrightarrow> edit_document e = d \<and> edit_ok E w e"
  shows "winv E w"
  using assms by (simp add: winv_def)

lemma winvD:
  assumes "winv E w"
  shows "(e, d, b) \<in> set (bufs w) \<Longrightarrow> e < next_epoch w" "(e, d, b) \<in> set (bufs w) \<Longrightarrow> buf_wf E b"
    "distinct (map fst (bufs w))" "composition w = Some c \<Longrightarrow> held_ok E c" "tracker_wf (conversions w)"
    "pending_requests (conversions w) s = Some r \<Longrightarrow> request_ok w r"
    "x \<in> set (queued_edits w d) \<Longrightarrow> edit_document x = d \<and> edit_ok E w x"
  using assms by (auto simp: winv_def)

lemma new_world_winv: "winv E new_world"
  by (rule winvI) (simp_all add: new_world_def bufs_def new_tracker_wf, simp_all add: new_tracker_def)

lemma bufs_compI [intro]: "composition w = Some c \<Longrightarrow> (comp_epoch c, comp_document c, comp_buf c) \<in> set (bufs w)"
  by (simp add: bufs_def)

lemma bufs_segI [intro]: "g \<in> set (segments w) \<Longrightarrow> (seg_epoch g, seg_document g, seg_buffer g) \<in> set (bufs w)"
  by (simp add: bufs_def)

lemma winv_comp:
  assumes "winv E w" "composition w = Some c"
  shows "buf_wf E (comp_buf c)" "comp_epoch c < next_epoch w"
  by (rule winvD(2) [OF assms(1) bufs_compI [OF assms(2)]], rule winvD(1) [OF assms(1) bufs_compI [OF assms(2)]])

lemma winv_seg:
  assumes "winv E w" "g \<in> set (segments w)"
  shows "buf_wf E (seg_buffer g)" "seg_epoch g < next_epoch w"
  by (rule winvD(2) [OF assms(1) bufs_segI [OF assms(2)]], rule winvD(1) [OF assms(1) bufs_segI [OF assms(2)]])

lemma bufs_epoch_unique:
  assumes "winv E w" "(e, d, b) \<in> set (bufs w)" "(e, d', b') \<in> set (bufs w)"
  shows "d = d' \<and> b = b'"
  using winvD(3) [OF assms(1)] assms(2,3) by (metis eq_key_imp_eq_value prod.inject)

lemma epoch_at_comp: "winv E w \<Longrightarrow> composition w = Some c \<Longrightarrow> epoch_at w (comp_epoch c) (comp_document c)"
  unfolding epoch_at_def using winvD(1) bufs_epoch_unique bufs_compI by metis

lemma epoch_at_seg: "winv E w \<Longrightarrow> g \<in> set (segments w) \<Longrightarrow> epoch_at w (seg_epoch g) (seg_document g)"
  unfolding epoch_at_def using winvD(1) bufs_epoch_unique bufs_segI by metis

section \<open>Derivation\<close>

lemma derives_refl [simp]: "derives w w"
  by (auto simp: derives_def)

lemma derives_trans:
  assumes 1: "derives u v" and 2: "derives v w"
  shows "derives u w"
  unfolding derives_def
proof (intro conjI allI impI)
  show "next_epoch u \<le> next_epoch w" using 1 2 by (simp add: derives_def)
  fix e d b assume b: "(e, d, b) \<in> set (bufs w)" "e < next_epoch u"
  then have "e < next_epoch v" using 1 by (simp add: derives_def)
  with b(1) 2 obtain b1 where b1: "(e, d, b1) \<in> set (bufs v)" "evolves b1 b" unfolding derives_def by blast
  with b(2) 1 obtain b2 where "(e, d, b2) \<in> set (bufs u)" "evolves b2 b1" unfolding derives_def by blast
  with b1 show "\<exists>b2. (e, d, b2) \<in> set (bufs u) \<and> evolves b2 b" by (blast intro: evolves_trans)
qed

lemma derives_epoch_at: "derives w w' \<Longrightarrow> epoch_at w e d \<Longrightarrow> epoch_at w' e d"
  unfolding derives_def epoch_at_def by (blast intro: order_less_le_trans)

lemma derives_request_ok:
  assumes dv: "derives w w'" and r: "request_ok w r"
  shows "request_ok w' r"
  unfolding request_ok_def
proof (intro conjI allI impI)
  show "epoch_at w' (req_epoch r) (req_document r)"
    using derives_epoch_at [OF dv] r by (simp add: request_ok_def)
  fix d b' assume b': "(req_epoch r, d, b') \<in> set (bufs w')"
  have "req_epoch r < next_epoch w" using r by (simp add: request_ok_def epoch_at_def)
  with dv b' obtain b where "(req_epoch r, d, b) \<in> set (bufs w)" "evolves b b'"
    unfolding derives_def by blast
  with r show "composed_in b' (req_snapshot r)"
    unfolding request_ok_def by (blast intro: evolves_composed_in)
qed

lemma derives_edit_ok: "derives w w' \<Longrightarrow> edit_ok E w e \<Longrightarrow> edit_ok E w' e"
  by (cases e) (auto intro: derives_epoch_at derives_request_ok)

text \<open>
  The one rule for changing the state: the buffers of the new state derive from the old ones,
  and what is pending or queued in the new state was so before or is shown to be right.
\<close>

lemma winv_change:
  assumes w: "winv E w" and dv: "derives w w'"
    and bufs: "\<And>e d b. (e, d, b) \<in> set (bufs w') \<Longrightarrow> e < next_epoch w' \<and> buf_wf E b"
    and dist: "distinct (map fst (bufs w'))"
    and held: "\<And>c. composition w' = Some c \<Longrightarrow> held_ok E c"
    and track: "tracker_wf (conversions w')"
    and pend: "\<And>s r. pending_requests (conversions w') s = Some r \<Longrightarrow>
      pending_requests (conversions w) s = Some r \<or> request_ok w' r"
    and queue: "\<And>d e. e \<in> set (queued_edits w' d) \<Longrightarrow> e \<in> set (queued_edits w d) \<or> edit_document e = d \<and> edit_ok E w' e"
  shows "winv E w'"
proof (rule winvI)
  show "request_ok w' r" if "pending_requests (conversions w') s = Some r" for s r
    using pend [OF that] winvD(6) [OF w] derives_request_ok [OF dv] by blast
  show "edit_document e = d \<and> edit_ok E w' e" if "e \<in> set (queued_edits w' d)" for d e
    using queue [OF that] winvD(7) [OF w] derives_edit_ok [OF dv] by blast
qed (use assms in auto)

definition inv_from :: "env \<Rightarrow> ((document_id \<Rightarrow> edit list) \<Rightarrow> bool) \<Rightarrow> world \<Rightarrow> world \<Rightarrow> bool" where
  "inv_from E J w0 w \<longleftrightarrow> winv E w \<and> derives w0 w \<and> J (queued_edits w)"

lemma inv_fromD [dest]: "inv_from E J w0 w \<Longrightarrow> winv E w" "inv_from E J w0 w \<Longrightarrow> derives w0 w"
  by (simp_all add: inv_from_def)

lemma inv_from_step:
  assumes "inv_from E J w0 w" "winv E w'" "derives w w'" "queued_edits w' = queued_edits w"
  shows "inv_from E J w0 w'"
  using assms derives_trans by (auto simp: inv_from_def)

section \<open>Elementary changes\<close>

lemma derives_same_bufs: "bufs w' = bufs w \<Longrightarrow> next_epoch w' = next_epoch w \<Longrightarrow> derives w w'"
  by (auto simp: derives_def)

text \<open>Changes that leave buffers, requests and queues alone.\<close>

lemma winv_same:
  assumes "winv E w" "bufs w' = bufs w" "next_epoch w' = next_epoch w"
    "\<And>c. composition w' = Some c \<Longrightarrow> held_ok E c"
    "tracker_wf (conversions w')"
    "\<And>s r. pending_requests (conversions w') s = Some r \<Longrightarrow> pending_requests (conversions w) s = Some r"
    "\<And>d. set (queued_edits w' d) \<subseteq> set (queued_edits w d)"
  shows "winv E w'"
proof (rule winv_change [OF assms(1) derives_same_bufs [OF assms(2,3)]])
  show "e \<in> set (queued_edits w d) \<or> edit_document e = d \<and> edit_ok E w' e" if "e \<in> set (queued_edits w' d)" for d e
    using assms(7) that by blast
qed (use assms(2-6) winvD [OF assms(1)] in auto)

lemma winv_calls:
  assumes "winv E w"
  shows "winv E (w\<lparr>calls := x\<rparr>)" "derives w (w\<lparr>calls := x\<rparr>)"
  using assms by (auto intro!: winv_same [OF assms] derives_same_bufs simp: bufs_def winvD)

lemma winv_active:
  assumes "winv E w"
  shows "winv E (w\<lparr>active_edit := x\<rparr>)" "derives w (w\<lparr>active_edit := x\<rparr>)"
  using assms by (auto intro!: winv_same [OF assms] derives_same_bufs simp: bufs_def winvD)

lemma winv_immediate:
  assumes "winv E w"
  shows "winv E (w\<lparr>immediate_conversion := x\<rparr>)" "derives w (w\<lparr>immediate_conversion := x\<rparr>)"
  using assms by (auto intro!: winv_same [OF assms] derives_same_bufs simp: bufs_def winvD)

lemma winv_conversions:
  assumes "winv E w" "tracker_wf t"
    "\<And>s r. pending_requests t s = Some r \<Longrightarrow> pending_requests (conversions w) s = Some r"
  shows "winv E (w\<lparr>conversions := t\<rparr>)" "derives w (w\<lparr>conversions := t\<rparr>)"
  using assms by (auto intro!: winv_same [OF assms(1)] derives_same_bufs simp: bufs_def winvD)

lemma winv_enqueue:
  assumes "winv E w" "edit_ok E w e" "edit_document e = d"
  shows "winv E (enqueue d e w)" "derives w (enqueue d e w)"
proof -
  show dv: "derives w (enqueue d e w)" by (rule derives_same_bufs) (simp_all add: enqueue_def bufs_def)
  then have "edit_ok E (enqueue d e w) e" using assms(2) by (rule derives_edit_ok)
  then show "winv E (enqueue d e w)"
    using winvD [OF assms(1)] assms(3)
    by (intro winv_change [OF assms(1) dv]) (auto simp: enqueue_def bufs_def split: if_splits)
qed

lemma winv_dequeue:
  assumes "winv E w" "set es \<subseteq> set (queued_edits w d)"
  shows "winv E (w\<lparr>queued_edits := (queued_edits w)(d := es)\<rparr>)"
    "derives w (w\<lparr>queued_edits := (queued_edits w)(d := es)\<rparr>)"
  using assms by (auto intro!: winv_same [OF assms(1)] derives_same_bufs simp: bufs_def winvD split: if_splits)

lemma winv_send:
  assumes "winv E w" "request_ok w r"
  shows "winv E (w\<lparr>conversions := snd (send r ctxt (conversions w))\<rparr>)"
    "derives w (w\<lparr>conversions := snd (send r ctxt (conversions w))\<rparr>)"
proof -
  let ?w = "w\<lparr>conversions := snd (send r ctxt (conversions w))\<rparr>"
  show dv: "derives w ?w" by (rule derives_same_bufs) (simp_all add: bufs_def)
  have "pending_requests (conversions ?w) s = Some r' \<Longrightarrow>
      pending_requests (conversions w) s = Some r' \<or> r' = r" for s r'
    by (auto simp: send_def Let_def split: if_splits)
  then show "winv E ?w"
    using winvD [OF assms(1)] derives_request_ok [OF dv assms(2)]
    by (intro winv_change [OF assms(1) dv]) (auto simp: bufs_def intro: send_wf)
qed

text \<open>Changing the open composition, its epoch and document staying.\<close>

lemma winv_comp_change:
  assumes w: "winv E w" and c: "composition w = Some c"
    and same: "comp_epoch c' = comp_epoch c" "comp_document c' = comp_document c"
    and buf: "buf_wf E (comp_buf c')" "evolves (comp_buf c) (comp_buf c')"
    and held: "held_ok E c'"
  shows "winv E (w\<lparr>composition := Some c'\<rparr>)" "derives w (w\<lparr>composition := Some c'\<rparr>)"
proof -
  let ?w = "w\<lparr>composition := Some c'\<rparr>"
  have bw: "bufs w = (comp_epoch c, comp_document c, comp_buf c) # map (\<lambda>g. (seg_epoch g, seg_document g, seg_buffer g)) (segments w)"
    by (simp add: bufs_def c)
  have bw': "bufs ?w = (comp_epoch c, comp_document c, comp_buf c') # map (\<lambda>g. (seg_epoch g, seg_document g, seg_buffer g)) (segments w)"
    by (simp add: bufs_def same)
  show dv: "derives w ?w"
    unfolding derives_def bw bw' using buf(2) by (auto intro: evolves_refl)
  show "winv E ?w"
  proof (rule winv_change [OF w dv])
    show "e < next_epoch ?w \<and> buf_wf E b" if "(e, d, b) \<in> set (bufs ?w)" for e d b
      using that winvD(1,2) [OF w, of e d b] winvD(1) [OF w, of e d "comp_buf c"] buf(1)
      unfolding bw bw' by auto
    show "distinct (map fst (bufs ?w))" using winvD(3) [OF w] unfolding bw bw' by simp
  qed (use held winvD [OF w] in auto)
qed

lemma held_ok_evolves:
  assumes "held_ok E c" "evolves (comp_buf c) (comp_buf c')" "comp_candidates c' = comp_candidates c"
  shows "held_ok E c'"
  using assms unfolding held_ok_def by (metis evolves_composed_in)

lemma winv_upd_comp:
  assumes w: "winv E w"
    and f: "\<And>c. composition w = Some c \<Longrightarrow>
      comp_epoch (f c) = comp_epoch c \<and> comp_document (f c) = comp_document c \<and>
      buf_wf E (comp_buf (f c)) \<and> evolves (comp_buf c) (comp_buf (f c)) \<and> held_ok E (f c)"
  shows "winv E (upd_comp f w)" "derives w (upd_comp f w)"
proof -
  have "winv E (upd_comp f w) \<and> derives w (upd_comp f w)"
  proof (cases "composition w")
    case None
    then have "upd_comp f w = w" by (simp add: upd_comp_def)
    then show ?thesis using w by simp
  next
    case (Some c)
    have "upd_comp f w = w\<lparr>composition := Some (f c)\<rparr>" by (simp add: upd_comp_def Some)
    with winv_comp_change [OF w Some] f [OF Some] show ?thesis by metis
  qed
  then show "winv E (upd_comp f w)" "derives w (upd_comp f w)" by blast+
qed

lemma winv_upd_flags:
  assumes "winv E w" "\<And>c. comp_epoch (f c) = comp_epoch c \<and> comp_document (f c) = comp_document c \<and>
    comp_buf (f c) = comp_buf c \<and> comp_candidates (f c) = comp_candidates c"
  shows "winv E (upd_comp f w)" "derives w (upd_comp f w)"
  by (rule winv_upd_comp [OF assms(1)];
      use assms(2) winvD(4) [OF assms(1)] winv_comp [OF assms(1)] in \<open>simp add: held_ok_def\<close>)+

lemma winv_upd_buf:
  assumes w: "winv E w"
    and f: "\<And>c. composition w = Some c \<Longrightarrow> buf_wf E (f (comp_buf c)) \<and> evolves (comp_buf c) (f (comp_buf c))"
  shows "winv E (upd_buf f w)" "derives w (upd_buf f w)"
  unfolding upd_buf_def
  by (rule winv_upd_comp [OF w]; use f winvD(4) [OF w] in \<open>auto intro: held_ok_evolves\<close>)+

lemma winv_close:
  assumes w: "winv E w"
  shows "winv E (w\<lparr>composition := None\<rparr>)" "derives w (w\<lparr>composition := None\<rparr>)"
proof -
  let ?w = "w\<lparr>composition := None\<rparr>"
  have sub: "set (bufs ?w) \<subseteq> set (bufs w)" and dist: "distinct (map fst (bufs ?w))"
    using winvD(3) [OF w] by (auto simp: bufs_def split: option.splits)
  show dv: "derives w ?w" unfolding derives_def using sub by (auto intro: evolves_refl)
  show "winv E ?w"
    by (rule winv_change [OF w dv _ dist]) (use sub winvD [OF w] in auto)
qed

lemma winv_open:
  fixes d :: document_id and i :: bool
  assumes w: "winv E w" "composition w = None"
  defines "w' \<equiv> w\<lparr>next_epoch := next_epoch w + 1, composition := Some (new_composition (next_epoch w) d i)\<rparr>"
  shows "winv E w'" "derives w w'"
proof -
  have b: "bufs w' = (next_epoch w, d, set_immediate_conversion i new_buffer) # bufs w"
    by (simp add: bufs_def w'_def w(2) new_composition_def)
  have fresh: "e < next_epoch w" if "(e, d, b) \<in> set (bufs w)" for e d b
    using winvD(1) [OF w(1) that] .
  show dv: "derives w w'"
    unfolding derives_def b by (auto simp: w'_def intro: evolves_refl)
  show "winv E w'"
  proof (rule winv_change [OF w(1) dv])
    show "distinct (map fst (bufs w'))" using winvD(3) [OF w(1)] fresh unfolding b by fastforce
    show "e < next_epoch w' \<and> buf_wf E b" if "(e, d, b) \<in> set (bufs w')" for e d b
      using that fresh [of e d b] winvD(2) [OF w(1), of e d b] unfolding b
      by (auto simp: w'_def intro: set_immediate_conversion_wf new_buffer_wf)
  qed (use winvD [OF w(1)] in \<open>auto simp: w'_def new_composition_def held_ok_def new_lock_def\<close>)
qed

text \<open>Changing the sealed segments, each keeping its epoch and document.\<close>

definition seg_evolves :: "env \<Rightarrow> segment \<Rightarrow> segment \<Rightarrow> bool" where
  "seg_evolves E g g' \<longleftrightarrow> seg_epoch g' = seg_epoch g \<and> seg_document g' = seg_document g \<and>
     buf_wf E (seg_buffer g') \<and> evolves (seg_buffer g) (seg_buffer g')"

lemma winv_segments:
  assumes w: "winv E w"
    and gs: "\<And>g'. g' \<in> set gs \<Longrightarrow> \<exists>g \<in> set (segments w). seg_evolves E g g'"
    and dist: "distinct (map seg_epoch gs)"
  shows "winv E (w\<lparr>segments := gs\<rparr>)" "derives w (w\<lparr>segments := gs\<rparr>)"
proof -
  let ?w = "w\<lparr>segments := gs\<rparr>"
  have origin: "\<exists>b. (e, d, b) \<in> set (bufs w) \<and> (b' = b \<or> buf_wf E b' \<and> evolves b b')"
    if mem: "(e, d, b') \<in> set (bufs ?w)" for e d b'
  proof (cases "\<exists>c. composition w = Some c \<and> (e, d, b') = (comp_epoch c, comp_document c, comp_buf c)")
    case True
    then show ?thesis by (auto simp: bufs_def)
  next
    case False
    then obtain g' where g': "g' \<in> set gs" "e = seg_epoch g'" "d = seg_document g'" "b' = seg_buffer g'"
      using mem by (auto simp: bufs_def split: option.splits)
    from gs [OF this(1)] obtain g where "g \<in> set (segments w)" "seg_evolves E g g'" by blast
    with g' bufs_segI [of g w] show ?thesis by (intro exI [of _ "seg_buffer g"]) (auto simp: seg_evolves_def)
  qed
  show dv: "derives w ?w"
    unfolding derives_def
  proof (intro conjI allI impI)
    fix e d b' assume "(e, d, b') \<in> set (bufs ?w)"
    from origin [OF this] show "\<exists>b. (e, d, b) \<in> set (bufs w) \<and> evolves b b'" using evolves_refl by blast
  qed simp
  show "winv E ?w"
  proof (rule winv_change [OF w dv])
    show "e < next_epoch ?w \<and> buf_wf E b" if "(e, d, b) \<in> set (bufs ?w)" for e d b
      using origin [OF that] winvD(1,2) [OF w, of e d] by auto
    have "seg_epoch g' \<noteq> comp_epoch c" if "composition w = Some c" "g' \<in> set gs" for c g'
      using winvD(3) [OF w] gs [OF that(2)] that(1) by (auto simp: bufs_def seg_evolves_def image_iff)
    then show "distinct (map fst (bufs ?w))"
      using dist by (auto simp: bufs_def comp_def split: option.splits) metis
  qed (use winvD [OF w] in auto)
qed

lemma winv_epochs_distinct: "winv E w \<Longrightarrow> distinct (map seg_epoch (segments w))"
  using winvD(3) [of E w] by (simp add: bufs_def comp_def)

lemma seg_evolves_refl: "winv E w \<Longrightarrow> g \<in> set (segments w) \<Longrightarrow> seg_evolves E g g"
  by (simp add: seg_evolves_def winv_seg)

lemma winv_upd_segment:
  assumes w: "winv E w" and i: "i < length (segments w)"
    and f: "seg_evolves E (segments w ! i) (f (segments w ! i))"
  shows "winv E (w\<lparr>segments := (segments w)[i := f (segments w ! i)]\<rparr>)"
    "derives w (w\<lparr>segments := (segments w)[i := f (segments w ! i)]\<rparr>)"
proof -
  have 1: "\<exists>g \<in> set (segments w). seg_evolves E g g'"
    if "g' \<in> set ((segments w)[i := f (segments w ! i)])" for g'
  proof -
    from that have "g' = f (segments w ! i) \<or> g' \<in> set (segments w)"
      using set_update_subset_insert by fast
    then show ?thesis using f i seg_evolves_refl [OF w] by (metis nth_mem)
  qed
  have "map seg_epoch ((segments w)[i := f (segments w ! i)]) = map seg_epoch (segments w)"
    using f i by (simp add: map_update seg_evolves_def list_update_same_conv)
  then have 2: "distinct (map seg_epoch ((segments w)[i := f (segments w ! i)]))"
    using winv_epochs_distinct [OF w] by metis
  show "winv E (w\<lparr>segments := (segments w)[i := f (segments w ! i)]\<rparr>)"
    "derives w (w\<lparr>segments := (segments w)[i := f (segments w ! i)]\<rparr>)"
    using winv_segments [OF w 1 2] by blast+
qed

lemma winv_fewer_segments:
  assumes w: "winv E w" and gs: "set gs \<subseteq> set (segments w)" "distinct (map seg_epoch gs)"
  shows "winv E (w\<lparr>segments := gs\<rparr>)" "derives w (w\<lparr>segments := gs\<rparr>)"
  by (rule winv_segments [OF w _ gs(2)]; use gs(1) seg_evolves_refl [OF w] in blast)+

lemma winv_forget:
  assumes "winv E w"
  shows "winv E (forget d w)" "derives w (forget d w)"
  unfolding forget_def
  by (rule winv_fewer_segments [OF assms]; use winv_epochs_distinct [OF assms] in \<open>auto simp: distinct_map_filter\<close>)+

lemma winv_erase_segment:
  assumes "winv E w"
  shows "winv E (w\<lparr>segments := list_erase i (segments w)\<rparr>)"
    "derives w (w\<lparr>segments := list_erase i (segments w)\<rparr>)"
  by (rule winv_fewer_segments [OF assms set_list_erase_subset];
      simp add: map_list_erase distinct_list_erase winv_epochs_distinct [OF assms])+

text \<open>What segments do to their buffers.\<close>

lemma seg_stage_evolves:
  assumes "winv E w" "g \<in> set (segments w)"
  shows "seg_evolves E g (seg_await s g)" "seg_evolves E g (seg_placed g)"
    "seg_evolves E g (seg_set_preceding p g)" "seg_evolves E g (seg_finish_locally g)"
    "seg_evolves E g (seg_erase_last g)"
  using winv_seg [OF assms]
  by (simp_all add: seg_evolves_def seg_await_def seg_placed_def seg_set_preceding_def
      seg_finish_locally_def seg_erase_last_def Let_def accept_local_candidates_evolves wf_intros)

lemma seg_merge_evolves:
  assumes "winv E w" "g \<in> set (segments w)" "request_ok w r" "seg_epoch g = req_epoch r" "results_ok E outs"
  shows "seg_evolves E g (seg_merge s (req_snapshot r) outs g)"
proof -
  have "composed_in (seg_buffer g) (req_snapshot r)"
    using assms(2-4) bufs_segI [of g w] unfolding request_ok_def by metis
  then have "buf_wf E (fst (merge_conversion (seg_buffer g) s (req_snapshot r) outs None))"
    using assms(5) by (intro merge_conversion_wf winv_seg(1) [OF assms(1,2)]) (auto simp: results_ok_def)
  then show ?thesis
    using merge_conversion_evolves [OF winv_seg(1) [OF assms(1,2)]]
    by (auto simp: seg_evolves_def seg_merge_def Let_def split: stage.splits)
qed

text \<open>Moving a buffer from the open composition to a new segment.\<close>

lemma winv_seal_move:
  assumes w: "winv E w" and c: "composition w = Some c"
    and g: "seg_epoch g = comp_epoch c" "seg_document g = comp_document c" "seg_buffer g = comp_buf c"
  shows "winv E (w\<lparr>composition := None, segments := segments w @ [g]\<rparr>)"
    "derives w (w\<lparr>composition := None, segments := segments w @ [g]\<rparr>)"
proof -
  let ?w = "w\<lparr>composition := None, segments := segments w @ [g]\<rparr>"
  have s: "set (bufs ?w) = set (bufs w)" by (auto simp: bufs_def c g)
  show dv: "derives w ?w" unfolding derives_def s by (auto intro: evolves_refl)
  have "distinct (map fst (bufs ?w))"
    using winvD(3) [OF w] by (auto simp: bufs_def c g)
  then show "winv E ?w"
    by (intro winv_change [OF w dv]) (use winvD [OF w] s in auto)
qed


section \<open>Renderings\<close>

lemma rendering_total: "buf_wf E (comp_buf c) \<Longrightarrow> \<exists>r. rendering_of E c = Inr r"
  using to_string_total caret_offset_total current_invalid_span_total
  by (fastforce simp: rendering_of_def)

lemma new_segment_total:
  assumes "buf_wf E b"
  shows "\<exists>g. new_segment E e d b p = Inr g"
    and "new_segment E e d b p = Inr g \<Longrightarrow> seg_epoch g = e \<and> seg_document g = d \<and> seg_buffer g = b"
  using to_string_total [OF assms] by (auto simp: new_segment_def)

definition seg_inv ::
  "env \<Rightarrow> ((document_id \<Rightarrow> edit list) \<Rightarrow> bool) \<Rightarrow> (document_id \<Rightarrow> bool) \<Rightarrow> world \<Rightarrow> nat \<Rightarrow> world \<Rightarrow> bool"
where
  "seg_inv E J may w0 i w \<longleftrightarrow>
     inv_from E J w0 w \<and> i < length (segments w) \<and> may (seg_document (segments w ! i))"

lemma seg_invD: "seg_inv E J may w0 i w \<Longrightarrow> inv_from E J w0 w"
  by (simp add: seg_inv_def)

lemma write_segment_segments: "segments (snd (write_segment E H g w)) = segments w"
  by (simp add: write_segment_def Let_def bindC_def thenC_def getC_def evalC_def whenC_def ret_def
      host_does_def modC_def split: sum.splits option.splits)

lemma seg_text_total: "buf_wf E (seg_buffer g) \<Longrightarrow> \<exists>s. seg_text E g = Inr s"
proof -
  assume wf: "buf_wf E (seg_buffer g)"
  have "\<exists>ss. mapR (current E) (seg_kept g) = Inr ss"
    using mapR_current_total [of "seg_kept g" E] buf_wfD(4) [OF wf]
    by (auto simp: seg_kept_def Let_def dest: in_set_takeD)
  then show ?thesis by (auto simp: seg_text_def)
qed

section \<open>The contract of run_edit\<close>

text \<open>
  A runner keeps the invariant when given an edit that fits the state, for a document it may be
  asked for; \<open>J\<close> is whatever else its caller knows of the queues.
\<close>

locale edit_runner =
  fixes E :: env and H :: host and re :: run_edit_fn and may :: "document_id \<Rightarrow> bool"
    and J :: "(document_id \<Rightarrow> edit list) \<Rightarrow> bool"
  assumes runs: "may (edit_document e) \<Longrightarrow>
      ensures (\<lambda>w. inv_from E J w0 w \<and> edit_ok E w e) (re (edit_document e) e) (\<lambda>_. inv_from E J w0)"
begin

lemma run_ok:
  assumes "may (edit_document e)" "\<And>w. P w \<Longrightarrow> inv_from E J w0 w \<and> edit_ok E w e"
  shows "ensures P (run re e) (\<lambda>_. inv_from E J w0)"
  unfolding run_def
  by (rule ensures_bind [OF ensures_pre [OF runs [OF assms(1)] assms(2)]]) (auto intro: ensures_ret)

lemma mod_ok:
  assumes "\<And>w. P w \<Longrightarrow> inv_from E J w0 w \<and> winv E (f w) \<and> derives w (f w) \<and> queued_edits (f w) = queued_edits w"
  shows "ensures P (modC f) (\<lambda>_. inv_from E J w0)"
  using assms by (intro ensures_modC) (blast intro: inv_from_step)

lemma host_does_ok: "ensures (inv_from E J w0) (host_does c) (\<lambda>_. inv_from E J w0)"
  unfolding host_does_def
  by (rule mod_ok) (use winv_calls in \<open>auto simp: inv_from_def\<close>)

lemma send_conversion_ok:
  assumes "\<And>w. P w \<Longrightarrow> inv_from E J w0 w \<and> request_ok w r"
  shows "ensures P (send_conversion r ctxt) (\<lambda>_. inv_from E J w0)"
  using assms winv_send derives_trans
  by (fastforce simp: ensures_def send_conversion_def inv_from_def)

lemma request_of_buffer:
  assumes "winv E w" "(e, d, b) \<in> set (bufs w)" "conversion_snapshot_of b = Some s"
  shows "request_ok w \<lparr>req_epoch = e, req_revision = n, req_document = d, req_snapshot = snap_entries s\<rparr>"
  using winvD(1) [OF assms(1,2)] bufs_epoch_unique [OF assms(1,2)]
    snapshot_composed_in [OF winvD(2) [OF assms(1,2)] assms(3)]
  by (auto simp: request_ok_def epoch_at_def)

lemma request_conversion_ok: "ensures (inv_from E J w0) request_conversion (\<lambda>_. inv_from E J w0)"
  unfolding request_conversion_def
proof (rule ensures_get_option)
  fix c
  let ?P = "\<lambda>w. inv_from E J w0 w \<and> composition w = Some c"
  have sent: "ensures (inv_from E J w0)
      (modC (upd_comp (\<lambda>c. c\<lparr>comp_sent := x\<rparr>))) (\<lambda>_. inv_from E J w0)" for x
    by (rule mod_ok) (use winv_upd_comp winvD(4) in \<open>auto simp: upd_comp_def held_ok_def winv_comp\<close>)
  have "ensures ?P (send_conversion
        \<lparr>req_epoch = comp_epoch c, req_revision = snap_revision snapshot, req_document = comp_document c,
         req_snapshot = snap_entries snapshot\<rparr> preceding) (\<lambda>_. inv_from E J w0)"
    if "conversion_snapshot_of (comp_buf c) = Some snapshot" for snapshot preceding
    by (rule send_conversion_ok) (use that request_of_buffer in blast)
  then show "ensures ?P
     (case comp_preceding c of None \<Rightarrow> ret () | Some preceding \<Rightarrow>
       (case conversion_snapshot_of (comp_buf c) of None \<Rightarrow> ret () | Some snapshot \<Rightarrow>
         if \<exists>s. comp_sent c = Some s \<and> sent_revision s = snap_revision snapshot then ret ()
         else bindC (send_conversion
           \<lparr>req_epoch = comp_epoch c, req_revision = snap_revision snapshot, req_document = comp_document c,
            req_snapshot = snap_entries snapshot\<rparr> preceding)
           (\<lambda>s. case s of None \<Rightarrow> ret () | Some s \<Rightarrow>
              modC (upd_comp (\<lambda>c. c\<lparr>comp_sent := Some \<lparr>sent_revision = snap_revision snapshot, sent_sequence = s\<rparr>\<rparr>)))))
     (\<lambda>_. inv_from E J w0)"
    by (intro ensures_case_option ensures_if ensures_ret; (elim conjE)?)
      (auto intro!: ensures_bind [where R = "\<lambda>_. inv_from E J w0"] ensures_case_option ensures_ret sent)
qed

lemma show_comp_ok:
  assumes "\<And>w c. P w \<Longrightarrow> inv_from E J w0 w \<and> (composition w = Some c \<longrightarrow> may (comp_document c))"
  shows "ensures P (show_comp re E) (\<lambda>_. inv_from E J w0)"
  unfolding show_comp_def
proof (rule ensures_get_option)
  fix c
  show "ensures (\<lambda>w. P w \<and> composition w = Some c)
     (bindC (evalC (\<lambda>_. rendering_of E c)) (\<lambda>ended. run re (Show_edit (comp_document c) (comp_epoch c) ended)))
     (\<lambda>_. inv_from E J w0)"
  proof (cases "may (comp_document c)")
    case True
    then show ?thesis
      by (intro ensures_eval_bind run_ok)
        (use assms in \<open>auto intro!: rendering_total winv_comp epoch_at_comp dest: inv_fromD\<close>)
  next
    case False
    with assms show ?thesis by (fastforce simp: ensures_def)
  qed
qed (use assms in blast)

lemma discard_ok:
  assumes "\<And>w c. P w \<Longrightarrow> inv_from E J w0 w \<and> (composition w = Some c \<longrightarrow> may (comp_document c))"
  shows "ensures P (discard re) (\<lambda>_. inv_from E J w0)"
  unfolding discard_def
proof (rule ensures_get_option)
  fix c
  show "ensures (\<lambda>w. P w \<and> composition w = Some c)
     (thenC (modC (\<lambda>w. w\<lparr>composition := None\<rparr>)) (run re (Discard_edit (comp_document c) (comp_epoch c))))
     (\<lambda>_. inv_from E J w0)"
  proof (cases "may (comp_document c)")
    case True
    then show ?thesis
    proof (intro ensures_then [OF mod_ok run_ok])
      fix w assume "P w \<and> composition w = Some c"
      then have "inv_from E J w0 w" using assms by blast
      then show "inv_from E J w0 w \<and> winv E (w\<lparr>composition := None\<rparr>) \<and> derives w (w\<lparr>composition := None\<rparr>) \<and>
          queued_edits (w\<lparr>composition := None\<rparr>) = queued_edits w"
        using winv_close [of E w] by (simp add: inv_from_def)
    qed simp_all
  next
    case False
    with assms show ?thesis by (fastforce simp: ensures_def)
  qed
qed (use assms in blast)

text \<open>The open composition belongs to a document the runner may be asked for.\<close>

lemma update_ok:
  assumes "\<And>w c. P w \<Longrightarrow> inv_from E J w0 w \<and> (composition w = Some c \<longrightarrow> may (comp_document c))"
  shows "ensures P (update re E) (\<lambda>_. inv_from E J w0)"
  unfolding update_def
  by (rule ensures_get_option)
    (use assms in \<open>auto intro!: ensures_if ensures_then [OF show_comp_ok request_conversion_ok] discard_ok\<close>)

section \<open>The sealed queue\<close>

lemma write_when_possible_ok:
  assumes "may d"
  shows "ensures (inv_from E J w0) (write_when_possible re d) (\<lambda>_. inv_from E J w0)"
proof -
  have "ensures (inv_from E J w0) (re d (Write_edit d)) (\<lambda>_. inv_from E J w0)"
    using ensures_pre [OF runs [of "Write_edit d" w0]] assms by simp
  then show ?thesis
    unfolding write_when_possible_def
    by (rule ensures_bind)
      (auto intro!: ensures_whenC mod_ok dest: inv_fromD simp: winv_forget, simp add: forget_def)
qed

lemma write_if_finished_ok:
  "ensures (seg_inv E J may w0 i) (write_if_finished re i) (\<lambda>_. inv_from E J w0)"
  unfolding write_if_finished_def
proof (rule ensures_get_bind)
  fix g
  show "ensures (\<lambda>w. seg_inv E J may w0 i w \<and> segments w ! i = g)
      (whenC (is_finished g) (write_when_possible re (seg_document g))) (\<lambda>_. inv_from E J w0)"
  proof (cases "may (seg_document g)")
    case True
    then show ?thesis
      by (intro ensures_whenC) (auto intro: ensures_pre [OF write_when_possible_ok] dest: seg_invD)
  qed (auto simp: ensures_def seg_inv_def)
qed

lemma upd_segment_ok:
  assumes "\<And>w. P w \<Longrightarrow> seg_inv E J may w0 i w \<and> seg_evolves E (segments w ! i) (f (segments w ! i))"
  shows "ensures P (upd_segment i f) (\<lambda>_. seg_inv E J may w0 i)"
  unfolding upd_segment_def
proof (rule ensures_modC)
  fix w assume "P w"
  from assms [OF this] have w: "seg_inv E J may w0 i w" and f: "seg_evolves E (segments w ! i) (f (segments w ! i))"
    by simp_all
  then have "inv_from E J w0 (w\<lparr>segments := (segments w)[i := f (segments w ! i)]\<rparr>)"
    by (auto simp: seg_inv_def intro!: inv_from_step [of E J w0 w] winv_upd_segment dest: inv_fromD)
  with w f show "seg_inv E J may w0 i (w\<lparr>segments := (segments w)[i := f (segments w ! i)]\<rparr>)"
    by (simp add: seg_inv_def seg_evolves_def)
qed

lemma seg_inv_nth: "seg_inv E J may w0 i w \<Longrightarrow> winv E w \<and> segments w ! i \<in> set (segments w)"
  by (auto simp: seg_inv_def)

lemma convert_ok: "ensures (seg_inv E J may w0 i) (convert i) (\<lambda>_. seg_inv E J may w0 i)"
  unfolding convert_def
proof (rule ensures_get_bind, rule ensures_bind [where R = "\<lambda>_. seg_inv E J may w0 i"])
  fix g :: segment
  have "ensures (\<lambda>w. seg_inv E J may w0 i w \<and> segments w ! i = g)
     (send_conversion \<lparr>req_epoch = seg_epoch g, req_revision = snap_revision snapshot,
        req_document = seg_document g, req_snapshot = snap_entries snapshot\<rparr> ctxt)
     (\<lambda>_. seg_inv E J may w0 i)" if "conversion_snapshot_of (seg_buffer g) = Some snapshot" for snapshot ctxt
  proof -
    have "winv E (w\<lparr>conversions := snd (send r ctxt (conversions w))\<rparr>) \<and>
        derives w (w\<lparr>conversions := snd (send r ctxt (conversions w))\<rparr>)"
      if w: "seg_inv E J may w0 i w" "segments w ! i = g"
        and r: "r = \<lparr>req_epoch = seg_epoch g, req_revision = snap_revision snapshot,
        req_document = seg_document g, req_snapshot = snap_entries snapshot\<rparr>" for w r
      using winv_send request_of_buffer bufs_segI seg_inv_nth [OF w(1)] w(2) r
        \<open>conversion_snapshot_of (seg_buffer g) = Some snapshot\<close> by metis
    then show ?thesis
      by (auto simp: ensures_def send_conversion_def seg_inv_def intro: inv_from_step)
  qed
  then show "ensures (\<lambda>w. seg_inv E J may w0 i w \<and> segments w ! i = g)
     (case conversion_snapshot_of (seg_buffer g) of None \<Rightarrow> ret None
      | Some snapshot \<Rightarrow> send_conversion \<lparr>req_epoch = seg_epoch g, req_revision = snap_revision snapshot,
        req_document = seg_document g, req_snapshot = snap_entries snapshot\<rparr> (the (seg_preceding g)))
     (\<lambda>_. seg_inv E J may w0 i)"
    by (intro ensures_case_option) (auto intro: ensures_ret)
next
  fix so :: "nat option"
  show "ensures (seg_inv E J may w0 i)
     (case so of None \<Rightarrow> upd_segment i seg_finish_locally | Some s \<Rightarrow> upd_segment i (seg_await s))
     (\<lambda>_. seg_inv E J may w0 i)"
    by (intro ensures_case_option upd_segment_ok) (auto dest: seg_inv_nth intro: seg_stage_evolves)
qed

lemma seg_inv_evolves:
  assumes "seg_inv E J may w0 i w"
  shows "seg_evolves E (segments w ! i) (seg_await s (segments w ! i))"
    "seg_evolves E (segments w ! i) (seg_placed (segments w ! i))"
    "seg_evolves E (segments w ! i) (seg_set_preceding p (segments w ! i))"
    "seg_evolves E (segments w ! i) (seg_finish_locally (segments w ! i))"
    "seg_evolves E (segments w ! i) (seg_erase_last (segments w ! i))"
  using seg_stage_evolves seg_inv_nth [OF assms] by auto

text \<open>Segments found by epoch; the caller knows their document.\<close>

lemma find_segment_inv:
  assumes "inv_from E J w0 w" "find_segment w e = Some i" "epoch_at w e d" "may d"
  shows "seg_inv E J may w0 i w" "seg_epoch (segments w ! i) = e"
proof -
  from assms(2) have i: "i < length (segments w)" "seg_epoch (segments w ! i) = e"
    by (auto simp: find_segment_def dest: find_index_SomeD)
  then have "seg_document (segments w ! i) = d"
    using assms(3) bufs_segI [of "segments w ! i" w] by (auto simp: epoch_at_def)
  with i assms(1,4) show "seg_inv E J may w0 i w" "seg_epoch (segments w ! i) = e"
    by (simp_all add: seg_inv_def)
qed

lemma sealed_context_ready_ok:
  assumes "may d"
  shows "ensures (\<lambda>w. inv_from E J w0 w \<and> epoch_at w e d) (sealed_context_ready re e preceding) (\<lambda>_. inv_from E J w0)"
  unfolding sealed_context_ready_def
proof (rule ensures_get_option)
  fix i
  have "ensures (\<lambda>w. seg_inv E J may w0 i w \<and> segments w ! i = g)
      (whenC (is_waiting_for_context g) (thenC (convert i) (write_if_finished re i))) (\<lambda>_. inv_from E J w0)" for g
    by (intro ensures_whenC ensures_then [OF ensures_pre [OF convert_ok] write_if_finished_ok])
      (auto dest: seg_invD)
  then show "ensures (\<lambda>w. (inv_from E J w0 w \<and> epoch_at w e d) \<and> find_segment w e = Some i)
     (thenC (upd_segment i (seg_set_preceding preceding))
       (bindC (getC (\<lambda>w. segments w ! i)) (\<lambda>g. whenC (is_waiting_for_context g)
          (thenC (convert i) (write_if_finished re i))))) (\<lambda>_. inv_from E J w0)"
    by (intro ensures_then [OF upd_segment_ok] ensures_get_bind)
      (use find_segment_inv(1) [OF _ _ _ assms] seg_inv_evolves in \<open>blast | simp\<close>)+
qed auto

lemma sealed_placed_ok:
  assumes "may d"
  shows "ensures (\<lambda>w. inv_from E J w0 w \<and> epoch_at w e d) (sealed_placed re e) (\<lambda>_. inv_from E J w0)"
  unfolding sealed_placed_def
  by (intro ensures_get_option ensures_then [OF upd_segment_ok write_if_finished_ok])
    (use find_segment_inv(1) [OF _ _ _ assms] seg_inv_evolves in \<open>blast | simp\<close>)+

lemma sealed_on_conversion_ok:
  assumes "may (req_document r)" "results_ok E outs"
  shows "ensures (\<lambda>w. inv_from E J w0 w \<and> request_ok w r)
     (sealed_on_conversion re (req_epoch r) s (req_snapshot r) outs) (\<lambda>_. inv_from E J w0)"
  unfolding sealed_on_conversion_def
proof (intro ensures_get_option ensures_then [OF upd_segment_ok write_if_finished_ok])
  fix i w
  assume "(inv_from E J w0 w \<and> request_ok w r) \<and> find_segment w (req_epoch r) = Some i"
  then have w: "seg_inv E J may w0 i w" "seg_epoch (segments w ! i) = req_epoch r" "request_ok w r"
    using find_segment_inv [of w0 w "req_epoch r" i "req_document r"] assms(1) by (auto simp: request_ok_def)
  with seg_inv_nth [OF w(1)] assms(2)
  show "seg_inv E J may w0 i w \<and> seg_evolves E (segments w ! i) (seg_merge s (req_snapshot r) outs (segments w ! i))"
    by (auto intro: seg_merge_evolves)
qed auto

text \<open>Segments whose documents the runner may be asked for.\<close>

lemma sealed_finish_locally_ok:
  assumes "\<And>w g. P w \<Longrightarrow> g \<in> set (segments w) \<Longrightarrow> may (seg_document g)" "\<And>w. P w \<Longrightarrow> inv_from E J w0 w"
  shows "ensures P (sealed_finish_locally re) (\<lambda>_. inv_from E J w0)"
  unfolding sealed_finish_locally_def
proof (intro ensures_get_bind ensures_then)
  fix ds
  show "ensures (\<lambda>w. P w \<and> documents_of (segments w) = ds)
      (modC (\<lambda>w. w\<lparr>segments := map seg_finish_locally (segments w)\<rparr>))
      (\<lambda>_ w. inv_from E J w0 w \<and> (\<forall>d \<in> set ds. may d))"
  proof (rule ensures_modC)
    fix w assume w: "P w \<and> documents_of (segments w) = ds"
    then have inv: "winv E w" and i: "inv_from E J w0 w" using assms(2) by auto
    have 1: "\<exists>g \<in> set (segments w). seg_evolves E g g'" if "g' \<in> set (map seg_finish_locally (segments w))" for g'
      using that seg_stage_evolves(4) [OF inv] by auto
    have 2: "distinct (map seg_epoch (map seg_finish_locally (segments w)))"
      using winv_epochs_distinct [OF inv] by (simp add: comp_def seg_finish_locally_def)
    have "set (documents_of gs) = seg_document ` set gs" for gs
      by (induction gs rule: rev_induct) (auto simp: documents_of_def)
    then have "\<forall>d \<in> set ds. may d" using w assms(1) [of w] by auto
    then show "inv_from E J w0 (w\<lparr>segments := map seg_finish_locally (segments w)\<rparr>) \<and> (\<forall>d \<in> set ds. may d)"
      using winv_segments [OF inv 1 2] inv_from_step [OF i] by simp
  qed
  show "ensures (\<lambda>w. inv_from E J w0 w \<and> (\<forall>d \<in> set ds. may d)) (forC (write_when_possible re) ds)
     (\<lambda>_. inv_from E J w0)"
  proof (cases "\<forall>d \<in> set ds. may d")
    case True
    then have "ensures (inv_from E J w0) (forC (write_when_possible re) ds) (\<lambda>_. inv_from E J w0)"
      by (intro ensures_forC write_when_possible_ok) simp
    then show ?thesis by (rule ensures_pre) simp
  qed (auto simp: ensures_def)
qed

section \<open>Edits\<close>

lemma context_ready_ok:
  assumes "may d"
  shows "ensures (\<lambda>w. inv_from E J w0 w \<and> epoch_at w e d) (context_ready re e preceding) (\<lambda>_. inv_from E J w0)"
  unfolding context_ready_def
proof (rule ensures_get_bind, rule ensures_case_option)
  fix oc
  have "ensures (\<lambda>w. (inv_from E J w0 w \<and> epoch_at w e d) \<and> live_epoch w e = oc)
     (modC (upd_comp (\<lambda>c. c\<lparr>comp_preceding := Some preceding\<rparr>))) (\<lambda>_. inv_from E J w0)"
    by (rule mod_ok) (use winv_upd_comp winvD(4) in \<open>auto simp: upd_comp_def held_ok_def winv_comp\<close>)
  then show "ensures (\<lambda>w. (inv_from E J w0 w \<and> epoch_at w e d) \<and> live_epoch w e = oc)
     (thenC (modC (upd_comp (\<lambda>c. c\<lparr>comp_preceding := Some preceding\<rparr>))) request_conversion)
     (\<lambda>_. inv_from E J w0)"
    by (rule ensures_then [OF _ request_conversion_ok])
qed (auto intro: ensures_pre [OF sealed_context_ready_ok [OF assms]])

lemma newest_at_caret_less: "newest_at_caret H w d = Some i \<Longrightarrow>
    i < length (segments w) \<and> seg_document (segments w ! i) = d \<and> seg_in_document (segments w ! i)"
  by (auto simp: newest_at_caret_def last_in_document_def rev_nth split: option.splits if_splits
      dest!: find_index_SomeD)

lemma context_at_caret_ok:
  "ensures (inv_from E J w0) (context_at_caret E H d) (\<lambda>_. inv_from E J w0)"
  unfolding context_at_caret_def
proof (rule ensures_get_option)
  fix i
  show "ensures (\<lambda>w. inv_from E J w0 w \<and> newest_at_caret H w d = Some i)
     (bindC (evalC (\<lambda>w. following_context E (segments w ! i))) (\<lambda>s. ret (Some s))) (\<lambda>_. inv_from E J w0)"
  proof (rule ensures_eval_bind)
    fix w assume w: "inv_from E J w0 w \<and> newest_at_caret H w d = Some i"
    then have "buf_wf E (seg_buffer (segments w ! i))"
      using newest_at_caret_less winv_seg nth_mem by (metis inv_fromD(1))
    from seg_text_total [OF this] show "\<exists>x. following_context E (segments w ! i) = Inr x"
      by (auto simp: following_context_def)
  qed (auto intro: ensures_ret)
qed

lemma exec_open_ok:
  assumes "may d"
  shows "ensures (\<lambda>w. inv_from E J w0 w \<and> epoch_at w e d) (exec_open re E H d e prefill) (\<lambda>_. inv_from E J w0)"
proof -
  have ctx: "ensures (\<lambda>w. inv_from E J w0 w \<and> epoch_at w e d) (context_at_caret E H d)
      (\<lambda>_ w. inv_from E J w0 w \<and> epoch_at w e d)"
  proof (rule ensures_fix)
    fix w1 assume w1: "inv_from E J w0 w1 \<and> epoch_at w1 e d"
    have "ensures (\<lambda>w. w = w1) (context_at_caret E H d) (\<lambda>_. inv_from E J w1)"
      by (rule ensures_pre [OF context_at_caret_ok]) (use w1 in \<open>auto simp: inv_from_def\<close>)
    then show "ensures (\<lambda>w. w = w1) (context_at_caret E H d) (\<lambda>_ w. inv_from E J w0 w \<and> epoch_at w e d)"
      by (rule ensures_post)
        (use w1 in \<open>auto simp: inv_from_def intro: derives_trans derives_epoch_at\<close>)
  qed
  have pre: "ensures (\<lambda>w. inv_from E J w0 w \<and> epoch_at w e d)
      (whenC prefill (modC (\<lambda>w. w\<lparr>conversions := tracker_prefill p (conversions w)\<rparr>)))
      (\<lambda>_ w. inv_from E J w0 w \<and> epoch_at w e d)" for p
  proof (intro ensures_whenC ensures_modC)
    fix w assume w: "inv_from E J w0 w \<and> epoch_at w e d"
    then have "winv E (w\<lparr>conversions := tracker_prefill p (conversions w)\<rparr>)"
      "derives w (w\<lparr>conversions := tracker_prefill p (conversions w)\<rparr>)"
      using winvD(5) [of E w]
      by (auto intro!: winv_conversions tracker_prefill_wf dest: inv_fromD)
        (auto simp: tracker_prefill_def split: if_splits)
    with w show "inv_from E J w0 (w\<lparr>conversions := tracker_prefill p (conversions w)\<rparr>) \<and>
        epoch_at (w\<lparr>conversions := tracker_prefill p (conversions w)\<rparr>) e d"
      by (auto intro: inv_from_step derives_epoch_at)
  qed simp
  show ?thesis
    unfolding exec_open_def Let_def
    by (intro ensures_get_bind ensures_bind [OF ensures_pre [OF ctx]] ensures_then [OF pre] context_ready_ok assms)
      simp
qed

lemma evalC_rendering_ok:
  assumes "\<And>w. P w \<Longrightarrow> inv_from E J w0 w \<and> composition w = Some c"
    "\<And>r. ensures (inv_from E J w0) (m r) (\<lambda>_. inv_from E J w0)"
  shows "ensures P (bindC (evalC (\<lambda>_. rendering_of E c)) m) (\<lambda>_. inv_from E J w0)"
  by (rule ensures_eval_bind)
    (use assms in \<open>auto intro!: rendering_total winv_comp dest: inv_fromD intro: ensures_pre\<close>)

lemma exec_show_ok: "ensures (inv_from E J w0) (exec_show E d e ended) (\<lambda>_. inv_from E J w0)"
  unfolding exec_show_def
  by (intro ensures_get_bind ensures_case_option evalC_rendering_ok host_does_ok ensures_pre [OF host_does_ok])
    (auto simp: live_epoch_def split: option.splits if_splits)

lemma render_now_ok: "ensures (inv_from E J w0) (render_now E) (\<lambda>_. inv_from E J w0)"
  unfolding render_now_def
  by (intro ensures_get_option evalC_rendering_ok host_does_ok) auto

text \<open>Merging a result into the open composition; what is withheld fits the buffer it left.\<close>

lemma apply_conversion_ok:
  assumes "results_ok E outs"
  shows "ensures (\<lambda>w. inv_from E J w0 w \<and> request_ok w r \<and> live_epoch w (req_epoch r) \<noteq> None)
     (apply_conversion E r s outs) (\<lambda>_. inv_from E J w0)"
  unfolding apply_conversion_def Let_def
proof (intro ensures_get_option ensures_then ensures_whenC render_now_ok)
  fix c
  let ?P = "\<lambda>w. (inv_from E J w0 w \<and> request_ok w r \<and> live_epoch w (req_epoch r) \<noteq> None) \<and> composition w = Some c"
  let ?m = "merge_conversion (comp_buf c) s (req_snapshot r) outs (lock_entry (comp_candidates c))"
  let ?c1 = "c\<lparr>comp_buf := fst ?m\<rparr>"
  let ?c2 = "case held (snd ?m) of Some (req, out) \<Rightarrow> ?c1\<lparr>comp_candidates := lock_hold s req out (comp_candidates ?c1)\<rparr>
             | None \<Rightarrow> ?c1"
  let ?c3 = "if req_revision r = revision (comp_buf ?c2) then ?c2\<lparr>comp_converted := Some (req_revision r)\<rparr> else ?c2"
  have "winv E (w\<lparr>composition := Some ?c3\<rparr>) \<and> derives w (w\<lparr>composition := Some ?c3\<rparr>)" if P: "?P w" for w
  proof -
    have w: "winv E w" "composition w = Some c" using P by auto
    have "(req_epoch r, comp_document c, comp_buf c) \<in> set (bufs w)"
      using P bufs_compI [OF w(2)] by (auto simp: live_epoch_def split: if_splits)
    then have req: "composed_in (comp_buf c) (req_snapshot r)" using P by (auto simp: request_ok_def)
    have wf: "buf_wf E (fst ?m)"
      using merge_conversion_wf [OF winv_comp(1) [OF w] req] assms by (auto simp: results_ok_def)
    have ev: "evolves (comp_buf c) (fst ?m)" by (rule merge_conversion_evolves [OF winv_comp(1) [OF w]])
    have same: "comp_epoch ?c3 = comp_epoch c" "comp_document ?c3 = comp_document c" "comp_buf ?c3 = fst ?m"
      by (simp_all split: option.splits)
    have "held_ok E ?c1" by (rule held_ok_evolves [OF winvD(4) [OF w]]) (simp_all add: ev)
    moreover have "composed_in (fst ?m) [req] \<and> results_ok E [out]" if h: "held (snd ?m) = Some (req, out)" for req out
    proof -
      from merge_conversion_held [OF surjective_pairing h]
      have "req \<in> set (req_snapshot r)" "out \<in> set outs" by (auto dest: set_zip_leftD set_zip_rightD)
      with evolves_composed_in [OF ev req] assms show ?thesis by (auto simp: composed_in_def results_ok_def)
    qed
    ultimately have "held_ok E ?c2"
      by (auto simp: held_ok_def lock_hold_def split: option.splits if_splits)
    then have "held_ok E ?c3" by (simp add: held_ok_def)
    with wf ev same show ?thesis
      using winv_comp_change [OF w same(1,2)] by simp
  qed
  then show "ensures ?P (modC (\<lambda>w. w\<lparr>composition := Some ?c3\<rparr>)) (\<lambda>_. inv_from E J w0)"
    by (intro mod_ok) simp
qed (auto intro: render_now_ok)

lemma exec_apply_ok:
  assumes "may (req_document r)" "results_ok E outs"
  shows "ensures (\<lambda>w. inv_from E J w0 w \<and> request_ok w r) (exec_apply re E r s outs) (\<lambda>_. inv_from E J w0)"
  unfolding exec_apply_def
  by (intro ensures_get_bind ensures_case_option
      ensures_pre [OF apply_conversion_ok [OF assms(2)]] ensures_pre [OF sealed_on_conversion_ok [OF assms]])
    auto

lemma exec_local_ok: "ensures (inv_from E J w0) (exec_local E d e) (\<lambda>_. inv_from E J w0)"
  unfolding exec_local_def Let_def
proof (intro ensures_get_option ensures_then [where R = "inv_from E J w0"] ensures_whenC mod_ok)
  fix c :: composition and w
  let ?b = "snd (accept_local_candidates (comp_buf c))"
  assume w: "inv_from E J w0 w \<and> live_epoch w e = Some c"
  then have c: "composition w = Some c" by (auto simp: live_epoch_def split: option.splits if_splits)
  have inv: "winv E w" using w by auto
  show "inv_from E J w0 w \<and>
    winv E (upd_comp (\<lambda>c. c\<lparr>comp_converted := Some (revision (comp_buf c)), comp_buf := ?b\<rparr>) w) \<and>
    derives w (upd_comp (\<lambda>c. c\<lparr>comp_converted := Some (revision (comp_buf c)), comp_buf := ?b\<rparr>) w) \<and>
    queued_edits (upd_comp (\<lambda>c. c\<lparr>comp_converted := Some (revision (comp_buf c)), comp_buf := ?b\<rparr>) w) = queued_edits w"
    using w c accept_local_candidates_wf [OF winv_comp(1) [OF inv c]] accept_local_candidates_evolves
      held_ok_evolves [OF winvD(4) [OF inv c]]
    by (auto intro!: winv_upd_comp [OF inv]) (simp_all add: upd_comp_def)
qed (auto intro: render_now_ok)

lemma erase_at_caret_sealed_ok:
  assumes "may d"
  shows "ensures (inv_from E J w0) (erase_at_caret_sealed re H d) (\<lambda>_. inv_from E J w0)"
  unfolding erase_at_caret_sealed_def
proof (rule ensures_get_option)
  fix i
  have tail: "ensures (seg_inv E J may w0 i)
      (thenC (bindC (getC (\<lambda>w. segments w ! i)) (\<lambda>g. whenC (is_finished g) (write_when_possible re d))) (ret True))
      (\<lambda>_. inv_from E J w0)"
    by (intro ensures_then [where R = "inv_from E J w0"] ensures_get_bind ensures_whenC ensures_ret
        ensures_pre [OF write_when_possible_ok [OF assms]])
      (auto simp: seg_inv_def)
  show "ensures (\<lambda>w. inv_from E J w0 w \<and> newest_at_caret H w d = Some i)
     (thenC (upd_segment i seg_erase_last)
       (thenC (bindC (getC (\<lambda>w. segments w ! i)) (\<lambda>g. whenC (is_finished g) (write_when_possible re d))) (ret True)))
     (\<lambda>_. inv_from E J w0)"
  proof (rule ensures_then [OF upd_segment_ok tail])
    fix w assume "inv_from E J w0 w \<and> newest_at_caret H w d = Some i"
    then have "seg_inv E J may w0 i w" using newest_at_caret_less assms by (auto simp: seg_inv_def)
    then show "seg_inv E J may w0 i w \<and> seg_evolves E (segments w ! i) (seg_erase_last (segments w ! i))"
      using seg_inv_evolves by blast
  qed
qed

lemma exec_backspace_ok:
  assumes "may d"
  shows "ensures (inv_from E J w0) (exec_backspace re H d) (\<lambda>_. inv_from E J w0)"
  unfolding exec_backspace_def
  by (intro ensures_bind [OF erase_at_caret_sealed_ok [OF assms]] ensures_whenC host_does_ok) simp

lemma exec_insert_ok: "ensures (inv_from E J w0) (exec_insert H d s) (\<lambda>_. inv_from E J w0)"
  unfolding exec_insert_def
  by (intro ensures_get_bind ensures_whenC ensures_pre [OF host_does_ok]) auto

lemma exec_recheck_ok: "ensures (inv_from E J w0) (exec_recheck H d s n) (\<lambda>_. inv_from E J w0)"
  unfolding exec_recheck_def
  by (intro ensures_get_bind ensures_whenC ensures_pre [OF host_does_ok]) auto

lemma write_segment_ok:
  assumes "buf_wf E (seg_buffer g)"
  shows "ensures (inv_from E J w0) (write_segment E H g) (\<lambda>_. inv_from E J w0)"
proof -
  have sample: "\<exists>x. seg_training_sample E g = Inr x"
    using training_sample_total [OF assms] by (simp add: seg_training_sample_def)
  show ?thesis
    unfolding write_segment_def Let_def
    by (intro ensures_get_bind ensures_then [where R = "inv_from E J w0"] ensures_whenC
        ensures_eval_bind ensures_case_option host_does_ok ensures_pre [OF host_does_ok] ensures_ret)
      (use seg_text_total [OF assms] sample in auto)
qed

lemma write_finished_loop_ok:
  "ensures (\<lambda>w. inv_from E J w0 w \<and> i + left = length (segments w)) (write_finished_loop E H d left i earlier)
     (\<lambda>_. inv_from E J w0)"
proof (induction left arbitrary: i earlier)
  case 0
  then show ?case by (auto intro: ensures_ret)
next
  case (Suc left)
  let ?P = "\<lambda>g w. (inv_from E J w0 w \<and> i + Suc left = length (segments w)) \<and> segments w ! i = g"
  have skip: "ensures (?P g) (write_finished_loop E H d left (i + 1) b) (\<lambda>_. inv_from E J w0)" for g b
    by (rule ensures_pre [OF Suc.IH]) auto
  have wr: "ensures (?P g) (write_segment E H g) (\<lambda>_ w. inv_from E J w0 w \<and> i + Suc left = length (segments w))" for g
  proof (rule ensures_fix)
    fix w1 assume P: "?P g w1"
    then have "g \<in> set (segments w1)" by (metis less_add_Suc1 add_Suc_right nth_mem)
    then have wf: "buf_wf E (seg_buffer g)" using P winv_seg by blast
    have "segments w2 = segments w1" if "write_segment E H g w1 = (x, w2)" for x w2
      using write_segment_segments [of E H g w1] that by simp
    with ensures_pre [OF write_segment_ok [OF wf], of "\<lambda>w. w = w1" w0] P
    show "ensures (\<lambda>w. w = w1) (write_segment E H g) (\<lambda>_ w. inv_from E J w0 w \<and> i + Suc left = length (segments w))"
      by (fastforce simp: ensures_def split: prod.splits sum.splits)
  qed
  have drop: "ensures (\<lambda>w. inv_from E J w0 w \<and> i + Suc left = length (segments w))
      (modC (\<lambda>w. w\<lparr>segments := list_erase i (segments w)\<rparr>))
      (\<lambda>_ w. inv_from E J w0 w \<and> i + left = length (segments w))"
    by (rule ensures_modC) (auto intro!: inv_from_step [OF _ winv_erase_segment] dest: inv_fromD)
  show ?case
    unfolding write_finished_loop.simps
    by (intro ensures_get_bind ensures_if ensures_then [OF wr] ensures_then [OF drop] Suc.IH skip)
qed

lemma write_finished_ok: "ensures (inv_from E J w0) (write_finished E H d) (\<lambda>_. inv_from E J w0)"
  unfolding write_finished_def
  by (intro ensures_get_bind ensures_pre [OF write_finished_loop_ok]) simp

lemma exec_edit_ok:
  assumes "may (edit_document e)"
  shows "ensures (\<lambda>w. inv_from E J w0 w \<and> edit_ok E w e) (exec_edit re E H e) (\<lambda>_. inv_from E J w0)"
  using assms
proof (cases e)
  case (Commit_edit d ep sample)
  then show ?thesis
    by (auto intro!: ensures_then [OF host_does_ok] ensures_case_option host_does_ok ensures_ret)
next
  case (Seal_edit d ep)
  have "ensures (\<lambda>w. inv_from E J w0 w \<and> epoch_at w ep d) (host_does (Seal d ep))
      (\<lambda>_ w. inv_from E J w0 w \<and> epoch_at w ep d)"
    unfolding host_does_def
    by (rule ensures_modC, elim conjE, intro conjI, rule inv_from_step, assumption)
      (auto intro: winv_calls derives_epoch_at dest: inv_fromD)
  with Seal_edit assms show ?thesis by (auto intro: ensures_then [OF _ sealed_placed_ok])
next
  case (Apply_edit r s outs)
  show ?thesis
  proof (cases "results_ok E outs")
    case True
    with Apply_edit assms show ?thesis by (auto intro: exec_apply_ok)
  qed (simp add: Apply_edit ensures_def)
qed (use assms in \<open>auto intro: exec_open_ok ensures_pre [OF exec_show_ok] ensures_pre [OF exec_local_ok]
       host_does_ok exec_backspace_ok write_finished_ok exec_insert_ok exec_recheck_ok\<close>)

end

section \<open>What the user and the backend do\<close>

text \<open>Outside an edit the runner may be asked for any document.\<close>

locale ui_runner = edit_runner E H re "\<lambda>_. True" J
  for E :: env and H :: host and re :: run_edit_fn and J :: "(document_id \<Rightarrow> edit list) \<Rightarrow> bool"
begin

lemma upd_buf_ok:
  assumes "\<And>w c. P w \<Longrightarrow> inv_from E J w0 w \<and>
    (composition w = Some c \<longrightarrow> buf_wf E (f (comp_buf c)) \<and> evolves (comp_buf c) (f (comp_buf c)))"
  shows "ensures P (modC (upd_buf f)) (\<lambda>_. inv_from E J w0)"
proof (rule mod_ok)
  fix w assume P: "P w"
  then have inv: "inv_from E J w0 w" "winv E w" using assms by blast+
  have "winv E (upd_buf f w) \<and> derives w (upd_buf f w)"
    using winv_upd_buf [OF inv(2), of f] assms [OF P] by blast
  then show "inv_from E J w0 w \<and> winv E (upd_buf f w) \<and> derives w (upd_buf f w) \<and>
      queued_edits (upd_buf f w) = queued_edits w"
    using inv by (simp add: upd_buf_def upd_comp_def)
qed

lemma show_ok: "ensures (inv_from E J w0) (show_comp re E) (\<lambda>_. inv_from E J w0)"
  by (rule show_comp_ok) simp

lemma upd_ok: "ensures (inv_from E J w0) (update re E) (\<lambda>_. inv_from E J w0)"
  by (rule update_ok) simp

lemma drop_ok: "ensures (inv_from E J w0) (discard re) (\<lambda>_. inv_from E J w0)"
  by (rule discard_ok) simp

lemma open_comp_ok: "ensures (inv_from E J w0) (open_comp re d prefill) (\<lambda>_. inv_from E J w0)"
  unfolding open_comp_def
proof (rule ensures_get_bind, rule ensures_case_option)
  fix oc :: "composition option"
  assume oc: "oc = None"
  have new: "ensures (\<lambda>w. (inv_from E J w0 w \<and> composition w = oc) \<and> next_epoch w = e)
     (modC (\<lambda>w. w\<lparr>next_epoch := e + 1, composition := Some (new_composition e d (immediate_conversion w))\<rparr>))
     (\<lambda>_ w. inv_from E J w0 w \<and> epoch_at w e d)" for e
  proof (rule ensures_modC)
    fix w assume w: "(inv_from E J w0 w \<and> composition w = oc) \<and> next_epoch w = e"
    let ?w = "w\<lparr>next_epoch := e + 1, composition := Some (new_composition e d (immediate_conversion w))\<rparr>"
    have "winv E ?w" "derives w ?w" using winv_open [of E w d "immediate_conversion w"] w oc by auto
    moreover have "epoch_at ?w e d"
      using epoch_at_comp [OF \<open>winv E ?w\<close>] by (simp add: new_composition_def)
    ultimately show "inv_from E J w0 ?w \<and> epoch_at ?w e d"
      using w inv_from_step [of E J w0 w ?w] by simp
  qed
  have opened: "ensures (\<lambda>w. inv_from E J w0 w \<and> epoch_at w e d) (run re (Open_edit d e prefill))
      (\<lambda>_. inv_from E J w0)" for e
    by (rule run_ok) simp_all
  show "ensures (\<lambda>w. inv_from E J w0 w \<and> composition w = oc)
     (bindC (getC next_epoch) (\<lambda>e.
        thenC (modC (\<lambda>w. w\<lparr>next_epoch := e + 1, composition := Some (new_composition e d (immediate_conversion w))\<rparr>))
          (thenC (run re (Open_edit d e prefill)) (getC (\<lambda>w. composition w \<noteq> None)))))
     (\<lambda>_. inv_from E J w0)"
    by (intro ensures_get_bind ensures_then [OF new] ensures_then [OF opened] ensures_getC)
qed (auto intro: ensures_ret)

lemma type_reading_ok:
  assumes "env_ok E"
  shows "ensures (inv_from E J w0) (type_reading re E d c) (\<lambda>_. inv_from E J w0)"
  unfolding type_reading_def
  by (intro ensures_bind [OF open_comp_ok] ensures_whenC ensures_then [OF upd_buf_ok upd_ok])
    (auto intro: add_wf [OF assms] add_evolves winv_comp dest: inv_fromD)

lemma inv_comp_wf: "inv_from E J w0 w \<Longrightarrow> composition w = Some c \<Longrightarrow> buf_wf E (comp_buf c)"
  by (blast intro: winv_comp)

lemma add_text_wf:
  "buf_wf E b \<Longrightarrow> (\<And>ch. ch \<in> set s \<Longrightarrow> displayable E (ucast ch)) \<Longrightarrow>
   buf_wf E (foldl (\<lambda>b ch. add_chosen_candidate b (ucast ch)) b s) \<and>
   evolves b (foldl (\<lambda>b ch. add_chosen_candidate b (ucast ch)) b s)"
proof (induction s arbitrary: b)
  case (Cons ch s)
  then have "buf_wf E (add_chosen_candidate b (ucast ch))" by (auto intro: add_chosen_candidate_wf)
  from Cons.IH [OF this] Cons.prems add_chosen_candidate_evolves [OF Cons.prems(1)]
  show ?case by (auto intro: evolves_trans)
qed simp

lemma type_text_ok:
  assumes "\<And>ch. ch \<in> set s \<Longrightarrow> displayable E (ucast ch)"
  shows "ensures (inv_from E J w0) (type_text re E d s) (\<lambda>_. inv_from E J w0)"
  unfolding type_text_def
  by (intro ensures_if ensures_ret ensures_bind [OF open_comp_ok] ensures_whenC ensures_then [OF upd_buf_ok upd_ok])
    (use add_text_wf [OF inv_comp_wf assms] in blast)+

lemma discard_reading_ok: "ensures (inv_from E J w0) (discard_reading re E d) (\<lambda>_. inv_from E J w0)"
  unfolding discard_reading_def
  by (intro ensures_get_option ensures_if ensures_ret ensures_then [OF upd_buf_ok]
      ensures_then [OF upd_ok])
    (auto intro: discard_current_reading_wf discard_current_reading_evolves winv_comp dest: inv_fromD)

lemma backspace_ok: "ensures (inv_from E J w0) (backspace re E d) (\<lambda>_. inv_from E J w0)"
  unfolding backspace_def
  by (intro ensures_get_option ensures_whenC ensures_then [OF upd_buf_ok upd_ok])
    (auto intro: remove_last_wf remove_last_evolves winv_comp dest: inv_fromD)

lemma caret_step_ok: "buf_wf E b \<Longrightarrow> buf_wf E (snd (caret_step f b)) \<and> evolves b (snd (caret_step f b))"
  by (auto simp: caret_step_def intro: pre_wf next_entry_wf pre_evolves next_entry_evolves)

declare step_to_edge.simps [simp del]

lemma step_to_edge_ok: "buf_wf E b \<Longrightarrow> buf_wf E (step_to_edge f b) \<and> evolves b (step_to_edge f b)"
proof (induction f b rule: step_to_edge.induct)
  case (1 f b)
  obtain moved b' where st: "caret_step f b = (moved, b')" by fastforce
  with caret_step_ok [OF 1(2), of f] have b': "buf_wf E b'" "evolves b b'" by simp_all
  show ?case
  proof (cases moved)
    case True
    with 1(1) st b' have "buf_wf E (step_to_edge f b') \<and> evolves b' (step_to_edge f b')" by simp
    with True st b' show ?thesis by (auto simp: step_to_edge.simps [of f b] intro: evolves_trans)
  qed (use st b' in \<open>simp add: step_to_edge.simps [of f b]\<close>)
qed

lemma move_caret_ok: "ensures (inv_from E J w0) (move_caret re E d forward to_edge) (\<lambda>_. inv_from E J w0)"
proof -
  have edge: "ensures (inv_from E J w0) (whenC to_edge (modC (upd_buf (step_to_edge forward)))) (\<lambda>_. inv_from E J w0)"
    by (intro ensures_whenC upd_buf_ok) (use step_to_edge_ok winv_comp in \<open>auto dest: inv_fromD\<close>)
  show ?thesis
    unfolding move_caret_def
    by (intro ensures_get_option ensures_whenC ensures_then [OF upd_buf_ok ensures_then [OF edge show_ok]])
      (use caret_step_ok winv_comp in \<open>auto dest: inv_fromD\<close>)
qed

lemma commit_ok: "ensures (inv_from E J w0) (commit re E) (\<lambda>_. inv_from E J w0)"
  unfolding commit_def
proof (rule ensures_get_option)
  fix c
  have close: "ensures (inv_from E J w0) (modC (\<lambda>w. w\<lparr>composition := None\<rparr>)) (\<lambda>_. inv_from E J w0)"
    by (rule mod_ok) (auto intro: winv_close dest: inv_fromD)
  have run: "ensures (inv_from E J w0) (run re (Commit_edit d e sample)) (\<lambda>_. inv_from E J w0)" for d e sample
    by (rule run_ok) simp_all
  show "ensures (\<lambda>w. inv_from E J w0 w \<and> composition w = Some c)
     (bindC (evalC (\<lambda>_. training_sample E (comp_buf c) (case comp_preceding c of None \<Rightarrow> [] | Some p \<Rightarrow> p)))
       (\<lambda>sample. thenC (modC (\<lambda>w. w\<lparr>composition := None\<rparr>))
          (run re (Commit_edit (comp_document c) (comp_epoch c) sample))))
     (\<lambda>_. inv_from E J w0)"
    by (intro ensures_eval_bind ensures_then [OF ensures_pre [OF close] run])
      (auto intro: training_sample_total winv_comp dest: inv_fromD)
qed auto

text \<open>Sealing: the buffer moves from the composition to a segment.\<close>

lemma sealed_add_ok:
  assumes "buf_wf E b"
  shows "ensures
     (\<lambda>w. composition w = None \<and> (\<forall>g. seg_epoch g = e \<longrightarrow> seg_document g = d \<longrightarrow> seg_buffer g = b \<longrightarrow>
        inv_from E J w0 (w\<lparr>segments := segments w @ [g]\<rparr>)))
     (sealed_add re E e d b preceding in_flight) (\<lambda>_ w. inv_from E J w0 w \<and> epoch_at w e d)"
  (is "ensures ?P _ _")
proof (rule ensures_fix)
  fix w1 assume w1: "?P w1"
  obtain g where g: "new_segment E e d b preceding = Inr g" using new_segment_total(1) [OF assms] by blast
  note gf = new_segment_total(2) [OF assms g]
  let ?w = "w1\<lparr>segments := segments w1 @ [g]\<rparr>"
  have inv: "inv_from E J w0 ?w" using w1 gf by blast
  then have w: "winv E ?w" by blast
  have at: "epoch_at ?w e d" using epoch_at_seg [OF w, of g] gf by simp
  let ?i = "length (segments w1)"
  have seg: "seg_inv E J (\<lambda>_. True) ?w ?i ?w" using inv by (simp add: seg_inv_def inv_from_def)
  have tail: "ensures (\<lambda>w. w = ?w)
      (thenC (case in_flight of Some s \<Rightarrow> upd_segment ?i (seg_await s) | None \<Rightarrow> whenC (preceding \<noteq> None) (convert ?i))
         (write_if_finished re ?i))
      (\<lambda>_. inv_from E J ?w)"
  proof (rule ensures_then [OF _ write_if_finished_ok], rule ensures_pre)
    show "ensures (seg_inv E J (\<lambda>_. True) ?w ?i)
       (case in_flight of Some s \<Rightarrow> upd_segment ?i (seg_await s) | None \<Rightarrow> whenC (preceding \<noteq> None) (convert ?i))
       (\<lambda>_. seg_inv E J (\<lambda>_. True) ?w ?i)"
      by (intro ensures_case_option ensures_whenC convert_ok upd_segment_ok) (auto intro: seg_inv_evolves)
  qed (use seg in simp)
  have post: "inv_from E J w0 w2 \<and> epoch_at w2 e d" if "inv_from E J ?w w2" for w2
    using that inv at by (auto simp: inv_from_def intro: derives_trans derives_epoch_at)
  obtain x w2 where run: "(thenC (case in_flight of Some s \<Rightarrow> upd_segment ?i (seg_await s) | None \<Rightarrow> whenC (preceding \<noteq> None) (convert ?i))
         (write_if_finished re ?i)) ?w = (Inr x, w2)" "inv_from E J ?w w2"
    using ensuresD [OF tail, of ?w] by auto
  have "sealed_add re E e d b preceding in_flight w1 = (Inr x, w2)"
    using run(1) by (cases in_flight) (simp_all add: sealed_add_def run_simps g)
  with post [OF run(2)] show "ensures (\<lambda>w. w = w1) (sealed_add re E e d b preceding in_flight)
      (\<lambda>_ w. inv_from E J w0 w \<and> epoch_at w e d)"
    by (simp add: ensures_def)
qed

lemma seal_ok:
  assumes E: "env_ok E"
  shows "ensures (inv_from E J w0) (seal re E) (\<lambda>_. inv_from E J w0)"
  unfolding seal_def Let_def
proof (rule ensures_get_option)
  fix c0 :: composition
  let ?b = "snd (freeze_readings (comp_buf c0))"
  let ?c = "c0\<lparr>comp_buf := ?b\<rparr>"
  let ?frozen = "fst (freeze_readings (comp_buf c0))"
  let ?P = "\<lambda>w. inv_from E J w0 w \<and> composition w = Some c0"
  let ?R = "\<lambda>w. inv_from E J w0 w \<and> composition w = Some ?c"
  have frozen: "buf_wf E ?b" if "?P w" for w
    using freeze_readings_wf [OF E inv_comp_wf surjective_pairing] that by blast
  have put: "ensures ?P (modC (\<lambda>w. w\<lparr>composition := Some ?c\<rparr>)) (\<lambda>_. ?R)"
  proof (rule ensures_modC)
    fix w assume P: "?P w"
    then have w: "winv E w" "composition w = Some c0" by auto
    have "winv E (w\<lparr>composition := Some ?c\<rparr>) \<and> derives w (w\<lparr>composition := Some ?c\<rparr>)"
      using winv_comp_change [OF w, of ?c] frozen [OF P] freeze_readings_evolves
        held_ok_evolves [OF winvD(4) [OF w], of ?c] by simp
    then show "?R (w\<lparr>composition := Some ?c\<rparr>)" using inv_from_step [of E J w0 w "w\<lparr>composition := Some ?c\<rparr>"] P by simp
  qed
  have move: "ensures (\<lambda>w. ?R w \<and> in_flight_for w ?frozen ?c = fl)
     (thenC (modC (\<lambda>w. w\<lparr>composition := None\<rparr>))
       (thenC (sealed_add re E (comp_epoch ?c) (comp_document ?c) (comp_buf ?c) (comp_preceding ?c) fl)
         (run re (Seal_edit (comp_document ?c) (comp_epoch ?c)))))
     (\<lambda>_. inv_from E J w0)" for fl
  proof (cases "buf_wf E (comp_buf ?c)")
    case True
    have close: "ensures (\<lambda>w. ?R w \<and> in_flight_for w ?frozen ?c = fl) (modC (\<lambda>w. w\<lparr>composition := None\<rparr>))
      (\<lambda>_ w. composition w = None \<and> (\<forall>g. seg_epoch g = comp_epoch ?c \<longrightarrow> seg_document g = comp_document ?c \<longrightarrow>
        seg_buffer g = comp_buf ?c \<longrightarrow> inv_from E J w0 (w\<lparr>segments := segments w @ [g]\<rparr>)))"
    proof (rule ensures_modC, intro conjI allI impI)
      fix w and g :: segment
      assume R: "?R w \<and> in_flight_for w ?frozen ?c = fl"
        and g: "seg_epoch g = comp_epoch ?c" "seg_document g = comp_document ?c" "seg_buffer g = comp_buf ?c"
      have "winv E w" "composition w = Some ?c" using R by auto
      note seal = winv_seal_move [OF this g]
      have "w\<lparr>composition := None\<rparr>\<lparr>segments := segments (w\<lparr>composition := None\<rparr>) @ [g]\<rparr> =
          w\<lparr>composition := None, segments := segments w @ [g]\<rparr>" by simp
      then show "inv_from E J w0 (w\<lparr>composition := None\<rparr>\<lparr>segments := segments (w\<lparr>composition := None\<rparr>) @ [g]\<rparr>)"
        using inv_from_step [of E J w0 w] seal R by simp
    qed simp
    show ?thesis
      by (intro ensures_then [OF close] ensures_then [OF sealed_add_ok [OF True]] run_ok) simp_all
  next
    case False
    then have "\<not> ?R w" for w using inv_comp_wf [of w0 w ?c] by blast
    then show ?thesis by (intro ensures_vacuous) blast
  qed
  show "ensures ?P
     (thenC (modC (\<lambda>w. w\<lparr>composition := Some ?c\<rparr>))
       (if settled ?c then commit re E
        else bindC (getC (\<lambda>w. in_flight_for w ?frozen ?c)) (\<lambda>in_flight.
          thenC (modC (\<lambda>w. w\<lparr>composition := None\<rparr>))
           (thenC (sealed_add re E (comp_epoch ?c) (comp_document ?c) (comp_buf ?c) (comp_preceding ?c) in_flight)
             (run re (Seal_edit (comp_document ?c) (comp_epoch ?c)))))))
     (\<lambda>_. inv_from E J w0)"
    by (intro ensures_then [OF put] ensures_if ensures_get_bind move ensures_pre [OF commit_ok]) simp
qed auto

lemma enter_ok:
  assumes "env_ok E"
  shows "ensures (inv_from E J w0) (enter re E d) (\<lambda>_. inv_from E J w0)"
  unfolding enter_def
  by (intro ensures_get_option ensures_if ensures_ret ensures_pre [OF commit_ok]
      ensures_then [OF ensures_pre [OF request_conversion_ok] seal_ok [OF assms]]) auto

lemma escape_ok: "ensures (inv_from E J w0) (escape re d) (\<lambda>_. inv_from E J w0)"
  unfolding escape_def
  by (intro ensures_get_bind ensures_whenC ensures_pre [OF drop_ok]) auto

lemma backspace_in_order_ok: "ensures (inv_from E J w0) (backspace_in_order re d) (\<lambda>_. inv_from E J w0)"
  unfolding backspace_in_order_def
  by (intro ensures_get_bind ensures_whenC run_ok) auto

lemma insert_text_ok: "ensures (inv_from E J w0) (insert_text re d s) (\<lambda>_. inv_from E J w0)"
  unfolding insert_text_def
  by (intro ensures_whenC run_ok) auto

lemma recheck_commit_ok: "ensures (inv_from E J w0) (run re (Recheck_edit d s n)) (\<lambda>_. inv_from E J w0)"
  by (rule run_ok) auto

lemma candidates_opened_ok: "ensures (inv_from E J w0) (candidates_opened e) (\<lambda>_. inv_from E J w0)"
  unfolding candidates_opened_def
  by (rule mod_ok)
    (use winv_upd_comp winvD(4) in \<open>auto simp: upd_comp_def held_ok_def lock_open_def winv_comp\<close>)

lemma ctrl_select_candidate_ok:
  assumes "env_ok E"
  shows "ensures (inv_from E J w0) (ctrl_select_candidate E e k) (\<lambda>_. inv_from E J w0)"
  unfolding ctrl_select_candidate_def
proof (rule ensures_get_option)
  fix c
  show "ensures (\<lambda>w. inv_from E J w0 w \<and> composition w = Some c)
     (bindC (evalC (\<lambda>_. select_candidate E (comp_buf c) e k)) (\<lambda>r. modC (upd_buf (\<lambda>_. snd r))))
     (\<lambda>_. inv_from E J w0)"
  proof (rule ensures_eval_bind, rule select_candidate_total [OF assms inv_comp_wf], blast, blast)
    fix r
    show "ensures (\<lambda>w. (inv_from E J w0 w \<and> composition w = Some c) \<and> select_candidate E (comp_buf c) e k = Inr r)
       (modC (upd_buf (\<lambda>_. snd r))) (\<lambda>_. inv_from E J w0)"
      by (rule upd_buf_ok)
        (use select_candidate_wf [OF assms inv_comp_wf] select_candidate_evolves [OF assms inv_comp_wf] in
          \<open>cases r, fastforce\<close>)
  qed
qed auto

lemma candidate_finalized_ok: "ensures (inv_from E J w0) (candidate_finalized re E d) (\<lambda>_. inv_from E J w0)"
  unfolding candidate_finalized_def
  by (intro ensures_get_option ensures_then [OF upd_buf_ok upd_ok])
    (auto intro: next_entry_wf next_entry_evolves inv_comp_wf)

lemma candidates_closed_ok: "ensures (inv_from E J w0) (candidates_closed re E d) (\<lambda>_. inv_from E J w0)"
  unfolding candidates_closed_def
proof (rule ensures_get_option)
  fix c :: composition
  let ?l = "lock_close (comp_candidates c)"
  let ?P = "\<lambda>w. inv_from E J w0 w \<and> live w d = Some c"
  let ?unlock = "upd_comp (\<lambda>c. c\<lparr>comp_candidates := snd (lock_close (comp_candidates c))\<rparr>)"
  let ?Q = "\<lambda>w. inv_from E J w0 w \<and> (\<exists>c'. composition w = Some c' \<and> comp_buf c' = comp_buf c) \<and> held_ok E c"
  have unlock: "ensures ?P (modC ?unlock) (\<lambda>_. ?Q)"
  proof (rule ensures_modC)
    fix w assume P: "?P w"
    then have c: "winv E w" "composition w = Some c" by (auto simp: live_def split: option.splits if_splits)
    have "winv E (?unlock w) \<and> derives w (?unlock w)"
      using winv_upd_comp [OF c(1)] c by (auto simp: held_ok_def lock_close_def winv_comp)
    then have "inv_from E J w0 (?unlock w)"
      using P inv_from_step [of E J w0 w "?unlock w"] by (auto simp: upd_comp_def)
    then show "?Q (?unlock w)" using c winvD(4) [OF c] by (auto simp: upd_comp_def)
  qed
  have put: "ensures ?Q (modC (upd_buf (\<lambda>_. fst (merge_conversion (comp_buf c) s [requested] [converted] None))))
      (\<lambda>_. inv_from E J w0)" if h: "fst ?l = Some (s, requested, converted)" for s requested converted
  proof (rule upd_buf_ok)
    fix w c1 assume Q: "?Q w"
    then have "composed_in (comp_buf c) [requested]" "results_ok E [converted]"
      using h by (auto simp: held_ok_def lock_close_def)
    moreover have "buf_wf E (comp_buf c)" using Q inv_comp_wf by metis
    ultimately show "inv_from E J w0 w \<and> (composition w = Some c1 \<longrightarrow>
        buf_wf E (fst (merge_conversion (comp_buf c) s [requested] [converted] None)) \<and>
        evolves (comp_buf c1) (fst (merge_conversion (comp_buf c) s [requested] [converted] None)))"
      using Q merge_conversion_wf [of E "comp_buf c" "[requested]" "[converted]" s None]
        merge_conversion_evolves [of E "comp_buf c" s "[requested]" "[converted]" None]
      by (auto simp: results_ok_def)
  qed
  show "ensures ?P
     (thenC (modC ?unlock)
       (case fst ?l of None \<Rightarrow> ret ()
        | Some (s, requested, converted) \<Rightarrow>
            (let r = merge_conversion (comp_buf c) s [requested] [converted] None in
             thenC (modC (upd_buf (\<lambda>_. fst r))) (whenC (changed (snd r)) (show_comp re E)))))
     (\<lambda>_. inv_from E J w0)"
    unfolding Let_def
    by (intro ensures_then [OF unlock] ensures_case_option ensures_case_prod)
      (auto intro!: ensures_ret ensures_then [OF put] ensures_whenC show_ok)
qed auto

lemma finish_ok: "ensures (inv_from E J w0) (sealed_finish_locally re) (\<lambda>_. inv_from E J w0)"
  by (rule sealed_finish_locally_ok) simp_all

lemma conversions_ok:
  assumes "\<And>t. tracker_wf t \<Longrightarrow> tracker_wf (f t)"
    "\<And>t s r. pending_requests (f t) s = Some r \<Longrightarrow> pending_requests t s = Some r"
  shows "ensures (inv_from E J w0) (modC (\<lambda>w. w\<lparr>conversions := f (conversions w)\<rparr>)) (\<lambda>_. inv_from E J w0)"
proof (rule mod_ok)
  fix w assume i: "inv_from E J w0 w"
  then have inv: "winv E w" by blast
  from winv_conversions [OF inv assms(1) [OF winvD(5) [OF inv]] assms(2)] i
  show "inv_from E J w0 w \<and> winv E (w\<lparr>conversions := f (conversions w)\<rparr>) \<and>
      derives w (w\<lparr>conversions := f (conversions w)\<rparr>) \<and>
      queued_edits (w\<lparr>conversions := f (conversions w)\<rparr>) = queued_edits w" by simp
qed

lemma clear_ok:
  "ensures (inv_from E J w0) (modC (\<lambda>w. w\<lparr>conversions := tracker_clear (conversions w)\<rparr>)) (\<lambda>_. inv_from E J w0)"
  by (rule conversions_ok [OF tracker_clear_wf]) (simp add: tracker_clear_def)

lemma set_backend_ok: "ensures (inv_from E J w0) (ctrl_set_backend b) (\<lambda>_. inv_from E J w0)"
  unfolding ctrl_set_backend_def
  by (rule conversions_ok [OF set_backend_wf]) (simp_all add: set_backend_def)

lemma backend_lost_ok: "ensures (inv_from E J w0) (backend_lost re) (\<lambda>_. inv_from E J w0)"
  unfolding backend_lost_def
proof (intro ensures_then [OF clear_ok] ensures_then [OF finish_ok] ensures_get_option)
  fix c
  have unsent: "ensures (\<lambda>w. inv_from E J w0 w \<and> composition w = Some c)
     (modC (upd_comp (\<lambda>c. c\<lparr>comp_sent := None\<rparr>)))
     (\<lambda>_ w. inv_from E J w0 w \<and> epoch_at w (comp_epoch c) (comp_document c))"
  proof (rule ensures_modC)
    fix w assume w: "inv_from E J w0 w \<and> composition w = Some c"
    let ?w = "upd_comp (\<lambda>c. c\<lparr>comp_sent := None\<rparr>) w"
    have inv: "winv E w" using w by blast
    have "winv E ?w" "derives w ?w" by (rule winv_upd_flags [OF inv]; simp)+
    with w show "inv_from E J w0 ?w \<and> epoch_at ?w (comp_epoch c) (comp_document c)"
      using inv_from_step [of E J w0 w ?w] epoch_at_comp [of E ?w] by (auto simp: upd_comp_def)
  qed
  show "ensures (\<lambda>w. inv_from E J w0 w \<and> composition w = Some c)
     (thenC (modC (upd_comp (\<lambda>c. c\<lparr>comp_sent := None\<rparr>))) (run re (Local_edit (comp_document c) (comp_epoch c))))
     (\<lambda>_. inv_from E J w0)"
    by (intro ensures_then [OF unsent] run_ok) simp_all
qed

lemma on_conversion_ok:
  assumes "results_ok E (result_padding r)"
  shows "ensures (inv_from E J w0) (on_conversion re r) (\<lambda>_. inv_from E J w0)"
proof -
  let ?R = "\<lambda>oq w. inv_from E J w0 w \<and> (\<forall>q. oq = Some q \<longrightarrow> request_ok w q)"
  have taken: "ensures (inv_from E J w0) (take_conversion (result_sequence r)) ?R"
  proof (rule ensuresI)
    fix w assume inv: "inv_from E J w0 w"
    let ?t = "snd (take_request (result_sequence r) (conversions w))"
    have w: "winv E w" using inv by blast
    have "pending_requests ?t s = Some q \<Longrightarrow> pending_requests (conversions w) s = Some q" for s q
      by (auto simp: take_request_def split: option.splits if_splits)
    then have "winv E (w\<lparr>conversions := ?t\<rparr>) \<and> derives w (w\<lparr>conversions := ?t\<rparr>)"
      using winv_conversions [OF w take_request_wf [OF winvD(5) [OF w]]] by blast
    moreover from this have "request_ok (w\<lparr>conversions := ?t\<rparr>) q"
      if "fst (take_request (result_sequence r) (conversions w)) = Some q" for q
      using that winvD(6) [OF w] by (auto simp: take_request_def split: option.splits intro: derives_request_ok)
    ultimately show "\<exists>x w'. take_conversion (result_sequence r) w = (Inr x, w') \<and> ?R x w'"
      using inv_from_step [OF inv, of "w\<lparr>conversions := ?t\<rparr>"] by (simp add: take_conversion_def)
  qed
  have apply_edit: "ensures (\<lambda>w. inv_from E J w0 w \<and> request_ok w q)
      (bindC (getC (\<lambda>w. live_epoch w (req_epoch q))) (\<lambda>oc. case oc of
         None \<Rightarrow> sealed_on_conversion re (req_epoch q) (result_sequence r) (req_snapshot q) (result_padding r)
       | Some _ \<Rightarrow> run re (Apply_edit q (result_sequence r) (result_padding r))))
      (\<lambda>_. inv_from E J w0)" for q
    by (intro ensures_get_bind ensures_case_option run_ok ensures_pre [OF sealed_on_conversion_ok [OF _ assms]])
      (use assms in auto)
  show ?thesis
    unfolding on_conversion_def
    by (rule ensures_bind [OF taken], rule ensures_case_option)
      (auto intro!: ensures_ret ensures_pre [OF backend_lost_ok] apply_edit split: conversion_status.splits)
qed

lemma shutdown_ok:
  assumes "env_ok E"
  shows "ensures (inv_from E J w0) (shutdown re E) (\<lambda>_. inv_from E J w0)"
  unfolding shutdown_def
  by (intro ensures_then [OF set_backend_ok] ensures_then [OF clear_ok] ensures_then [OF seal_ok [OF assms]] finish_ok)

end

end
