(* ===== verification/Controller_Steps.thy ===== *)
theory Controller_Steps
  imports Controller_Invariant
begin

text \<open>
  The runners of the text service keep the contract of \<open>edit_runner\<close>, the controller as a
  transition system over the events of its thread, and how long running a queue takes.
\<close>

section \<open>The runners\<close>

text \<open>Inside an edit of document \<open>D\<close> only the queue of \<open>D\<close> grows.\<close>

interpretation nested: edit_runner E H "nested_run_edit H" "(=) D" "\<lambda>q. \<forall>d. d \<noteq> D \<longrightarrow> q d = Q0 d" for E H D Q0
proof
  fix e w0
  assume D: "D = edit_document e"
  let ?J = "\<lambda>q. \<forall>d. d \<noteq> D \<longrightarrow> q d = Q0 d"
  have queue: "ensures (\<lambda>w. inv_from E ?J w0 w \<and> edit_ok E w e) (modC (enqueue (edit_document e) e))
      (\<lambda>_. inv_from E ?J w0)"
  proof (rule ensures_modC)
    fix w assume w: "inv_from E ?J w0 w \<and> edit_ok E w e"
    then have "winv E w" by blast
    from winv_enqueue [OF this _ refl, of e] w
    show "inv_from E ?J w0 (enqueue (edit_document e) e w)"
      by (auto simp: inv_from_def D enqueue_def intro: derives_trans)
  qed
  show "ensures (\<lambda>w. inv_from E ?J w0 w \<and> edit_ok E w e) (nested_run_edit H (edit_document e) e)
      (\<lambda>_. inv_from E ?J w0)"
    unfolding nested_run_edit_def
    by (intro ensures_get_bind ensures_if ensures_ret ensures_then [OF ensures_pre [OF queue]]) auto
qed

lemma run_queued_ok:
  "ensures (inv_from E (\<lambda>q. \<forall>d. d \<noteq> D \<longrightarrow> q d = Q0 d) w0) (run_queued E H D fuel)
     (\<lambda>_. inv_from E (\<lambda>q. \<forall>d. d \<noteq> D \<longrightarrow> q d = Q0 d) w0)"
proof (induction fuel)
  case 0
  then show ?case by (auto intro: ensures_ret)
next
  case (Suc fuel)
  let ?I = "inv_from E (\<lambda>q. \<forall>d. d \<noteq> D \<longrightarrow> q d = Q0 d) w0"
  have pop: "ensures (\<lambda>w. ?I w \<and> queued_edits w D = e # es)
      (modC (\<lambda>w. w\<lparr>queued_edits := (queued_edits w)(D := es)\<rparr>))
      (\<lambda>_ w. (?I w \<and> edit_ok E w e) \<and> edit_document e = D)" for e es
  proof (rule ensures_modC)
    fix w assume w: "?I w \<and> queued_edits w D = e # es"
    let ?w = "w\<lparr>queued_edits := (queued_edits w)(D := es)\<rparr>"
    have inv: "winv E w" using w by blast
    have "winv E ?w" "derives w ?w" by (rule winv_dequeue [OF inv]; use w in auto)+
    moreover have "edit_document e = D \<and> edit_ok E w e" using winvD(7) [OF inv, of e D] w by simp
    ultimately show "(?I ?w \<and> edit_ok E ?w e) \<and> edit_document e = D"
      using w by (auto simp: inv_from_def intro: derives_trans derives_edit_ok)
  qed
  have exec: "ensures (\<lambda>w. (?I w \<and> edit_ok E w e) \<and> edit_document e = D)
      (catchC (exec_edit (nested_run_edit H) E H e)) (\<lambda>_. ?I)" for e
  proof (cases "edit_document e = D")
    case True
    then show ?thesis
      using ensures_catchC [OF nested.exec_edit_ok [of D e E Q0 w0 H]] by simp
  qed (auto intro: ensures_vacuous)
  show ?case
    unfolding run_queued.simps
  proof (rule ensures_get_bind)
    fix q
    show "ensures (\<lambda>w. ?I w \<and> queued_edits w D = q)
       (case q of [] \<Rightarrow> ret () | e # es \<Rightarrow>
          thenC (modC (\<lambda>w. w\<lparr>queued_edits := (queued_edits w)(D := es)\<rparr>))
            (thenC (catchC (exec_edit (nested_run_edit H) E H e)) (run_queued E H D fuel)))
       (\<lambda>_. ?I)"
      by (cases q) (auto intro!: ensures_ret ensures_then [OF pop] ensures_then [OF exec] Suc.IH)
  qed
qed

lemma run_edits_ok:
  "ensures (inv_from E (\<lambda>q. \<forall>d. d \<noteq> D \<longrightarrow> q d = Q0 d) w0) (run_edits E H D)
     (\<lambda>_. inv_from E (\<lambda>q. \<forall>d. d \<noteq> D \<longrightarrow> q d = Q0 d) w0)"
proof -
  let ?I = "inv_from E (\<lambda>q. \<forall>d. d \<noteq> D \<longrightarrow> q d = Q0 d) w0"
  have active: "ensures ?I (modC (\<lambda>w. w\<lparr>active_edit := x\<rparr>)) (\<lambda>_. ?I)" for x
    by (rule ensures_modC) (auto simp: inv_from_def winv_active intro: derives_trans)
  show ?thesis
    unfolding run_edits_def
    by (intro ensures_get_bind ensures_then [OF ensures_pre [OF active]]
        ensures_then [OF ensures_get_bind [OF ensures_pre [OF run_queued_ok]]]) (auto intro: active)
qed

lemma run_edits_inv: "ensures (inv_from E (\<lambda>_. True) w0) (run_edits E H D) (\<lambda>_. inv_from E (\<lambda>_. True) w0)"
proof (rule ensures_fix)
  fix w1 assume "inv_from E (\<lambda>_. True) w0 w1"
  then show "ensures (\<lambda>w. w = w1) (run_edits E H D) (\<lambda>_. inv_from E (\<lambda>_. True) w0)"
    by (intro ensures_weaken [OF run_edits_ok [of E D "queued_edits w1" w0 H]]) (auto simp: inv_from_def)
qed

interpretation service: ui_runner E H "run_edit E H" "\<lambda>_. True" for E H
proof
  fix e w0
  have queue: "ensures (\<lambda>w. inv_from E (\<lambda>_. True) w0 w \<and> edit_ok E w e) (modC (enqueue (edit_document e) e))
      (\<lambda>_. inv_from E (\<lambda>_. True) w0)"
  proof (rule ensures_modC)
    fix w assume w: "inv_from E (\<lambda>_. True) w0 w \<and> edit_ok E w e"
    then have "winv E w" by blast
    from winv_enqueue [OF this _ refl, of e] w
    show "inv_from E (\<lambda>_. True) w0 (enqueue (edit_document e) e w)"
      by (auto simp: inv_from_def intro: derives_trans)
  qed
  show "ensures (\<lambda>w. inv_from E (\<lambda>_. True) w0 w \<and> edit_ok E w e) (run_edit E H (edit_document e) e)
      (\<lambda>_. inv_from E (\<lambda>_. True) w0)"
    unfolding run_edit_def
    by (intro ensures_get_bind ensures_if ensures_ret ensures_then [OF ensures_pre [OF queue]]
        ensures_then [OF ensures_whenC]) (auto intro: ensures_pre [OF run_edits_inv])
qed

section \<open>The controller as a transition system\<close>

text \<open>
  What is assumed of the events: text that is typed can be displayed, and so can what a
  conversion result offers.
\<close>

fun event_ok :: "env \<Rightarrow> event \<Rightarrow> bool" where
  "event_ok E (Type_text d s) = (\<forall>ch \<in> set s. displayable E (ucast ch))"
| "event_ok E (On_conversion r) = results_ok E (result_padding r)"
| "event_ok E _ = True"

lemma handle_ok:
  assumes "env_ok E" "event_ok E ev"
  shows "ensures (inv_from E (\<lambda>_. True) w0) (handle E H ev) (\<lambda>_. inv_from E (\<lambda>_. True) w0)"
proof -
  have close: "ensures (inv_from E (\<lambda>_. True) w0)
      (thenC (document_closed d) (modC (\<lambda>w. w\<lparr>queued_edits := (queued_edits w)(d := [])\<rparr>)))
      (\<lambda>_. inv_from E (\<lambda>_. True) w0)" for d
    unfolding document_closed_def
  proof (intro ensures_then [where R = "inv_from E (\<lambda>_. True) w0"] ensures_modC)
    fix w assume w: "inv_from E (\<lambda>_. True) w0 w"
    let ?w = "if owns w d then w\<lparr>composition := None\<rparr> else w"
    have "winv E ?w \<and> derives w ?w" using w winv_close [of E w] by auto
    then show "inv_from E (\<lambda>_. True) w0 (forget d ?w)"
      using w winv_forget [of E ?w d] by (auto simp: inv_from_def intro: derives_trans)
  next
    fix w assume w: "inv_from E (\<lambda>_. True) w0 w"
    then show "inv_from E (\<lambda>_. True) w0 (w\<lparr>queued_edits := (queued_edits w)(d := [])\<rparr>)"
      using winv_dequeue [of E w "[]" d] by (auto simp: inv_from_def intro: derives_trans)
  qed
  have reset: "ensures (inv_from E (\<lambda>_. True) w0) ctrl_reset (\<lambda>_. inv_from E (\<lambda>_. True) w0)"
    unfolding ctrl_reset_def
    by (rule ensures_modC) (auto simp: inv_from_def winv_close intro: derives_trans)
  have imm: "ensures (inv_from E (\<lambda>_. True) w0) (ctrl_set_immediate_conversion b) (\<lambda>_. inv_from E (\<lambda>_. True) w0)" for b
    unfolding ctrl_set_immediate_conversion_def
  proof (rule ensures_modC)
    fix w assume w: "inv_from E (\<lambda>_. True) w0 w"
    let ?w = "w\<lparr>immediate_conversion := b\<rparr>"
    have i: "winv E ?w" "derives w ?w" using w winv_immediate [of E w b] by auto
    have "winv E (upd_buf (set_immediate_conversion b) ?w)" "derives ?w (upd_buf (set_immediate_conversion b) ?w)"
      by (rule winv_upd_buf [OF i(1)];
          use winv_comp(1) [OF i(1)] set_immediate_conversion_wf set_immediate_conversion_evolves in blast)+
    then show "inv_from E (\<lambda>_. True) w0 (upd_buf (set_immediate_conversion b) ?w)"
      using w i by (auto simp: inv_from_def intro: derives_trans)
  qed
  show ?thesis
  proof (cases ev)
    case (Discard_reading d)
    then show ?thesis by (auto intro!: ensures_bind [OF service.discard_reading_ok] ensures_ret)
  next
    case (On_conversion r)
    with assms(2) show ?thesis by (auto intro: service.on_conversion_ok)
  next
    case (Type_text d s)
    with assms(2) show ?thesis by (auto intro: service.type_text_ok)
  qed (auto intro: assms(1) service.type_reading_ok service.backspace_ok service.move_caret_ok service.enter_ok
      service.escape_ok service.backspace_in_order_ok service.candidates_opened_ok
      service.ctrl_select_candidate_ok service.candidate_finalized_ok service.candidates_closed_ok
      service.seal_ok service.shutdown_ok service.set_backend_ok service.host_does_ok service.insert_text_ok service.recheck_commit_ok run_edits_inv
      close reset imm)
qed

inductive ui_step :: "env \<Rightarrow> host \<Rightarrow> world \<Rightarrow> event \<Rightarrow> world \<Rightarrow> bool" for E :: env and H :: host where
  event: "event_ok E ev \<Longrightarrow> handle E H ev w = (r, w') \<Longrightarrow> ui_step E H w ev w'"

inductive reachable :: "env \<Rightarrow> host \<Rightarrow> world \<Rightarrow> bool" for E :: env and H :: host where
  start: "reachable E H new_world"
| step: "reachable E H w \<Longrightarrow> ui_step E H w ev w' \<Longrightarrow> reachable E H w'"

inductive_cases ui_stepE: "ui_step E H w ev w'"
inductive_simps ui_step_iff: "ui_step E H w ev w'"

lemma reachable_winv:
  assumes "env_ok E" "reachable E H w"
  shows "winv E w"
  using assms(2)
proof (induction rule: reachable.induct)
  case start
  then show ?case by (rule new_world_winv)
next
  case (step w ev w')
  from step(2) obtain r where ev: "event_ok E ev" "handle E H ev w = (r, w')" by (rule ui_stepE)
  from ensures_run [OF handle_ok [OF assms(1) ev(1)] _ ev(2), of w] step(3)
  show ?case by (auto simp: inv_from_def)
qed

lemma reachable_handles:
  assumes "env_ok E" "reachable E H w" "event_ok E ev"
  obtains w' where "handle E H ev w = (Inr (), w')" "winv E w'" "derives w w'"
proof -
  have "inv_from E (\<lambda>_. True) w w" using reachable_winv [OF assms(1,2)] by (simp add: inv_from_def)
  with handle_ok [OF assms(1,3), of w H] obtain x w' where "handle E H ev w = (Inr x, w')" "inv_from E (\<lambda>_. True) w w'"
    by (rule ensuresD)
  then show thesis by (intro that) auto
qed

section \<open>Running a queue to its end\<close>

text \<open>\<open>adds D n m\<close>: whatever the state and outcome, \<open>m\<close> leaves what waits in the queue of \<open>D\<close> there, and adds
  at most \<open>n\<close> edits behind it, which all write finished text.\<close>

definition adds :: "document_id \<Rightarrow> nat \<Rightarrow> (world, 'a) ctl \<Rightarrow> bool" where
  "adds D n m \<longleftrightarrow>
     (\<forall>w. \<exists>added. queued_edits (snd (m w)) D = queued_edits w D @ added \<and> set added \<subseteq> {Write_edit D} \<and> length added \<le> n)"

named_theorems adds_intros \<open>how much each computation queues\<close>

lemma addsE:
  assumes "adds D n m"
  obtains added where "queued_edits (snd (m w)) D = queued_edits w D @ added" "set added \<subseteq> {Write_edit D}" "length added \<le> n"
  using assms unfolding adds_def by blast

lemma adds_mono: "adds D n m \<Longrightarrow> n \<le> k \<Longrightarrow> adds D k m"
  unfolding adds_def by (meson le_trans)

lemma adds_bind:
  assumes m: "adds D a m" and f: "\<And>x. adds D b (f x)"
  shows "adds D (a + b) (bindC m f)"
  unfolding adds_def
proof
  fix w
  obtain r w1 where r: "m w = (r, w1)" by (cases "m w") simp
  obtain xs where xs: "queued_edits w1 D = queued_edits w D @ xs" "set xs \<subseteq> {Write_edit D}" "length xs \<le> a"
    using addsE [OF m, where w = w] r by auto
  show "\<exists>added. queued_edits (snd (bindC m f w)) D = queued_edits w D @ added \<and> set added \<subseteq> {Write_edit D} \<and> length added \<le> a + b"
  proof (cases r)
    case (Inl e)
    then show ?thesis using xs r by (intro exI [of _ xs]) (simp add: bindC_def)
  next
    case (Inr x)
    obtain ys where "queued_edits (snd (f x w1)) D = queued_edits w1 D @ ys" "set ys \<subseteq> {Write_edit D}" "length ys \<le> b"
      by (rule addsE [OF f])
    then show ?thesis using xs r Inr by (intro exI [of _ "xs @ ys"]) (simp add: bindC_def)
  qed
qed

lemma adds_bind0 [adds_intros]: "adds D 0 m \<Longrightarrow> (\<And>x. adds D n (f x)) \<Longrightarrow> adds D n (bindC m f)"
  using adds_bind [of D 0 m n f] by simp

lemma adds_then0 [adds_intros]: "adds D 0 m \<Longrightarrow> adds D n m' \<Longrightarrow> adds D n (thenC m m')"
  unfolding thenC_def by (rule adds_bind0)

lemma adds_last: "adds D n m \<Longrightarrow> (\<And>x. adds D 0 (f x)) \<Longrightarrow> adds D n (bindC m f)"
  using adds_bind [of D n m 0 f] by simp

lemma adds_ret [adds_intros]: "adds D n (ret x)"
  by (simp add: adds_def ret_def)

lemma adds_getC [adds_intros]: "adds D n (getC f)"
  by (simp add: adds_def getC_def)

lemma adds_evalC [adds_intros]: "adds D n (evalC f)"
  by (simp add: adds_def evalC_def)

lemma adds_modC: "(\<And>w. queued_edits (f w) = queued_edits w) \<Longrightarrow> adds D n (modC f)"
  by (simp add: adds_def modC_def)

lemma adds_whenC [adds_intros]: "adds D n m \<Longrightarrow> adds D n (whenC b m)"
  by (auto simp: whenC_def adds_ret)

lemma adds_case_option [adds_intros]:
  "adds D n m \<Longrightarrow> (\<And>y. adds D n (f y)) \<Longrightarrow> adds D n (case x of None \<Rightarrow> m | Some y \<Rightarrow> f y)"
  by (cases x) simp_all

lemma adds_if [adds_intros]: "adds D n m \<Longrightarrow> adds D n m' \<Longrightarrow> adds D n (if b then m else m')"
  by simp

lemma adds_host_does [adds_intros]: "adds D n (host_does c)"
  unfolding host_does_def by (rule adds_modC) simp

lemma adds_upd_segment [adds_intros]: "adds D n (upd_segment i f)"
  unfolding upd_segment_def by (rule adds_modC) simp

lemma adds_send_conversion [adds_intros]: "adds D n (send_conversion r c)"
  by (simp add: adds_def send_conversion_def)

lemma adds_upd_comp [adds_intros]: "adds D n (modC (upd_comp f))"
  by (rule adds_modC) (simp add: upd_comp_def)

lemma adds_forget [adds_intros]: "adds D n (modC (forget d))"
  by (rule adds_modC) (simp add: forget_def)

lemma adds_request_conversion [adds_intros]: "adds D n request_conversion"
  unfolding request_conversion_def by (intro adds_intros)

lemma adds_convert [adds_intros]: "adds D n (convert i)"
  unfolding convert_def by (intro adds_intros)

lemma adds_render_now [adds_intros]: "adds D n (render_now E)"
  unfolding render_now_def by (intro adds_intros)

lemma adds_write_when_possible [adds_intros]: "adds D 1 (write_when_possible (nested_run_edit H) d)"
proof -
  have "adds D 1 (nested_run_edit H d (Write_edit d))"
    by (auto simp: adds_def nested_run_edit_def run_simps enqueue_def ret_def)
  then show ?thesis
    unfolding write_when_possible_def by (rule adds_last) (intro adds_intros)
qed

lemma adds_write_if_finished [adds_intros]: "adds D 1 (write_if_finished (nested_run_edit H) i)"
  unfolding write_if_finished_def by (intro adds_intros)

lemma adds_sealed_context_ready [adds_intros]: "adds D 1 (sealed_context_ready (nested_run_edit H) e p)"
  unfolding sealed_context_ready_def by (intro adds_intros)

lemma adds_sealed_placed [adds_intros]: "adds D 1 (sealed_placed (nested_run_edit H) e)"
  unfolding sealed_placed_def by (intro adds_intros)

lemma adds_sealed_on_conversion [adds_intros]: "adds D 1 (sealed_on_conversion (nested_run_edit H) e s r c)"
  unfolding sealed_on_conversion_def by (intro adds_intros)

lemma adds_erase_at_caret_sealed [adds_intros]: "adds D 1 (erase_at_caret_sealed (nested_run_edit H) H d)"
proof -
  have tail: "adds D 1 (thenC (bindC (getC (\<lambda>w. segments w ! i)) (\<lambda>g. whenC (is_finished g) (write_when_possible (nested_run_edit H) d)))
      (ret True))" for i
    unfolding thenC_def by (rule adds_last) (intro adds_intros)+
  show ?thesis unfolding erase_at_caret_sealed_def
    by (intro adds_bind0 [OF adds_getC] adds_case_option adds_ret adds_then0 [OF adds_upd_segment] tail)
qed

lemma adds_context_at_caret [adds_intros]: "adds D n (context_at_caret E H d)"
  unfolding context_at_caret_def by (intro adds_intros)

lemma adds_write_segment [adds_intros]: "adds D n (write_segment E H g)"
  unfolding write_segment_def Let_def by (intro adds_intros)

lemma adds_write_finished_loop [adds_intros]: "adds D n (write_finished_loop E H d left i b)"
proof (induction left arbitrary: i b)
  case (Suc left)
  have "adds D n (modC (\<lambda>w. w\<lparr>segments := list_erase i (segments w)\<rparr>))" for n
    by (rule adds_modC) simp
  then show ?case unfolding write_finished_loop.simps by (intro adds_intros Suc)
qed (simp add: adds_ret)

lemma exec_edit_adds: "adds D (edit_weight e - 1) (exec_edit (nested_run_edit H) E H e)"
proof -
  have conv: "adds D n (modC (\<lambda>w. w\<lparr>conversions := f (conversions w)\<rparr>))" for n f by (rule adds_modC) simp
  have comp: "adds D n (modC (\<lambda>w. w\<lparr>composition := x\<rparr>))" for n x by (rule adds_modC) simp
  note defs = exec_open_def context_ready_def exec_apply_def apply_conversion_def exec_show_def exec_local_def
    exec_backspace_def exec_insert_def exec_recheck_def write_finished_def Let_def exec_edit.simps edit_weight.simps
  have one: "(2::nat) - 1 = 1" "(1::nat) - 1 = 0" by simp_all
  show ?thesis
  proof (cases e)
    case (Backspace_edit d)
    show ?thesis unfolding Backspace_edit defs one by (rule adds_last) (intro adds_intros)+
  qed (simp_all only: defs one, (intro adds_intros conv comp)+)
qed

text \<open>What a session is for: the edits waiting for the document are run one after the other, the first one first,
  each in the state the one before it left, until none waits.  An exception of an edit ends that edit only.\<close>

inductive session_runs :: "env \<Rightarrow> host \<Rightarrow> document_id \<Rightarrow> world \<Rightarrow> edit list \<Rightarrow> world \<Rightarrow> bool" for E H d where
  nothing_waits: "queued_edits w d = [] \<Longrightarrow> session_runs E H d w [] w"
| runs_first:
    "queued_edits w d = e # es \<Longrightarrow>
     exec_edit (nested_run_edit H) E H e (w\<lparr>queued_edits := (queued_edits w)(d := es)\<rparr>) = (outcome, w1) \<Longrightarrow>
     session_runs E H d w1 executed w' \<Longrightarrow> session_runs E H d w (e # executed) w'"

lemma session_runs_empties: "session_runs E H d w executed w' \<Longrightarrow> queued_edits w' d = []"
  by (induction rule: session_runs.induct)

text \<open>Each turn takes at least one off the weight of the queue, so the fuel is enough.\<close>

lemma queue_fuel_writes: "set added \<subseteq> {Write_edit D} \<Longrightarrow> queue_fuel added = length added"
  by (induction added) (auto simp: queue_fuel_def)

lemma queue_fuel_append [simp]: "queue_fuel (xs @ ys) = queue_fuel xs + queue_fuel ys"
  by (simp add: queue_fuel_def)

lemma edit_weight_pos: "1 \<le> edit_weight e" "edit_weight e \<le> 2"
  by (cases e; simp)+

lemma queue_fuel_bound: "queue_fuel es \<le> 2 * length es"
proof (induction es)
  case (Cons e es)
  then show ?case using edit_weight_pos(2) [of e] by (simp add: queue_fuel_def)
qed (simp add: queue_fuel_def)

lemma run_queued_runs:
  "queue_fuel (queued_edits w D) \<le> fuel \<Longrightarrow>
   \<exists>later w'. run_queued E H D fuel w = (Inr (), w') \<and> session_runs E H D w (queued_edits w D @ later) w' \<and>
     set later \<subseteq> {Write_edit D} \<and> length (queued_edits w D @ later) \<le> queue_fuel (queued_edits w D)"
proof (induction fuel arbitrary: w)
  case 0
  have "edit_weight e \<noteq> 0" for e by (cases e) simp_all
  with 0 have "queued_edits w D = []" by (cases "queued_edits w D") (auto simp: queue_fuel_def)
  then show ?case by (auto simp: ret_def intro: session_runs.nothing_waits)
next
  case (Suc fuel)
  show ?case
  proof (cases "queued_edits w D")
    case Nil
    then show ?thesis by (auto simp: run_simps ret_def intro: session_runs.nothing_waits)
  next
    case (Cons e es)
    let ?w = "w\<lparr>queued_edits := (queued_edits w)(D := es)\<rparr>"
    obtain outcome w2 where ran: "exec_edit (nested_run_edit H) E H e ?w = (outcome, w2)" by fastforce
    obtain added where added: "queued_edits w2 D = es @ added" "set added \<subseteq> {Write_edit D}" "length added \<le> edit_weight e - 1"
      using addsE [OF exec_edit_adds [of D e H E], where w = ?w] ran by auto
    have fuel: "queue_fuel (queued_edits w2 D) + 1 \<le> queue_fuel (queued_edits w D)"
      using added queue_fuel_writes [OF added(2)] Cons edit_weight_pos(1) [of e] by (simp add: queue_fuel_def)
    then obtain later w' where later: "run_queued E H D fuel w2 = (Inr (), w')"
      "session_runs E H D w2 (queued_edits w2 D @ later) w'" "set later \<subseteq> {Write_edit D}"
      "length (queued_edits w2 D @ later) \<le> queue_fuel (queued_edits w2 D)"
      using Suc.IH [of w2] Suc.prems by auto
    have "run_queued E H D (Suc fuel) w = (Inr (), w')"
      using later(1) ran by (simp add: run_simps Cons, simp add: thenC_def bindC_def catchC_def)
    moreover have "session_runs E H D w (queued_edits w D @ (added @ later)) w'"
      using session_runs.runs_first [OF Cons ran later(2)] by (simp add: Cons added(1))
    moreover have "length (queued_edits w D @ (added @ later)) \<le> queue_fuel (queued_edits w D)"
      using later(4) fuel by (simp add: Cons added(1))
    ultimately show ?thesis using added(2) later(3) by (intro exI [of _ "added @ later"] exI [of _ w']) auto
  qed
qed

lemma run_edits_runs:
  "\<exists>later w'. session_runs E H D (w\<lparr>active_edit := Some D\<rparr>) (queued_edits w D @ later) w' \<and>
     set later \<subseteq> {Write_edit D} \<and> length later \<le> length (queued_edits w D) \<and>
     run_edits E H D w = (Inr (), w'\<lparr>active_edit := active_edit w\<rparr>)"
proof -
  let ?w = "w\<lparr>active_edit := Some D\<rparr>"
  obtain later w' where run: "run_queued E H D (queue_fuel (queued_edits ?w D)) ?w = (Inr (), w')"
    "session_runs E H D ?w (queued_edits ?w D @ later) w'" "set later \<subseteq> {Write_edit D}"
    "length (queued_edits ?w D @ later) \<le> queue_fuel (queued_edits ?w D)"
    using run_queued_runs [OF order_refl] by blast
  have "run_edits E H D w = (Inr (), w'\<lparr>active_edit := active_edit w\<rparr>)"
    using run(1) by (simp add: run_edits_def run_simps, simp add: thenC_def bindC_def getC_def modC_def)
  moreover have "length later \<le> length (queued_edits w D)"
    using run(4) queue_fuel_bound [of "queued_edits w D"] by simp
  ultimately show ?thesis using run(2,3) by auto
qed

end
