(* ===== verification/Example_Environment.thy ===== *)
theory Example_Environment
  imports Buffer_Evolution
begin

text \<open>
  A small concrete environment for evaluating the model: the UTF-16 encoder that the third-party
  \<open>utf8::append16\<close> is documented to be, and a table with two readings.
\<close>

text \<open>A code point as UTF-16: one unit in the basic plane, a surrogate pair above it.\<close>

definition utf16_encode :: "char32 \<Rightarrow> u16string" where
  "utf16_encode c =
     (if c \<le> 0xFFFF then [ucast c]
      else [ucast (drop_bit 10 c) + 0xD7C0, ucast (take_bit 10 c) + 0xDC00])"

definition is_scalar :: "char32 \<Rightarrow> bool" where
  "is_scalar c \<longleftrightarrow> c \<le> 0x10FFFF \<and> \<not> (0xD800 \<le> c \<and> c \<le> 0xDFFF)"

definition utf16_append :: "char32 \<Rightarrow> exn + u16string" where
  "utf16_append c = (if is_scalar c then Inr (utf16_encode c) else Inl Invalid_code_point)"

definition example_table :: hanzi_engine where
  "example_table =
     \<lparr>mapping = [[0x3107, 0x311A, 0x20] \<mapsto> [0x5ABD, 0x9EBB], [0x3115, 0x20] \<mapsto> [0x601D, 0x3115]],
      hanzi_set = {0x5ABD, 0x9EBB, 0x601D, 0x3115}\<rparr>"

definition example_env :: env where
  "example_env = \<lparr>hanzi = example_table, append16 = utf16_append\<rparr>"

lemma example_displayable: "is_scalar c \<Longrightarrow> displayable example_env c"
  by (simp add: displayable_def example_env_def utf16_append_def)

lemma layout_displayable: "\<forall>c \<in> set layout_symbols. is_scalar (ucast c)"
  by (simp add: layout_symbols_def layout_defs is_scalar_def)

lemma example_env_ok: "env_ok example_env"
  using layout_displayable
  by (auto simp: env_ok_def intro!: example_displayable)
    (auto simp: example_env_def example_table_def is_scalar_def split: if_splits)

text \<open>Typing a list of symbols into an empty composition.\<close>

definition typed_buffer :: "u16string \<Rightarrow> comp_buffer" where
  "typed_buffer symbols = foldl (add example_env) new_buffer symbols"

lemma typed_buffer_wf: "buf_wf example_env (typed_buffer symbols)"
proof -
  have step: "buf_wf example_env b \<Longrightarrow> buf_wf example_env (foldl (add example_env) b symbols)" for b
    by (induction symbols arbitrary: b) (simp_all add: add_wf example_env_ok)
  show ?thesis unfolding typed_buffer_def by (rule step) (rule new_buffer_wf)
qed

text \<open>One completed syllable.\<close>

lemma typed_ma:
  "typed_buffer [0x3107, 0x311A, 0x20] =
     \<lparr>buffer = [new_pos\<lparr>initial := 0x3107, final := 0x311A, tone := 0x20, compositable := True,
                conversion_pending := True, entry_id := 1, version := 2, candidates := [0x5ABD, 0x9EBB]\<rparr>],
      idx = 0, immediate_conversion_enabled = False, revision = 3, next_id = 2\<rparr>"
  by (simp add: typed_buffer_def add_def new_buffer_def current_invalid_def caret_on_entry_def insert_after_caret_def
      list_insert_def accept_def new_pos_def is_compositable_def layout_defs Let_def edited_def
      single_reading_literal_def to_bopomofo_string_def to_toneless_bopomofo_string_def lookup_all_def
      example_env_def example_table_def is_invalid_def)

end
