(* ===== verification/Buffer_Properties.thy ===== *)
theory Buffer_Properties
  imports Example_Environment
begin

text \<open>
  What the composition buffer and its syllables promise: the keyboard, typing and erasing one
  syllable, choosing candidates, merging conversion results in any order, and ending a composition
  early without changing its text.
\<close>

section \<open>The keyboard\<close>

text \<open>Every Bopomofo symbol and tone has exactly one key, and no key types anything else.\<close>

theorem layout_bijection:
  "(\<forall>vk c. lookup vk = Some c \<longrightarrow> c \<in> set initial_set \<union> set medial_set \<union> set final_set \<union> set tone_set) \<and>
   (\<forall>c \<in> set initial_set \<union> set medial_set \<union> set final_set \<union> set tone_set. \<exists>!vk. lookup vk = Some c)"
proof -
  have sets: "set initial_set \<union> set medial_set \<union> set final_set \<union> set tone_set = set layout_symbols"
    by (simp add: layout_symbols_def Un_assoc)
  show ?thesis unfolding sets using lookup_symbol lookup_surj lookup_inj by metis
qed

lemma layout_bijection_witness: "\<exists>!vk. lookup vk = Some 0x3107"
  using layout_bijection [THEN conjunct2, rule_format, of "0x3107"]
  by (simp add: layout_defs)

section \<open>One syllable\<close>

text \<open>A key that completes the table entry, one that has no entry, and the symbol literals.\<close>

definition unfinished :: "pos \<Rightarrow> bool" where
  "unfinished p \<longleftrightarrow> \<not> compositable p \<and> \<not> invalid p"

lemma slot_classes:
  "c \<in> set initial_set \<Longrightarrow> c \<notin> set medial_set \<and> c \<notin> set final_set \<and> c \<notin> set tone_set"
  "c \<in> set medial_set \<Longrightarrow> c \<notin> set initial_set \<and> c \<notin> set final_set \<and> c \<notin> set tone_set"
  "c \<in> set final_set \<Longrightarrow> c \<notin> set initial_set \<and> c \<notin> set medial_set \<and> c \<notin> set tone_set"
  "c \<in> set tone_set \<Longrightarrow> c \<notin> set initial_set \<and> c \<notin> set medial_set \<and> c \<notin> set final_set"
  using layout_symbols_distinct by (auto simp: layout_symbols_def)

lemma accept_slot:
  assumes "unfinished p"
  shows "c \<in> set initial_set \<Longrightarrow> accept E p c = (True, p\<lparr>initial := c\<rparr>)"
    "c \<in> set medial_set \<Longrightarrow> accept E p c = (True, p\<lparr>medial := c\<rparr>)"
    "c \<in> set final_set \<Longrightarrow> accept E p c = (True, p\<lparr>final := c\<rparr>)"
  using assms
  by (auto simp: accept_def unfinished_def is_compositable_def dest: slot_classes)

text \<open>Until the tone, the symbols of a syllable may be typed in any order: two symbols of different
  slots commute, and of two symbols for one slot the later counts.\<close>

theorem typing_order_irrelevant:
  assumes "unfinished p"
    and "c \<in> set initial_set \<union> set medial_set \<union> set final_set"
    and "c' \<in> set initial_set \<union> set medial_set \<union> set final_set"
  shows "snd (accept E (snd (accept E p c)) c') =
    (if c \<in> set initial_set \<and> c' \<in> set initial_set \<or> c \<in> set medial_set \<and> c' \<in> set medial_set \<or>
        c \<in> set final_set \<and> c' \<in> set final_set
     then snd (accept E p c') else snd (accept E (snd (accept E p c')) c))"
proof -
  have keep: "unfinished (p\<lparr>initial := x\<rparr>)" "unfinished (p\<lparr>medial := x\<rparr>)" "unfinished (p\<lparr>final := x\<rparr>)" for x
    using assms(1) by (simp_all add: unfinished_def)
  from assms(2) consider "c \<in> set initial_set" | "c \<in> set medial_set" | "c \<in> set final_set" by blast
  then show ?thesis
  proof cases
    case 1
    with assms(3) show ?thesis
      using slot_classes(1) [of c] by (auto simp: accept_slot [OF assms(1)] accept_slot [OF keep(1)]
        accept_slot [OF keep(2)] accept_slot [OF keep(3)] dest: slot_classes)
  next
    case 2
    with assms(3) show ?thesis
      using slot_classes(2) [of c] by (auto simp: accept_slot [OF assms(1)] accept_slot [OF keep(1)]
        accept_slot [OF keep(2)] accept_slot [OF keep(3)] dest: slot_classes)
  next
    case 3
    with assms(3) show ?thesis
      using slot_classes(3) [of c] by (auto simp: accept_slot [OF assms(1)] accept_slot [OF keep(1)]
        accept_slot [OF keep(2)] accept_slot [OF keep(3)] dest: slot_classes)
  qed
qed

lemma typing_order_irrelevant_witness:
  "snd (accept example_env (snd (accept example_env new_pos 0x3107)) 0x311A) =
   snd (accept example_env (snd (accept example_env new_pos 0x311A)) 0x3107)"
  using typing_order_irrelevant [of new_pos "0x3107" "0x311A" example_env]
  by (simp add: unfinished_def new_pos_def layout_defs)

text \<open>A tone ends the syllable.  A reading of the table that is no single symbol offers the table's
  characters, shows the first and waits for its conversion; a reading outside the table is invalid
  and stays as it was typed.\<close>

theorem tone_completes:
  assumes "env_ok E" "pos_wf E p" "unfinished p" "c \<in> set tone_set"
    and "single_reading_literal (p\<lparr>tone := c\<rparr>) = None"
  defines "r \<equiv> to_bopomofo_string (p\<lparr>tone := c\<rparr>)"
  defines "q \<equiv> snd (accept E p c)"
  shows "(\<forall>cs. mapping (hanzi E) r = Some cs \<longrightarrow>
      compositable q \<and> conversion_pending q \<and> \<not> chosen q \<and> candidates q = cs \<and>
      current E q = append16 E (cs ! 0) \<and> to_bopomofo_string q = r) \<and>
    (mapping (hanzi E) r = None \<longrightarrow> \<not> compositable q \<and> is_invalid q \<and> current E q = Inr r)"
proof -
  note un = pos_wf_unfinished [OF assms(2)]
  have q: "q = (case lookup_all (hanzi E) r of None \<Rightarrow> p\<lparr>tone := c, invalid := True\<rparr>
      | Some cs \<Rightarrow> p\<lparr>tone := c, compositable := True, candidates := cs, conversion_pending := True\<rparr>)"
    using assms(3-5) slot_classes(4) [OF assms(4)]
    by (auto simp: q_def r_def accept_def unfinished_def is_compositable_def Let_def split: option.splits)
  have known: "compositable q \<and> conversion_pending q \<and> \<not> chosen q \<and> candidates q = cs \<and>
      current E q = append16 E (cs ! 0) \<and> to_bopomofo_string q = r" if "mapping (hanzi E) r = Some cs" for cs
    using that un assms(1,3)
    by (auto simp: q lookup_all_def unfinished_def current_def is_compositable_def candidate_at_def env_ok_def r_def
        to_bopomofo_string_def to_toneless_bopomofo_string_def)
  have unknown: "\<not> compositable q \<and> is_invalid q \<and> current E q = Inr r" if "mapping (hanzi E) r = None"
    using that un assms(3)
    by (auto simp: q lookup_all_def unfinished_def current_def is_compositable_def is_invalid_def r_def
        to_bopomofo_string_def to_toneless_bopomofo_string_def)
  from known unknown show ?thesis by blast
qed

definition ma_reading :: pos where
  "ma_reading = new_pos\<lparr>initial := 0x3107, final := 0x311A\<rparr>"

lemma tone_completes_witness:
  "current example_env (snd (accept example_env ma_reading 0x20)) = Inr [0x5ABD]"
  using tone_completes [of example_env ma_reading "0x20", OF example_env_ok]
  by (simp add: pos_wf_def slots_wf_def unfinished_def ma_reading_def new_pos_def layout_defs
      single_reading_literal_def to_bopomofo_string_def to_toneless_bopomofo_string_def
      example_env_def example_table_def utf16_append_def is_scalar_def utf16_encode_def)

section \<open>Editing at the caret\<close>

text \<open>The abstract view of an edited text: what is before the caret and what is after it.\<close>

definition zipper :: "comp_buffer \<Rightarrow> pos list \<times> pos list" where
  "zipper b = (take (nat (idx b + 1)) (buffer b), drop (nat (idx b + 1)) (buffer b))"

fun zip_left :: "'a list \<times> 'a list \<Rightarrow> 'a list \<times> 'a list" where
  "zip_left (l, r) = (if l = [] then (l, r) else (butlast l, last l # r))"

fun zip_right :: "'a list \<times> 'a list \<Rightarrow> 'a list \<times> 'a list" where
  "zip_right (l, r) = (case r of [] \<Rightarrow> (l, r) | x # r' \<Rightarrow> (l @ [x], r'))"

fun zip_delete :: "'a list \<times> 'a list \<Rightarrow> 'a list \<times> 'a list" where
  "zip_delete (l, r) = (butlast l, r)"

fun zip_insert :: "'a \<Rightarrow> 'a list \<times> 'a list \<Rightarrow> 'a list \<times> 'a list" where
  "zip_insert x (l, r) = (l @ [x], r)"

lemma zipper_split:
  assumes "buf_wf E b" "0 \<le> idx b"
  shows "take (nat (idx b + 1)) (buffer b) = take (nat (idx b)) (buffer b) @ [buffer b ! nat (idx b)]"
    "drop (nat (idx b)) (buffer b) = buffer b ! nat (idx b) # drop (nat (idx b + 1)) (buffer b)"
proof -
  have i: "nat (idx b) < length (buffer b)" "nat (idx b + 1) = Suc (nat (idx b))"
    using buf_wfD(2) [OF assms(1)] assms(2) by auto
  show "take (nat (idx b + 1)) (buffer b) = take (nat (idx b)) (buffer b) @ [buffer b ! nat (idx b)]"
    unfolding i(2) by (rule take_Suc_conv_app_nth [OF i(1)])
  show "drop (nat (idx b)) (buffer b) = buffer b ! nat (idx b) # drop (nat (idx b + 1)) (buffer b)"
    unfolding i(2) by (rule Cons_nth_drop_Suc [OF i(1), symmetric])
qed

lemma caret_on_entry_wf: "buf_wf E b \<Longrightarrow> caret_on_entry b \<longleftrightarrow> 0 \<le> idx b"
  using buf_wfD(2) [of E b] by (simp add: caret_on_entry_def)

text \<open>(C37) The caret operations implement the abstract text with a caret: moving left and right, erasing
  before the caret and inserting after it are the operations on the two halves.\<close>

theorem caret_refines_zipper:
  assumes "buf_wf E b"
  shows "zipper (snd (pre b)) = zip_left (zipper b) \<and>
    zipper (snd (next_entry b)) = zip_right (zipper b) \<and>
    (caret_on_entry b \<longrightarrow> zipper (erase_at_caret b) = zip_delete (zipper b)) \<and>
    zipper (insert_after_caret b) = zip_insert (new_pos\<lparr>entry_id := next_id b\<rparr>) (zipper b)"
proof -
  note wf = buf_wfD(1,2) [OF assms]
  have left: "zipper (snd (pre b)) = zip_left (zipper b)"
  proof (cases "idx b < 0")
    case True
    with wf have "idx b = -1" by simp
    then show ?thesis by (simp add: zipper_def pre_def)
  next
    case False
    with zipper_split [OF assms] show ?thesis by (simp add: zipper_def pre_def)
  qed
  have right: "zipper (snd (next_entry b)) = zip_right (zipper b)"
  proof (cases "idx b + 1 \<ge> int (length (buffer b))")
    case True
    then show ?thesis by (simp add: zipper_def next_entry_def)
  next
    case False
    then have n: "nat (idx b + 1) < length (buffer b)" using wf by simp
    have "nat (2 + idx b) = Suc (nat (idx b + 1))" using wf by simp
    then show ?thesis
      using False n by (simp add: zipper_def next_entry_def take_Suc_conv_app_nth flip: Cons_nth_drop_Suc)
  qed
  have erase: "zipper (erase_at_caret b) = zip_delete (zipper b)" if "caret_on_entry b"
  proof -
    have i: "0 \<le> idx b" using that caret_on_entry_wf [OF assms] by simp
    then have "nat (idx b) \<le> length (buffer b)" "Suc (nat (idx b)) = nat (idx b + 1)" using wf by auto
    with i show ?thesis
      using zipper_split [OF assms i] by (simp add: zipper_def erase_at_caret_def list_erase_def)
  qed
  have insert: "zipper (insert_after_caret b) = zip_insert (new_pos\<lparr>entry_id := next_id b\<rparr>) (zipper b)"
  proof -
    have "nat (idx b + 1) \<le> length (buffer b)" "nat (2 + idx b) = Suc (nat (idx b + 1))" using wf by auto
    then show ?thesis
      by (simp add: zipper_def insert_after_caret_def Let_def list_insert_def)
  qed
  from left right erase insert show ?thesis by blast
qed

lemma caret_refines_zipper_witness:
  "zipper (snd (pre (typed_buffer [0x3107, 0x311A, 0x20]))) =
   zip_left (zipper (typed_buffer [0x3107, 0x311A, 0x20]))"
  using caret_refines_zipper [OF typed_buffer_wf] by blast

lemma to_bopomofo_pop:
  assumes "\<not> is_null p"
  shows "to_bopomofo_string (snd (pop_last_bopomofo p)) = butlast (to_bopomofo_string p)"
    "fst (pop_last_bopomofo p)"
  using assms
  by (auto simp: pop_last_bopomofo_def Let_def to_bopomofo_string_def to_toneless_bopomofo_string_def is_null_def
      butlast_append)

lemma reading_version [simp]: "to_bopomofo_string (p\<lparr>version := v\<rparr>) = to_bopomofo_string p"
  by (simp add: to_bopomofo_string_def to_toneless_bopomofo_string_def)

lemma is_null_reading: "is_null p \<longleftrightarrow> to_bopomofo_string p = []"
  by (auto simp: is_null_def to_bopomofo_string_def to_toneless_bopomofo_string_def)

text \<open>Backspace takes one thing before the caret: a finished syllable goes as a whole, an unfinished
  one loses its last symbol and goes with its only one.\<close>

theorem backspace_removes_one:
  assumes "buf_wf E b" "caret_on_entry b"
  defines "i \<equiv> nat (idx b)" and "b' \<equiv> snd (remove_last b)"
  shows "if compositable (buffer b ! i) \<or> length (to_bopomofo_string (buffer b ! i)) \<le> 1
    then buffer b' = list_erase i (buffer b) \<and> idx b' = idx b - 1
    else \<exists>item. buffer b' = (buffer b)[i := item] \<and> idx b' = idx b \<and>
      to_bopomofo_string item = butlast (to_bopomofo_string (buffer b ! i))"
proof -
  let ?item = "buffer b ! i"
  have i: "i < length (buffer b)" using caret_on_entryD [OF assms(2)] by (simp add: i_def)
  have on: "caret_on_entry b" by (rule assms(2))
  have idx: "0 \<le> idx b" using on by (simp add: caret_on_entry_def)
  let ?b = "b\<lparr>buffer := (buffer b)[i := snd (pop_last_bopomofo ?item)]\<rparr>"
  have clamp: "clamp_caret c = c" if "buf_wf E c" for c by (rule clamp_caret_id [OF that])
  have erased: "list_erase i ((buffer b)[i := x]) = list_erase i (buffer b)" for x
    using i by (simp add: list_erase_def)
  have wf: "buf_wf E ?b" "caret_on_entry ?b" if "\<not> compositable ?item"
    using that on i buf_wfD(4) [OF assms(1) nth_mem [OF i]]
    by (auto intro!: replace_entry_wf assms(1) pop_last_bopomofo_wf simp: frame_simps caret_on_entry_def)
  have b': "b' = (if compositable ?item then clamp_caret (erase_at_caret b)
      else if \<not> fst (pop_last_bopomofo ?item) \<or> is_null (snd (pop_last_bopomofo ?item))
      then clamp_caret (erase_at_caret ?b) else clamp_caret (edited ?b i))"
    using on by (simp add: b'_def remove_last_def i_def Let_def is_compositable_def split: prod.splits)
  have whole: "buffer b' = list_erase i (buffer b) \<and> idx b' = idx b - 1"
    if "compositable ?item \<or> length (to_bopomofo_string ?item) \<le> 1"
  proof (cases "compositable ?item")
    case True
    then show ?thesis
      using b' clamp [OF erase_at_caret_wf [OF assms(1) on]] by (simp add: erase_at_caret_def i_def)
  next
    case False
    with that have "length (to_bopomofo_string ?item) \<le> 1" by simp
    then have "is_null ?item \<or> length (butlast (to_bopomofo_string ?item)) = 0" by auto
    moreover have "\<not> fst (pop_last_bopomofo ?item)" if "is_null ?item"
      using that by (simp add: pop_last_bopomofo_def is_null_def Let_def)
    ultimately have "\<not> fst (pop_last_bopomofo ?item) \<or> is_null (snd (pop_last_bopomofo ?item))"
      using to_bopomofo_pop(1) [of ?item] is_null_reading [of "snd (pop_last_bopomofo ?item)"] by fastforce
    then show ?thesis
      using False b' clamp [OF erase_at_caret_wf [OF wf [OF False]]] erased
      by (simp add: erase_at_caret_def i_def)
  qed
  have symbol: "\<exists>item. buffer b' = (buffer b)[i := item] \<and> idx b' = idx b \<and>
        to_bopomofo_string item = butlast (to_bopomofo_string ?item)"
    if "\<not> compositable ?item" "1 < length (to_bopomofo_string ?item)"
  proof -
    have null: "\<not> is_null ?item" using that(2) is_null_reading [of ?item] by auto
    note pop = to_bopomofo_pop [OF null]
    have "\<not> is_null (snd (pop_last_bopomofo ?item))"
      using that(2) pop(1) is_null_reading by (metis length_butlast length_greater_0_conv zero_less_diff)
    then have "b' = edited ?b i"
      using b' that(1) pop(2) clamp [OF edited_wf [OF wf(1) [OF that(1)]]] i by simp
    then show ?thesis
      using pop(1) i
      by (intro exI [of _ "(snd (pop_last_bopomofo ?item))\<lparr>version := version (snd (pop_last_bopomofo ?item)) + 1\<rparr>"])
        (simp add: edited_def)
  qed
  from whole symbol show ?thesis by (simp add: not_le)
qed

lemma backspace_removes_one_witness: "idx (snd (remove_last (typed_buffer [0x3107, 0x311A, 0x20]))) = -1"
  using backspace_removes_one [OF typed_buffer_wf [of "[0x3107, 0x311A, 0x20]"]]
  by (simp add: typed_ma caret_on_entry_def)

section \<open>Choosing a candidate\<close>

text \<open>What \<open>append16\<close> does with Bopomofo symbols, which all lie in the basic plane.\<close>

definition symbols_plain :: "env \<Rightarrow> bool" where
  "symbols_plain E \<longleftrightarrow> (\<forall>c \<in> set layout_symbols. append16 E (ucast c) = Inr [c])"

lemma example_symbols_plain: "symbols_plain example_env"
  by (simp add: symbols_plain_def layout_symbols_def layout_defs example_env_def utf16_append_def
      is_scalar_def utf16_encode_def)

lemma current_literals:
  "(\<And>c. c \<in> set chs \<Longrightarrow> append16 E (ucast c) = Inr [c]) \<Longrightarrow>
   mapR (current E) (make_literals n m chs) = Inr (map (\<lambda>c. [c]) chs)"
  by (induction chs arbitrary: n)
    (simp_all add: current_def is_compositable_def candidate_at_def set_chosen_candidate_def)

lemma choose_candidate_pending [simp]: "\<not> conversion_pending (choose_candidate p ch)"
  by (simp add: choose_candidate_def Let_def)

lemma current_of_current32: "compositable p \<Longrightarrow> current32 p = Inr c \<Longrightarrow> current E p = append16 E c"
  by (auto simp: current_def current32_def is_compositable_def)

lemma candidate_texts_nth:
  assumes "get_candidate_texts E p = Inr texts" "get_candidates p = Inr cs" "k < length texts"
  shows "k < length cs \<Longrightarrow> append16 E (cs ! k) = Inr (texts ! k)"
    and "\<not> k < length cs \<Longrightarrow> multi_reading_literal p = Some (texts ! k) \<and> k = length cs"
proof -
  from assms(1,2) obtain ds where ds: "mapR (append16 E) cs = Inr ds"
    and t: "texts = ds @ (case multi_reading_literal p of None \<Rightarrow> [] | Some r \<Rightarrow> [r])"
    by (auto simp: get_candidate_texts_def rbind_Inr_iff)
  note len = length_mapR [OF ds]
  show "append16 E (cs ! k) = Inr (texts ! k)" if "k < length cs"
    using mapR_nth [OF ds that] that len by (simp add: t nth_append)
  show "multi_reading_literal p = Some (texts ! k) \<and> k = length cs" if "\<not> k < length cs"
    using that assms(3) len by (auto simp: t nth_append split: option.splits)
qed

text \<open>(C33) Choosing the entry at place \<open>k\<close> of the displayed list makes the syllable read exactly the text
  displayed there, whether it is a character of the table, the symbol itself or the whole reading
  as literal text; what replaces it is marked as the user's choice, and the rest of the composition
  stays.\<close>

theorem select_shows_choice:
  assumes "env_ok E" "symbols_plain E" "buf_wf E b"
    and "find_entry b e = Some i" "compositable (buffer b ! i)"
    and "get_candidate_texts E (buffer b ! i) = Inr texts" "k < length texts"
  shows "\<exists>b' ns ss. select_candidate E b e k = Inr (True, b') \<and>
    buffer b' = take i (buffer b) @ ns @ drop (i + 1) (buffer b) \<and>
    mapR (current E) ns = Inr ss \<and> concat ss = texts ! k \<and>
    (\<forall>n \<in> set ns. chosen n \<and> manually_selected n \<and> \<not> conversion_pending n)"
proof -
  let ?item = "buffer b ! i"
  have i: "i < length (buffer b)" using find_entry_less [OF assms(4)] by simp
  have wf: "pos_wf E ?item" by (rule buf_wfD(4) [OF assms(3) nth_mem [OF i]])
  obtain cs where cs: "get_candidates ?item = Inr cs" using get_candidates_total [OF assms(5)] by blast
  note nth = candidate_texts_nth [OF assms(6) cs assms(7)]
  obtain ok b' where run: "select_candidate E b e k = Inr (ok, b')"
    using select_candidate_total [OF assms(1,3)] by (metis surj_pair)
  from run show ?thesis
  proof (cases rule: select_candidate_cases)
    case refused
    then show ?thesis
      using run assms(4-7) cs
      by (auto simp: select_candidate_def is_compositable_def Let_def rbind_Inr_iff split: option.splits if_splits)
  next
    case (literals position r cs')
    then have p: "position = i" "cs' = cs" "r = texts ! k" using assms(4) cs nth(2) by auto
    have plain: "append16 E (ucast c) = Inr [c]" if "c \<in> set r" for c
      using that multi_reading_literal_subset [OF literals(4)] slots_symbols [OF pos_wf_slots [OF wf]] assms(2) p
      by (auto simp: symbols_plain_def)
    have shown: "mapR (current E) (make_literals (next_id b) True r) = Inr (map (\<lambda>c. [c]) r)"
      by (rule current_literals [OF plain])
    have marks: "\<forall>n \<in> set (make_literals m True r). chosen n \<and> manually_selected n \<and> \<not> conversion_pending n" for m
      by (induction r arbitrary: m) auto
    show ?thesis
      by (rule exI [of _ b'], rule exI [of _ "make_literals (next_id b) True r"], rule exI [of _ "map (\<lambda>c. [c]) r"])
        (use run literals(1,7) p shown marks in simp)
  next
    case (index position item')
    then have p: "position = i" using assms(4) by simp
    have "candidate_at cs (int k) \<noteq> Inl Out_of_range"
      using index(4) cs by (auto simp: set_choose_index_def rbind_Inr_iff p)
    then have k: "k < length cs" by (auto simp: candidate_at_def split: if_splits)
    note chosen = current32_set_choose_index [OF cs k index(4) [unfolded p]]
    have item': "compositable item'" "\<not> conversion_pending item'"
      using set_choose_index_wf [OF assms(1) wf index(4) [unfolded p]] index(4)
      by (auto simp: set_choose_index_def rbind_Inr_iff split: if_splits)
    let ?n = "item'\<lparr>version := version item' + 1\<rparr>"
    have b': "buffer b' = take i (buffer b) @ [?n] @ drop (i + 1) (buffer b)"
      using index(5) i by (simp add: edited_def p upd_conv_take_nth_drop nth_append)
    have cur: "current E ?n = current E item'" by (simp add: current_def is_compositable_def)
    have "current E item' = Inr (texts ! k)"
      using current_of_current32 [OF item'(1)] chosen nth(1) [OF k] by simp
    with cur have "mapR (current E) [?n] = Inr [texts ! k]" by simp
    moreover have "\<forall>n \<in> set [?n]. chosen n \<and> manually_selected n \<and> \<not> conversion_pending n"
      using chosen item'(2) by simp
    ultimately show ?thesis using run index(1) b'
      by (intro exI [of _ b'] exI [of _ "[?n]"] exI [of _ "[texts ! k]"]) simp
  qed
qed

lemma select_shows_choice_witness:
  "\<exists>b' ns ss. select_candidate example_env (typed_buffer [0x3107, 0x311A, 0x20]) 1 1 = Inr (True, b') \<and>
    buffer b' = ns \<and> mapR (current example_env) ns = Inr ss \<and> concat ss = [0x9EBB]"
proof -
  have t: "get_candidate_texts example_env (buffer (typed_buffer [0x3107, 0x311A, 0x20]) ! 0) =
      Inr [[0x5ABD], [0x9EBB], [0x3107, 0x311A]]"
    by (simp add: typed_ma new_pos_def get_candidate_texts_def get_candidates_def is_compositable_def single_reading_literal_def
        multi_reading_literal_def to_toneless_bopomofo_string_def example_env_def utf16_append_def is_scalar_def
        utf16_encode_def)
  show ?thesis
    using select_shows_choice [OF example_env_ok example_symbols_plain typed_buffer_wf _ _ t, of 1 1]
    by (auto simp: typed_ma find_entry_def)
qed

section \<open>Conversion results\<close>

text \<open>Merging an answered request is a per-syllable affair: every syllable takes, in the order of the
  request, each usable result that was computed for exactly it, and nothing else changes, not even
  the caret or the revision.\<close>

theorem merge_is_pointwise:
  fixes s :: nat and locked :: "nat option"
  assumes "distinct (entry_ids b)" "length requested = length converted"
  defines "b' \<equiv> fst (merge_conversion b s requested converted locked)"
  shows "buffer b' = map (\<lambda>item. foldl (merge_entry s locked) item (zip requested converted)) (buffer b) \<and>
    idx b' = idx b \<and> revision b' = revision b \<and> next_id b' = next_id b"
  unfolding b'_def
  by (intro conjI merge_conversion_buffer [OF assms(1,2)] merge_conversion_frame [OF surjective_pairing])

lemma merge_is_pointwise_witness:
  "revision (fst (merge_conversion (typed_buffer [0x3107, 0x311A, 0x20]) 1 [] [] None)) = 3"
  using merge_is_pointwise [of "typed_buffer [0x3107, 0x311A, 0x20]" "[]" "[]" 1 None]
  by (simp add: typed_ma entry_ids_def)

text \<open>(C32) A result never touches what the user decided: a syllable chosen by hand, one edited since the
  request was sent, one that already has a newer result and the one whose candidate list is open stay
  as they are.\<close>

theorem merge_respects_user:
  assumes "distinct (entry_ids b)" "i < length (buffer b)"
    and "chosen (buffer b ! i) \<or> s < converted_by (buffer b ! i) \<or> locked = Some (entry_id (buffer b ! i)) \<or>
      (\<forall>r \<in> set requested. entry_id r = entry_id (buffer b ! i) \<longrightarrow> version r \<noteq> version (buffer b ! i))"
  shows "buffer (fst (merge_conversion b s requested converted locked)) ! i = buffer b ! i"
proof (cases "length requested = length converted")
  case True
  have "foldl (merge_entry s locked) (buffer b ! i) (zip requested converted) = buffer b ! i"
    by (rule merge_fold_kept) (use assms(3) in \<open>auto dest!: set_zip_leftD\<close>)
  then show ?thesis using assms(2) merge_conversion_buffer [OF assms(1) True] by simp
qed (simp add: merge_conversion_def)

definition answer_for_ma :: pos where
  "answer_for_ma = new_pos\<lparr>predicted := True, candidates := [0x9EBB]\<rparr>"

lemma merge_respects_user_witness:
  "let b = typed_buffer [0x3107, 0x311A, 0x20] in
   buffer (fst (merge_conversion b 1 [new_pos\<lparr>entry_id := 1, version := 1\<rparr>] [answer_for_ma] None)) ! 0 = buffer b ! 0"
  unfolding Let_def
  by (rule merge_respects_user) (simp_all add: typed_ma entry_ids_def)

lemma merge_fold_single:
  assumes "distinct (map (entry_id \<circ> fst) ros)"
  shows "foldl (merge_entry s l) item ros =
    (case find_index (\<lambda>ro. entry_id (fst ro) = entry_id item) ros of
       None \<Rightarrow> item | Some i \<Rightarrow> merge_entry s l item (ros ! i))"
  using assms
proof (induction ros arbitrary: item)
  case (Cons ro ros)
  have other: "merge_entry s l item ro = item" if "entry_id (fst ro) \<noteq> entry_id item"
    using that by (cases ro) (simp add: merge_entry_def)
  have gone: "find_index (\<lambda>r. entry_id (fst r) = entry_id item) ros = None" if "entry_id (fst ro) = entry_id item"
    using Cons.prems that by (force simp: find_index_None)
  have rest: "foldl (merge_entry s l) item' ros =
      (case find_index (\<lambda>ro. entry_id (fst ro) = entry_id item') ros of
         None \<Rightarrow> item' | Some i \<Rightarrow> merge_entry s l item' (ros ! i))" for item'
    using Cons.IH [of item'] Cons.prems by simp
  show ?case
  proof (cases "entry_id (fst ro) = entry_id item")
    case True
    then show ?thesis using gone [OF True] by (simp add: rest frame_simps)
  next
    case False
    then show ?thesis using other [OF False] by (simp add: rest split: option.split)
  qed
qed simp

lemma apply_result_overwrites: "apply_result s2 (apply_result s1 item out1) out2 = apply_result s2 item out2"
  by (simp add: apply_result_def)

lemma apply_result_fields [simp]:
  "chosen (apply_result s item out) = chosen out" "converted_by (apply_result s item out) = s"
  by (simp_all add: apply_result_def)

text \<open>The answer is not a choice the user has still to make: where it is chosen and was computed for this very
  entry, the entry is chosen.\<close>

definition answers_no_choice :: "pos \<Rightarrow> pos \<times> pos \<Rightarrow> bool" where
  "answers_no_choice item = (\<lambda>(req, out).
     chosen out \<and> entry_id item = entry_id req \<and> version item = version req \<longrightarrow> chosen item)"

lemma merge_entry_commute:
  assumes "s1 < s2" "answers_no_choice item x1"
  shows "merge_entry s2 l (merge_entry s1 l item x1) x2 = merge_entry s1 l (merge_entry s2 l item x2) x1"
proof -
  obtain r1 o1 r2 o2 where x: "x1 = (r1, o1)" "x2 = (r2, o2)" by (cases x1, cases x2) blast
  let ?fits = "\<lambda>r out s. usable out \<and> entry_id item = entry_id r \<and> version item = version r \<and> \<not> chosen item \<and>
    converted_by item \<le> s \<and> l \<noteq> Some (entry_id item)"
  have first: "?fits r1 o1 s1 \<Longrightarrow> \<not> chosen o1" using assms(2) by (auto simp: x answers_no_choice_def)
  show ?thesis
  proof (cases "?fits r1 o1 s1"; cases "?fits r2 o2 s2")
    assume "?fits r1 o1 s1" "?fits r2 o2 s2"
    then show ?thesis using assms(1) first by (simp add: x merge_entry_def frame_simps apply_result_overwrites)
  next
    assume "?fits r1 o1 s1" "\<not> ?fits r2 o2 s2"
    moreover from this have "\<not> (usable o2 \<and> entry_id item = entry_id r2 \<and> version item = version r2)"
      using assms(1) by auto
    ultimately show ?thesis by (auto simp: x merge_entry_def frame_simps)
  next
    assume n: "\<not> ?fits r1 o1 s1" and f: "?fits r2 o2 s2"
    then have "merge_entry s1 l item x1 = item" "merge_entry s2 l item x2 = apply_result s2 item o2"
      by (auto simp: x merge_entry_def)
    then show ?thesis using assms(1) by (simp add: x(1) merge_entry_def)
  next
    assume "\<not> ?fits r1 o1 s1" "\<not> ?fits r2 o2 s2"
    then have "merge_entry s1 l item x1 = item" "merge_entry s2 l item x2 = item"
      by (auto simp: x merge_entry_def)
    then show ?thesis by simp
  qed
qed

lemma merge_unanswered: "length requested \<noteq> length converted \<Longrightarrow> fst (merge_conversion b s requested converted l) = b"
  by (simp add: merge_conversion_def)

text \<open>(C25) Results may arrive in any order.  Two answered requests, the later one under the larger sequence,
  leave the same syllables whichever arrives first, whether or not the candidate list of a syllable is
  open all the while.  The hypothesis on the older answer is that it only fixes what the user had fixed:
  a syllable it answers as chosen, and that was not edited since, is already chosen in the
  composition.\<close>

theorem merge_order_irrelevant:
  assumes "distinct (entry_ids b)" "s1 < s2" "distinct (map entry_id r1)" "distinct (map entry_id r2)"
    and "\<forall>(req, out) \<in> set (zip r1 c1). chosen out \<longrightarrow>
      (\<forall>item \<in> set (buffer b). entry_id item = entry_id req \<and> version item = version req \<longrightarrow> chosen item)"
  shows "buffer (fst (merge_conversion (fst (merge_conversion b s1 r1 c1 locked)) s2 r2 c2 locked)) =
         buffer (fst (merge_conversion (fst (merge_conversion b s2 r2 c2 locked)) s1 r1 c1 locked))"
proof (cases "length r1 = length c1 \<and> length r2 = length c2")
  case True
  have d: "distinct (map (entry_id \<circ> fst) (zip r1 c1))" "distinct (map (entry_id \<circ> fst) (zip r2 c2))"
    using assms(3,4) True by (simp_all flip: map_map)
  have "foldl (merge_entry s2 locked) (foldl (merge_entry s1 locked) item (zip r1 c1)) (zip r2 c2) =
        foldl (merge_entry s1 locked) (foldl (merge_entry s2 locked) item (zip r2 c2)) (zip r1 c1)"
    if item: "item \<in> set (buffer b)" for item
  proof -
    have un: "answers_no_choice item (zip r1 c1 ! i)" if "find_index P (zip r1 c1) = Some i" for i P
    proof -
      have "zip r1 c1 ! i \<in> set (zip r1 c1)" using find_index_SomeD [OF that] by (blast intro: nth_mem)
      then show ?thesis using assms(5) item by (fastforce simp: answers_no_choice_def)
    qed
    show ?thesis
      using merge_entry_commute [OF assms(2) un]
      by (auto simp: merge_fold_single [OF d(1)] merge_fold_single [OF d(2)] frame_simps split: option.splits)
  qed
  then show ?thesis
    using assms(1) True merge_conversion_ids [OF assms(1)]
    by (simp add: merge_conversion_buffer)
qed (auto simp: merge_unanswered)

definition chosen_answer :: pos where
  "chosen_answer = answer_for_ma\<lparr>chosen := True\<rparr>"

text \<open>A request answered as chosen for a syllable edited since, while its candidate list is open.\<close>

lemma merge_order_irrelevant_witness:
  "let b = typed_buffer [0x3107, 0x311A, 0x20]; r = buffer b; old = [(hd r)\<lparr>version := 0\<rparr>] in
   buffer (fst (merge_conversion (fst (merge_conversion b 1 old [chosen_answer] (Some 9))) 2 r [answer_for_ma] (Some 9))) =
   buffer (fst (merge_conversion (fst (merge_conversion b 2 r [answer_for_ma] (Some 9))) 1 old [chosen_answer] (Some 9)))"
  unfolding Let_def
  by (rule merge_order_irrelevant) (simp_all add: typed_ma entry_ids_def answer_for_ma_def chosen_answer_def new_pos_def)

section \<open>Ending early\<close>

lemma freeze_loop_text:
  assumes "freeze_loop at k items (frozen, n, caret) = (frozen', n', caret')"
    and "\<forall>item \<in> set items. \<forall>c \<in> set (to_bopomofo_string item). append16 E (ucast c) = Inr [c]"
    and "mapR (current E) frozen = Inr fs" "mapR (current E) items = Inr ss"
  shows "\<exists>fs'. mapR (current E) frozen' = Inr fs' \<and> concat fs' = concat fs @ concat ss"
  using assms
proof (induction items arbitrary: k frozen n caret fs ss)
  case (Cons item items)
  obtain s ss1 where s: "current E item = Inr s" "mapR (current E) items = Inr ss1" "ss = s # ss1"
    using Cons.prems(4) by (auto simp: rbind_Inr_iff)
  show ?case
  proof (cases "is_compositable item")
    case True
    have "mapR (current E) (frozen @ [item]) = Inr (fs @ [s])" using Cons.prems(3) s(1) by (simp add: mapR_append)
    from Cons.IH [OF _ _ this s(2), of "k + 1" n] Cons.prems(1,2) True s(3)
    show ?thesis by (auto simp: Let_def)
  next
    case False
    let ?r = "to_bopomofo_string item"
    have "mapR (current E) (make_literals n False ?r) = Inr (map (\<lambda>c. [c]) ?r)"
      by (rule current_literals) (use Cons.prems(2) in auto)
    then have "mapR (current E) (frozen @ make_literals n False ?r) = Inr (fs @ map (\<lambda>c. [c]) ?r)"
      using Cons.prems(3) by (simp add: mapR_append)
    from Cons.IH [OF _ _ this s(2), of "k + 1" "n + length ?r"] Cons.prems(1,2) False s(1,3)
    show ?thesis by (auto simp: Let_def current_def)
  qed
qed auto

text \<open>(C36) Ending a composition early keeps its text: freezing turns the unfinished readings into the same
  symbols as fixed text, after which nothing in the composition is unfinished.\<close>

theorem freeze_keeps_text:
  assumes "env_ok E" "symbols_plain E" "buf_wf E b"
  defines "b' \<equiv> snd (freeze_readings b)"
  shows "final_text E b' = final_text E b \<and> \<not> has_uncomposed_reading b' \<and> buf_wf E b'"
proof -
  have fr: "freeze_readings b = (fst (freeze_readings b), b')" by (simp add: b'_def)
  from freeze_readings_wf [OF assms(1,3) fr] have frozen: "\<not> has_uncomposed_reading b'" "buf_wf E b'" by simp_all
  have "final_text E b' = final_text E b"
  proof (cases "has_uncomposed_reading b")
    case False
    then show ?thesis by (simp add: b'_def freeze_readings_def)
  next
    case True
    obtain frozen n caret where loop: "freeze_loop (idx b) 0 (buffer b) ([], next_id b, -1) = (frozen, n, caret)"
      by (metis prod_cases3)
    obtain ss where ss: "mapR (current E) (buffer b) = Inr ss"
      using mapR_current_total buf_wfD(4) [OF assms(3)] by blast
    have "\<forall>item \<in> set (buffer b). \<forall>c \<in> set (to_bopomofo_string item). append16 E (ucast c) = Inr [c]"
      using assms(2) slots_symbols pos_wf_slots buf_wfD(4) [OF assms(3)] unfolding symbols_plain_def by blast
    from freeze_loop_text [OF loop this _ ss, of "[]"] obtain fs'
      where "mapR (current E) frozen = Inr fs'" "concat fs' = concat ss" by auto
    then show ?thesis using True loop ss by (simp add: b'_def freeze_readings_def final_text_def)
  qed
  with frozen show ?thesis by blast
qed

lemma freeze_keeps_text_witness:
  "final_text example_env (snd (freeze_readings (typed_buffer [0x3107]))) = Inr [0x3107]"
  using freeze_keeps_text [OF example_env_ok example_symbols_plain typed_buffer_wf, of "[0x3107]"]
  by (simp add: typed_buffer_def add_def new_buffer_def current_invalid_def caret_on_entry_def insert_after_caret_def
      list_insert_def accept_def new_pos_def is_compositable_def layout_defs Let_def final_text_def current_def
      to_bopomofo_string_def to_toneless_bopomofo_string_def)

text \<open>(C30) Every operation on the composition keeps it well formed: the caret inside it, entry ids distinct
  and never reused, and every syllable displayable, and no result that was sent for is lost to it.\<close>

theorem operations_keep_buffer_wf:
  assumes "env_ok E" "buf_wf E b"
  shows "(\<forall>ch. buf_wf E (add E b ch) \<and> evolves b (add E b ch)) \<and>
    (\<forall>ch. displayable E ch \<longrightarrow> buf_wf E (add_chosen_candidate b ch) \<and> evolves b (add_chosen_candidate b ch)) \<and>
    (\<forall>b' \<in> {snd (pre b), snd (next_entry b), snd (remove_last b), snd (discard_current_reading b),
          snd (freeze_readings b), snd (accept_local_candidates b), set_immediate_conversion True b,
          set_immediate_conversion False b, clear_buffer b}.
        buf_wf E b' \<and> evolves b b') \<and>
    (\<forall>e k. \<exists>ok b'. select_candidate E b e k = Inr (ok, b') \<and> buf_wf E b' \<and> evolves b b') \<and>
    (\<forall>s r c l. composed_in b r \<longrightarrow> (\<forall>out \<in> set c. usable out \<longrightarrow> result_ok E out) \<longrightarrow>
        buf_wf E (fst (merge_conversion b s r c l)) \<and> evolves b (fst (merge_conversion b s r c l)))"
proof -
  have typing: "\<forall>ch. buf_wf E (add E b ch) \<and> evolves b (add E b ch)"
    using add_wf [OF assms] add_evolves [OF assms(2)] by blast
  have typing_text: "\<forall>ch. displayable E ch \<longrightarrow> buf_wf E (add_chosen_candidate b ch) \<and> evolves b (add_chosen_candidate b ch)"
    using add_chosen_candidate_wf assms(2) add_chosen_candidate_evolves by blast
  have moves: "\<forall>b' \<in> {snd (pre b), snd (next_entry b), snd (remove_last b), snd (discard_current_reading b),
          snd (freeze_readings b), snd (accept_local_candidates b), set_immediate_conversion True b,
          set_immediate_conversion False b, clear_buffer b}.
        buf_wf E b' \<and> evolves b b'"
    using assms(2) freeze_readings_wf [OF assms surjective_pairing]
    by (auto intro: wf_intros evolution)
  have selecting: "\<forall>e k. \<exists>ok b'. select_candidate E b e k = Inr (ok, b') \<and> buf_wf E b' \<and> evolves b b'"
    using select_candidate_total [OF assms] select_candidate_wf [OF assms] select_candidate_evolves [OF assms]
    by (metis surj_pair)
  have merging: "\<forall>s r c l. composed_in b r \<longrightarrow> (\<forall>out \<in> set c. usable out \<longrightarrow> result_ok E out) \<longrightarrow>
        buf_wf E (fst (merge_conversion b s r c l)) \<and> evolves b (fst (merge_conversion b s r c l))"
    using merge_conversion_wf [OF assms(2)] merge_conversion_evolves [OF assms(2)] by blast
  from typing typing_text moves selecting merging show ?thesis by (intro conjI)
qed

lemma operations_keep_buffer_wf_witness:
  "buf_wf example_env (add example_env new_buffer 0x3107)"
  using operations_keep_buffer_wf [OF example_env_ok new_buffer_wf] by blast

end
