(* ===== verification/Controller_Properties.thy ===== *)
theory Controller_Properties
  imports Controller_Steps Buffer_Properties
begin

text \<open>
  What the composition controller and the sealed queue promise: no key or result can bring them
  down, a granted session runs everything that waits, what Enter commits is what was shown, a
  composition that must end early is sealed and later written, in order.
\<close>

section \<open>Concrete hosts for evaluating the model\<close>

text \<open>A host with every document open and nothing before the caret, that grants edits at once or not.\<close>

definition example_host :: "bool \<Rightarrow> host" where
  "example_host grants =
     \<lparr>document_open = (\<lambda>_ _. True), grants_at_once = (\<lambda>_ _. grants), preceding_text = (\<lambda>_ _ _. []),
      sealed_text = (\<lambda>_ _ _. None), caret_after_sealed = (\<lambda>_ _ _. False),
      text_before_caret = (\<lambda>_ _. [])\<rparr>"

section \<open>Safety\<close>

text \<open>(C21) Whatever has happened before, every key, candidate choice, conversion result and session granted
  is handled without an exception, and leaves a state in which every composition and sealed segment is
  well formed under an epoch of its own and every conversion still awaited fits the text it was sent
  for.\<close>

theorem controller_never_fails:
  assumes "env_ok E" "reachable E H w" "event_ok E ev"
  shows "\<exists>w'. handle E H ev w = (Inr (), w') \<and> winv E w'"
  using reachable_handles [OF assms] by metis

lemma controller_never_fails_witness:
  "\<exists>w'. handle example_env (example_host True) (Type_reading 7 0x3107) new_world = (Inr (), w') \<and> winv example_env w'"
  by (rule controller_never_fails [OF example_env_ok reachable.start]) simp

text \<open>(C31) An edit session of a document runs every edit that was queued for it, once and in order, each in the state
  the one before left, then the edits these queued meanwhile, which all write finished text and are no more
  than the others; then it gives the session back, and nothing is left waiting in the document.\<close>

theorem session_runs_everything:
  "\<exists>later w'. session_runs E H d (w\<lparr>active_edit := Some d\<rparr>) (queued_edits w d @ later) w' \<and>
     set later \<subseteq> {Write_edit d} \<and> length later \<le> length (queued_edits w d) \<and> queued_edits w' d = [] \<and>
     run_edits E H d w = (Inr (), w'\<lparr>active_edit := active_edit w\<rparr>)"
  using run_edits_runs session_runs_empties by blast

text \<open>An edit only ever queues for the document it runs in: whatever it does, the queues of the other
  documents stay as they were, so a session never has to ask for another one while it runs.\<close>

theorem edits_stay_in_their_document:
  assumes "winv E w" "edit_ok E w e" "d \<noteq> edit_document e"
  shows "\<exists>w'. exec_edit (nested_run_edit H) E H e w = (Inr (), w') \<and> queued_edits w' d = queued_edits w d"
proof -
  let ?J = "\<lambda>q. \<forall>d. d \<noteq> edit_document e \<longrightarrow> q d = queued_edits w d"
  have "inv_from E ?J w w \<and> edit_ok E w e" using assms by (simp add: inv_from_def)
  with nested.exec_edit_ok [OF refl, of E e "queued_edits w" w H]
  obtain x w' where "exec_edit (nested_run_edit H) E H e w = (Inr x, w')" "inv_from E ?J w w'"
    by (rule ensuresD)
  then show ?thesis using assms(3) by (auto simp: inv_from_def)
qed

lemma edits_stay_in_their_document_witness:
  "\<exists>w'. exec_edit (nested_run_edit (example_host True)) example_env (example_host True) (Backspace_edit 3) new_world =
     (Inr (), w') \<and> queued_edits w' 4 = []"
  using edits_stay_in_their_document [OF new_world_winv, of example_env "Backspace_edit 3" 4 "example_host True"]
  by (simp add: new_world_def)

section \<open>Enter\<close>

lemma run_queues:
  assumes "document_open H (calls w) (edit_document e)" "active_edit w = Some (edit_document e) \<or> \<not> grants_at_once H (calls w) (edit_document e)"
  shows "run (run_edit E H) e w = (Inr (), enqueue (edit_document e) e w)"
  using assms
  by (auto simp: run_def run_edit_def bindC_def getC_def thenC_def modC_def whenC_def ret_def enqueue_def)

text \<open>A document whose session the host grants at once, and for which nothing waits, runs the edit there and then.\<close>

lemma run_granted:
  assumes "document_open H (calls w) (edit_document e)" "grants_at_once H (calls w) (edit_document e)"
    "active_edit w \<noteq> Some (edit_document e)" "queued_edits w (edit_document e) = []"
    and ran: "exec_edit (nested_run_edit H) E H e (w\<lparr>active_edit := Some (edit_document e)\<rparr>) = (outcome, w')"
    and quiet: "queued_edits w' (edit_document e) = []"
  shows "run (run_edit E H) e w = (Inr (), w'\<lparr>active_edit := active_edit w\<rparr>)"
proof -
  let ?d = "edit_document e" and ?w = "enqueue (edit_document e) e w"
  have front: "queued_edits ?w ?d = [e]" using assms(4) by (simp add: enqueue_def)
  have popped: "?w\<lparr>active_edit := Some ?d, queued_edits := (queued_edits ?w)(?d := [])\<rparr> = w\<lparr>active_edit := Some ?d\<rparr>"
  proof -
    have "(queued_edits w)(?d := []) = queued_edits w" using assms(4) by (simp add: fun_upd_idem)
    then show ?thesis by (simp add: enqueue_def)
  qed
  have queue: "run_queued E H ?d fuel w' = (Inr (), w')" for fuel
    using quiet by (cases fuel) (simp_all add: run_simps ret_def)
  obtain k where k: "queue_fuel [e] = Suc k" using edit_weight_pos(1) [of e] by (cases "queue_fuel [e]") (auto simp: queue_fuel_def)
  have "run_queued E H ?d (Suc k) (?w\<lparr>active_edit := Some ?d\<rparr>) = (Inr (), w')"
    using ran front popped queue by (simp add: run_simps, simp add: thenC_def bindC_def catchC_def)
  then have "run_edits E H ?d ?w = (Inr (), w'\<lparr>active_edit := active_edit w\<rparr>)"
    using front k by (simp add: run_edits_def run_simps, simp add: thenC_def bindC_def getC_def modC_def enqueue_def)
  then show ?thesis
    using assms(1-3) by (simp add: run_def run_edit_def thenC_def bindC_def getC_def modC_def whenC_def ret_def enqueue_def)
qed

text \<open>(C28) Enter on a composition that is settled ends it at once, and what is committed is what the document shows.
  The sample taken is the one the composition has: there is one exactly if its output is trusted, with
  the text on the screen as its answer, one entry for each syllable and the text read before the
  composition as its context.  The document gets the commit through its queue: at once, with the sample
  recorded after it, where its host grants edits at once and nothing waits, and later otherwise.\<close>

theorem enter_commits_what_is_shown:
  assumes "winv E w" "composition w = Some c" "comp_document c = d" "settled c"
  defines "ctxt \<equiv> case comp_preceding c of None \<Rightarrow> [] | Some p \<Rightarrow> p"
  shows "\<exists>sample. training_sample E (comp_buf c) ctxt = Inr sample \<and> (sample \<noteq> None \<longleftrightarrow> output_is_trusted (comp_buf c)) \<and>
    (\<forall>s. sample = Some s \<longrightarrow> to_string E (comp_buf c) = Inr (answer s) \<and> context_text s = ctxt \<and>
       length (commit_input s) = length (buffer (comp_buf c))) \<and>
    handle E H (Enter d) w = run (run_edit E H) (Commit_edit d (comp_epoch c) sample) (w\<lparr>composition := None\<rparr>) \<and>
    (document_open H (calls w) d \<and> \<not> grants_at_once H (calls w) d \<longrightarrow>
      handle E H (Enter d) w = (Inr (), enqueue d (Commit_edit d (comp_epoch c) sample) (w\<lparr>composition := None\<rparr>))) \<and>
    (document_open H (calls w) d \<and> grants_at_once H (calls w) d \<and> active_edit w \<noteq> Some d \<and> queued_edits w d = [] \<longrightarrow>
      handle E H (Enter d) w = (Inr (), w\<lparr>composition := None, calls := calls w @ Commit d (comp_epoch c) #
        (case sample of Some s \<Rightarrow> [Record_commit d (comp_epoch c) s] | None \<Rightarrow> [])\<rparr>))"
proof -
  have ready: "ready_to_commit (comp_buf c)" using assms(4) by (simp add: settled_def)
  obtain sample where sample: "training_sample E (comp_buf c) ctxt = Inr sample"
    using training_sample_total winv_comp(1) [OF assms(1,2)] by blast
  have live: "live w d = Some c" by (simp add: live_def assms)
  let ?e = "Commit_edit d (comp_epoch c) sample" and ?w = "w\<lparr>composition := None\<rparr>"
  have run: "handle E H (Enter d) w = run (run_edit E H) ?e ?w"
    using ready assms(2-4) sample by (simp add: enter_def run_simps live ready_to_commit_def commit_def ctxt_def)
  have later: "run (run_edit E H) ?e ?w = (Inr (), enqueue d ?e ?w)"
    if "document_open H (calls w) d" "\<not> grants_at_once H (calls w) d"
    using run_queues [of H ?w ?e E] that by simp
  let ?calls = "calls w @ Commit d (comp_epoch c) # (case sample of Some s \<Rightarrow> [Record_commit d (comp_epoch c) s] | None \<Rightarrow> [])"
  have "exec_edit (nested_run_edit H) E H ?e (?w\<lparr>active_edit := Some d\<rparr>) =
      (Inr (), ?w\<lparr>active_edit := Some d, calls := ?calls\<rparr>)"
    by (simp add: host_does_def run_simps split: option.split) (simp add: ret_def modC_def)
  then have now: "run (run_edit E H) ?e ?w = (Inr (), ?w\<lparr>calls := ?calls\<rparr>)"
    if "document_open H (calls w) d" "grants_at_once H (calls w) d" "active_edit w \<noteq> Some d" "queued_edits w d = []"
    using run_granted [of H ?w ?e E _ "?w\<lparr>active_edit := Some d, calls := ?calls\<rparr>"] that by simp
  have trusted: "sample \<noteq> None \<longleftrightarrow> output_is_trusted (comp_buf c)"
    using sample by (auto simp: training_sample_def rbind_Inr_iff split: if_splits)
  have "to_string E (comp_buf c) = Inr (answer s) \<and> context_text s = ctxt \<and>
      length (commit_input s) = length (buffer (comp_buf c))" if "sample = Some s" for s
  proof -
    have "commit_sample_of E (comp_buf c) ctxt = Inr s"
      using sample that by (auto simp: training_sample_def rbind_Inr_iff split: if_splits)
    from commit_sample_answer [OF this] show ?thesis
      using to_string_final_text [of "comp_buf c" E] ready by (simp add: ready_to_commit_def)
  qed
  with sample trusted run later now show ?thesis by (intro exI [of _ sample]) simp
qed

definition literal_world :: world where
  "literal_world = new_world\<lparr>composition := Some ((new_composition 1 7 False)\<lparr>comp_buf := add_chosen_candidate new_buffer 0x41\<rparr>),
     next_epoch := 2\<rparr>"

lemma literal_world_winv: "winv example_env literal_world"
proof (rule winvI)
  have wf: "buf_wf example_env (add_chosen_candidate new_buffer 0x41)"
    by (intro add_chosen_candidate_wf example_displayable new_buffer_wf) (simp add: is_scalar_def)
  then show "e < next_epoch literal_world \<and> buf_wf example_env b" if "(e, d, b) \<in> set (bufs literal_world)" for e d b
    using that by (simp add: bufs_def literal_world_def new_world_def new_composition_def)
qed (auto simp: literal_world_def new_world_def bufs_def new_composition_def held_ok_def new_lock_def
      new_tracker_def tracker_wf_def)

lemma enter_commits_what_is_shown_witness:
  "\<exists>s. answer s = [0x41] \<and> handle example_env (example_host True) (Enter 7) literal_world =
     (Inr (), literal_world\<lparr>composition := None, calls := [Commit 7 1, Record_commit 7 1 s]\<rparr>)"
proof -
  have "settled (the (composition literal_world))" "output_is_trusted (comp_buf (the (composition literal_world)))"
    "to_string example_env (comp_buf (the (composition literal_world))) = Inr [0x41]"
    by code_simp+
  then show ?thesis
    using enter_commits_what_is_shown [OF literal_world_winv, of "the (composition literal_world)" 7 "example_host True"]
    by (auto simp: literal_world_def new_composition_def example_host_def new_world_def)
qed

text \<open>What requesting a conversion and sealing change, in a host that grants edits later.\<close>

lemma request_effect:
  assumes "composition w = Some c"
  shows "\<exists>x t. request_conversion w = (Inr (), w\<lparr>composition := Some (c\<lparr>comp_sent := x\<rparr>), conversions := t\<rparr>)"
proof -
  have same: "w\<lparr>composition := Some (c\<lparr>comp_sent := comp_sent c\<rparr>), conversions := conversions w\<rparr> = w"
    using assms by simp
  have keep: "\<exists>x t. w = w\<lparr>composition := Some (c\<lparr>comp_sent := x\<rparr>), conversions := t\<rparr>"
    using same [symmetric] by blast
  have sent: "\<exists>x t. (Inr (), upd_comp (\<lambda>c. c\<lparr>comp_sent := y\<rparr>) (w\<lparr>conversions := t'\<rparr>)) =
      (Inr (), w\<lparr>composition := Some (c\<lparr>comp_sent := x\<rparr>), conversions := t\<rparr>)" for y t'
    by (rule exI [of _ y], rule exI [of _ t']) (simp add: upd_comp_def assms)
  have unsent: "\<exists>x t. (Inr (), w\<lparr>conversions := t'\<rparr>) =
      (Inr (), w\<lparr>composition := Some (c\<lparr>comp_sent := x\<rparr>), conversions := t\<rparr>)" for t'
    by (rule exI [of _ "comp_sent c"], rule exI [of _ t']) (use assms in simp)
  show ?thesis
  proof (cases "comp_preceding c")
    case None
    then show ?thesis using keep by (simp add: request_conversion_def run_simps assms, simp add: ret_def)
  next
    case (Some p)
    show ?thesis
    proof (cases "conversion_snapshot_of (comp_buf c)")
      case None
      with Some show ?thesis using keep by (simp add: request_conversion_def run_simps assms, simp add: ret_def)
    next
      case (Some snap)
      with \<open>comp_preceding c = Some p\<close> show ?thesis
        using keep sent unsent
        by (simp add: request_conversion_def run_simps assms, intro conjI impI)
          (simp add: ret_def, auto simp: send_conversion_def bindC_def modC_def ret_def split: option.splits)
    qed
  qed
qed

definition seg_live :: "world \<Rightarrow> u16string option \<Rightarrow> segment \<Rightarrow> bool" where
  "seg_live w preceding g \<longleftrightarrow>
     (case seg_stage g of
        WaitingForContext \<Rightarrow> preceding = None
      | Converting s \<Rightarrow> is_pending (conversions w) s
      | Finished \<Rightarrow> \<not> has_pending_conversion (seg_buffer g))"

lemma convert_effect:
  assumes "i < length (segments w)"
  shows "\<exists>g t. convert i w = (Inr (), w\<lparr>segments := (segments w)[i := g], conversions := t\<rparr>) \<and>
    seg_epoch g = seg_epoch (segments w ! i) \<and> seg_document g = seg_document (segments w ! i) \<and>
    seg_shown g = seg_shown (segments w ! i) \<and>
    (is_finished g \<and> \<not> has_pending_conversion (seg_buffer g) \<or>
     (\<exists>s. seg_stage g = Converting s \<and> is_pending t s))"
proof -
  let ?g = "segments w ! i"
  have fin: "is_finished (seg_finish_locally ?g) \<and> \<not> has_pending_conversion (seg_buffer (seg_finish_locally ?g))"
    by (simp add: seg_finish_locally_def is_finished_def accept_local_candidates_pending)
  show ?thesis
  proof (cases "conversion_snapshot_of (seg_buffer ?g)")
    case None
    then show ?thesis
      by (intro exI [of _ "seg_finish_locally ?g"] exI [of _ "conversions w"])
        (simp add: convert_def run_simps fin,
         simp add: bindC_def ret_def upd_segment_def modC_def, simp add: seg_finish_locally_def)
  next
    case (Some snap)
    let ?r = "\<lparr>req_epoch = seg_epoch ?g, req_revision = snap_revision snap, req_document = seg_document ?g,
               req_snapshot = snap_entries snap\<rparr>"
    let ?t = "snd (send ?r (the (seg_preceding ?g)) (conversions w))"
    show ?thesis
    proof (cases "fst (send ?r (the (seg_preceding ?g)) (conversions w))")
      case None
      with Some show ?thesis
        by (intro exI [of _ "seg_finish_locally ?g"] exI [of _ ?t])
          (simp add: convert_def run_simps fin, simp add: bindC_def send_conversion_def upd_segment_def modC_def,
           simp add: seg_finish_locally_def)
    next
      case (Some s)
      then have "is_pending ?t s" by (auto simp: send_def is_pending_def Let_def split: if_splits)
      with Some \<open>conversion_snapshot_of (seg_buffer ?g) = Some snap\<close> show ?thesis
        by (intro exI [of _ "seg_await s ?g"] exI [of _ ?t])
          (simp add: convert_def run_simps, simp add: bindC_def send_conversion_def upd_segment_def modC_def,
           simp add: seg_await_def)
    qed
  qed
qed

lemma write_if_finished_effect:
  assumes "document_open H (calls w) (seg_document (segments w ! i))"
    "\<not> grants_at_once H (calls w) (seg_document (segments w ! i))"
  shows "write_if_finished (run_edit E H) i w =
    (Inr (), if is_finished (segments w ! i)
             then enqueue (seg_document (segments w ! i)) (Write_edit (seg_document (segments w ! i))) w else w)"
  using assms
  by (simp add: write_if_finished_def write_when_possible_def run_edit_def run_simps bindC_def getC_def thenC_def
      modC_def whenC_def ret_def enqueue_def)

lemma sealed_add_effect:
  assumes "buf_wf E b" "document_open H (calls w) d" "\<not> grants_at_once H (calls w) d"
    and "\<And>s. fl = Some s \<Longrightarrow> is_pending (conversions w) s"
  shows "\<exists>g t q. sealed_add (run_edit E H) E e d b preceding fl w =
      (Inr (), w\<lparr>segments := segments w @ [g], conversions := t, queued_edits := q\<rparr>) \<and>
    seg_epoch g = e \<and> seg_document g = d \<and> to_string E b = Inr (seg_shown g) \<and>
    seg_live (w\<lparr>conversions := t\<rparr>) preceding g"
proof -
  obtain g0 where g0: "new_segment E e d b preceding = Inr g0" using new_segment_total(1) [OF assms(1)] by blast
  then have f0: "seg_epoch g0 = e" "seg_document g0 = d" "to_string E b = Inr (seg_shown g0)" "seg_stage g0 = WaitingForContext"
    by (auto simp: new_segment_def rbind_Inr_iff)
  let ?i = "length (segments w)" and ?w = "w\<lparr>segments := segments w @ [g0]\<rparr>"
  let ?body = "case fl of Some s \<Rightarrow> upd_segment ?i (seg_await s) | None \<Rightarrow> whenC (preceding \<noteq> None) (convert ?i)"
  have "\<exists>g t. ?body ?w = (Inr (), w\<lparr>segments := segments w @ [g], conversions := t\<rparr>) \<and>
      seg_epoch g = e \<and> seg_document g = d \<and> seg_shown g = seg_shown g0 \<and> seg_live (w\<lparr>conversions := t\<rparr>) preceding g"
  proof (cases fl)
    case (Some s)
    then show ?thesis
      using f0 assms(4)
      by (intro exI [of _ "seg_await s g0"] exI [of _ "conversions w"])
        (simp add: upd_segment_def modC_def, simp add: seg_await_def seg_live_def)
  next
    case None
    show ?thesis
    proof (cases preceding)
      case None
      then show ?thesis
        using f0 \<open>fl = None\<close>
        by (intro exI [of _ g0] exI [of _ "conversions w"]) (simp add: whenC_def ret_def seg_live_def)
    next
      case (Some p)
      obtain g t where "convert ?i ?w = (Inr (), ?w\<lparr>segments := (segments ?w)[?i := g], conversions := t\<rparr>)"
        "seg_epoch g = seg_epoch g0" "seg_document g = seg_document g0" "seg_shown g = seg_shown g0"
        "is_finished g \<and> \<not> has_pending_conversion (seg_buffer g) \<or> (\<exists>s. seg_stage g = Converting s \<and> is_pending t s)"
        using convert_effect [of ?i ?w] by auto
      then show ?thesis
        using f0 \<open>fl = None\<close> Some
        by (intro exI [of _ g] exI [of _ t]) (auto simp: whenC_def seg_live_def is_finished_def)
    qed
  qed
  then obtain g t where body: "?body ?w = (Inr (), w\<lparr>segments := segments w @ [g], conversions := t\<rparr>)"
    and g: "seg_epoch g = e" "seg_document g = d" "seg_shown g = seg_shown g0" "seg_live (w\<lparr>conversions := t\<rparr>) preceding g"
    by blast
  let ?w2 = "w\<lparr>segments := segments w @ [g], conversions := t\<rparr>"
  have "sealed_add (run_edit E H) E e d b preceding fl w = write_if_finished (run_edit E H) ?i ?w2"
    using body by (cases fl) (simp_all add: sealed_add_def run_simps g0, simp_all add: thenC_def bindC_def)
  also have "\<dots> = (Inr (), if is_finished g then enqueue d (Write_edit d) ?w2 else ?w2)"
    using write_if_finished_effect [of H ?w2 ?i E] assms(2,3) g(2) by simp
  finally show ?thesis
    using g f0(3)
    by (intro exI [of _ g] exI [of _ t]
        exI [of _ "if is_finished g then (queued_edits w)(d := queued_edits w d @ [Write_edit d]) else queued_edits w"])
      (simp add: enqueue_def)
qed

text \<open>(C27) Enter on a composition still waiting for its conversion never blocks and never loses it: the
  composition leaves the keyboard at once and becomes the last sealed segment, with the same epoch,
  document and text on the screen; the segment waits for its context only if none has been read yet,
  and otherwise either awaits a conversion that is really outstanding or is already finished.  This is
  for a composition without an unfinished reading (Enter leaves one with it alone), in a document that
  is open and whose host gives the edit session later; a host that gives it at once also runs the edits
  queued here, which may write a finished segment in the same step.\<close>

theorem enter_seals_unconverted:
  assumes "winv E w" "composition w = Some c" "comp_document c = d" "\<not> settled c"
    and "\<not> has_uncomposed_reading (comp_buf c)"
    and "document_open H (calls w) d" "\<not> grants_at_once H (calls w) d"
  shows "\<exists>w' g. handle E H (Enter d) w = (Inr (), w') \<and> composition w' = None \<and>
    segments w' = segments w @ [g] \<and> seg_epoch g = comp_epoch c \<and> seg_document g = d \<and>
    to_string E (comp_buf c) = Inr (seg_shown g) \<and>
    Seal_edit d (comp_epoch c) \<in> set (queued_edits w' d) \<and>
    (case seg_stage g of
       WaitingForContext \<Rightarrow> comp_preceding c = None
     | Converting s \<Rightarrow> is_pending (conversions w') s
     | Finished \<Rightarrow> \<not> has_pending_conversion (seg_buffer g))"
proof -
  have live: "live w d = Some c" by (simp add: live_def assms)
  obtain x t where req: "request_conversion w = (Inr (), w\<lparr>composition := Some (c\<lparr>comp_sent := x\<rparr>), conversions := t\<rparr>)"
    using request_effect [OF assms(2)] by blast
  let ?c = "c\<lparr>comp_sent := x\<rparr>"
  let ?w = "w\<lparr>composition := Some ?c, conversions := t\<rparr>"
  have freeze: "freeze_readings (comp_buf c) = (False, comp_buf c)"
    using assms(5) by (simp add: freeze_readings_def)
  have unsettled: "\<not> settled ?c" using assms(4) by (simp add: settled_def)
  let ?fl = "in_flight_for ?w False ?c"
  let ?w1 = "w\<lparr>composition := None, conversions := t\<rparr>"
  have fl: "is_pending (conversions ?w1) s" if "?fl = Some s" for s
    using that by (auto simp: in_flight_for_def split: option.splits if_splits)
  obtain g t' q where add: "sealed_add (run_edit E H) E (comp_epoch c) d (comp_buf c) (comp_preceding c) ?fl ?w1 =
      (Inr (), ?w1\<lparr>segments := segments w @ [g], conversions := t', queued_edits := q\<rparr>)"
    and g: "seg_epoch g = comp_epoch c" "seg_document g = d" "to_string E (comp_buf c) = Inr (seg_shown g)"
      "seg_live (?w1\<lparr>conversions := t'\<rparr>) (comp_preceding c) g"
    using sealed_add_effect [OF winv_comp(1) [OF assms(1,2)], of H ?w1 d ?fl "comp_epoch c" "comp_preceding c"] fl assms(6,7)
    by auto
  let ?w2 = "?w1\<lparr>segments := segments w @ [g], conversions := t', queued_edits := q\<rparr>"
  have swap: "w\<lparr>conversions := t, composition := oc\<rparr> = w\<lparr>composition := oc, conversions := t\<rparr>" for oc
    by simp
  have "handle E H (Enter d) w = seal (run_edit E H) E ?w"
    using assms(4,5) req by (simp add: enter_def run_simps live, simp add: thenC_def bindC_def)
  also have "\<dots> = run (run_edit E H) (Seal_edit d (comp_epoch c)) ?w2"
    using unsettled add
    by (simp add: seal_def run_simps freeze assms(3) Let_def, simp add: thenC_def bindC_def swap)
  also have "\<dots> = (Inr (), enqueue d (Seal_edit d (comp_epoch c)) ?w2)"
    using run_queues [of H ?w2 "Seal_edit d (comp_epoch c)" E] assms(6,7) by simp
  finally show ?thesis
    using g
    by (intro exI [of _ "enqueue d (Seal_edit d (comp_epoch c)) ?w2"] exI [of _ g])
      (auto simp: enqueue_def seg_live_def split: stage.splits)
qed

definition waiting_world :: world where
  "waiting_world = new_world\<lparr>composition := Some ((new_composition 1 7 False)\<lparr>comp_buf := typed_buffer [0x3107, 0x311A, 0x20]\<rparr>),
     next_epoch := 2\<rparr>"

lemma waiting_world_winv: "winv example_env waiting_world"
proof (rule winvI)
  show "e < next_epoch waiting_world \<and> buf_wf example_env b" if "(e, d, b) \<in> set (bufs waiting_world)" for e d b
    using that typed_buffer_wf by (auto simp: bufs_def waiting_world_def new_world_def new_composition_def)
qed (auto simp: waiting_world_def new_world_def bufs_def new_composition_def held_ok_def new_lock_def
      new_tracker_def tracker_wf_def)

lemma enter_seals_unconverted_witness:
  "\<exists>w' g. handle example_env (example_host False) (Enter 7) waiting_world = (Inr (), w') \<and> composition w' = None \<and>
     segments w' = [g] \<and> seg_shown g = [0x3107, 0x311A]"
proof -
  let ?c = "(new_composition 1 7 False)\<lparr>comp_buf := typed_buffer [0x3107, 0x311A, 0x20]\<rparr>"
  have c: "composition waiting_world = Some ?c" "comp_document ?c = 7" "segments waiting_world = []"
    by (simp_all add: waiting_world_def new_composition_def new_world_def)
  have pending: "\<not> settled ?c" "\<not> has_uncomposed_reading (comp_buf ?c)"
    by (simp_all add: settled_def ready_to_commit_def typed_ma has_uncomposed_reading_def
        has_pending_conversion_def is_compositable_def)
  have "to_string example_env (comp_buf ?c) = Inr [0x3107, 0x311A]"
    by (simp add: to_string_def typed_ma display_def to_toneless_bopomofo_string_def new_pos_def)
  then show ?thesis
    using enter_seals_unconverted [OF waiting_world_winv c(1,2) pending, of "example_host False"] c(3)
    by (auto simp: example_host_def)
qed

end
