(* ===== verification/Sealed_Properties.thy ===== *)
theory Sealed_Properties
  imports Controller_Properties "HOL-Library.Multiset"
begin

text \<open>
  What the sealed queue promises: the index loop of \<open>write_finished\<close> does what a plain pass over the
  segments would, backspacing over sealed text takes whole entries and whole characters, and when
  the backend is lost every segment is finished with what the local table knows.
\<close>

section \<open>Writing finished segments\<close>

text \<open>The segments of \<open>d\<close> to be written now and the segments that stay, as one pass over the queue.\<close>

fun write_plan :: "document_id \<Rightarrow> bool \<Rightarrow> segment list \<Rightarrow> segment list \<times> segment list" where
  "write_plan d waiting [] = ([], [])"
| "write_plan d waiting (g # gs) =
     (if seg_document g \<noteq> d then (case write_plan d waiting gs of (out, kept) \<Rightarrow> (out, g # kept))
      else if writable g waiting then (case write_plan d waiting gs of (out, kept) \<Rightarrow> (g # out, kept))
      else (case write_plan d True gs of (out, kept) \<Rightarrow> (out, g # kept)))"

text \<open>What one segment does to its document after the calls \<open>cs\<close>.\<close>

definition write_effects :: "env \<Rightarrow> host \<Rightarrow> host_call list \<Rightarrow> segment \<Rightarrow> host_call list" where
  "write_effects E H cs g =
     (let d = seg_document g; e = seg_epoch g in
      (if sealed_text H cs d e = Some (seg_shown g)
       then (case seg_text E g of Inr s \<Rightarrow> [Write_sealed d e s] | Inl _ \<Rightarrow> []) @
            (if erases_before g \<noteq> 0 then [Erase_before_sealed d e (erases_before g)] else []) @
            (case seg_training_sample E g of Inr (Some s) \<Rightarrow> [Record_commit d e s] | _ \<Rightarrow> [])
       else []) @
      [Release_sealed d e])"

definition all_effects :: "env \<Rightarrow> host \<Rightarrow> host_call list \<Rightarrow> segment list \<Rightarrow> host_call list" where
  "all_effects E H cs gs = foldl (\<lambda>cs g. cs @ write_effects E H cs g) cs gs"

lemma seg_sample_total: "buf_wf E (seg_buffer g) \<Longrightarrow> \<exists>s. seg_training_sample E g = Inr s"
  using training_sample_total [of E "seg_buffer g"] by (simp add: seg_training_sample_def)

lemma write_segment_effect:
  assumes "buf_wf E (seg_buffer g)"
  shows "write_segment E H g w = (Inr (), w\<lparr>calls := calls w @ write_effects E H (calls w) g\<rparr>)"
proof -
  obtain s where s: "seg_text E g = Inr s" using seg_text_total [OF assms] by blast
  obtain t where t: "seg_training_sample E g = Inr t" using seg_sample_total [OF assms] by blast
  show ?thesis
    by (cases t)
      (simp_all add: write_segment_def write_effects_def s t thenC_def bindC_def getC_def whenC_def
        host_does_def modC_def evalC_def ret_def Let_def)
qed

lemma write_finished_loop_effect:
  assumes "\<And>g. g \<in> set (segments w) \<Longrightarrow> buf_wf E (seg_buffer g)" "i + left = length (segments w)"
  shows "write_finished_loop E H d left i waiting w =
    (Inr (), w\<lparr>segments := take i (segments w) @ snd (write_plan d waiting (drop i (segments w))),
               calls := all_effects E H (calls w) (fst (write_plan d waiting (drop i (segments w))))\<rparr>)"
  using assms
proof (induction left arbitrary: i waiting w)
  case 0
  then show ?case by (simp add: ret_def all_effects_def)
next
  case (Suc left)
  let ?gs = "segments w" and ?g = "segments w ! i"
  have i: "i < length ?gs" using Suc.prems(2) by simp
  then have drop: "drop i ?gs = ?g # drop (Suc i) ?gs" and take: "take (Suc i) ?gs = take i ?gs @ [?g]"
    by (simp_all add: Cons_nth_drop_Suc take_Suc_conv_app_nth)
  have wf: "buf_wf E (seg_buffer ?g)" using Suc.prems(1) i by simp
  have later: "write_finished_loop E H d left (Suc i) b w =
      (Inr (), w\<lparr>segments := take (Suc i) ?gs @ snd (write_plan d b (drop (Suc i) ?gs)),
                 calls := all_effects E H (calls w) (fst (write_plan d b (drop (Suc i) ?gs)))\<rparr>)" for b
    using Suc.IH [of w "Suc i" b] Suc.prems by simp
  consider (other) "seg_document ?g \<noteq> d" | (writes) "seg_document ?g = d" "writable ?g waiting"
    | (waits) "seg_document ?g = d" "\<not> writable ?g waiting" by blast
  then show ?case
  proof cases
    case other
    then show ?thesis by (simp add: run_simps later drop take case_prod_unfold)
  next
    case writes
    let ?w = "w\<lparr>calls := calls w @ write_effects E H (calls w) ?g, segments := list_erase i ?gs\<rparr>"
    have erase: "list_erase i ?gs = take i ?gs @ drop (Suc i) ?gs" by (simp add: list_erase_def)
    have IH: "write_finished_loop E H d left i waiting ?w =
      (Inr (), ?w\<lparr>segments := take i (segments ?w) @ snd (write_plan d waiting (drop i (segments ?w))),
                  calls := all_effects E H (calls ?w) (fst (write_plan d waiting (drop i (segments ?w))))\<rparr>)"
      using Suc.prems i by (intro Suc.IH) (auto simp: erase dest: in_set_takeD in_set_dropD)
    have "write_finished_loop E H d (Suc left) i waiting w = write_finished_loop E H d left i waiting ?w"
      using writes by (simp add: run_simps) (simp add: thenC_def bindC_def modC_def write_segment_effect [OF wf])
    also note IH
    finally show ?thesis
      using writes i by (simp add: drop erase all_effects_def case_prod_unfold)
  next
    case waits
    then show ?thesis by (simp add: run_simps later drop take case_prod_unfold)
  qed
qed

text \<open>(C26) The loop that writes finished segments while erasing them from the queue it walks does exactly
  what one pass over the queue would: the segments the pass picks are written in queue order, each
  against the document as the earlier writes left it, and exactly the others stay, in order.\<close>

theorem write_finished_is_one_pass:
  assumes "winv E w"
  shows "write_finished E H d w =
    (Inr (), w\<lparr>segments := snd (write_plan d False (segments w)),
               calls := all_effects E H (calls w) (fst (write_plan d False (segments w)))\<rparr>)"
  using write_finished_loop_effect [of w E 0 "length (segments w)" H d False] winv_seg(1) [OF assms]
  by (simp add: write_finished_def run_simps)

text \<open>Two segments of one document, the first of which is final.\<close>

definition sealed_segment :: "nat \<Rightarrow> segment" where
  "sealed_segment e = \<lparr>seg_epoch = e, seg_document = 7, seg_buffer = add_chosen_candidate new_buffer 0x41, seg_shown = [0x42],
     seg_preceding = None, seg_erased = 0, seg_stage = (if e = 1 then Finished else WaitingForContext), seg_in_document = True\<rparr>"

definition sealed_world :: world where
  "sealed_world = new_world\<lparr>segments := [sealed_segment 1, sealed_segment 2], next_epoch := 3\<rparr>"

definition holding_host :: host where
  "holding_host = (example_host True)\<lparr>sealed_text := (\<lambda>_ _ _. Some [0x42])\<rparr>"

lemma sealed_world_winv: "winv example_env sealed_world"
proof (rule winvI)
  have wf: "buf_wf example_env (add_chosen_candidate new_buffer 0x41)"
    by (intro add_chosen_candidate_wf example_displayable new_buffer_wf) (simp add: is_scalar_def)
  then show "e < next_epoch sealed_world \<and> buf_wf example_env b" if "(e, d, b) \<in> set (bufs sealed_world)" for e d b
    using that by (auto simp: bufs_def sealed_world_def new_world_def sealed_segment_def)
qed (auto simp: sealed_world_def new_world_def bufs_def held_ok_def new_lock_def sealed_segment_def
      new_tracker_def tracker_wf_def)

lemma write_finished_is_one_pass_witness:
  "\<exists>s. write_finished example_env holding_host 7 sealed_world =
     (Inr (), sealed_world\<lparr>segments := [sealed_segment 2],
        calls := [Write_sealed 7 1 [0x41], Record_commit 7 1 s, Release_sealed 7 1]\<rparr>)"
proof -
  have sample: "\<exists>s. seg_training_sample example_env (sealed_segment 1) = Inr (Some s)"
  proof -
    have "(case seg_training_sample example_env (sealed_segment 1) of Inr (Some s) \<Rightarrow> True | _ \<Rightarrow> False)" by code_simp
    then show ?thesis by (auto split: sum.splits option.splits)
  qed
  have "seg_text example_env (sealed_segment 1) = Inr [0x41]" by code_simp
  then have "\<exists>s. all_effects example_env holding_host [] [sealed_segment 1] =
      [Write_sealed 7 1 [0x41], Record_commit 7 1 s, Release_sealed 7 1]"
    using sample by (auto simp: all_effects_def write_effects_def sealed_segment_def holding_host_def erases_before_def Let_def)
  moreover have "write_plan 7 False (segments sealed_world) = ([sealed_segment 1], [sealed_segment 2])" "calls sealed_world = []"
    by (simp_all add: sealed_world_def sealed_segment_def new_world_def writable_def is_finished_def)
  ultimately show ?thesis
    using write_finished_is_one_pass [OF sealed_world_winv, of holding_host 7] by auto
qed

text \<open>What the pass picks and what it leaves.\<close>

lemma write_plan_picks:
  "g \<in> set (fst (write_plan d waiting gs)) \<Longrightarrow>
     g \<in> set gs \<and> seg_document g = d \<and> seg_in_document g \<and> is_finished g"
  by (induction d waiting gs rule: write_plan.induct) (auto simp: case_prod_unfold writable_def split: if_splits)

lemma write_plan_leaves:
  "g \<in> set (snd (write_plan d waiting gs)) \<Longrightarrow> seg_document g = d \<Longrightarrow>
     \<not> (seg_in_document g \<and> is_finished g \<and> erases_before g = 0)"
  by (induction d waiting gs rule: write_plan.induct) (auto simp: case_prod_unfold writable_def split: if_splits)

lemma write_plan_partition: "mset (fst (write_plan d waiting gs)) + mset (snd (write_plan d waiting gs)) = mset gs"
  by (induction d waiting gs rule: write_plan.induct) (auto simp: case_prod_unfold)

lemma write_plan_others: "filter (\<lambda>g. seg_document g \<noteq> d) (snd (write_plan d waiting gs)) = filter (\<lambda>g. seg_document g \<noteq> d) gs"
  by (induction d waiting gs rule: write_plan.induct) (auto simp: case_prod_unfold writable_def)

lemma write_plan_nothing_waits:
  "(\<And>g. g \<in> set gs \<Longrightarrow> seg_document g = d \<Longrightarrow> seg_in_document g \<and> is_finished g) \<Longrightarrow>
   write_plan d False gs = (filter (\<lambda>g. seg_document g = d) gs, filter (\<lambda>g. seg_document g \<noteq> d) gs)"
  by (induction gs) (auto simp: writable_def)

text \<open>A segment that has to erase text before itself is not written past an earlier one that waits.\<close>

lemma write_plan_order:
  assumes "gs = xs @ g # ys" "seg_document g = d" "0 < erases_before g"
    and "h \<in> set xs" "seg_document h = d" "\<not> (seg_in_document h \<and> is_finished h)"
    and "distinct gs"
  shows "g \<in> set (snd (write_plan d waiting gs))"
proof -
  have late: "g \<in> set (snd (write_plan d True (xs @ g # ys)))" for xs
    by (induction xs) (use assms(2,3) in \<open>auto simp: case_prod_unfold writable_def\<close>)
  have "h \<in> set xs \<Longrightarrow> g \<in> set (snd (write_plan d waiting (xs @ g # ys)))" for xs
    by (induction xs arbitrary: waiting) (use late assms(5,6) in \<open>auto simp: case_prod_unfold writable_def\<close>)
  with assms(1,4) show ?thesis by simp
qed

section \<open>Erasing with Backspace\<close>

lemma high_surrogate_unit: "is_scalar c \<Longrightarrow> c \<le> 0xFFFF \<Longrightarrow> \<not> is_high_surrogate (ucast c)"
  by (auto simp: is_scalar_def is_high_surrogate_def word_le_nat_alt unsigned_ucast_eq take_bit_nat_eq_self)

lemma high_surrogate_pair:
  assumes "is_scalar c" "\<not> c \<le> 0xFFFF"
  shows "is_high_surrogate (ucast (drop_bit 10 c) + 0xD7C0)"
proof -
  have n: "0x10000 \<le> unat c" "unat c \<le> 0x10FFFF" using assms by (simp_all add: is_scalar_def word_le_nat_alt)
  define m where "m = unat c div 1024"
  have m: "64 \<le> m" "m \<le> 1087" using n by (simp_all add: m_def)
  have "unat (ucast (drop_bit 10 c) :: char16) = m"
    using m(2) by (simp only: unsigned_ucast_eq unsigned_drop_bit_eq)
      (simp add: drop_bit_nat_def m_def take_bit_nat_eq_self)
  then have "unat ((ucast (drop_bit 10 c) :: char16) + 0xD7C0) = m + 0xD7C0"
    using m(2) by (simp add: unat_word_ariths(1))
  then show ?thesis using m by (simp add: is_high_surrogate_def word_le_nat_alt)
qed

lemma last_unit:
  assumes "is_scalar c"
  shows "utf16_encode c \<noteq> []" and "xs \<noteq> [] \<Longrightarrow> \<exists>u us. utf16_encode c = us @ [u]"
  by (auto simp: utf16_encode_def)

text \<open>A low surrogate is no high one, so the text before a character never ends in half of one.\<close>

lemma low_surrogate_not_high: "\<not> is_high_surrogate (ucast (take_bit 10 (c :: char32)) + 0xDC00)"
proof -
  have n: "unat (take_bit 10 c) < 1024" by (simp only: unsigned_take_bit_eq) (simp add: take_bit_nat_def)
  then have "unat (ucast (take_bit 10 c) :: char16) = unat (take_bit 10 c)"
    by (simp add: unsigned_ucast_eq take_bit_nat_eq_self)
  then have "unat ((ucast (take_bit 10 c) :: char16) + 0xDC00) = unat (take_bit 10 c) + 0xDC00"
    using n by (simp add: unat_word_ariths(1))
  then show ?thesis by (simp add: is_high_surrogate_def word_le_nat_alt)
qed

lemma encoded_last_not_high: "is_scalar c \<Longrightarrow> \<not> is_high_surrogate (last (utf16_encode c))"
  using high_surrogate_unit low_surrogate_not_high by (simp add: utf16_encode_def)

lemma encoded_text_last:
  "\<forall>c \<in> set cs. is_scalar c \<Longrightarrow> concat (map utf16_encode cs) \<noteq> [] \<Longrightarrow>
   \<not> is_high_surrogate (last (concat (map utf16_encode cs)))"
  by (induction cs rule: rev_induct) (auto simp: encoded_last_not_high last_unit(1) last_append)

text \<open>One turn of the loop takes one character.\<close>

lemma drop_last_step:
  assumes "\<forall>c \<in> set (cs @ [c]). is_scalar c"
  shows "drop_last_characters (concat (map utf16_encode (cs @ [c]))) (Suc n) =
    drop_last_characters (concat (map utf16_encode cs)) n"
proof (cases "c \<le> 0xFFFF")
  case True
  then show ?thesis
    using encoded_text_last [of cs] assms by (auto simp: utf16_encode_def [of c] Let_def)
next
  case False
  then show ?thesis
    using high_surrogate_pair [of c] assms by (simp add: utf16_encode_def [of c] Let_def butlast_append)
qed

text \<open>Erasing into the text before a segment removes whole characters, a surrogate pair as one: what
  is left of a well-formed text is its first characters, and never half of one.\<close>

theorem drops_whole_characters:
  assumes "\<forall>c \<in> set cs. is_scalar c"
  shows "drop_last_characters (concat (map utf16_encode cs)) n = concat (map utf16_encode (take (length cs - n) cs))"
  using assms
proof (induction n arbitrary: cs)
  case (Suc n)
  show ?case
  proof (cases cs rule: rev_cases)
    case (snoc cs' c)
    have "drop_last_characters (concat (map utf16_encode cs)) (Suc n) = drop_last_characters (concat (map utf16_encode cs')) n"
      unfolding snoc by (rule drop_last_step) (use Suc.prems snoc in simp)
    also have "\<dots> = concat (map utf16_encode (take (length cs' - n) cs'))"
      by (rule Suc.IH) (use Suc.prems snoc in simp)
    finally show ?thesis by (simp add: snoc)
  qed simp
qed simp

lemma drops_whole_characters_witness:
  "drop_last_characters (concat (map utf16_encode [0x5ABD, 0x1F600])) 1 = utf16_encode 0x5ABD"
  using drops_whole_characters [of "[0x5ABD, 0x1F600]" 1] by (simp add: is_scalar_def)

lemma erase_last_times:
  "seg_erased ((seg_erase_last ^^ k) g) = seg_erased g + k"
  "seg_buffer ((seg_erase_last ^^ k) g) = seg_buffer g"
  "seg_preceding ((seg_erase_last ^^ k) g) = seg_preceding g"
  "seg_shown ((seg_erase_last ^^ k) g) = seg_shown g"
  by (induction k) (simp_all add: seg_erase_last_def Let_def)

lemma erase_last_finished:
  "is_finished ((seg_erase_last ^^ k) g) \<longleftrightarrow>
     is_finished g \<or> 0 < k \<and> length (buffer (seg_buffer g)) \<le> seg_erased g + k"
proof (induction k)
  case (Suc k)
  have "is_finished (seg_erase_last h) \<longleftrightarrow> is_finished h \<or> length (buffer (seg_buffer h)) \<le> seg_erased h + 1" for h
    by (simp add: seg_erase_last_def is_finished_def Let_def)
  with Suc show ?case by (auto simp: erase_last_times)
qed simp

text \<open>(C34) Backspace typed \<open>k\<close> times right after a sealed segment takes its last \<open>k\<close> entries and, beyond its
  start, that many characters of the text before it; the segment is done as soon as nothing of it is
  left to convert, and is then never learnt from.\<close>

theorem backspacing_into_sealed_text:
  fixes k :: nat
  assumes "seg_erased g = 0"
  defines "g' \<equiv> (seg_erase_last ^^ k) g" and "n \<equiv> length (buffer (seg_buffer g))"
  shows "seg_kept g' = take (n - k) (buffer (seg_buffer g)) \<and> erases_before g' = k - n \<and>
    (is_finished g' \<longleftrightarrow> is_finished g \<or> 0 < k \<and> n \<le> k) \<and>
    following_context E g' =
      rbind (mapR (current E) (take (n - k) (buffer (seg_buffer g)))) (\<lambda>ss.
        Inr (drop_last_characters (case seg_preceding g of None \<Rightarrow> [] | Some p \<Rightarrow> p) (k - n) @ concat ss)) \<and>
    (0 < k \<longrightarrow> seg_training_sample E g' = Inr None)"
proof -
  have k: "seg_erased g' = k" "buffer (seg_buffer g') = buffer (seg_buffer g)" "seg_preceding g' = seg_preceding g"
    using assms(1) by (simp_all add: g'_def erase_last_times)
  have kept: "seg_kept g' = take (n - k) (buffer (seg_buffer g))"
    by (simp add: seg_kept_def k Let_def n_def min_def)
  have before: "erases_before g' = k - n" by (simp add: erases_before_def k Let_def n_def)
  have "following_context E g' =
      rbind (mapR (current E) (seg_kept g')) (\<lambda>ss.
        Inr (drop_last_characters (case seg_preceding g of None \<Rightarrow> [] | Some p \<Rightarrow> p) (erases_before g') @ concat ss))"
    by (cases "mapR (current E) (seg_kept g')") (simp_all add: following_context_def seg_text_def k)
  then show ?thesis
    using kept before erase_last_finished [of k g] assms(1) k(1)
    by (simp add: g'_def [symmetric] n_def seg_training_sample_def)
qed

lemma backspacing_into_sealed_text_witness:
  "erases_before ((seg_erase_last ^^ 2)
     \<lparr>seg_epoch = 1, seg_document = 7, seg_buffer = typed_buffer [0x3107, 0x311A, 0x20], seg_shown = [], seg_preceding = None,
      seg_erased = 0, seg_stage = Converting 1, seg_in_document = True\<rparr>) = 1"
  using backspacing_into_sealed_text
    [of "\<lparr>seg_epoch = 1, seg_document = 7, seg_buffer = typed_buffer [0x3107, 0x311A, 0x20], seg_shown = [], seg_preceding = None,
      seg_erased = 0, seg_stage = Converting 1, seg_in_document = True\<rparr>" 2 example_env]
  by (simp add: typed_ma)

section \<open>Losing the backend\<close>

lemma documents_of_set: "set (documents_of gs) = seg_document ` set gs"
proof -
  have "set (foldl (\<lambda>ds g. if seg_document g \<in> set ds then ds else ds @ [seg_document g]) ds gs) =
      set ds \<union> seg_document ` set gs" for ds
    by (induction gs arbitrary: ds) auto
  then show ?thesis by (simp add: documents_of_def)
qed

text \<open>Handing the documents their edits: those that are closed lose their segments.\<close>

lemma hand_over_all:
  assumes "\<And>d. d \<in> set ds \<Longrightarrow> \<not> grants_at_once H (calls w) d"
  shows "\<exists>q. forC (write_when_possible (run_edit E H)) ds w = (Inr (), w\<lparr>segments :=
      filter (\<lambda>g. seg_document g \<in> set ds \<longrightarrow> document_open H (calls w) (seg_document g)) (segments w), queued_edits := q\<rparr>) \<and>
    (\<forall>d \<in> set ds. document_open H (calls w) d \<longrightarrow> Write_edit d \<in> set (q d)) \<and>
    (\<forall>d. set (queued_edits w d) \<subseteq> set (q d))"
  using assms
proof (induction ds arbitrary: w)
  case Nil
  then show ?case by (intro exI [of _ "queued_edits w"]) (simp add: ret_def)
next
  case (Cons d ds)
  show ?case
  proof (cases "document_open H (calls w) d")
    case True
    let ?w = "enqueue d (Write_edit d) w"
    have step: "write_when_possible (run_edit E H) d w = (Inr (), ?w)"
      using Cons.prems [of d] True
      by (simp add: write_when_possible_def run_edit_def bindC_def getC_def thenC_def modC_def whenC_def ret_def enqueue_def)
    have same: "calls ?w = calls w" "segments ?w = segments w" by (simp_all add: enqueue_def)
    obtain q where q: "forC (write_when_possible (run_edit E H)) ds ?w = (Inr (), ?w\<lparr>segments :=
        filter (\<lambda>g. seg_document g \<in> set ds \<longrightarrow> document_open H (calls w) (seg_document g)) (segments w), queued_edits := q\<rparr>)"
      "\<forall>d \<in> set ds. document_open H (calls w) d \<longrightarrow> Write_edit d \<in> set (q d)" "\<And>d'. set (queued_edits ?w d') \<subseteq> set (q d')"
      using Cons.IH [of ?w] Cons.prems same by auto
    have "Write_edit d \<in> set (queued_edits ?w d)" by (simp add: enqueue_def)
    then have "Write_edit d \<in> set (q d)" using q(3) by blast
    moreover have "set (queued_edits w d') \<subseteq> set (q d')" for d'
      by (rule subset_trans [OF _ q(3)]) (auto simp: enqueue_def)
    moreover have "filter (\<lambda>g. seg_document g \<in> set ds \<longrightarrow> document_open H (calls w) (seg_document g)) (segments w) =
        filter (\<lambda>g. seg_document g \<in> set (d # ds) \<longrightarrow> document_open H (calls w) (seg_document g)) (segments w)"
      using True by (intro filter_cong) auto
    ultimately show ?thesis
      using q(1,2) step by (intro exI [of _ q]) (auto simp: thenC_def bindC_def enqueue_def)
  next
    case False
    let ?w = "forget d w"
    have step: "write_when_possible (run_edit E H) d w = (Inr (), ?w)"
      using False
      by (simp add: write_when_possible_def run_edit_def bindC_def getC_def thenC_def modC_def whenC_def ret_def)
    have same: "calls ?w = calls w" "queued_edits ?w = queued_edits w" by (simp_all add: forget_def)
    obtain q where q: "forC (write_when_possible (run_edit E H)) ds ?w = (Inr (), ?w\<lparr>segments :=
        filter (\<lambda>g. seg_document g \<in> set ds \<longrightarrow> document_open H (calls w) (seg_document g)) (segments ?w), queued_edits := q\<rparr>)"
      "\<forall>d \<in> set ds. document_open H (calls w) d \<longrightarrow> Write_edit d \<in> set (q d)" "\<And>d'. set (queued_edits w d') \<subseteq> set (q d')"
      using Cons.IH [of ?w] Cons.prems same by auto
    have "filter (\<lambda>g. seg_document g \<in> set ds \<longrightarrow> document_open H (calls w) (seg_document g)) (segments ?w) =
        filter (\<lambda>g. seg_document g \<in> set (d # ds) \<longrightarrow> document_open H (calls w) (seg_document g)) (segments w)"
      using False by (auto simp: forget_def intro!: filter_cong)
    then show ?thesis
      using q False step by (intro exI [of _ q]) (auto simp: thenC_def bindC_def forget_def)
  qed
qed

text \<open>(C35) When the backend is gone no sealed text waits for it, whatever it waited for: every segment of an open document
  becomes final with what the local table gave it and stays in its place, and its document is asked for
  an edit that writes it; the segments of documents that were closed are dropped.  This is for documents
  whose host gives the session later; one that gives it at once also runs the edit.\<close>

theorem lost_backend_finishes_sealed:
  assumes "\<forall>g \<in> set (segments w). \<not> grants_at_once H (calls w) (seg_document g)"
  shows "\<exists>w'. sealed_finish_locally (run_edit E H) w = (Inr (), w') \<and>
    segments w' = filter (\<lambda>g. document_open H (calls w) (seg_document g)) (map seg_finish_locally (segments w)) \<and>
    calls w' = calls w \<and> composition w' = composition w \<and>
    (\<forall>g \<in> set (segments w'). is_finished g \<and> \<not> has_pending_conversion (seg_buffer g) \<and>
       Write_edit (seg_document g) \<in> set (queued_edits w' (seg_document g)))"
proof -
  let ?gs = "map seg_finish_locally (segments w)"
  let ?w = "w\<lparr>segments := ?gs\<rparr>"
  have fin: "is_finished (seg_finish_locally g)" "\<not> has_pending_conversion (seg_buffer (seg_finish_locally g))"
    "seg_document (seg_finish_locally g) = seg_document g" for g :: segment
    by (simp_all add: seg_finish_locally_def is_finished_def accept_local_candidates_pending)
  have all: "seg_document g \<in> set (documents_of (segments w))" if "g \<in> set ?gs" for g
    using that fin(3) by (auto simp: documents_of_set)
  obtain q where q: "forC (write_when_possible (run_edit E H)) (documents_of (segments w)) ?w = (Inr (), ?w\<lparr>segments :=
      filter (\<lambda>g. seg_document g \<in> set (documents_of (segments w)) \<longrightarrow> document_open H (calls w) (seg_document g)) ?gs,
      queued_edits := q\<rparr>)"
    "\<forall>d \<in> set (documents_of (segments w)). document_open H (calls w) d \<longrightarrow> Write_edit d \<in> set (q d)"
    using hand_over_all [of "documents_of (segments w)" H ?w E] assms by (auto simp: documents_of_set)
  have kept: "filter (\<lambda>g. seg_document g \<in> set (documents_of (segments w)) \<longrightarrow> document_open H (calls w) (seg_document g)) ?gs =
      filter (\<lambda>g. document_open H (calls w) (seg_document g)) ?gs"
    using all by (intro filter_cong) auto
  let ?w' = "?w\<lparr>segments := filter (\<lambda>g. document_open H (calls w) (seg_document g)) ?gs, queued_edits := q\<rparr>"
  have "sealed_finish_locally (run_edit E H) w = (Inr (), ?w')"
    using q(1) unfolding kept by (simp add: sealed_finish_locally_def run_simps)
  moreover have "\<forall>g \<in> set (segments ?w'). is_finished g \<and> \<not> has_pending_conversion (seg_buffer g) \<and>
       Write_edit (seg_document g) \<in> set (queued_edits ?w' (seg_document g))"
    using q(2) fin by (auto simp: documents_of_set)
  ultimately show ?thesis by (intro exI [of _ ?w']) simp
qed

definition awaiting_segment :: "nat \<Rightarrow> document_id \<Rightarrow> segment" where
  "awaiting_segment e d = \<lparr>seg_epoch = e, seg_document = d, seg_buffer = typed_buffer [0x3107, 0x311A, 0x20], seg_shown = [],
     seg_preceding = None, seg_erased = 0, seg_stage = Converting e, seg_in_document = True\<rparr>"

definition one_open :: host where
  "one_open = (example_host False)\<lparr>document_open := (\<lambda>_ d. d = 7)\<rparr>"

lemma lost_backend_finishes_sealed_witness:
  "\<exists>w'. sealed_finish_locally (run_edit example_env one_open)
     (new_world\<lparr>segments := [awaiting_segment 1 7, awaiting_segment 2 8]\<rparr>) = (Inr (), w') \<and>
     map seg_epoch (segments w') = [1] \<and> Write_edit 7 \<in> set (queued_edits w' 7)"
proof -
  let ?w = "new_world\<lparr>segments := [awaiting_segment 1 7, awaiting_segment 2 8]\<rparr>"
  obtain w' where w': "sealed_finish_locally (run_edit example_env one_open) ?w = (Inr (), w')"
    "segments w' = filter (\<lambda>g. document_open one_open (calls ?w) (seg_document g)) (map seg_finish_locally (segments ?w))"
    "\<forall>g \<in> set (segments w'). Write_edit (seg_document g) \<in> set (queued_edits w' (seg_document g))"
    using lost_backend_finishes_sealed [of ?w one_open example_env] by (auto simp: one_open_def example_host_def)
  then show ?thesis by (auto simp: one_open_def awaiting_segment_def seg_finish_locally_def)
qed

end
