(* ===== verification/Key_Router.thy ===== *)
theory Key_Router
  imports Controller
begin

text \<open>
  \<open>frontend/src/tsf/key_router.hpp\<close> and \<open>key_router.cpp\<close>: the one decision taken for a key, and the
  key state that lasts across keys.  What a decision does is \<open>perform\<close> of \<open>Text_Service\<close>.  Virtual keys are \<open>WPARAM\<close> values; what a key types on
  the current layout is part of the key press.
\<close>

section \<open>Keys and contexts\<close>

record modifiers =
  shift :: bool
  ctrl :: bool
  alt :: bool

record key_press =
  key :: u64
  modifiers_of :: modifiers
  repeated :: bool
  typed :: "u16string option"

record key_context =
  mode :: input_mode
  composing :: bool
  reading_complete :: bool
  candidates_open :: bool
  candidates_take_key :: bool
  document_behind :: bool
  full_width :: bool
  width_toggle_enabled :: bool
  backtick_prefix :: bool

datatype key_action =
    Pass_through
  | Shift_down
  | Toggle_width
  | Arm_backtick
  | Insert u16string
  | Compose u16string
  | Compose_english u16string
  | Reading char16
  | Candidates
  | Open_candidates
  | Move_caret_action bool bool
  | Backspace_action
  | Backspace_in_order_action
  | Enter_action
  | Escape_action
  | Ignore

abbreviation "VK_BACK \<equiv> 0x08 :: u64"
abbreviation "VK_TAB \<equiv> 0x09 :: u64"
abbreviation "VK_RETURN \<equiv> 0x0D :: u64"
abbreviation "VK_SHIFT \<equiv> 0x10 :: u64"
abbreviation "VK_CONTROL \<equiv> 0x11 :: u64"
abbreviation "VK_MENU \<equiv> 0x12 :: u64"
abbreviation "VK_ESCAPE \<equiv> 0x1B :: u64"
abbreviation "VK_SPACE \<equiv> 0x20 :: u64"
abbreviation "VK_END \<equiv> 0x23 :: u64"
abbreviation "VK_HOME \<equiv> 0x24 :: u64"
abbreviation "VK_LEFT \<equiv> 0x25 :: u64"
abbreviation "VK_RIGHT \<equiv> 0x27 :: u64"
abbreviation "VK_DOWN \<equiv> 0x28 :: u64"
abbreviation "VK_NUMPAD0 \<equiv> 0x60 :: u64"
abbreviation "VK_NUMPAD9 \<equiv> 0x69 :: u64"
abbreviation "VK_OEM_1 \<equiv> 0xBA :: u64"
abbreviation "VK_OEM_PLUS \<equiv> 0xBB :: u64"
abbreviation "VK_OEM_COMMA \<equiv> 0xBC :: u64"
abbreviation "VK_OEM_MINUS \<equiv> 0xBD :: u64"
abbreviation "VK_OEM_PERIOD \<equiv> 0xBE :: u64"
abbreviation "VK_OEM_2 \<equiv> 0xBF :: u64"
abbreviation "VK_OEM_3 \<equiv> 0xC0 :: u64"
abbreviation "VK_OEM_4 \<equiv> 0xDB :: u64"
abbreviation "VK_OEM_5 \<equiv> 0xDC :: u64"
abbreviation "VK_OEM_6 \<equiv> 0xDD :: u64"
abbreviation "VK_OEM_7 \<equiv> 0xDE :: u64"
abbreviation "VK_OEM_8 \<equiv> 0xDF :: u64"
abbreviation "VK_OEM_102 \<equiv> 0xE2 :: u64"

section \<open>The decision\<close>

definition is_shift :: "u64 \<Rightarrow> bool" where
  "is_shift k \<longleftrightarrow> k = VK_SHIFT \<or> k = 0xA0 \<or> k = 0xA1"

definition is_modifier :: "u64 \<Rightarrow> bool" where
  "is_modifier k \<longleftrightarrow>
     is_shift k \<or> k = VK_CONTROL \<or> k = 0xA2 \<or> k = 0xA3 \<or> k = VK_MENU \<or> k = 0xA4 \<or> k = 0xA5"

definition ctrl_punctuation :: "u64 \<Rightarrow> modifiers \<Rightarrow> u16string option" where
  "ctrl_punctuation k m =
     (if \<not> ctrl m \<or> alt m \<or> is_modifier k then None
      else if shift m then
        map_of [(VK_OEM_COMMA, [0x300A]), (VK_OEM_PERIOD, [0x300B]), (VK_OEM_1, [0xFF1A]),
                (VK_OEM_7, [0xFF02]), (VK_OEM_4, [0x300E]), (VK_OEM_6, [0x300F]),
                (0x31, [0xFF01]), (0x39, [0xFF08]), (0x30, [0xFF09]), (VK_OEM_2, [0xFF1F])] k
      else
        map_of [(VK_OEM_COMMA, [0xFF0C]), (VK_OEM_PERIOD, [0x3002]), (VK_OEM_1, [0xFF1B]),
                (VK_OEM_7, [0x3001]), (VK_OEM_MINUS, [0x2014]), (VK_OEM_4, [0x300C]),
                (VK_OEM_6, [0x300D])] k)"

definition backtick_punctuation :: "u64 \<Rightarrow> modifiers \<Rightarrow> u16string option" where
  "backtick_punctuation k m =
     (if alt m \<or> is_modifier k then None
      else
        map_of [(VK_OEM_COMMA, [0xFF0C]), (VK_OEM_PERIOD, [0x3002]), (VK_OEM_1, [0xFF1B]),
                (VK_OEM_2, [0xFF1F]), (VK_OEM_3, [0x2035]), (VK_OEM_7, [0x3001]),
                (VK_OEM_MINUS, [0x2014]), (VK_OEM_4, [0x300C]), (VK_OEM_6, [0x300D])] k)"

definition plain :: "modifiers \<Rightarrow> bool" where
  "plain m \<longleftrightarrow> \<not> shift m \<and> \<not> ctrl m \<and> \<not> alt m"

definition composing_key :: "key_press \<Rightarrow> key_context \<Rightarrow> key_action" where
  "composing_key p c =
     (if key p = VK_RETURN then Enter_action
      else if key p = VK_ESCAPE then Escape_action
      else if key p = VK_BACK then Backspace_action
      else if key p = VK_DOWN then Open_candidates
      else if key p = VK_LEFT then Move_caret_action False False
      else if key p = VK_RIGHT then Move_caret_action True False
      else if key p = VK_HOME then Move_caret_action False True
      else if key p = VK_END then Move_caret_action True True
      else if key p = VK_TAB then Ignore
      else if key p = VK_SPACE \<and> reading_complete c
        then Compose (if full_width c then [0x3000] else [0x20])
      else Pass_through)"

definition printable :: "u64 \<Rightarrow> modifiers \<Rightarrow> bool" where
  "printable k m \<longleftrightarrow>
     \<not> (is_modifier k \<or> ctrl m \<or> alt m) \<and>
     (k = VK_SPACE \<or> 0x30 \<le> k \<and> k \<le> 0x39 \<or> 0x41 \<le> k \<and> k \<le> 0x5A \<or>
      VK_NUMPAD0 \<le> k \<and> k \<le> VK_NUMPAD9 \<or>
      k \<in> {VK_OEM_1, VK_OEM_PLUS, VK_OEM_COMMA, VK_OEM_MINUS, VK_OEM_PERIOD, VK_OEM_2, VK_OEM_3,
            VK_OEM_4, VK_OEM_5, VK_OEM_6, VK_OEM_7, VK_OEM_8, VK_OEM_102,
            0x6A, 0x6B, 0x6C, 0x6D, 0x6E, 0x6F})"

definition full_width_char :: "char16 \<Rightarrow> char16" where
  "full_width_char c =
     (if c = 0x20 then 0x3000 else if 0x21 \<le> c \<and> c \<le> 0x7E then c + 0xFEE0 else c)"

definition to_full_width :: "u16string \<Rightarrow> u16string" where
  "to_full_width s = map full_width_char s"

definition eaten :: "key_action \<Rightarrow> bool" where
  "eaten a \<longleftrightarrow> a \<noteq> Pass_through"

definition width :: "key_context \<Rightarrow> u16string \<Rightarrow> u16string" where
  "width c s = (if full_width c then to_full_width s else s)"

text \<open>\<open>lookup\<close> takes an \<open>int\<close>: the low 32 bits of the key.\<close>

definition reading_of :: "u64 \<Rightarrow> char16 option" where
  "reading_of k = lookup (ucast k)"

text \<open>The part of \<open>route\<close> after the text of the key has been dealt with.\<close>

definition route_command :: "key_press \<Rightarrow> key_context \<Rightarrow> key_action" where
  "route_command p c =
     (let k = key p; m = modifiers_of p; reading = reading_of k;
          editing = (k = VK_BACK \<or> k = VK_RETURN) \<and> \<not> ctrl m \<and> \<not> alt m;
          tab = (k = VK_TAB \<and> \<not> alt m);
          modified = (is_modifier k \<or> ctrl m \<or> alt m \<or> shift m) in
      if modified \<and> \<not> (composing c \<and> (editing \<or> tab)) then Pass_through
      else if composing c \<and> candidates_open c then
        (if candidates_take_key c then Candidates
         else if k = VK_BACK then Backspace_action else Pass_through)
      else if composing c \<and> eaten (composing_key p c) then composing_key p c
      else if reading \<noteq> None \<and> (k \<noteq> VK_SPACE \<or> composing c) then Reading (the reading)
      else Pass_through)"

text \<open>The text of the key: in English, and for keys that are no Bopomofo symbol.\<close>

definition route_text :: "key_press \<Rightarrow> key_context \<Rightarrow> bool \<Rightarrow> key_action option" where
  "route_text p c english =
     (case typed p of
        Some s \<Rightarrow>
          if english then
            Some (if \<not> composing c then Insert (width c s)
                  else if mode c = Chinese then Compose_english (width c s)
                  else Compose (width c s))
          else if reading_of (key p) = None \<and> composing c then Some (Compose (width c s))
          else if reading_of (key p) = None \<and> full_width c then Some (Insert (to_full_width s))
          else None
      | None \<Rightarrow> if english \<and> \<not> composing c then Some Pass_through else None)"

definition route :: "key_press \<Rightarrow> key_context \<Rightarrow> key_action" where
  "route p c =
     (let k = key p; m = modifiers_of p; english = (mode c = English \<or> shift m) in
      if is_shift k then Shift_down
      else if width_toggle_enabled c \<and> k = VK_SPACE \<and> shift m \<and> \<not> ctrl m \<and> \<not> alt m then Toggle_width
      else if \<not> english \<and> k = VK_OEM_3 \<and> plain m
        then (if backtick_prefix c then Compose [0x2035] else Arm_backtick)
      else if k = VK_BACK \<and> \<not> ctrl m \<and> \<not> alt m \<and> \<not> composing c \<and> document_behind c
        then Backspace_in_order_action
      else case ctrl_punctuation k m of
        Some s \<Rightarrow> Compose s
      | None \<Rightarrow>
          (case (if \<not> english \<and> backtick_prefix c then backtick_punctuation k m else None) of
             Some s \<Rightarrow> Compose s
           | None \<Rightarrow>
               (case route_text p c english of
                  Some a \<Rightarrow> a
                | None \<Rightarrow>
                    if full_width c \<and> \<not> composing c \<and> k = VK_SPACE \<and> plain m then Insert [0x3000]
                    else route_command p c)))"

section \<open>State across keys\<close>

record key_state =
  shift_alone :: bool
  backtick_armed :: bool

definition new_key_state :: key_state where
  "new_key_state = \<lparr>shift_alone = False, backtick_armed = False\<rparr>"

definition observe :: "key_press \<Rightarrow> key_state \<Rightarrow> key_state" where
  "observe p s = (if shift (modifiers_of p) \<and> \<not> is_shift (key p) then s\<lparr>shift_alone := False\<rparr> else s)"

definition handled :: "key_press \<Rightarrow> key_action \<Rightarrow> key_state \<Rightarrow> key_state" where
  "handled p a s =
     (let s = observe p s in
      if a = Shift_down then (if \<not> repeated p then s\<lparr>shift_alone := True\<rparr> else s)
      else if is_modifier (key p) then s
      else s\<lparr>backtick_armed := (a = Arm_backtick)\<rparr>)"

definition mode_changed :: "input_mode \<Rightarrow> key_state \<Rightarrow> key_state" where
  "mode_changed m s = (if m = English then s\<lparr>backtick_armed := False\<rparr> else s)"

definition shift_released :: "key_state \<Rightarrow> bool \<times> key_state" where
  "shift_released s = (shift_alone s, s\<lparr>shift_alone := False\<rparr>)"

section \<open>Facts about the decision\<close>

lemma ctrl_punctuation_plain: "\<not> ctrl m \<or> alt m \<Longrightarrow> ctrl_punctuation k m = None"
  by (auto simp: ctrl_punctuation_def)

lemma backtick_punctuation_alt: "alt m \<Longrightarrow> backtick_punctuation k m = None"
  by (simp add: backtick_punctuation_def)

text \<open>What every composing key does needs a composition.\<close>

definition edits_composition :: "key_action \<Rightarrow> bool" where
  "edits_composition a \<longleftrightarrow>
     (case a of Compose_english _ \<Rightarrow> True | Candidates \<Rightarrow> True | Open_candidates \<Rightarrow> True
      | Move_caret_action _ _ \<Rightarrow> True | Backspace_action \<Rightarrow> True | Enter_action \<Rightarrow> True
      | Escape_action \<Rightarrow> True | Ignore \<Rightarrow> True | _ \<Rightarrow> False)"

lemma route_command_composing: "edits_composition (route_command p c) \<Longrightarrow> composing c"
  by (auto simp: route_command_def Let_def edits_composition_def split: if_splits)

lemma route_text_composing: "route_text p c english = Some a \<Longrightarrow> edits_composition a \<Longrightarrow> composing c"
  by (auto simp: route_text_def edits_composition_def split: option.splits if_splits)

lemma route_command_modified:
  "ctrl (modifiers_of p) \<or> alt (modifiers_of p) \<Longrightarrow> \<not> (key p = VK_TAB \<and> composing c \<and> \<not> alt (modifiers_of p)) \<Longrightarrow>
   route_command p c = Pass_through"
  by (auto simp: route_command_def Let_def)

lemma route_command_reading: "route_command p c = Reading s \<Longrightarrow> reading_of (key p) = Some s"
  by (auto simp: route_command_def composing_key_def Let_def split: if_splits)

lemma route_text_reading: "route_text p c english \<noteq> Some (Reading s)"
  by (auto simp: route_text_def split: option.splits)

lemma unat_full_width:
  assumes "0x21 \<le> (c :: char16)" "c \<le> 0x7E"
  shows "unat (c + 0xFEE0) = unat c + 0xFEE0"
  using assms by (simp add: word_le_nat_alt unat_word_ariths(1))

lemma full_width_char_unat:
  "unat (full_width_char c) =
     (if unat c = 0x20 then 0x3000 else if 0x21 \<le> unat c \<and> unat c \<le> 0x7E then unat c + 0xFEE0 else unat c)"
  using unat_full_width [of c]
  by (simp add: full_width_char_def word_le_nat_alt word_unat_eq_iff)

lemma full_width_char_idem: "full_width_char (full_width_char c) = full_width_char c"
  unfolding word_unat_eq_iff full_width_char_unat by simp

lemma full_width_char_not_ascii: "\<not> (0x20 \<le> full_width_char c \<and> full_width_char c \<le> 0x7E)"
  unfolding word_le_nat_alt full_width_char_unat by simp

end
