(* ===== verification/Byte_Codec.thy ===== *)
theory Byte_Codec
  imports Prelude
begin

text \<open>
  The bytes of the pipe protocols.  Both ends copy integers and code units from and to memory,
  so on the x64 Windows the program runs on they are little endian and \<open>wchar_t\<close> has two bytes.
  A reader takes what it needs from the front of the bytes received and fails when they run out
  (\<open>read_exact\<close> returning false).  The locale \<open>codec\<close> is the contract between a writer and a
  reader; sequences of values inherit it.
\<close>

section \<open>Little-endian integers\<close>

fun le_bytes :: "nat \<Rightarrow> nat \<Rightarrow> u8 list" where
  "le_bytes 0 x = []"
| "le_bytes (Suc n) x = word_of_nat x # le_bytes n (x div 256)"

fun le_value :: "u8 list \<Rightarrow> nat" where
  "le_value [] = 0"
| "le_value (b # bs) = unat b + 256 * le_value bs"

lemma length_le_bytes [simp]: "length (le_bytes n x) = n"
  by (induction n arbitrary: x) simp_all

lemma le_value_bytes: "le_value (le_bytes n x) = x mod 256 ^ n"
proof (induction n arbitrary: x)
  case (Suc n)
  have "unat (word_of_nat x :: u8) = x mod 256" by (simp add: unat_of_nat)
  then show ?case using Suc by (simp add: mod_mult2_eq)
qed simp

lemma le_value_less: "le_value bs < 256 ^ length bs"
proof (induction bs)
  case (Cons b bs)
  have "unat b < 256" using unsigned_less [of b, where ?'a = nat] by simp
  with Cons show ?case by simp
qed simp

text \<open>Taking \<open>n\<close> bytes off the front.\<close>

definition read_exact :: "nat \<Rightarrow> u8 list \<Rightarrow> (u8 list \<times> u8 list) option" where
  "read_exact n bs = (if length bs < n then None else Some (take n bs, drop n bs))"

definition put_word :: "nat \<Rightarrow> 'a::len word \<Rightarrow> u8 list" where
  "put_word n w = le_bytes n (unat w)"

definition get_word :: "nat \<Rightarrow> u8 list \<Rightarrow> ('a::len word \<times> u8 list) option" where
  "get_word n bs = map_option (\<lambda>(v, rest). (word_of_nat (le_value v), rest)) (read_exact n bs)"

lemma length_put_word [simp]: "length (put_word n w) = n"
  by (simp add: put_word_def)

lemma put_word_Nil [simp]: "put_word n w = [] \<longleftrightarrow> n = 0"
  by (metis length_put_word length_0_conv)

lemma get_put_word:
  assumes "LENGTH('a) \<le> 8 * n"
  shows "get_word n (put_word n (w :: 'a::len word) @ rest) = Some (w, rest)"
proof -
  have "(256::nat) ^ n = 2 ^ (8 * n)" by (simp add: power_mult)
  moreover have "unat w < 2 ^ (8 * n)"
    using unsigned_less [of w, where ?'a = nat] power_increasing [OF assms, of "2::nat"] by linarith
  ultimately show ?thesis
    by (simp add: get_word_def put_word_def read_exact_def le_value_bytes)
qed

lemma get_word_consumes: "get_word n bs = Some (w, rest) \<Longrightarrow> length bs = n + length rest"
  by (auto simp: get_word_def read_exact_def split: if_splits)

section \<open>The contract of a writer and its reader\<close>

locale codec =
  fixes put :: "'a \<Rightarrow> u8 list" and get :: "u8 list \<Rightarrow> ('a \<times> u8 list) option" and ok :: "'a \<Rightarrow> bool"
  assumes get_put: "ok x \<Longrightarrow> get (put x @ rest) = Some (x, rest)"
begin

lemma put_inj: "ok x \<Longrightarrow> ok y \<Longrightarrow> put x @ r = put y @ s \<Longrightarrow> x = y \<and> r = s"
proof -
  assume ok: "ok x" "ok y" and eq: "put x @ r = put y @ s"
  have "Some (x, r) = Some (y, s)"
    by (rule get_put [OF ok(1), of r, unfolded eq get_put [OF ok(2)], symmetric])
  then show "x = y \<and> r = s" by simp
qed

text \<open>No message is a proper prefix of another, so messages need no separator.\<close>

lemma put_prefix_free: "ok x \<Longrightarrow> ok y \<Longrightarrow> put x @ r = put y \<Longrightarrow> r = []"
proof -
  assume ok: "ok x" "ok y" and eq: "put x @ r = put y"
  from eq have "put x @ r = put y @ []" by simp
  from put_inj [OF ok this] show "r = []" by simp
qed

end

text \<open>A fixed number of values in a row.\<close>

fun get_many :: "(u8 list \<Rightarrow> ('a \<times> u8 list) option) \<Rightarrow> nat \<Rightarrow> u8 list \<Rightarrow> ('a list \<times> u8 list) option" where
  "get_many g 0 bs = Some ([], bs)"
| "get_many g (Suc n) bs =
     (case g bs of
        None \<Rightarrow> None
      | Some (x, rest) \<Rightarrow> map_option (\<lambda>(xs, rest). (x # xs, rest)) (get_many g n rest))"

definition put_many :: "('a \<Rightarrow> u8 list) \<Rightarrow> 'a list \<Rightarrow> u8 list" where
  "put_many p xs = concat (map p xs)"

context codec
begin

lemma get_put_many:
  "(\<And>x. x \<in> set xs \<Longrightarrow> ok x) \<Longrightarrow> get_many get (length xs) (put_many put xs @ rest) = Some (xs, rest)"
  by (induction xs) (simp_all add: put_many_def get_put)

end

text \<open>Reading several values never takes bytes that are not there.\<close>

lemma get_many_consumes:
  assumes "\<And>bs x rest. g bs = Some (x, rest) \<Longrightarrow> length rest \<le> length bs"
  shows "get_many g n bs = Some (xs, rest) \<Longrightarrow> length rest \<le> length bs \<and> length xs = n"
proof (induction n arbitrary: bs xs rest)
  case (Suc n)
  then obtain x r ys where "g bs = Some (x, r)" "get_many g n r = Some (ys, rest)" "xs = x # ys"
    by (auto split: option.splits)
  with Suc.IH [of r ys rest] assms [of bs x r] show ?case by simp
qed simp

interpretation byte_codec: codec "put_word 1 :: u8 \<Rightarrow> u8 list" "get_word 1" "\<lambda>_. True"
  by unfold_locales (rule get_put_word, simp)

interpretation u16_codec: codec "put_word 2 :: 16 word \<Rightarrow> u8 list" "get_word 2" "\<lambda>_. True"
  by unfold_locales (rule get_put_word, simp)

interpretation u32_codec: codec "put_word 4 :: u32 \<Rightarrow> u8 list" "get_word 4" "\<lambda>_. True"
  by unfold_locales (rule get_put_word, simp)

interpretation u64_codec: codec "put_word 8 :: u64 \<Rightarrow> u8 list" "get_word 8" "\<lambda>_. True"
  by unfold_locales (rule get_put_word, simp)

text \<open>What every reader below is simplified with.\<close>

lemmas get_put = byte_codec.get_put [OF TrueI] byte_codec.get_put [OF TrueI, unfolded One_nat_def] u16_codec.get_put [OF TrueI]
  u32_codec.get_put [OF TrueI] u64_codec.get_put [OF TrueI]

text \<open>Lengths and counts are \<open>uint32_t\<close>, flags one byte.\<close>

definition put_flag :: "bool \<Rightarrow> u8 list" where
  "put_flag b = put_word 1 (if b then 1 else 0 :: u8)"

definition put_u32 :: "nat \<Rightarrow> u8 list" where
  "put_u32 n = put_word 4 (word_of_nat n :: u32)"

definition get_u32 :: "u8 list \<Rightarrow> (nat \<times> u8 list) option" where
  "get_u32 bs = map_option (\<lambda>(w, rest). (unat (w :: u32), rest)) (get_word 4 bs)"

lemma get_put_u32: "n < 2 ^ 32 \<Longrightarrow> get_u32 (put_u32 n @ rest) = Some (n, rest)"
  by (simp add: get_u32_def put_u32_def get_put unat_of_nat)

lemma get_put_flag: "get_word 1 (put_flag b @ rest) = Some (if b then 1 else 0 :: u8, rest)"
  by (simp add: put_flag_def get_put)

section \<open>UTF-16 strings\<close>

text \<open>A length and so many code units; a reader refuses a length above its limit before it reads them.\<close>

definition put_utf16 :: "u16string \<Rightarrow> u8 list" where
  "put_utf16 s = put_u32 (length s) @ put_many (put_word 2) s"

definition get_utf16 :: "nat \<Rightarrow> u8 list \<Rightarrow> (u16string \<times> u8 list) option" where
  "get_utf16 limit bs =
     (case get_u32 bs of
        None \<Rightarrow> None
      | Some (n, rest) \<Rightarrow> if limit < n then None else get_many (get_word 2) n rest)"

lemma get_put_utf16: "limit < 2 ^ 32 \<Longrightarrow> length s \<le> limit \<Longrightarrow> get_utf16 limit (put_utf16 s @ rest) = Some (s, rest)"
  by (simp add: get_utf16_def put_utf16_def get_put_u32 u16_codec.get_put_many)

lemma get_u32_consumes: "get_u32 bs = Some (n, rest) \<Longrightarrow> length bs = 4 + length rest"
  by (auto simp: get_u32_def dest: get_word_consumes)

lemma get_utf16_consumes: "get_utf16 limit bs = Some (s, rest) \<Longrightarrow> length rest < length bs \<and> length s \<le> limit"
  using get_many_consumes [of "get_word 2 :: u8 list \<Rightarrow> (16 word \<times> u8 list) option"] get_word_consumes
  by (fastforce simp: get_utf16_def split: option.splits if_splits dest!: get_u32_consumes)

end
