(* ===== verification/Candidate_List.thy ===== *)
theory Candidate_List
  imports Prelude
begin

text \<open>
  \<open>frontend/src/tsf/candidateListUI.hpp\<close> and the part of \<open>candidateUiController.cpp\<close> that drives it:
  pages of nine candidates, the expanded view of up to four pages, the selection, and what is sent
  to be shown.  \<open>UINT\<close> values are natural numbers: \<open>refresh_bounds\<close> and the invariant \<open>list_wf\<close>
  keep every one of them below the number of candidates plus 36.  What the COM side owns (the
  host's UI element manager, the measured anchor) is left out; the operations record what they
  present or hide in \<open>shown_calls\<close>.
\<close>

section \<open>State\<close>

definition page_size :: nat where "page_size = 9"
definition expanded_columns :: nat where "expanded_columns = 4"

lemmas list_consts = page_size_def expanded_columns_def

record presentation =
  owner_window :: u64
  anchor_x :: u32
  anchor_y :: u32
  anchor_top :: u32
  pres_candidates :: "u16string list"
  pres_selection :: nat
  layout_columns :: nat
  number_column :: nat
  can_prev_page :: bool
  can_next_page :: bool

datatype ui_call = Ui_present presentation | Ui_hide

record rect =
  rect_left :: u32
  rect_top :: u32
  rect_bottom :: u32

record candidate_list =
  items :: "u16string list"
  selection_index :: nat
  current_page :: nat
  shown :: bool
  expanded :: bool
  anchor_rect :: "rect option"
  list_owner :: u64
  shown_calls :: "ui_call list"

definition new_list :: candidate_list where
  "new_list = \<lparr>items = [], selection_index = 0, current_page = 0, shown = False, expanded = False,
     anchor_rect = None, list_owner = 0, shown_calls = []\<rparr>"

datatype key_result = Not_handled | Navigated | Finalized | Aborted

section \<open>Pages\<close>

definition page_count :: "candidate_list \<Rightarrow> nat" where
  "page_count l = (if items l = [] then 0 else (length (items l) + page_size - 1) div page_size)"

definition page_end_exclusive :: "candidate_list \<Rightarrow> nat \<Rightarrow> nat" where
  "page_end_exclusive l page = min (page * page_size + page_size) (length (items l))"

definition record_call :: "ui_call \<Rightarrow> candidate_list \<Rightarrow> candidate_list" where
  "record_call c l = l\<lparr>shown_calls := shown_calls l @ [c]\<rparr>"

text \<open>The values \<open>refresh_window\<close> computes from a list whose page and selection are clamped.\<close>

definition start_page :: "candidate_list \<Rightarrow> nat" where
  "start_page l = (if expanded l then (current_page l div expanded_columns) * expanded_columns
                   else current_page l)"

definition visible_pages :: "candidate_list \<Rightarrow> nat" where
  "visible_pages l = (if expanded l then min expanded_columns (page_count l - start_page l) else 1)"

definition page_items :: "candidate_list \<Rightarrow> u16string list" where
  "page_items l =
     (let begin = start_page l * page_size;
          fin = min ((start_page l + visible_pages l) * page_size) (length (items l)) in
      take (fin - begin) (drop begin (items l)))"

definition presentation_of :: "candidate_list \<Rightarrow> rect \<Rightarrow> presentation" where
  "presentation_of l anchor =
     (let current_begin = current_page l * page_size;
          current_end = page_end_exclusive l (current_page l);
          offset = (if current_begin \<le> selection_index l \<and> current_begin < current_end
                    then min (selection_index l - current_begin) (current_end - current_begin - 1) else 0);
          col = current_page l - start_page l in
      \<lparr>owner_window = list_owner l, anchor_x = rect_left anchor, anchor_y = rect_bottom anchor,
       anchor_top = rect_top anchor, pres_candidates = page_items l,
       pres_selection = col * page_size + offset, layout_columns = visible_pages l,
       number_column = col, can_prev_page = 0 < current_page l,
       can_next_page = current_page l + 1 < page_count l\<rparr>)"

definition clamp_selection :: "candidate_list \<Rightarrow> candidate_list" where
  "clamp_selection l =
     l\<lparr>current_page := min (current_page l) (page_count l - 1),
       selection_index := min (selection_index l) (length (items l) - 1)\<rparr>"

definition refresh_window :: "candidate_list \<Rightarrow> candidate_list" where
  "refresh_window l =
     (if items l = [] then record_call Ui_hide l
      else let l = clamp_selection l in
        if \<not> shown l then l
        else case anchor_rect l of
               None \<Rightarrow> l
             | Some anchor \<Rightarrow> record_call (Ui_present (presentation_of l anchor)) l)"

section \<open>Operations\<close>

definition show_list :: "bool \<Rightarrow> candidate_list \<Rightarrow> candidate_list" where
  "show_list b l =
     (let l = l\<lparr>shown := b\<rparr> in if b then refresh_window l else record_call Ui_hide l)"

definition update_list :: "u16string list \<Rightarrow> candidate_list \<Rightarrow> candidate_list" where
  "update_list cs l =
     refresh_window (l\<lparr>items := cs, selection_index := 0, current_page := 0, expanded := False\<rparr>)"

definition expand :: "candidate_list \<Rightarrow> bool \<times> candidate_list" where
  "expand l = (if expanded l then (False, l) else (True, refresh_window (l\<lparr>expanded := True\<rparr>)))"

definition collapse :: "candidate_list \<Rightarrow> bool \<times> candidate_list" where
  "collapse l = (if \<not> expanded l then (False, l) else (True, refresh_window (l\<lparr>expanded := False\<rparr>)))"

definition goto_page :: "nat \<Rightarrow> candidate_list \<Rightarrow> candidate_list" where
  "goto_page page l =
     (let offset = selection_index l mod page_size in
      refresh_window (l\<lparr>current_page := page,
        selection_index := min (page * page_size + offset) (length (items l) - 1)\<rparr>))"

definition page_prev :: "candidate_list \<Rightarrow> bool \<times> candidate_list" where
  "page_prev l =
     (if items l = [] \<or> current_page l = 0 then (False, l)
      else (True, goto_page (current_page l - 1) l))"

definition page_next :: "candidate_list \<Rightarrow> bool \<times> candidate_list" where
  "page_next l =
     (if items l = [] \<or> page_count l \<le> current_page l + 1 then (False, l)
      else (True, goto_page (current_page l + 1) l))"

definition select_prev_in_page :: "candidate_list \<Rightarrow> bool \<times> candidate_list" where
  "select_prev_in_page l =
     (if items l = [] then (False, l)
      else let begin = current_page l * page_size; fin = page_end_exclusive l (current_page l) in
        (True, refresh_window (l\<lparr>selection_index :=
           (if selection_index l \<le> begin then fin - 1 else selection_index l - 1)\<rparr>)))"

definition select_next_in_page :: "candidate_list \<Rightarrow> bool \<times> candidate_list" where
  "select_next_in_page l =
     (if items l = [] then (False, l)
      else let begin = current_page l * page_size; fin = page_end_exclusive l (current_page l) in
        (True, refresh_window (l\<lparr>selection_index :=
           (if fin \<le> selection_index l + 1 then begin else selection_index l + 1)\<rparr>)))"

text \<open>\<open>SetSelection\<close>, \<open>SetPageIndex\<close> and \<open>GetPageIndex\<close>; \<open>False\<close> is \<open>E_INVALIDARG\<close>.\<close>

definition set_selection :: "nat \<Rightarrow> candidate_list \<Rightarrow> bool \<times> candidate_list" where
  "set_selection n l =
     (if length (items l) \<le> n then (False, l)
      else (True, refresh_window (l\<lparr>selection_index := n, current_page := n div page_size\<rparr>)))"

definition set_page_index :: "nat \<Rightarrow> candidate_list \<Rightarrow> bool \<times> candidate_list" where
  "set_page_index requested l =
     (if items l = [] \<or> length (items l) \<le> requested then (False, l)
      else (True, goto_page (requested div page_size) l))"

definition get_page_index :: "nat \<Rightarrow> candidate_list \<Rightarrow> nat list \<times> nat" where
  "get_page_index sz l = (map (\<lambda>i. i * page_size) [0 ..< min sz (page_count l)], page_count l)"

text \<open>\<open>Finalize\<close> gives what the callback gets, if it is called.\<close>

definition finalize :: "candidate_list \<Rightarrow> u16string option \<times> candidate_list" where
  "finalize l =
     (if items l \<noteq> [] \<and> selection_index l < length (items l)
      then Some (items l ! selection_index l) else None,
      record_call Ui_hide l)"

definition abort_list :: "candidate_list \<Rightarrow> candidate_list" where
  "abort_list l = record_call Ui_hide l"

definition list_can_handle_key :: "u64 \<Rightarrow> bool" where
  "list_can_handle_key k \<longleftrightarrow>
     k \<in> {0x26, 0x28, 0x25, 0x27, 0x24, 0x23, 0x21, 0x22, 0x09, 0x0D, 0x20, 0x1B} \<or>
     0x31 \<le> k \<and> k \<le> 0x39 \<or> 0x61 \<le> k \<and> k \<le> 0x69"

definition pick_on_page :: "nat \<Rightarrow> candidate_list \<Rightarrow> key_result \<times> u16string option \<times> candidate_list" where
  "pick_on_page n l =
     (let index = current_page l * page_size + n in
      if index < length (items l) then
        (case finalize (snd (set_selection index l)) of (picked, l') \<Rightarrow> (Finalized, picked, l'))
      else (Not_handled, None, l))"

definition list_handle_key :: "u64 \<Rightarrow> candidate_list \<Rightarrow> key_result \<times> u16string option \<times> candidate_list" where
  "list_handle_key k l =
     (if \<not> list_can_handle_key k \<or> items l = [] then (Not_handled, None, l)
      else if k = 0x26 then (Navigated, None, snd (select_prev_in_page l))
      else if k = 0x28 then (Navigated, None, snd (select_next_in_page l))
      else if k = 0x25 then
        (Navigated, None, if expanded l \<and> current_page l = 0 then snd (collapse l) else snd (page_prev l))
      else if k = 0x27 then
        (Navigated, None, if \<not> expanded l then snd (expand l) else snd (page_next l))
      else if k = 0x24 \<or> k = 0x23 then
        (Navigated, None, snd (set_selection (if k = 0x24 then 0 else length (items l) - 1) l))
      else if k = 0x21 then (Navigated, None, snd (page_prev l))
      else if k = 0x22 then (Navigated, None, snd (page_next l))
      else if k = 0x09 then
        (Navigated, None, if fst (collapse l) then snd (collapse l) else snd (expand (snd (collapse l))))
      else if k = 0x0D \<or> k = 0x20 then (case finalize l of (picked, l') \<Rightarrow> (Finalized, picked, l'))
      else if k = 0x1B then (Aborted, None, abort_list l)
      else if 0x31 \<le> k \<and> k \<le> 0x39 then pick_on_page (unat (k - 0x31)) l
      else if 0x61 \<le> k \<and> k \<le> 0x69 then pick_on_page (unat (k - 0x61)) l
      else (Not_handled, None, l))"

section \<open>The controller of the list\<close>

definition dismiss :: "candidate_list \<Rightarrow> candidate_list" where
  "dismiss l = (show_list False l)\<lparr>anchor_rect := None\<rparr>"

text \<open>
  \<open>CandidateUiController::show\<close>, with the host's answers as arguments: whether there is an element
  manager, the anchor it measured, if any, and whether the application lets the list be shown
  (\<open>None\<close> when the element could not be begun).
\<close>

definition show_candidates ::
  "bool \<Rightarrow> u64 \<Rightarrow> rect option \<Rightarrow> bool option \<Rightarrow> u16string list \<Rightarrow> candidate_list \<Rightarrow> candidate_list"
where
  "show_candidates manager owner measured should_show cs l =
     (if cs = [] then dismiss l
      else if \<not> manager then l
      else case measured of
             None \<Rightarrow> dismiss (l\<lparr>list_owner := owner\<rparr>)
           | Some anchor \<Rightarrow>
               (let l = update_list cs (l\<lparr>list_owner := owner, anchor_rect := Some anchor\<rparr>) in
                if shown l then show_list True l
                else if should_show = Some True then show_list True l
                else l))"

text \<open>The finalize callback given to the element also dismisses it.\<close>

definition controller_handle_key :: "u64 \<Rightarrow> candidate_list \<Rightarrow> key_result \<times> u16string option \<times> candidate_list" where
  "controller_handle_key k l =
     (if \<not> shown l then (Not_handled, None, l)
      else case list_handle_key k l of (r, picked, l') \<Rightarrow>
        (r, picked,
         if r = Aborted \<or> r = Not_handled then dismiss l'
         else if picked \<noteq> None then dismiss l' else l'))"

section \<open>The invariant\<close>

text \<open>The selection is a candidate of the current page.\<close>

definition list_wf :: "candidate_list \<Rightarrow> bool" where
  "list_wf l \<longleftrightarrow>
     (items l = [] \<and> selection_index l = 0 \<and> current_page l = 0 \<or>
      selection_index l < length (items l) \<and> current_page l = selection_index l div page_size)"

lemma page_count_div: "items l \<noteq> [] \<Longrightarrow> page_count l = (length (items l) - 1) div 9 + 1"
  by (cases "length (items l)") (auto simp: page_count_def page_size_def)

lemma page_index_less: "i < length (items l) \<Longrightarrow> i div 9 < page_count l"
  using page_count_div [of l] by (cases "items l") (auto simp: div_le_mono less_Suc_eq_le)

lemma current_page_less: "list_wf l \<Longrightarrow> items l \<noteq> [] \<Longrightarrow> current_page l < page_count l"
  using page_index_less [of "selection_index l" l] by (auto simp: list_wf_def page_size_def)

text \<open>A well-formed list needs no clamping.\<close>

lemma clamp_selection_id:
  assumes "list_wf l"
  shows "clamp_selection l = l"
proof (cases "items l = []")
  case True
  with assms show ?thesis by (simp add: clamp_selection_def list_wf_def page_count_def)
next
  case False
  then have "min (current_page l) (page_count l - 1) = current_page l"
    "min (selection_index l) (length (items l) - 1) = selection_index l"
    using current_page_less [OF assms False] assms by (auto simp: list_wf_def)
  then show ?thesis by (simp add: clamp_selection_def)
qed

lemma clamp_selection_fields [simp]:
  "items (clamp_selection l) = items l" "shown (clamp_selection l) = shown l"
  "expanded (clamp_selection l) = expanded l" "anchor_rect (clamp_selection l) = anchor_rect l"
  "list_owner (clamp_selection l) = list_owner l" "shown_calls (clamp_selection l) = shown_calls l"
  by (simp_all add: clamp_selection_def)

lemma refresh_fields [simp]:
  "items (refresh_window l) = items l" "expanded (refresh_window l) = expanded l"
  "shown (refresh_window l) = shown l" "anchor_rect (refresh_window l) = anchor_rect l"
  by (simp_all add: refresh_window_def record_call_def Let_def split: option.splits)

lemma refresh_selection:
  assumes "list_wf l"
  shows "selection_index (refresh_window l) = selection_index l" "current_page (refresh_window l) = current_page l"
  using clamp_selection_id [OF assms]
  by (simp_all add: refresh_window_def record_call_def Let_def split: option.splits)

lemma refresh_wf [wf_intros]: "list_wf l \<Longrightarrow> list_wf (refresh_window l)"
  using refresh_selection [of l] by (simp add: list_wf_def)

lemma record_call_wf [wf_intros]: "list_wf l \<Longrightarrow> list_wf (record_call c l)"
  by (simp add: list_wf_def record_call_def)

lemma new_list_wf [wf_intros]: "list_wf new_list"
  by (simp add: list_wf_def new_list_def)

lemma goto_page_wf:
  assumes "items l \<noteq> []" "page < page_count l"
  shows "list_wf (goto_page page l)"
proof -
  have n: "page \<le> (length (items l) - 1) div 9" using assms page_count_div by fastforce
  then have le: "page * 9 \<le> length (items l) - 1" by (metis div_times_less_eq_dividend le_trans mult_le_mono1)
  let ?i = "min (page * 9 + selection_index l mod 9) (length (items l) - 1)"
  have "?i div 9 = page"
  proof (cases "page * 9 + selection_index l mod 9 \<le> length (items l) - 1")
    case False
    then have "length (items l) - 1 < page * 9 + 9" using mod_less_divisor [of 9 "selection_index l"] by linarith
    with le have "(length (items l) - 1) div 9 = page" by (simp add: div_nat_eqI mult.commute)
    with False show ?thesis by simp
  qed simp
  moreover have "?i < length (items l)" using assms(1) by (cases "items l") auto
  ultimately show ?thesis
    unfolding goto_page_def Let_def by (intro refresh_wf) (simp add: list_wf_def page_size_def)
qed

lemma select_in_page_wf:
  assumes "items l \<noteq> []" "list_wf l" "i < length (items l)" "i div 9 = current_page l"
  shows "list_wf (refresh_window (l\<lparr>selection_index := i\<rparr>))"
  using assms by (intro refresh_wf) (auto simp: list_wf_def page_size_def)

lemma page_bounds:
  assumes "items l \<noteq> []" "list_wf l"
  shows "current_page l * 9 \<le> selection_index l" "selection_index l < page_end_exclusive l (current_page l)"
    "page_end_exclusive l (current_page l) \<le> length (items l)"
    "page_end_exclusive l (current_page l) \<le> current_page l * 9 + 9"
  using assms by (auto simp: list_wf_def page_end_exclusive_def page_size_def)

lemma select_prev_in_page_wf [wf_intros]:
  assumes "list_wf l"
  shows "list_wf (snd (select_prev_in_page l))"
proof (cases "items l = []")
  case False
  note b = page_bounds [OF False assms]
  let ?i = "if selection_index l \<le> current_page l * 9 then page_end_exclusive l (current_page l) - 1
            else selection_index l - 1"
  have "current_page l * 9 \<le> ?i" "?i < current_page l * 9 + 9" "?i < length (items l)" using b by auto
  then have "?i div 9 = current_page l" by (simp add: div_nat_eqI mult.commute)
  with select_in_page_wf [OF False assms \<open>?i < length (items l)\<close>] show ?thesis
    using False by (simp add: select_prev_in_page_def Let_def page_size_def)
qed (simp add: select_prev_in_page_def assms)

lemma select_next_in_page_wf [wf_intros]:
  assumes "list_wf l"
  shows "list_wf (snd (select_next_in_page l))"
proof (cases "items l = []")
  case False
  note b = page_bounds [OF False assms]
  let ?i = "if page_end_exclusive l (current_page l) \<le> selection_index l + 1 then current_page l * 9
            else selection_index l + 1"
  have "current_page l * 9 \<le> ?i" "?i < current_page l * 9 + 9" "?i < length (items l)" using b by auto
  then have "?i div 9 = current_page l" by (simp add: div_nat_eqI mult.commute)
  with select_in_page_wf [OF False assms \<open>?i < length (items l)\<close>] show ?thesis
    using False by (simp add: select_next_in_page_def Let_def page_size_def)
qed (simp add: select_next_in_page_def assms)

lemma page_prev_wf [wf_intros]: "list_wf l \<Longrightarrow> list_wf (snd (page_prev l))"
  using current_page_less [of l] by (auto simp: page_prev_def intro!: goto_page_wf)

lemma page_next_wf [wf_intros]: "list_wf l \<Longrightarrow> list_wf (snd (page_next l))"
  by (auto simp: page_next_def intro!: goto_page_wf)

lemma set_selection_wf [wf_intros]: "list_wf l \<Longrightarrow> list_wf (snd (set_selection n l))"
  by (auto simp: set_selection_def intro!: refresh_wf) (simp add: list_wf_def)

lemma set_page_index_wf [wf_intros]: "list_wf l \<Longrightarrow> list_wf (snd (set_page_index r l))"
  by (auto simp: set_page_index_def page_size_def intro!: goto_page_wf page_index_less)

lemma expand_wf [wf_intros]: "list_wf l \<Longrightarrow> list_wf (snd (expand l))"
  by (auto simp: expand_def intro!: refresh_wf) (simp add: list_wf_def)

lemma collapse_wf [wf_intros]: "list_wf l \<Longrightarrow> list_wf (snd (collapse l))"
  by (auto simp: collapse_def intro!: refresh_wf) (simp add: list_wf_def)

lemma update_list_wf [wf_intros]: "list_wf (update_list cs l)"
  unfolding update_list_def by (rule refresh_wf) (cases cs; simp add: list_wf_def)

lemma finalize_wf [wf_intros]: "list_wf l \<Longrightarrow> list_wf (snd (finalize l))"
  by (simp add: finalize_def record_call_wf)

lemma pick_on_page_wf [wf_intros]: "list_wf l \<Longrightarrow> list_wf (snd (snd (pick_on_page n l)))"
  using finalize_wf [OF set_selection_wf, of l "current_page l * page_size + n"]
  by (simp add: pick_on_page_def Let_def split: prod.splits)

lemma list_handle_key_wf [wf_intros]: "list_wf l \<Longrightarrow> list_wf (snd (snd (list_handle_key k l)))"
  by (auto simp: list_handle_key_def abort_list_def split: prod.splits intro!: wf_intros
      dest: finalize_wf [of l])

lemma show_list_wf [wf_intros]: "list_wf l \<Longrightarrow> list_wf (show_list b l)"
  by (auto simp: show_list_def Let_def intro!: refresh_wf record_call_wf) (simp_all add: list_wf_def)

lemma dismiss_wf [wf_intros]: "list_wf l \<Longrightarrow> list_wf (dismiss l)"
  using show_list_wf [of l False] by (simp add: dismiss_def list_wf_def)

section \<open>What is presented\<close>

lemma start_page_bounds:
  assumes "list_wf l" "items l \<noteq> []"
  shows "start_page l \<le> current_page l" "current_page l < start_page l + visible_pages l"
    "1 \<le> visible_pages l" "visible_pages l \<le> 4" "start_page l + visible_pages l \<le> page_count l"
proof -
  have "current_page l < page_count l" by (rule current_page_less [OF assms])
  moreover have "current_page l div 4 * 4 \<le> current_page l" "current_page l < current_page l div 4 * 4 + 4" by presburger+
  ultimately show "start_page l \<le> current_page l" "current_page l < start_page l + visible_pages l"
    "1 \<le> visible_pages l" "visible_pages l \<le> 4" "start_page l + visible_pages l \<le> page_count l"
    by (auto simp: start_page_def visible_pages_def expanded_columns_def)
qed

lemma shown_end:
  assumes "list_wf l" "items l \<noteq> []"
  shows "current_page l * 9 + 9 \<le> (start_page l + visible_pages l) * 9"
proof -
  have "current_page l + 1 \<le> start_page l + visible_pages l" using start_page_bounds(2) [OF assms] by simp
  then have "(current_page l + 1) * 9 \<le> (start_page l + visible_pages l) * 9" by (rule mult_le_mono1)
  then show ?thesis by (simp add: algebra_simps)
qed

lemma shown_offset:
  assumes "list_wf l" "items l \<noteq> []"
  shows "pres_selection (presentation_of l anchor) = selection_index l - start_page l * 9"
    "start_page l * 9 \<le> selection_index l"
    "number_column (presentation_of l anchor) = current_page l - start_page l"
proof -
  note b = page_bounds [OF assms(2,1)] and s = start_page_bounds [OF assms]
  show "start_page l * 9 \<le> selection_index l" using b(1) s(1) by linarith
  show "number_column (presentation_of l anchor) = current_page l - start_page l"
    by (simp add: presentation_of_def Let_def)
  show "pres_selection (presentation_of l anchor) = selection_index l - start_page l * 9"
    using b s(1) by (simp add: presentation_of_def Let_def page_size_def diff_mult_distrib)
qed

lemma page_items_nth:
  assumes "start_page l * 9 \<le> i" "i < (start_page l + visible_pages l) * 9" "i < length (items l)"
  shows "i - start_page l * 9 < length (page_items l)" "page_items l ! (i - start_page l * 9) = items l ! i"
  using assms by (auto simp: page_items_def Let_def page_size_def)

text \<open>The highlighted candidate is the selected one, and digit \<open>n\<close> labels what it picks.\<close>

lemma highlighted:
  fixes anchor :: rect
  assumes "list_wf l" "items l \<noteq> []"
  defines "p \<equiv> presentation_of l anchor"
  shows "pres_selection p < length (pres_candidates p)"
    "pres_candidates p ! pres_selection p = items l ! selection_index l"
proof -
  have "selection_index l < length (items l)" using assms(1,2) by (auto simp: list_wf_def)
  moreover have "selection_index l < (start_page l + visible_pages l) * 9"
    using page_bounds(2,4) [OF assms(2,1)] shown_end [OF assms(1,2)] by linarith
  ultimately show "pres_selection p < length (pres_candidates p)"
    "pres_candidates p ! pres_selection p = items l ! selection_index l"
    using page_items_nth [OF shown_offset(2) [OF assms(1,2)]] shown_offset(1) [OF assms(1,2)]
    by (simp_all add: p_def presentation_of_def Let_def)
qed

lemma labelled:
  fixes anchor :: rect
  assumes "list_wf l" "items l \<noteq> []" "n < 9" "current_page l * 9 + n < length (items l)"
  defines "p \<equiv> presentation_of l anchor"
  shows "pres_candidates p ! (number_column p * 9 + n) = items l ! (current_page l * 9 + n)"
proof -
  note s = start_page_bounds [OF assms(1,2)]
  have "start_page l * 9 \<le> current_page l * 9 + n" "current_page l * 9 + n < (start_page l + visible_pages l) * 9"
    using s(1) shown_end [OF assms(1,2)] assms(3) by linarith+
  from page_items_nth(2) [OF this assms(4)]
  have "page_items l ! (current_page l * 9 + n - start_page l * 9) = items l ! (current_page l * 9 + n)" .
  moreover have "number_column p * 9 + n = current_page l * 9 + n - start_page l * 9"
    using s(1) shown_offset(3) [OF assms(1,2)] by (simp add: p_def diff_mult_distrib)
  ultimately show ?thesis by (simp add: p_def presentation_of_def Let_def)
qed

lemma presentation_shape:
  fixes anchor :: rect
  assumes "list_wf l" "items l \<noteq> []"
  defines "p \<equiv> presentation_of l anchor"
  shows "1 \<le> length (pres_candidates p)" "length (pres_candidates p) \<le> layout_columns p * 9"
    "1 \<le> layout_columns p" "layout_columns p \<le> 4" "number_column p < layout_columns p"
    "set (pres_candidates p) \<subseteq> set (items l)"
proof -
  note s = start_page_bounds [OF assms(1,2)]
  have fields: "pres_candidates p = page_items l" "layout_columns p = visible_pages l"
    by (simp_all add: p_def presentation_of_def Let_def)
  show "1 \<le> length (pres_candidates p)" using highlighted(1) [OF assms(1,2), of anchor] by (simp add: p_def)
  show "length (pres_candidates p) \<le> layout_columns p * 9"
    unfolding fields by (auto simp: page_items_def Let_def page_size_def)
  show "1 \<le> layout_columns p" "layout_columns p \<le> 4" using s by (simp_all add: fields)
  show "number_column p < layout_columns p"
    using s(1,2) shown_offset(3) [OF assms(1,2)] fields(2) by (simp add: p_def)
  show "set (pres_candidates p) \<subseteq> set (items l)"
    unfolding fields by (auto simp: page_items_def Let_def dest!: in_set_takeD in_set_dropD)
qed

text \<open>Every number the list works with stays below its length plus 36, so no \<open>UINT\<close> wraps.\<close>

lemma refresh_bounds:
  assumes "list_wf l" "items l \<noteq> []"
  shows "(start_page l + visible_pages l) * 9 < length (items l) + 36"
    "current_page l * 9 + 9 < length (items l) + 36"
proof -
  define q where "q = (length (items l) - 1) div 9"
  have "0 < length (items l)" using assms(2) by simp
  moreover have "q * 9 \<le> length (items l) - 1" by (simp add: q_def)
  ultimately have "q * 9 + 9 \<le> length (items l) + 8" by linarith
  then have 1: "page_count l * 9 \<le> length (items l) + 8"
    unfolding page_count_div [OF assms(2)] q_def [symmetric] by (simp add: algebra_simps)
  have "(start_page l + visible_pages l) * 9 \<le> page_count l * 9"
    using start_page_bounds(5) [OF assms] by (rule mult_le_mono1)
  with 1 shown_end [OF assms]
  show "(start_page l + visible_pages l) * 9 < length (items l) + 36" "current_page l * 9 + 9 < length (items l) + 36"
    by linarith+
qed

text \<open>A presentation is only ever made of a well-formed list.\<close>

lemma refresh_presents:
  assumes "list_wf l" "refresh_window l = l'" "shown_calls l' = shown_calls l @ [Ui_present p]"
  shows "items l \<noteq> [] \<and> (\<exists>anchor. p = presentation_of l anchor)"
  using assms clamp_selection_id [OF assms(1)]
  by (auto simp: refresh_window_def record_call_def Let_def split: if_splits option.splits)

end
