(* ===== verification/Candidate_Pipe.thy ===== *)
theory Candidate_Pipe
  imports Byte_Codec Candidate_List
begin

text \<open>
  The candidate window's pipe: the client in \<open>frontend/src/tsf/candidateUiClient.cpp\<close>, the protocol
  in \<open>service/src/service/candidate_pipe_protocol.hpp\<close> and the server in
  \<open>service/src/service/candidate_pipe_server.hpp\<close>.  Connecting and launching the service are not
  modelled; a client that is not connected sends nothing.  The window itself is a list of the
  calls it gets.
\<close>

section \<open>Protocol\<close>

definition protocol_version :: "16 word" where "protocol_version = 3"
definition maximum_candidate_count :: nat where "maximum_candidate_count = 36"
definition maximum_candidate_length :: nat where "maximum_candidate_length = 256"
definition maximum_layout_columns :: nat where "maximum_layout_columns = 4"

lemmas protocol_consts = maximum_candidate_count_def maximum_candidate_length_def
  maximum_layout_columns_def page_size_def

definition valid_presentation_header :: "nat \<Rightarrow> nat \<Rightarrow> nat \<Rightarrow> nat \<Rightarrow> u8 \<Rightarrow> u8 \<Rightarrow> bool" where
  "valid_presentation_header count selection columns number prev next \<longleftrightarrow>
     count \<noteq> 0 \<and> count \<le> maximum_candidate_count \<and>
     columns \<noteq> 0 \<and> columns \<le> maximum_layout_columns \<and>
     number < columns \<and> selection < count \<and>
     count \<le> columns * page_size \<and> prev \<le> 1 \<and> next \<le> 1"

section \<open>Client\<close>

text \<open>The checks of \<open>present\<close> before anything is sent.\<close>

definition presentable :: "presentation \<Rightarrow> bool" where
  "presentable p \<longleftrightarrow>
     (let count = length (pres_candidates p) in
      \<not> (count = 0 \<or> maximum_candidate_count < count \<or> layout_columns p = 0 \<or>
         maximum_layout_columns < layout_columns p \<or> layout_columns p \<le> number_column p \<or>
         count \<le> pres_selection p \<or> layout_columns p * page_size < count) \<and>
      (\<forall>c \<in> set (pres_candidates p). length c \<le> maximum_candidate_length))"

definition put_candidate :: "u16string \<Rightarrow> u8 list" where
  "put_candidate c = put_u32 (length c) @ put_many (put_word 2) c"

definition command_bytes :: "u8 \<Rightarrow> u8 list" where
  "command_bytes c = put_word 1 c @ put_word 2 protocol_version"

definition presentation_bytes :: "presentation \<Rightarrow> u8 list" where
  "presentation_bytes p =
     put_word 8 (owner_window p) @ put_word 4 (anchor_x p) @ put_word 4 (anchor_y p) @
     put_word 4 (anchor_top p) @ put_u32 (length (pres_candidates p)) @ put_u32 (pres_selection p) @
     put_u32 (layout_columns p) @ put_u32 (number_column p) @
     put_flag (can_prev_page p) @ put_flag (can_next_page p) @
     put_many put_candidate (pres_candidates p)"

text \<open>What one call of the element puts on the pipe.\<close>

fun client_bytes :: "ui_call \<Rightarrow> u8 list" where
  "client_bytes (Ui_present p) =
     (if presentable p then command_bytes 1 @ presentation_bytes p else [])"
| "client_bytes Ui_hide = command_bytes 2"

section \<open>Server\<close>

definition get_candidate :: "u8 list \<Rightarrow> (u16string \<times> u8 list) option" where
  "get_candidate bs =
     (case get_u32 bs of
        None \<Rightarrow> None
      | Some (n, rest) \<Rightarrow>
          if maximum_candidate_length < n then None else get_many (get_word 2) n rest)"

definition read_presentation :: "u8 list \<Rightarrow> (presentation \<times> u8 list) option" where
  "read_presentation b0 =
     (case get_word 8 b0 of None \<Rightarrow> None | Some (owner, b1) \<Rightarrow>
     (case get_word 4 b1 of None \<Rightarrow> None | Some (x, b2) \<Rightarrow>
     (case get_word 4 b2 of None \<Rightarrow> None | Some (y, b3) \<Rightarrow>
     (case get_word 4 b3 of None \<Rightarrow> None | Some (y_top, b4) \<Rightarrow>
     (case get_u32 b4 of None \<Rightarrow> None | Some (count, b5) \<Rightarrow>
     (case get_u32 b5 of None \<Rightarrow> None | Some (selection, b6) \<Rightarrow>
     (case get_u32 b6 of None \<Rightarrow> None | Some (columns, b7) \<Rightarrow>
     (case get_u32 b7 of None \<Rightarrow> None | Some (number, b8) \<Rightarrow>
     (case get_word 1 b8 of None \<Rightarrow> None | Some (prev, b9) \<Rightarrow>
     (case get_word 1 b9 of None \<Rightarrow> None | Some (next, b10) \<Rightarrow>
        if \<not> valid_presentation_header count selection columns number prev next then None
        else map_option (\<lambda>(cs, rest).
          (\<lparr>owner_window = owner, anchor_x = x, anchor_y = y, anchor_top = y_top, pres_candidates = cs,
            pres_selection = selection, layout_columns = columns, number_column = number,
            can_prev_page = (prev \<noteq> 0), can_next_page = (next \<noteq> 0)\<rparr>, rest))
          (get_many get_candidate count b10)))))))))))"

record candidate_server =
  active_client_id :: nat
  window_calls :: "ui_call list"

definition hide_if_active :: "nat \<Rightarrow> candidate_server \<Rightarrow> candidate_server" where
  "hide_if_active client s =
     (if active_client_id s \<noteq> client then s
      else s\<lparr>active_client_id := 0, window_calls := window_calls s @ [Ui_hide]\<rparr>)"

definition present_from :: "nat \<Rightarrow> presentation \<Rightarrow> candidate_server \<Rightarrow> candidate_server" where
  "present_from client p s =
     s\<lparr>active_client_id := client, window_calls := window_calls s @ [Ui_present p]\<rparr>"

text \<open>
  \<open>handle_client\<close> on everything the client sends before its end of the pipe closes; the bytes
  run out when it does.  \<open>fuel\<close> bounds the number of commands; each takes three bytes or more, so
  the number of bytes is enough.
\<close>

fun handle_client :: "nat \<Rightarrow> nat \<Rightarrow> u8 list \<Rightarrow> candidate_server \<Rightarrow> candidate_server" where
  "handle_client client 0 bs s = hide_if_active client s"
| "handle_client client (Suc fuel) bs s =
     (case get_word 1 bs of
        None \<Rightarrow> hide_if_active client s
      | Some (command :: u8, b1) \<Rightarrow>
          (case get_word 2 b1 of
             None \<Rightarrow> hide_if_active client s
           | Some (version, b2) \<Rightarrow>
               if version \<noteq> protocol_version then hide_if_active client s
               else if command = 1 then
                 (case read_presentation b2 of
                    None \<Rightarrow> hide_if_active client s
                  | Some (p, rest) \<Rightarrow> handle_client client fuel rest (present_from client p s))
               else if command = 2 then handle_client client fuel b2 (hide_if_active client s)
               else hide_if_active client s))"

section \<open>Client and server agree\<close>

lemma presentable_header:
  "presentable p \<longleftrightarrow>
     valid_presentation_header (length (pres_candidates p)) (pres_selection p) (layout_columns p)
       (number_column p) (if can_prev_page p then 1 else 0) (if can_next_page p then 1 else 0) \<and>
     (\<forall>c \<in> set (pres_candidates p). length c \<le> maximum_candidate_length)"
  by (auto simp: presentable_def valid_presentation_header_def Let_def)

text \<open>The numbers of a presentation that may be sent fit their 32-bit fields.\<close>

lemma presentable_small:
  assumes "presentable p"
  shows "length (pres_candidates p) \<le> 36" "pres_selection p < 36" "layout_columns p \<le> 4" "number_column p < 4"
  using assms by (auto simp: presentable_def protocol_consts Let_def)

interpretation candidate_codec: codec put_candidate get_candidate "\<lambda>c. length c \<le> maximum_candidate_length"
proof
  fix c :: u16string and rest
  assume "length c \<le> maximum_candidate_length"
  then show "get_candidate (put_candidate c @ rest) = Some (c, rest)"
    by (simp add: get_candidate_def put_candidate_def get_put_u32 protocol_consts u16_codec.get_put_many)
qed

interpretation presentation_codec: codec presentation_bytes read_presentation presentable
proof
  fix p rest
  assume p: "presentable p"
  have cs: "get_many get_candidate (length (pres_candidates p)) (put_many put_candidate (pres_candidates p) @ rest) =
      Some (pres_candidates p, rest)"
    by (rule candidate_codec.get_put_many) (use p in \<open>simp add: presentable_header\<close>)
  have "valid_presentation_header (length (pres_candidates p)) (pres_selection p) (layout_columns p)
       (number_column p) (if can_prev_page p then 1 else 0) (if can_next_page p then 1 else 0)"
    using p by (simp add: presentable_header)
  then show "read_presentation (presentation_bytes p @ rest) = Some (p, rest)"
    using presentable_small [OF p]
    by (simp add: read_presentation_def presentation_bytes_def get_put get_put_u32 get_put_flag get_put_flag [unfolded One_nat_def] cs)
qed

text \<open>What the server does with each call of a client.\<close>

fun serve :: "nat \<Rightarrow> ui_call \<Rightarrow> candidate_server \<Rightarrow> candidate_server" where
  "serve client (Ui_present p) s = (if presentable p then present_from client p s else s)"
| "serve client Ui_hide s = hide_if_active client s"

lemma handle_command:
  assumes "fuel \<ge> Suc n"
  shows "\<exists>fuel' \<ge> n. handle_client client fuel (client_bytes c @ rest) s =
      (if client_bytes c = [] then handle_client client fuel rest s else handle_client client fuel' rest (serve client c s))"
proof -
  obtain f where f: "fuel = Suc f" "n \<le> f" using assms by (cases fuel) auto
  show ?thesis
  proof (cases c)
    case (Ui_present p)
    then show ?thesis
      using f presentation_codec.get_put [of p rest]
      by (auto simp: command_bytes_def get_put)
  next
    case Ui_hide
    then show ?thesis using f by (auto simp: command_bytes_def get_put)
  qed
qed

lemma handle_client_calls:
  "length cs < fuel \<Longrightarrow>
   handle_client client fuel (concat (map client_bytes cs)) s = hide_if_active client (fold (serve client) cs s)"
proof (induction cs arbitrary: fuel s)
  case Nil
  then show ?case by (cases fuel) (simp_all add: get_word_def read_exact_def)
next
  case (Cons c cs)
  obtain fuel' where fuel': "length cs < fuel'" "handle_client client fuel (client_bytes c @ concat (map client_bytes cs)) s =
      (if client_bytes c = [] then handle_client client fuel (concat (map client_bytes cs)) s
       else handle_client client fuel' (concat (map client_bytes cs)) (serve client c s))"
    using handle_command [of "Suc (length cs)" fuel client c "concat (map client_bytes cs)" s] Cons.prems
    by (auto simp: Suc_le_eq)
  have empty: "client_bytes c = [] \<Longrightarrow> serve client c s = s"
    by (cases c) (auto simp: command_bytes_def put_word_def split: if_splits)
  show ?case
    using fuel' Cons.IH [of fuel s] Cons.IH [of fuel' "serve client c s"] Cons.prems empty by auto
qed

text \<open>The bytes are fuel enough for the commands in them.\<close>

lemma client_bytes_length: "client_bytes c \<noteq> [] \<Longrightarrow> 3 \<le> length (client_bytes c)"
  by (cases c) (auto simp: command_bytes_def split: if_splits)

end
