(* ===== verification/Candidate_Properties.thy ===== *)
theory Candidate_Properties
  imports Candidate_Pipe
begin

text \<open>
  What the candidate list promises its user and its window: whatever sequence of keys, host calls and
  new lists it goes through, the selection stays on the page that is shown, everything it presents is
  accepted by the window's protocol, the item shown highlighted is the one Enter picks, and the item
  beside a digit is the one the digit picks.
\<close>

section \<open>Everything that happens to a list\<close>

datatype list_event =
    Key_event u64
  | Show_event bool u64 "rect option" "bool option" "u16string list"
  | Expand_event
  | Hide_event
  | Host_select nat
  | Host_page nat
  | Host_show bool
  | Host_finalize
  | Host_abort

text \<open>A host that finalizes the list runs the callback the list was given, which dismisses it.\<close>

fun list_step :: "list_event \<Rightarrow> candidate_list \<Rightarrow> candidate_list" where
  "list_step (Key_event k) l = snd (snd (controller_handle_key k l))"
| "list_step (Show_event m owner measured should cs) l = show_candidates m owner measured should cs l"
| "list_step Expand_event l = snd (expand l)"
| "list_step Hide_event l = dismiss l"
| "list_step (Host_select n) l = snd (set_selection n l)"
| "list_step (Host_page n) l = snd (set_page_index n l)"
| "list_step (Host_show b) l = show_list b l"
| "list_step Host_finalize l = (case finalize l of (picked, l') \<Rightarrow> if picked \<noteq> None then dismiss l' else l')"
| "list_step Host_abort l = abort_list l"

definition event_fits :: "list_event \<Rightarrow> bool" where
  "event_fits ev \<longleftrightarrow>
     (case ev of Show_event m owner measured should cs \<Rightarrow> \<forall>c \<in> set cs. length c \<le> maximum_candidate_length
      | _ \<Rightarrow> True)"

definition list_after :: "list_event list \<Rightarrow> candidate_list" where
  "list_after evs = fold list_step evs new_list"

section \<open>The invariant of the list\<close>

lemma controller_handle_key_wf [wf_intros]: "list_wf l \<Longrightarrow> list_wf (snd (snd (controller_handle_key k l)))"
  using list_handle_key_wf [of l k]
  by (auto simp: controller_handle_key_def intro: dismiss_wf split: prod.splits)

lemma list_wf_owner [simp]: "list_wf (l\<lparr>list_owner := w\<rparr>) \<longleftrightarrow> list_wf l"
  by (simp add: list_wf_def)

lemma show_candidates_wf [wf_intros]: "list_wf l \<Longrightarrow> list_wf (show_candidates m owner measured should cs l)"
  by (auto simp: show_candidates_def Let_def intro!: wf_intros split: option.splits)

lemma abort_list_wf [wf_intros]: "list_wf l \<Longrightarrow> list_wf (abort_list l)"
  unfolding abort_list_def by (rule record_call_wf)

lemma list_step_wf: "list_wf l \<Longrightarrow> list_wf (list_step ev l)"
  by (cases ev) (auto intro!: wf_intros simp: case_prod_unfold)

lemma list_after_wf: "list_wf (list_after evs)"
proof -
  have "list_wf l \<Longrightarrow> list_wf (fold list_step evs l)" for l
    by (induction evs arbitrary: l) (simp_all add: list_step_wf)
  then show ?thesis unfolding list_after_def by (blast intro: new_list_wf)
qed

section \<open>What a list sends\<close>

text \<open>A presentation is accepted as soon as its page exists, wherever on it the selection is.\<close>

definition sends_ok :: "candidate_list \<Rightarrow> bool" where
  "sends_ok l \<longleftrightarrow> (\<forall>c \<in> set (items l). length c \<le> maximum_candidate_length) \<and>
     (\<forall>p. Ui_present p \<in> set (shown_calls l) \<longrightarrow> presentable p)"

lemma page_range:
  assumes "current_page l < page_count l"
  shows "start_page l \<le> current_page l" "current_page l + 1 \<le> start_page l + visible_pages l"
    "1 \<le> visible_pages l" "visible_pages l \<le> 4"
proof -
  have "current_page l div 4 * 4 \<le> current_page l" "current_page l < current_page l div 4 * 4 + 4" by presburger+
  with assms show "start_page l \<le> current_page l" "current_page l + 1 \<le> start_page l + visible_pages l"
    "1 \<le> visible_pages l" "visible_pages l \<le> 4"
    by (auto simp: start_page_def visible_pages_def expanded_columns_def)
qed

lemma page_not_empty:
  assumes "current_page l < page_count l"
  shows "current_page l * 9 < length (items l)"
proof -
  have ne: "items l \<noteq> []" using assms by (auto simp: page_count_def)
  then have "current_page l \<le> (length (items l) - 1) div 9" using assms page_count_div [OF ne] by simp
  then have "current_page l * 9 \<le> (length (items l) - 1) div 9 * 9" by (rule mult_le_mono1)
  also have "\<dots> \<le> length (items l) - 1" by (rule div_times_less_eq_dividend)
  also have "\<dots> < length (items l)" using ne by simp
  finally show ?thesis .
qed

lemma presentation_presentable:
  fixes anchor :: rect
  assumes page: "current_page l < page_count l" and short: "\<forall>c \<in> set (items l). length c \<le> maximum_candidate_length"
  shows "presentable (presentation_of l anchor)"
proof -
  define s v n c where "s = start_page l" and "v = visible_pages l" and "n = length (items l)" and "c = current_page l"
  note r = page_range [OF page, folded s_def v_def c_def]
  have cn: "c * 9 < n" using page_not_empty [OF page] by (simp add: c_def n_def)
  have end_le: "c * 9 + 9 \<le> (s + v) * 9" using r(2) mult_le_mono1 [of "c + 1" "s + v" 9] by (simp add: algebra_simps)
  have sc: "s * 9 \<le> c * 9" using r(1) by simp
  let ?p = "presentation_of l anchor"
  have "length (pres_candidates ?p) = min (n - s * 9) (min ((s + v) * 9) n - s * 9)"
    by (simp only: presentation_of_def page_items_def Let_def page_size_def s_def v_def n_def
        presentation.select_convs length_take length_drop)
  also have "\<dots> = min ((s + v) * 9) n - s * 9" by linarith
  finally have count: "length (pres_candidates ?p) = min ((s + v) * 9) n - s * 9" .
  have sub: "set (pres_candidates ?p) \<subseteq> set (items l)"
    by (auto simp: presentation_of_def page_items_def Let_def dest!: in_set_takeD in_set_dropD)
  have cols: "layout_columns ?p = v" "number_column ?p = c - s"
    by (simp_all add: presentation_of_def Let_def v_def c_def s_def)
  have sel: "pres_selection ?p \<le> (c - s) * 9 + (min (c * 9 + 9) n - c * 9 - 1)"
    by (simp add: presentation_of_def Let_def page_size_def page_end_exclusive_def c_def s_def n_def)
  have "(c - s) * 9 + (min (c * 9 + 9) n - c * 9 - 1) < min ((s + v) * 9) n - s * 9"
    using cn end_le sc unfolding diff_mult_distrib by linarith
  with sel have "pres_selection ?p < length (pres_candidates ?p)" unfolding count by (rule le_less_trans)
  moreover have "length (pres_candidates ?p) \<le> v * 9" unfolding count by (simp add: algebra_simps)
  ultimately show ?thesis
    using r short sub unfolding presentable_def Let_def cols protocol_consts by auto
qed

lemma clamped_page: "items l \<noteq> [] \<Longrightarrow> current_page (clamp_selection l) < page_count (clamp_selection l)"
  using page_count_div [of l] by (auto simp: clamp_selection_def page_count_def)

lemma sends_hide: "sends_ok l \<Longrightarrow> sends_ok (record_call Ui_hide l)"
  by (auto simp: sends_ok_def record_call_def)

lemma sends_refresh: "sends_ok l \<Longrightarrow> sends_ok (refresh_window l)"
  using presentation_presentable [OF clamped_page, of l]
  by (auto simp: sends_ok_def refresh_window_def record_call_def Let_def split: option.splits)

text \<open>Only the items and the calls matter for what was sent.\<close>

lemma sends_fields:
  "items l' = items l \<Longrightarrow> shown_calls l' = shown_calls l \<Longrightarrow> sends_ok l \<Longrightarrow> sends_ok l'"
  by (simp add: sends_ok_def)

lemmas sends_intros = sends_hide sends_refresh

lemma sends_set_selection: "sends_ok l \<Longrightarrow> sends_ok (snd (set_selection n l))"
  by (auto simp: set_selection_def intro!: sends_refresh elim: sends_fields [rotated 2])

lemma sends_goto: "sends_ok l \<Longrightarrow> sends_ok (goto_page n l)"
  by (auto simp: goto_page_def Let_def intro!: sends_refresh elim: sends_fields [rotated 2])

lemma sends_moves:
  assumes "sends_ok l"
  shows "sends_ok (snd (select_prev_in_page l))" "sends_ok (snd (select_next_in_page l))"
    "sends_ok (snd (page_prev l))" "sends_ok (snd (page_next l))" "sends_ok (snd (expand l))"
    "sends_ok (snd (collapse l))" "sends_ok (snd (set_page_index n l))" "sends_ok (snd (finalize l))"
    "sends_ok (abort_list l)" "sends_ok (show_list b l)"
  using assms
  by (auto simp: select_prev_in_page_def select_next_in_page_def page_prev_def page_next_def expand_def
      collapse_def set_page_index_def finalize_def abort_list_def show_list_def Let_def
      intro!: sends_refresh sends_goto sends_hide elim: sends_fields [rotated 2])

lemma sends_dismiss: "sends_ok l \<Longrightarrow> sends_ok (dismiss l)"
  using sends_moves(10) [of l False] by (simp add: dismiss_def sends_ok_def)

lemma sends_update: "sends_ok l \<Longrightarrow> \<forall>c \<in> set cs. length c \<le> maximum_candidate_length \<Longrightarrow> sends_ok (update_list cs l)"
  unfolding update_list_def by (rule sends_refresh) (simp add: sends_ok_def)

lemma sends_pick: "sends_ok l \<Longrightarrow> sends_ok (snd (snd (pick_on_page n l)))"
  using sends_moves(8) [OF sends_set_selection, of l "current_page l * page_size + n"]
  by (simp add: pick_on_page_def Let_def split: prod.splits)

lemma sends_key: "sends_ok l \<Longrightarrow> sends_ok (snd (snd (list_handle_key k l)))"
  using sends_moves(8) [of l]
  by (auto simp: list_handle_key_def split: prod.splits intro!: sends_moves sends_set_selection sends_pick)

lemma sends_controller_key: "sends_ok l \<Longrightarrow> sends_ok (snd (snd (controller_handle_key k l)))"
  using sends_key [of l k] by (auto simp: controller_handle_key_def intro: sends_dismiss split: prod.splits)

lemma sends_owner [simp]: "sends_ok (l\<lparr>list_owner := w\<rparr>) \<longleftrightarrow> sends_ok l" "sends_ok (l\<lparr>anchor_rect := a\<rparr>) \<longleftrightarrow> sends_ok l"
  by (simp_all add: sends_ok_def)

lemma sends_show:
  assumes "sends_ok l" "\<forall>c \<in> set cs. length c \<le> maximum_candidate_length"
  shows "sends_ok (show_candidates m owner measured should cs l)"
  using assms
  by (auto simp: show_candidates_def Let_def intro!: sends_dismiss sends_moves(10) sends_update split: option.splits)

lemma list_step_sends: "sends_ok l \<Longrightarrow> event_fits ev \<Longrightarrow> sends_ok (list_step ev l)"
  by (cases ev)
    (auto simp: event_fits_def case_prod_unfold
      intro!: sends_controller_key sends_show sends_moves sends_dismiss sends_set_selection)

lemma list_after_sends: "\<forall>ev \<in> set evs. event_fits ev \<Longrightarrow> sends_ok (list_after evs)"
proof -
  have "sends_ok l \<Longrightarrow> \<forall>ev \<in> set evs. event_fits ev \<Longrightarrow> sends_ok (fold list_step evs l)" for l
    by (induction evs arbitrary: l) (simp_all add: list_step_sends)
  moreover have "sends_ok new_list" by (simp add: sends_ok_def new_list_def)
  ultimately show "\<forall>ev \<in> set evs. event_fits ev \<Longrightarrow> ?thesis" unfolding list_after_def by blast
qed

section \<open>Properties\<close>

text \<open>Two candidates shown by an application that lets the list be shown, the second selected.\<close>

definition example_events :: "list_event list" where
  "example_events =
     [Show_event True 0 (Some \<lparr>rect_left = 0, rect_top = 0, rect_bottom = 0\<rparr>) (Some True) [[0x41], [0x42]],
      Key_event 0x28]"

lemma example_list:
  "items (list_after example_events) = [[0x41], [0x42]]" "shown (list_after example_events)"
  "selection_index (list_after example_events) = 1" "current_page (list_after example_events) = 0"
  "expanded (list_after example_events) = False"
  "length (shown_calls (list_after example_events)) = 2"
  by (simp_all add: example_events_def list_after_def new_list_def show_candidates_def update_list_def refresh_window_def
      record_call_def clamp_selection_def page_count_def page_size_def Let_def show_list_def controller_handle_key_def
      list_handle_key_def list_can_handle_key_def select_next_in_page_def page_end_exclusive_def)

lemma example_fits: "\<forall>ev \<in> set example_events. event_fits ev"
  by (simp add: example_events_def event_fits_def maximum_candidate_length_def)

text \<open>(C40) Whatever keys, host calls and new lists it goes through, the list keeps its selection among its
  candidates and its page the one the selection is on.\<close>

theorem selection_stays_on_page:
  "let l = list_after evs in
   items l = [] \<and> selection_index l = 0 \<and> current_page l = 0 \<or>
   selection_index l < length (items l) \<and> current_page l = selection_index l div 9"
  using list_after_wf [of evs] by (simp add: list_wf_def Let_def page_size_def)

text \<open>What the window highlights is what Enter and Space pick.\<close>

theorem highlighted_is_picked:
  fixes anchor :: rect
  assumes "items (list_after evs) \<noteq> []" "shown (list_after evs)" "k = 0x0D \<or> k = 0x20"
  defines "p \<equiv> presentation_of (list_after evs) anchor"
  shows "fst (snd (controller_handle_key k (list_after evs))) = Some (pres_candidates p ! pres_selection p)"
proof -
  let ?l = "list_after evs"
  have "selection_index ?l < length (items ?l)" using list_after_wf [of evs] assms(1) by (auto simp: list_wf_def)
  then have "fst (finalize ?l) = Some (items ?l ! selection_index ?l)" using assms(1) by (simp add: finalize_def)
  then show ?thesis
    using assms(1-3) highlighted(2) [OF list_after_wf assms(1), of anchor]
    by (auto simp: p_def controller_handle_key_def list_handle_key_def list_can_handle_key_def split: prod.splits)
qed

lemma highlighted_is_picked_witness:
  "fst (snd (controller_handle_key 0x0D (list_after example_events))) = Some [0x42]"
  using highlighted_is_picked [of example_events "0x0D" "\<lparr>rect_left = 0, rect_top = 0, rect_bottom = 0\<rparr>"]
    highlighted(2) [OF list_after_wf, of example_events] example_list
  by simp

text \<open>The digit shown beside a candidate picks it: the \<open>n\<close>-th item of the numbered column of the
  window is what the key \<open>n\<close> finalizes.\<close>

theorem digit_picks_labelled:
  fixes anchor :: rect
  assumes p_def: "p = presentation_of (list_after evs) anchor"
    and "items (list_after evs) \<noteq> []" "shown (list_after evs)" "n < 9"
    and "number_column p * 9 + n < length (pres_candidates p)"
    and "current_page (list_after evs) * 9 + n < length (items (list_after evs))"
  shows "fst (snd (controller_handle_key (0x31 + word_of_nat n) (list_after evs))) =
    Some (pres_candidates p ! (number_column p * 9 + n))"
proof -
  let ?l = "list_after evs" and ?k = "0x31 + word_of_nat n :: u64"
  have k: "unat ?k = 0x31 + n" using assms(4) by (simp add: unat_word_ariths unat_of_nat)
  have range: "0x31 \<le> ?k" "?k \<le> 0x39" using k assms(4) by (simp_all add: word_le_nat_alt)
  have other: "?k \<noteq> c" if "unat c < 0x31" for c using that k by auto
  have "?k - 0x31 = word_of_nat n" by simp
  then have idx: "unat (?k - 0x31) = n" using assms(4) by (simp add: unat_of_nat)
  have "list_handle_key ?k ?l = pick_on_page n ?l"
    using assms(2) range idx other
    by (simp add: list_handle_key_def list_can_handle_key_def)
  then show ?thesis
    using labelled [OF list_after_wf assms(2,4,6), of anchor] assms(3,6)
    by (auto simp: p_def controller_handle_key_def pick_on_page_def finalize_def set_selection_def Let_def page_size_def
        refresh_selection list_wf_def split: prod.splits)
qed

lemma digit_picks_labelled_witness:
  "fst (snd (controller_handle_key 0x32 (list_after example_events))) = Some [0x42]"
proof -
  let ?a = "\<lparr>rect_left = 0, rect_top = 0, rect_bottom = 0\<rparr>" and ?l = "list_after example_events"
  have col: "number_column (presentation_of ?l ?a) = 0" "page_items ?l = [[0x41], [0x42]]"
    using example_list by (simp_all add: presentation_of_def page_items_def start_page_def visible_pages_def
        page_size_def Let_def)
  have cs: "pres_candidates (presentation_of ?l ?a) = page_items ?l" by (simp add: presentation_of_def Let_def)
  show ?thesis
    using digit_picks_labelled [of "presentation_of ?l ?a" example_events ?a 1] example_list col cs by simp
qed

text \<open>(C38) Every presentation the list ever sends passes the checks of the client, so none is silently
  dropped.\<close>

theorem every_presentation_is_accepted:
  assumes "\<forall>ev \<in> set evs. event_fits ev" "Ui_present p \<in> set (shown_calls (list_after evs))"
  shows "presentable p"
  using list_after_sends [OF assms(1)] assms(2) by (simp add: sends_ok_def)

lemma every_presentation_is_accepted_witness:
  "list_all (\<lambda>c. case c of Ui_present p \<Rightarrow> presentable p | Ui_hide \<Rightarrow> True) (shown_calls (list_after example_events))"
  using every_presentation_is_accepted [OF example_fits] by (auto simp: list_all_iff split: ui_call.splits)

text \<open>(C39) A presentation survives the pipe: what the server reads is what the client was given, whatever
  follows it on the pipe.\<close>

theorem presentation_round_trip:
  assumes "presentable p"
  shows "read_presentation (presentation_bytes p @ rest) = Some (p, rest)"
  by (rule presentation_codec.get_put [OF assms])

definition example_presentation :: presentation where
  "example_presentation =
     \<lparr>owner_window = 7, anchor_x = 0xFFFFFFFF, anchor_y = 1, anchor_top = 0, pres_candidates = [[0x5ABD], []],
      pres_selection = 1, layout_columns = 1, number_column = 0, can_prev_page = False, can_next_page = True\<rparr>"

lemma presentation_round_trip_witness:
  "read_presentation (presentation_bytes example_presentation @ [0, 1]) = Some (example_presentation, [0, 1])"
  by (rule presentation_round_trip)
    (simp add: example_presentation_def presentable_def protocol_consts page_size_def Let_def)

text \<open>The server's reaction to a call whose presentation is accepted.\<close>

fun window_does :: "nat \<Rightarrow> ui_call \<Rightarrow> candidate_server \<Rightarrow> candidate_server" where
  "window_does client (Ui_present p) s = present_from client p s"
| "window_does client Ui_hide s = hide_if_active client s"

lemma calls_fit_bytes:
  "(\<forall>p. Ui_present p \<in> set cs \<longrightarrow> presentable p) \<Longrightarrow> length cs \<le> length (concat (map client_bytes cs))"
proof (induction cs)
  case (Cons c cs)
  have "client_bytes c \<noteq> []"
    using Cons.prems by (cases c) (auto simp: command_bytes_def put_word_def)
  then have "3 \<le> length (client_bytes c)" by (rule client_bytes_length)
  moreover have "length cs \<le> length (concat (map client_bytes cs))" using Cons by simp
  ultimately show ?case by simp
qed simp

lemma serve_accepted:
  "(\<forall>p. Ui_present p \<in> set cs \<longrightarrow> presentable p) \<Longrightarrow> fold (serve client) cs s = fold (window_does client) cs s"
proof (induction cs arbitrary: s)
  case (Cons c cs)
  have "serve client c s = window_does client c s" using Cons.prems by (cases c) auto
  then show ?case using Cons by simp
qed simp

text \<open>(C29) Across the pipe the window does what the list did, call for call: from the bytes of a whole
  session the server presents every presentation and hides at every hide while the client is the
  active one, and hides when the client is gone.\<close>

theorem window_follows_list:
  assumes "\<forall>ev \<in> set evs. event_fits ev"
  defines "sent \<equiv> concat (map client_bytes (shown_calls (list_after evs)))"
  shows "handle_client client (length sent + 1) sent s =
    hide_if_active client (fold (window_does client) (shown_calls (list_after evs)) s)"
proof -
  let ?cs = "shown_calls (list_after evs)"
  have ok: "\<forall>p. Ui_present p \<in> set ?cs \<longrightarrow> presentable p"
    using list_after_sends [OF assms(1)] by (simp add: sends_ok_def)
  show ?thesis
    using handle_client_calls [of ?cs "length sent + 1" client s] calls_fit_bytes [OF ok] serve_accepted [OF ok]
    by (simp add: sent_def)
qed

lemma window_follows_list_witness:
  "let sent = concat (map client_bytes (shown_calls (list_after example_events))) in
   window_calls (handle_client 1 (length sent + 1) sent \<lparr>active_client_id = 0, window_calls = []\<rparr>) =
   window_calls (hide_if_active 1 (fold (window_does 1) (shown_calls (list_after example_events))
     \<lparr>active_client_id = 0, window_calls = []\<rparr>))"
  using window_follows_list [OF example_fits, of 1 "\<lparr>active_client_id = 0, window_calls = []\<rparr>"] by (simp add: Let_def)

end
