(* ===== verification/Text_Service.thy ===== *)
theory Text_Service
  imports Key_Router Candidate_Properties
begin

text \<open>
  The key handling of the text service (frontend/src/tsf/textService.cpp): the composition controller, the
  candidate list and the key state behind the handlers the system calls. A handler works on \<open>text_service\<close>; a
  controller operation runs as an event of \<open>Controller\<close> on the world inside it, and the calls it makes to the
  host are then followed here, where they hide the list, start or end the composition shown, or remember the
  commit that Backspace may take back.
\<close>

section \<open>State\<close>

text \<open>What the host, the worker and the clock answer during one event.\<close>

record host_now =
  accepts_input :: bool
  starts_composition :: bool
  range_known :: bool
  has_manager :: bool
  owner_window :: u64
  anchor :: "rect option"
  may_show :: "bool option"
  private_scope :: "nat \<Rightarrow> bool"
  commit_token :: "nat \<Rightarrow> nat"
  clock :: int

record recent_commit =
  recent_context :: document_id
  recent_time :: int
  recent_tail :: u16string
  recent_token :: nat

datatype worker_request = Ask_mode | Ask_ready | Ask_toggle

record text_service =
  ts_world :: world
  ts_list :: candidate_list
  ts_target :: "(nat \<times> u16string list) option"
  ts_keys :: key_state
  ts_full_width :: bool
  ts_width_toggle :: bool
  ts_tested :: "(u64 \<times> key_action) option"
  ts_shown :: "nat option"
  ts_recent :: "recent_commit option"
  ts_mode :: input_mode
  ts_requests :: "worker_request list"

definition new_service :: text_service where
  "new_service = \<lparr>ts_world = new_world, ts_list = new_list, ts_target = None, ts_keys = new_key_state,
     ts_full_width = False, ts_width_toggle = False, ts_tested = None, ts_shown = None, ts_recent = None,
     ts_mode = English, ts_requests = []\<rparr>"

type_synonym 'a tctl = "(text_service, 'a) ctl"

section \<open>Following the controller\<close>

definition hide_list :: "text_service \<Rightarrow> text_service" where
  "hide_list t = t\<lparr>ts_list := dismiss (ts_list t)\<rparr>"

definition composition_ended :: "nat \<Rightarrow> text_service \<Rightarrow> text_service" where
  "composition_ended e t = (if ts_shown t = Some e then t\<lparr>ts_shown := None\<rparr> else t)"

definition keep_recent :: "host_now \<Rightarrow> document_id \<Rightarrow> nat \<Rightarrow> commit_sample \<Rightarrow> text_service \<Rightarrow> text_service" where
  "keep_recent N d e sample t =
     (if private_scope N e \<or> answer sample = [] \<or> commit_input sample = [] then t
      else if \<not> backend_attached (conversions (ts_world t)) \<or> commit_token N e = 0 then t
      else
        let tail = context_text sample @ answer sample in
        t\<lparr>ts_recent := Some \<lparr>recent_context = d, recent_time = clock N,
           recent_tail = drop (length tail - 256) tail, recent_token = commit_token N e\<rparr>\<rparr>)"

fun follow_call :: "host_now \<Rightarrow> host_call \<Rightarrow> text_service \<Rightarrow> text_service" where
  "follow_call N (Render d e r) t =
     (if ts_shown t = None \<and> starts_composition N then t\<lparr>ts_shown := Some e\<rparr> else t)"
| "follow_call N (Commit d e) t = composition_ended e (hide_list t)"
| "follow_call N (Discard d e) t = composition_ended e (hide_list t)"
| "follow_call N (Seal d e) t = composition_ended e (hide_list t)"
| "follow_call N (Record_commit d e sample) t = keep_recent N d e sample t"
| "follow_call N _ t = t"

definition control :: "env \<Rightarrow> host \<Rightarrow> host_now \<Rightarrow> event \<Rightarrow> unit tctl" where
  "control E H N ev t =
     (case handle E H ev (ts_world t) of
        (r, w) \<Rightarrow> (r, fold (follow_call N) (drop (length (calls (ts_world t))) (calls w)) (t\<lparr>ts_world := w\<rparr>)))"

definition finallyC :: "('w, 'a) ctl \<Rightarrow> ('w, unit) ctl \<Rightarrow> ('w, 'a) ctl" where
  "finallyC m n =
     (\<lambda>t. case m t of (r, t1) \<Rightarrow> (case n t1 of (Inl e, t2) \<Rightarrow> (Inl e, t2) | (Inr _, t2) \<Rightarrow> (r, t2)))"

section \<open>Mode and settings\<close>

definition worker_asks :: "worker_request \<Rightarrow> unit tctl" where
  "worker_asks r =
     modC (\<lambda>t. if backend_attached (conversions (ts_world t)) then t\<lparr>ts_requests := ts_requests t @ [r]\<rparr> else t)"

definition cached_input_mode :: "text_service \<Rightarrow> input_mode" where
  "cached_input_mode t = (if backend_attached (conversions (ts_world t)) then ts_mode t else English)"

definition refresh_input_mode_indicator :: "bool \<Rightarrow> input_mode tctl" where
  "refresh_input_mode_indicator query_backend =
     thenC (whenC query_backend (worker_asks Ask_mode))
     (bindC (getC cached_input_mode) (\<lambda>m.
        thenC (modC (\<lambda>t. t\<lparr>ts_keys := mode_changed m (ts_keys t)\<rparr>)) (ret m)))"

definition refresh_input_settings :: "env \<Rightarrow> host \<Rightarrow> host_now \<Rightarrow> bool \<Rightarrow> bool \<Rightarrow> unit tctl" where
  "refresh_input_settings E H N immediate enabled =
     thenC (control E H N (Set_immediate_conversion immediate))
       (modC (\<lambda>t. t\<lparr>ts_full_width := (if \<not> enabled \<and> ts_width_toggle t \<and> ts_full_width t then False else ts_full_width t),
          ts_width_toggle := enabled\<rparr>))"

section \<open>The commit Backspace takes back\<close>

definition forget_recent_commit :: "text_service \<Rightarrow> text_service" where
  "forget_recent_commit t = t\<lparr>ts_recent := None\<rparr>"

definition correction_window :: int where "correction_window = 10000000000"

definition discard_recent_commit :: "env \<Rightarrow> host \<Rightarrow> host_now \<Rightarrow> document_id \<Rightarrow> unit tctl" where
  "discard_recent_commit E H N d =
     bindC (getC ts_recent) (\<lambda>recent.
       case recent of
         None \<Rightarrow> modC forget_recent_commit
       | Some c \<Rightarrow>
           if recent_context c \<noteq> d \<or> correction_window < clock N - recent_time c then modC forget_recent_commit
           else finallyC (catchC (control E H N (Recheck_commit d (recent_tail c) (recent_token c)))) (modC forget_recent_commit))"

definition has_composition_state :: "text_service \<Rightarrow> bool" where
  "has_composition_state t \<longleftrightarrow> ts_shown t \<noteq> None \<or> composition (ts_world t) \<noteq> None \<or> shown (ts_list t)"

section \<open>The candidate list\<close>

definition show_candidate_list :: "env \<Rightarrow> host \<Rightarrow> host_now \<Rightarrow> comp_buffer \<Rightarrow> unit tctl" where
  "show_candidate_list E H N b =
     bindC (evalC (\<lambda>_. candidate_target b)) (\<lambda>item.
     bindC (getC ts_shown) (\<lambda>composing_now.
       if composing_now = None \<or> \<not> range_known N then modC hide_list
       else
         bindC (evalC (\<lambda>_. get_candidate_texts E item)) (\<lambda>cs.
         thenC (control E H N (Candidates_opened (entry_id item)))
         (bindC (evalC (\<lambda>_. candidate_target_span E b)) (\<lambda>_.
            modC (\<lambda>t. t\<lparr>
              ts_list := show_candidates (has_manager N) (owner_window N) (anchor N) (may_show N) cs (ts_list t),
              ts_target := (if cs \<noteq> [] \<and> has_manager N \<and> anchor N \<noteq> None then Some (entry_id item, cs)
                            else ts_target t)\<rparr>))))))"

definition show_candidate_list_for_current_input :: "env \<Rightarrow> host \<Rightarrow> host_now \<Rightarrow> document_id \<Rightarrow> unit tctl" where
  "show_candidate_list_for_current_input E H N d =
     bindC (getC (\<lambda>t. live (ts_world t) d)) (\<lambda>oc.
       case oc of
         None \<Rightarrow> modC hide_list
       | Some c \<Rightarrow>
           bindC (evalC (\<lambda>_. current_has_candidate_list E (comp_buf c))) (\<lambda>has_list.
             if \<not> has_list then modC hide_list else show_candidate_list E H N (comp_buf c)))"

text \<open>The callback of the list: the word it was given, found again among the candidates.\<close>

definition candidate_picked :: "env \<Rightarrow> host \<Rightarrow> host_now \<Rightarrow> u16string \<Rightarrow> unit tctl" where
  "candidate_picked E H N word =
     bindC (getC ts_target) (\<lambda>target.
       case target of
         None \<Rightarrow> ret ()
       | Some (entry, cs) \<Rightarrow>
           (case find_index (\<lambda>c. c = word) cs of
              None \<Rightarrow> ret ()
            | Some i \<Rightarrow> control E H N (Select_candidate entry i)))"

definition list_takes_key :: "env \<Rightarrow> host \<Rightarrow> host_now \<Rightarrow> u64 \<Rightarrow> key_result tctl" where
  "list_takes_key E H N k =
     bindC (getC (\<lambda>t. controller_handle_key k (ts_list t))) (\<lambda>r.
       case r of
         (result, picked, l) \<Rightarrow>
           thenC (case picked of None \<Rightarrow> ret () | Some word \<Rightarrow> candidate_picked E H N word)
           (thenC (modC (\<lambda>t. t\<lparr>ts_list := l\<rparr>)) (ret result)))"

section \<open>Keys\<close>

definition key_context_for :: "document_id \<Rightarrow> u64 \<Rightarrow> input_mode \<Rightarrow> text_service \<Rightarrow> key_context" where
  "key_context_for d k m t =
     (let w = ts_world t; composing_here = owns w d in
      \<lparr>mode = m, composing = composing_here,
       reading_complete = composing_here \<and> (case composition w of Some c \<Rightarrow> current_compositable (comp_buf c) | None \<Rightarrow> False),
       candidates_open = shown (ts_list t),
       candidates_take_key = shown (ts_list t) \<and> list_can_handle_key k,
       document_behind = (k = VK_BACK \<and> \<not> composing_here \<and> (controller_sealed_pending w d \<or> queued_edits w d \<noteq> [])),
       full_width = ts_full_width t, width_toggle_enabled = ts_width_toggle t,
       backtick_prefix = backtick_armed (ts_keys t)\<rparr>)"

definition leave_other_document :: "env \<Rightarrow> host \<Rightarrow> host_now \<Rightarrow> document_id \<Rightarrow> unit tctl" where
  "leave_other_document E H N d =
     bindC (getC (\<lambda>t. composition (ts_world t) \<noteq> None \<and> \<not> owns (ts_world t) d)) (\<lambda>elsewhere.
       whenC elsewhere (thenC (modC hide_list) (control E H N Seal_open)))"

definition after_hiding :: "env \<Rightarrow> host \<Rightarrow> host_now \<Rightarrow> event \<Rightarrow> bool tctl" where
  "after_hiding E H N ev = thenC (modC hide_list) (thenC (control E H N ev) (ret True))"

text \<open>\<open>again\<close> is \<open>perform\<close> itself, for the key the list did not take.\<close>

definition perform_candidate_key ::
  "(key_action \<Rightarrow> bool tctl) \<Rightarrow> env \<Rightarrow> host \<Rightarrow> host_now \<Rightarrow> document_id \<Rightarrow> key_press \<Rightarrow> bool tctl" where
  "perform_candidate_key again E H N d p =
     bindC (list_takes_key E H N (key p)) (\<lambda>result.
       if result = Navigated \<or> result = Aborted then ret True
       else if result = Finalized then thenC (control E H N (Candidate_finalized d)) (ret True)
       else
         bindC (getC (\<lambda>t. key_context_for d (key p) (cached_input_mode t) t)) (\<lambda>c.
           again (route p (c\<lparr>candidates_open := False\<rparr>))))"

definition is_tone :: "char16 \<Rightarrow> bool" where
  "is_tone c \<longleftrightarrow> c \<in> set tone_set"

definition perform_reading :: "env \<Rightarrow> host \<Rightarrow> host_now \<Rightarrow> document_id \<Rightarrow> char16 \<Rightarrow> bool tctl" where
  "perform_reading E H N d c =
     thenC (modC hide_list)
     (thenC (whenC (\<not> is_tone c) (worker_asks Ask_ready))
     (thenC (control E H N (Type_reading d c)) (ret True)))"

text \<open>A key the list leaves is decided without the list, so two calls are enough.\<close>

fun perform :: "nat \<Rightarrow> env \<Rightarrow> host \<Rightarrow> host_now \<Rightarrow> document_id \<Rightarrow> key_press \<Rightarrow> key_action \<Rightarrow> bool tctl" where
  "perform 0 E H N d p a = ret False"
| "perform (Suc n) E H N d p a =
     (case a of
        Pass_through \<Rightarrow> ret False
      | Shift_down \<Rightarrow> ret True
      | Toggle_width \<Rightarrow>
          thenC (modC (\<lambda>t. if repeated p then t else t\<lparr>ts_full_width := \<not> ts_full_width t\<rparr>)) (ret True)
      | Arm_backtick \<Rightarrow> ret True
      | Insert s \<Rightarrow> after_hiding E H N (Insert_text d s)
      | Compose s \<Rightarrow> after_hiding E H N (Type_text d s)
      | Compose_english s \<Rightarrow>
          thenC (modC hide_list) (thenC (control E H N (Discard_reading d)) (thenC (control E H N (Type_text d s)) (ret True)))
      | Reading c \<Rightarrow> perform_reading E H N d c
      | Candidates \<Rightarrow> perform_candidate_key (perform n E H N d p) E H N d p
      | Open_candidates \<Rightarrow> thenC (show_candidate_list_for_current_input E H N d) (ret True)
      | Move_caret_action forward to_edge \<Rightarrow> after_hiding E H N (Move_caret d forward to_edge)
      | Backspace_action \<Rightarrow> after_hiding E H N (Backspace d)
      | Backspace_in_order_action \<Rightarrow> thenC (control E H N (Backspace_in_order d)) (ret True)
      | Enter_action \<Rightarrow> after_hiding E H N (Enter d)
      | Escape_action \<Rightarrow> thenC (control E H N (Escape d)) (ret True)
      | Ignore \<Rightarrow> ret True)"

definition decide :: "bool \<Rightarrow> document_id \<Rightarrow> key_press \<Rightarrow> key_action tctl" where
  "decide query_backend d p =
     bindC (refresh_input_mode_indicator query_backend) (\<lambda>m.
       getC (\<lambda>t. route p (key_context_for d (key p) m t)))"

definition on_test_key_down :: "host_now \<Rightarrow> document_id \<Rightarrow> key_press \<Rightarrow> bool tctl" where
  "on_test_key_down N d p =
     thenC (modC (\<lambda>t. t\<lparr>ts_tested := None\<rparr>))
     (if \<not> accepts_input N then ret False
      else
        thenC (modC (\<lambda>t. t\<lparr>ts_keys := observe p (ts_keys t)\<rparr>))
        (bindC (decide True d p) (\<lambda>a.
          thenC (modC (\<lambda>t. t\<lparr>ts_tested := Some (key p, a)\<rparr>)) (ret (eaten a)))))"

definition close_list :: "env \<Rightarrow> host \<Rightarrow> host_now \<Rightarrow> document_id \<Rightarrow> unit tctl" where
  "close_list E H N d =
     bindC (getC (\<lambda>t. shown (ts_list t))) (\<lambda>open. whenC (\<not> open) (control E H N (Candidates_closed d)))"

definition carry_out :: "env \<Rightarrow> host \<Rightarrow> host_now \<Rightarrow> document_id \<Rightarrow> key_press \<Rightarrow> key_action \<Rightarrow> bool tctl" where
  "carry_out E H N d p a =
     bindC (getC (\<lambda>t. key p = VK_BACK \<and> \<not> has_composition_state t \<and> a \<noteq> Backspace_in_order_action)) (\<lambda>correcting.
     thenC (whenC correcting (discard_recent_commit E H N d))
     (thenC (modC (\<lambda>t. t\<lparr>ts_keys := handled p a (ts_keys t)\<rparr>))
       (perform 2 E H N d p a)))"

definition on_key_down :: "env \<Rightarrow> host \<Rightarrow> host_now \<Rightarrow> document_id \<Rightarrow> key_press \<Rightarrow> bool tctl" where
  "on_key_down E H N d p =
     bindC (getC ts_tested) (\<lambda>tested.
     thenC (modC (\<lambda>t. t\<lparr>ts_tested := None\<rparr>))
     (if \<not> accepts_input N then ret False
      else
        thenC (leave_other_document E H N d)
        (finallyC
          (bindC (case tested of Some (k, a) \<Rightarrow> if k = key p then ret a else decide False d p | None \<Rightarrow> decide False d p)
            (carry_out E H N d p))
          (close_list E H N d))))"

definition on_test_key_up :: "u64 \<Rightarrow> text_service \<Rightarrow> bool" where
  "on_test_key_up k t \<longleftrightarrow> is_shift k \<and> shift_alone (ts_keys t)"

definition toggle_mode :: "unit tctl" where
  "toggle_mode =
     thenC (worker_asks Ask_toggle)
       (modC (\<lambda>t. if backend_attached (conversions (ts_world t))
                  then t\<lparr>ts_mode := (if ts_mode t = Chinese then English else Chinese)\<rparr> else t))"

definition on_key_up :: "env \<Rightarrow> host \<Rightarrow> host_now \<Rightarrow> document_id \<Rightarrow> u64 \<Rightarrow> bool tctl" where
  "on_key_up E H N d k =
     (if \<not> is_shift k then ret False
      else
        bindC (getC (\<lambda>t. fst (shift_released (ts_keys t)))) (\<lambda>alone.
        thenC (modC (\<lambda>t. t\<lparr>ts_keys := snd (shift_released (ts_keys t))\<rparr>))
        (if \<not> alone then ret False
         else
           bindC (getC (\<lambda>t. cached_input_mode t = Chinese)) (\<lambda>was_chinese.
           thenC toggle_mode
           (bindC (refresh_input_mode_indicator True) (\<lambda>m.
           bindC (getC (\<lambda>t. owns (ts_world t) d)) (\<lambda>here.
           thenC (whenC (was_chinese \<and> m = English \<and> here)
                   (thenC (modC hide_list) (control E H N (Discard_reading d))))
             (ret True))))))))"

end
