(* ===== verification/Text_Service_Steps.thy ===== *)
theory Text_Service_Steps
  imports Text_Service Controller_Steps
begin

text \<open>
  The handlers of the text service keep its invariant and do not throw: the world inside is one the controller
  can reach, and a list that is shown has something to pick.
\<close>

definition service_inv :: "env \<Rightarrow> host \<Rightarrow> text_service \<Rightarrow> bool" where
  "service_inv E H t \<longleftrightarrow> reachable E H (ts_world t) \<and> (shown (ts_list t) \<longrightarrow> items (ts_list t) \<noteq> [])"

lemma service_inv_fields [simp]:
  "service_inv E H (t\<lparr>ts_keys := k\<rparr>) = service_inv E H t" "service_inv E H (t\<lparr>ts_tested := a\<rparr>) = service_inv E H t"
  "service_inv E H (t\<lparr>ts_requests := rs\<rparr>) = service_inv E H t" "service_inv E H (t\<lparr>ts_full_width := b\<rparr>) = service_inv E H t"
  "service_inv E H (t\<lparr>ts_width_toggle := b\<rparr>) = service_inv E H t" "service_inv E H (t\<lparr>ts_recent := r\<rparr>) = service_inv E H t"
  "service_inv E H (t\<lparr>ts_target := g\<rparr>) = service_inv E H t" "service_inv E H (t\<lparr>ts_mode := m\<rparr>) = service_inv E H t"
  "service_inv E H (t\<lparr>ts_shown := e\<rparr>) = service_inv E H t"
  by (simp_all add: service_inv_def)

lemma new_service_inv: "service_inv E H new_service"
  by (simp add: service_inv_def new_service_def new_list_def reachable.start)

section \<open>What a key may type\<close>

definition text_ok :: "env \<Rightarrow> u16string \<Rightarrow> bool" where
  "text_ok E s \<longleftrightarrow> (\<forall>ch \<in> set s. displayable E (ucast ch))"

definition punctuation :: u16string where
  "punctuation = [0x20, 0x3000, 0x2035, 0x300A, 0x300B, 0xFF1A, 0xFF02, 0x300E, 0x300F, 0xFF01, 0xFF08, 0xFF09, 0xFF1F,
     0xFF0C, 0x3002, 0xFF1B, 0x3001, 0x2014, 0x300C, 0x300D]"

definition press_text_ok :: "env \<Rightarrow> key_press \<Rightarrow> bool" where
  "press_text_ok E p \<longleftrightarrow> text_ok E punctuation \<and>
     (\<forall>s. typed p = Some s \<longrightarrow> text_ok E s \<and> text_ok E (to_full_width s))"

fun action_ok :: "env \<Rightarrow> key_action \<Rightarrow> bool" where
  "action_ok E (Compose s) = text_ok E s"
| "action_ok E (Compose_english s) = text_ok E s"
| "action_ok E _ = True"

lemma punctuation_ok: "text_ok E punctuation \<Longrightarrow> set s \<subseteq> set punctuation \<Longrightarrow> text_ok E s"
  by (auto simp: text_ok_def)

lemma ctrl_punctuation_set: "ctrl_punctuation k m = Some s \<Longrightarrow> set s \<subseteq> set punctuation"
  by (auto simp: ctrl_punctuation_def punctuation_def split: if_splits)

lemma backtick_punctuation_set: "backtick_punctuation k m = Some s \<Longrightarrow> set s \<subseteq> set punctuation"
  by (auto simp: backtick_punctuation_def punctuation_def split: if_splits)

lemma route_action_ok:
  assumes "press_text_ok E p"
  shows "action_ok E (route p c)"
proof -
  have punct: "text_ok E punctuation" using assms by (simp add: press_text_ok_def)
  have single: "text_ok E [0x20]" "text_ok E [0x3000]" "text_ok E [0x2035]"
    using punct by (simp_all add: text_ok_def punctuation_def)
  have ctrl: "text_ok E s" if "ctrl_punctuation k m = Some s" for k m s
    using punctuation_ok [OF punct ctrl_punctuation_set [OF that]] .
  have tick: "text_ok E s" if "backtick_punctuation k m = Some s" for k m s
    using punctuation_ok [OF punct backtick_punctuation_set [OF that]] .
  have typing: "action_ok E a" if "route_text p c english = Some a" for a english
    using that assms by (auto simp: route_text_def width_def press_text_ok_def split: option.splits if_splits)
  have either: "action_ok E x \<Longrightarrow> action_ok E y \<Longrightarrow> action_ok E (if b then x else y)" for b x y
    by simp
  have found: "(\<And>s. q = Some s \<Longrightarrow> action_ok E (f s)) \<Longrightarrow> (q = None \<Longrightarrow> action_ok E z) \<Longrightarrow>
      action_ok E (case q of None \<Rightarrow> z | Some s \<Rightarrow> f s)" for q :: "'b option" and f z
    by (cases q) simp_all
  have command: "action_ok E (route_command p c)"
  proof -
    have "action_ok E (composing_key p c)" unfolding composing_key_def by (intro either) (use single in simp_all)
    then show ?thesis unfolding route_command_def Let_def by (intro either) simp_all
  qed
  have tick': "text_ok E s" if "(if b then backtick_punctuation (key p) m else None) = Some s" for b m s
    using that tick by (simp split: if_splits)
  show ?thesis
    unfolding route_def Let_def by (intro either found) (use single ctrl tick' typing command in simp_all)
qed

section \<open>Following the controller\<close>

lemma dismiss_hides [simp]: "\<not> shown (dismiss l)"
  by (simp add: dismiss_def show_list_def record_call_def)

lemma follow_call_frame:
  "ts_world (follow_call N c t) = ts_world t" "ts_keys (follow_call N c t) = ts_keys t"
  "ts_tested (follow_call N c t) = ts_tested t" "ts_mode (follow_call N c t) = ts_mode t"
  "ts_list (follow_call N c t) = ts_list t \<or> \<not> shown (ts_list (follow_call N c t))"
  by (cases c; simp add: composition_ended_def hide_list_def keep_recent_def Let_def)+

lemma follow_frame:
  "ts_world (fold (follow_call N) cs t) = ts_world t" "ts_keys (fold (follow_call N) cs t) = ts_keys t"
  "ts_tested (fold (follow_call N) cs t) = ts_tested t" "ts_mode (fold (follow_call N) cs t) = ts_mode t"
  "ts_list (fold (follow_call N) cs t) = ts_list t \<or> \<not> shown (ts_list (fold (follow_call N) cs t))"
proof (induction cs arbitrary: t)
  case (Cons c cs)
  { case 1 show ?case using Cons follow_call_frame by simp }
  { case 2 show ?case using Cons follow_call_frame by simp }
  { case 3 show ?case using Cons follow_call_frame by simp }
  { case 4 show ?case using Cons follow_call_frame by simp }
  { case 5 show ?case using Cons(5) [of "follow_call N c t"] follow_call_frame(5) [of N c t] by auto }
qed simp_all

lemma control_ok:
  assumes "env_ok E" "event_ok E ev"
  shows "ensures (service_inv E H) (control E H N ev) (\<lambda>_. service_inv E H)"
proof (rule ensuresI)
  fix t assume t: "service_inv E H t"
  then have r: "reachable E H (ts_world t)" by (simp add: service_inv_def)
  obtain w where w: "handle E H ev (ts_world t) = (Inr (), w)" using reachable_handles [OF assms(1) r assms(2)] by blast
  have "ui_step E H (ts_world t) ev w" using assms(2) w by (rule ui_step.event)
  with r have rw: "reachable E H w" by (rule reachable.step)
  let ?t = "fold (follow_call N) (drop (length (calls (ts_world t))) (calls w)) (t\<lparr>ts_world := w\<rparr>)"
  have "service_inv E H ?t"
    using rw t follow_frame(1,5) [of N "drop (length (calls (ts_world t))) (calls w)" "t\<lparr>ts_world := w\<rparr>"]
    by (auto simp: service_inv_def)
  then show "\<exists>x t'. control E H N ev t = (Inr x, t') \<and> service_inv E H t'" using w by (simp add: control_def)
qed

lemma finallyC_ok:
  assumes "ensures P m (\<lambda>x. Q)" "ensures Q n (\<lambda>_. R)"
  shows "ensures P (finallyC m n) (\<lambda>_. R)"
proof (rule ensuresI)
  fix t assume "P t"
  with assms(1) obtain x t1 where m: "m t = (Inr x, t1)" "Q t1" by (rule ensuresD)
  from assms(2) m(2) obtain y t2 where n: "n t1 = (Inr y, t2)" "R t2" by (rule ensuresD)
  show "\<exists>x t'. finallyC m n t = (Inr x, t') \<and> R t'" using m n by (simp add: finallyC_def)
qed

lemma catchC_ok:
  assumes "ensures P m (\<lambda>_. Q)"
  shows "ensures P (catchC m) (\<lambda>_. Q)"
proof (rule ensuresI)
  fix t assume "P t"
  with assms obtain x t1 where "m t = (Inr x, t1)" "Q t1" by (rule ensuresD)
  then show "\<exists>x t'. catchC m t = (Inr x, t') \<and> Q t'" by (simp add: catchC_def)
qed

section \<open>The handlers\<close>

named_theorems service_intros \<open>computations that keep the invariant of the text service\<close>

lemma mod_service: "(\<And>t. service_inv E H t \<Longrightarrow> service_inv E H (f t)) \<Longrightarrow> ensures (service_inv E H) (modC f) (\<lambda>_. service_inv E H)"
  by (rule ensures_modC)

lemma ret_service [service_intros]: "ensures (service_inv E H) (ret x) (\<lambda>_. service_inv E H)"
  by (rule ensures_ret)

lemma hide_list_inv [simp]: "service_inv E H t \<Longrightarrow> service_inv E H (hide_list t)"
  by (simp add: service_inv_def hide_list_def)

lemma hide_service [service_intros]: "ensures (service_inv E H) (modC hide_list) (\<lambda>_. service_inv E H)"
  by (rule mod_service) simp

lemma then_service [service_intros]:
  "ensures (service_inv E H) m (\<lambda>_. service_inv E H) \<Longrightarrow> ensures (service_inv E H) n (\<lambda>_. service_inv E H) \<Longrightarrow>
    ensures (service_inv E H) (thenC m n) (\<lambda>_. service_inv E H)"
  by (rule ensures_then)

lemma when_service [service_intros]:
  "ensures (service_inv E H) m (\<lambda>_. service_inv E H) \<Longrightarrow> ensures (service_inv E H) (whenC b m) (\<lambda>_. service_inv E H)"
  by (rule ensures_whenC)

lemma bind_service [service_intros]:
  "ensures (service_inv E H) m (\<lambda>_. service_inv E H) \<Longrightarrow> (\<And>x. ensures (service_inv E H) (f x) (\<lambda>_. service_inv E H)) \<Longrightarrow>
    ensures (service_inv E H) (bindC m f) (\<lambda>_. service_inv E H)"
  by (rule ensures_bind)

lemma get_service [service_intros]: "ensures (service_inv E H) (getC f) (\<lambda>_. service_inv E H)"
  by (rule ensures_getC)

lemma if_service [service_intros]:
  "ensures (service_inv E H) m (\<lambda>_. service_inv E H) \<Longrightarrow> ensures (service_inv E H) n (\<lambda>_. service_inv E H) \<Longrightarrow>
    ensures (service_inv E H) (if b then m else n) (\<lambda>_. service_inv E H)"
  by (rule ensures_if)

lemma option_service [service_intros]:
  "ensures (service_inv E H) m (\<lambda>_. service_inv E H) \<Longrightarrow> (\<And>x. ensures (service_inv E H) (f x) (\<lambda>_. service_inv E H)) \<Longrightarrow>
    ensures (service_inv E H) (case o' of None \<Rightarrow> m | Some x \<Rightarrow> f x) (\<lambda>_. service_inv E H)"
  by (rule ensures_case_option)

lemma pair_service [service_intros]:
  "(\<And>x y. ensures (service_inv E H) (f x y) (\<lambda>_. service_inv E H)) \<Longrightarrow>
    ensures (service_inv E H) (case p of (x, y) \<Rightarrow> f x y) (\<lambda>_. service_inv E H)"
  by (cases p) simp

lemmas finally_service [service_intros] = finallyC_ok [of "service_inv E H" _ "service_inv E H" _ "service_inv E H" for E H]
lemmas catch_service [service_intros] = catchC_ok [of "service_inv E H" _ "service_inv E H" for E H]

lemma worker_asks_service [service_intros]: "ensures (service_inv E H) (worker_asks r) (\<lambda>_. service_inv E H)"
  unfolding worker_asks_def by (rule mod_service) simp

lemma refresh_service [service_intros]:
  "ensures (service_inv E H) (refresh_input_mode_indicator q) (\<lambda>_. service_inv E H)"
  unfolding refresh_input_mode_indicator_def by (intro service_intros mod_service) simp

lemma decide_service [service_intros]: "ensures (service_inv E H) (decide q d p) (\<lambda>_. service_inv E H)"
  unfolding decide_def by (intro service_intros)

lemma control_service [service_intros]:
  "env_ok E \<Longrightarrow> event_ok E ev \<Longrightarrow> ensures (service_inv E H) (control E H N ev) (\<lambda>_. service_inv E H)"
  by (rule control_ok)

lemma after_hiding_service [service_intros]:
  "env_ok E \<Longrightarrow> event_ok E ev \<Longrightarrow> ensures (service_inv E H) (after_hiding E H N ev) (\<lambda>_. service_inv E H)"
  unfolding after_hiding_def by (intro service_intros)

lemma discard_recent_service [service_intros]:
  assumes "env_ok E"
  shows "ensures (service_inv E H) (discard_recent_commit E H N d) (\<lambda>_. service_inv E H)"
  unfolding discard_recent_commit_def
  by (intro service_intros mod_service assms) (simp_all add: forget_recent_commit_def)

lemma candidate_picked_service [service_intros]:
  assumes "env_ok E"
  shows "ensures (service_inv E H) (candidate_picked E H N word) (\<lambda>_. service_inv E H)"
  unfolding candidate_picked_def by (intro service_intros assms) simp

section \<open>Opening the list\<close>

lemma candidate_target_in:
  assumes "buf_wf E b" "\<not> candidate_target_index b < 0"
  shows "nat (candidate_target_index b) < length (buffer b)"
  using assms by (auto simp: candidate_target_index_def Let_def split: if_splits)

lemma has_list_total:
  assumes "env_ok E" "buf_wf E b"
  shows "\<exists>r. current_has_candidate_list E b = Inr r"
proof (cases "candidate_target_index b < 0")
  case False
  from candidate_target_in [OF assms(2) this]
  have "pos_wf E (buffer b ! nat (candidate_target_index b))" using buf_wfD(4) [OF assms(2)] by simp
  from get_candidate_texts_total [OF assms(1) this]
  have "compositable (buffer b ! nat (candidate_target_index b)) \<Longrightarrow>
      \<exists>cs. get_candidate_texts E (buffer b ! nat (candidate_target_index b)) = Inr cs" .
  then show ?thesis by (auto simp: current_has_candidate_list_def Let_def is_compositable_def)
qed (auto simp: current_has_candidate_list_def)

lemma target_total:
  assumes "env_ok E" "buf_wf E b" "current_has_candidate_list E b = Inr True"
  obtains item cs sp where "candidate_target b = Inr item" "get_candidate_texts E item = Inr cs" "cs \<noteq> []"
    "candidate_target_span E b = Inr sp"
proof -
  have neg: "\<not> candidate_target_index b < 0" using assms(3) by (auto simp: current_has_candidate_list_def)
  let ?item = "buffer b ! nat (candidate_target_index b)"
  have wf: "pos_wf E ?item" "\<And>p. p \<in> set (take n (buffer b)) \<Longrightarrow> pos_wf E p" for n
    using candidate_target_in [OF assms(2) neg] buf_wfD(4) [OF assms(2)] in_set_takeD by force+
  have comp: "compositable ?item" using assms(3) neg
    by (auto simp: current_has_candidate_list_def Let_def is_compositable_def split: if_splits)
  obtain cs where cs: "get_candidate_texts E ?item = Inr cs" using get_candidate_texts_total [OF assms(1) wf(1) comp] by blast
  then have "cs \<noteq> []" using assms(3) neg
    by (auto simp: current_has_candidate_list_def Let_def is_compositable_def split: if_splits)
  moreover obtain ss where "mapR (display E b) (take (nat (candidate_target_index b)) (buffer b)) = Inr ss"
    using mapR_display_total wf(2) by blast
  moreover obtain s where "display E b ?item = Inr s" using display_total [OF wf(1)] by blast
  ultimately show ?thesis using that [of ?item cs] cs neg by (simp add: candidate_target_def candidate_target_span_def)
qed

lemma show_candidates_items:
  "shown (show_candidates manager owner measured should cs l) \<Longrightarrow> cs \<noteq> [] \<Longrightarrow> (shown l \<longrightarrow> items l \<noteq> []) \<Longrightarrow>
    items (show_candidates manager owner measured should cs l) \<noteq> []"
  by (auto simp: show_candidates_def update_list_def show_list_def refresh_window_def clamp_selection_def record_call_def
      Let_def split: if_splits option.splits)

lemma live_wf:
  assumes "env_ok E" "service_inv E H t" "live (ts_world t) d = Some c"
  shows "buf_wf E (comp_buf c)"
proof -
  have "reachable E H (ts_world t)" using assms(2) by (simp add: service_inv_def)
  from reachable_winv [OF assms(1) this] have "winv E (ts_world t)" .
  moreover have "composition (ts_world t) = Some c" using assms(3) by (auto simp: live_def split: option.splits if_splits)
  ultimately show ?thesis by (rule winv_comp(1))
qed

lemma bind_eval_Inr: "bindC (evalC (\<lambda>_. Inr x)) f = f x"
  by (simp add: bindC_def evalC_def)

lemma show_candidate_list_service:
  assumes env: "env_ok E" and wf: "buf_wf E b" "current_has_candidate_list E b = Inr True"
  shows "ensures (service_inv E H) (show_candidate_list E H N b) (\<lambda>_. service_inv E H)"
proof -
  obtain item cs sp where b: "candidate_target b = Inr item" "get_candidate_texts E item = Inr cs" "cs \<noteq> []"
    "candidate_target_span E b = Inr sp" using target_total [OF env wf] by blast
  have "service_inv E H (t\<lparr>ts_list := show_candidates m w a y cs (ts_list t), ts_target := g\<rparr>)"
    if "service_inv E H t" for t m w a y g
    using that show_candidates_items [OF _ b(3)] by (simp add: service_inv_def)
  then have opened: "ensures (service_inv E H) (modC (\<lambda>t. t\<lparr>
      ts_list := show_candidates (has_manager N) (owner_window N) (anchor N) (may_show N) cs (ts_list t),
      ts_target := (if cs \<noteq> [] \<and> has_manager N \<and> anchor N \<noteq> None then Some (entry_id item, cs) else ts_target t)\<rparr>))
      (\<lambda>_. service_inv E H)" by (rule mod_service)
  show ?thesis
    unfolding show_candidate_list_def b(1) bind_eval_Inr b(2) b(4)
    by (intro bind_service get_service if_service hide_service then_service control_service env opened) simp
qed

lemma show_current_service [service_intros]:
  assumes env: "env_ok E"
  shows "ensures (service_inv E H) (show_candidate_list_for_current_input E H N d) (\<lambda>_. service_inv E H)"
proof (rule ensuresI)
  fix t assume t: "service_inv E H t"
  show "\<exists>x t'. show_candidate_list_for_current_input E H N d t = (Inr x, t') \<and> service_inv E H t'"
  proof (cases "live (ts_world t) d")
    case None
    then show ?thesis using t by (simp add: show_candidate_list_for_current_input_def bindC_def getC_def modC_def)
  next
    case (Some c)
    have wf: "buf_wf E (comp_buf c)" by (rule live_wf [OF env t Some])
    obtain r where r: "current_has_candidate_list E (comp_buf c) = Inr r" using has_list_total [OF env wf] by blast
    show ?thesis
    proof (cases r)
      case True
      with r have "current_has_candidate_list E (comp_buf c) = Inr True" by simp
      from show_candidate_list_service [OF env wf this] t obtain x t' where
        "show_candidate_list E H N (comp_buf c) t = (Inr x, t')" "service_inv E H t'" by (rule ensuresD)
      then show ?thesis using Some r True by (simp add: show_candidate_list_for_current_input_def bindC_def getC_def evalC_def)
    next
      case False
      then show ?thesis using Some r t by (simp add: show_candidate_list_for_current_input_def bindC_def getC_def evalC_def modC_def)
    qed
  qed
qed

section \<open>Keys\<close>

lemma refresh_items [simp]: "items (refresh_window l) = items l"
  by (simp add: refresh_window_def clamp_selection_def record_call_def Let_def split: option.split)

lemma move_items [simp]:
  "items (goto_page n l) = items l" "items (record_call c l) = items l" "items (snd (set_selection n l)) = items l"
  by (simp_all add: goto_page_def record_call_def set_selection_def)

lemma page_items_kept [simp]:
  "items (snd (page_prev l)) = items l" "items (snd (page_next l)) = items l" "items (snd (expand l)) = items l"
  "items (snd (collapse l)) = items l" "items (snd (select_prev_in_page l)) = items l"
  "items (snd (select_next_in_page l)) = items l" "items (abort_list l) = items l" "items (snd (finalize l)) = items l"
  by (simp_all add: page_prev_def page_next_def expand_def collapse_def select_prev_in_page_def select_next_in_page_def
      abort_list_def finalize_def)

lemma pick_items [simp]: "items (snd (snd (pick_on_page n l))) = items l"
proof -
  have "items (snd (finalize (snd (set_selection m l)))) = items l" for m by simp
  then show ?thesis by (simp add: pick_on_page_def Let_def case_prod_unfold)
qed

lemma list_handle_key_items [simp]: "items (snd (snd (list_handle_key k l))) = items l"
  unfolding list_handle_key_def case_prod_unfold by simp

lemma controller_list_items:
  "shown (snd (snd (controller_handle_key k l))) \<Longrightarrow> shown l \<and> items (snd (snd (controller_handle_key k l))) = items l"
proof -
  assume shown: "shown (snd (snd (controller_handle_key k l)))"
  obtain r picked l' where eq: "list_handle_key k l = (r, picked, l')" by (metis prod_cases3)
  then have "items l' = items l" using list_handle_key_items [of k l] by simp
  then show ?thesis
    using shown eq by (auto simp: controller_handle_key_def split: if_splits)
qed

section \<open>Keys\<close>

text \<open>The list computed before the callback is the one kept after it, as the callback only changes the composition.\<close>

lemma list_takes_key_service [service_intros]:
  assumes env: "env_ok E"
  shows "ensures (service_inv E H) (list_takes_key E H N k) (\<lambda>_. service_inv E H)"
proof (rule ensuresI)
  fix t assume t: "service_inv E H t"
  obtain result picked l where r: "controller_handle_key k (ts_list t) = (result, picked, l)" by (metis prod_cases3)
  have kept: "service_inv E H (t'\<lparr>ts_list := l\<rparr>)" if "service_inv E H t'" for t'
    using controller_list_items [of k "ts_list t"] r t that by (auto simp: service_inv_def)
  have "ensures (service_inv E H) (case picked of None \<Rightarrow> ret () | Some word \<Rightarrow> candidate_picked E H N word) (\<lambda>_. service_inv E H)"
    by (intro service_intros env)
  with t obtain t' where "(case picked of None \<Rightarrow> ret () | Some word \<Rightarrow> candidate_picked E H N word) t = (Inr (), t')"
    "service_inv E H t'" by (auto elim: ensuresD)
  then show "\<exists>x t'. list_takes_key E H N k t = (Inr x, t') \<and> service_inv E H t'"
    using kept r by (simp add: list_takes_key_def bindC_def getC_def thenC_def modC_def ret_def)
qed

lemma leave_service [service_intros]:
  assumes "env_ok E"
  shows "ensures (service_inv E H) (leave_other_document E H N d) (\<lambda>_. service_inv E H)"
  unfolding leave_other_document_def by (intro service_intros assms) simp

lemma perform_reading_service [service_intros]:
  assumes "env_ok E"
  shows "ensures (service_inv E H) (perform_reading E H N d c) (\<lambda>_. service_inv E H)"
  unfolding perform_reading_def by (intro service_intros assms) simp

lemma perform_service:
  assumes env: "env_ok E" and press: "press_text_ok E p"
  shows "action_ok E a \<Longrightarrow> ensures (service_inv E H) (perform n E H N d p a) (\<lambda>_. service_inv E H)"
proof (induction n arbitrary: a)
  case (Suc n)
  note again = Suc.IH [OF route_action_ok [OF press]]
  show ?case
  proof (cases a)
    case Candidates
    show ?thesis
      unfolding Candidates perform.simps key_action.case perform_candidate_key_def
      by (intro service_intros env again) simp
  next
    case Toggle_width
    show ?thesis unfolding Toggle_width perform.simps key_action.case
      by (intro service_intros mod_service) simp
  qed (use Suc.prems env in \<open>auto simp: text_ok_def intro!: service_intros\<close>)
qed (simp add: ret_service)

lemma close_list_service [service_intros]:
  assumes "env_ok E"
  shows "ensures (service_inv E H) (close_list E H N d) (\<lambda>_. service_inv E H)"
  unfolding close_list_def by (intro service_intros assms) simp

lemma carry_out_service:
  assumes env: "env_ok E" and press: "press_text_ok E p" and a: "action_ok E a"
  shows "ensures (service_inv E H) (carry_out E H N d p a) (\<lambda>_. service_inv E H)"
  unfolding carry_out_def
  by (intro service_intros env perform_service [OF env press a] mod_service) simp

text \<open>The decision kept from the test of a key is one that \<open>route\<close> made for a press that may be typed.\<close>

definition tested_ok :: "env \<Rightarrow> text_service \<Rightarrow> bool" where
  "tested_ok E t \<longleftrightarrow> (\<forall>k a. ts_tested t = Some (k, a) \<longrightarrow> action_ok E a)"

lemma on_test_key_down_service:
  "ensures (service_inv E H) (on_test_key_down N d p) (\<lambda>_. service_inv E H)"
  unfolding on_test_key_down_def by (intro service_intros mod_service) simp_all

lemma decide_action:
  assumes press: "press_text_ok E p"
  shows "ensures (service_inv E H) (decide q d p) (\<lambda>a t. service_inv E H t \<and> action_ok E a)"
  unfolding decide_def
  by (intro ensures_bind [OF refresh_service] ensures_getC) (simp add: route_action_ok [OF press])

lemma on_key_down_service:
  assumes env: "env_ok E" and press: "press_text_ok E p"
  shows "ensures (\<lambda>t. service_inv E H t \<and> tested_ok E t) (on_key_down E H N d p) (\<lambda>_. service_inv E H)"
proof -
  have carry: "ensures (\<lambda>t. service_inv E H t \<and> action_ok E a) (carry_out E H N d p a) (\<lambda>_. service_inv E H)" for a
  proof (cases "action_ok E a")
    case True
    then show ?thesis by (intro ensures_pre [OF carry_out_service [OF env press True]]) simp
  qed (simp add: ensures_def)
  have act: "ensures (service_inv E H)
      (bindC (case tested of Some (k, a) \<Rightarrow> if k = key p then ret a else decide False d p | None \<Rightarrow> decide False d p)
        (carry_out E H N d p)) (\<lambda>_. service_inv E H)"
    if "\<forall>k a. tested = Some (k, a) \<longrightarrow> action_ok E a" for tested
    by (rule ensures_bind [OF _ carry])
      (use that decide_action [OF press] in \<open>auto split: option.split prod.split intro: ensures_ret\<close>)
  show ?thesis
    unfolding on_key_down_def
  proof (rule ensures_get_bind)
    fix tested
    show "ensures (\<lambda>t. (service_inv E H t \<and> tested_ok E t) \<and> ts_tested t = tested)
      (thenC (modC (\<lambda>t. t\<lparr>ts_tested := None\<rparr>))
        (if \<not> accepts_input N then ret False
         else thenC (leave_other_document E H N d)
           (finallyC (bindC (case tested of Some (k, a) \<Rightarrow> if k = key p then ret a else decide False d p | None \<Rightarrow> decide False d p)
              (carry_out E H N d p)) (close_list E H N d)))) (\<lambda>_. service_inv E H)"
    proof (cases "\<forall>k a. tested = Some (k, a) \<longrightarrow> action_ok E a")
      case True
      have "ensures (\<lambda>t. (service_inv E H t \<and> tested_ok E t) \<and> ts_tested t = tested) (modC (\<lambda>t. t\<lparr>ts_tested := None\<rparr>)) (\<lambda>_. service_inv E H)"
        by (rule ensures_modC) simp
      then show ?thesis by (rule ensures_then) (intro service_intros env act [OF True])
    next
      case False
      then show ?thesis by (auto simp: ensures_def tested_ok_def)
    qed
  qed
qed

lemma toggle_mode_service [service_intros]: "ensures (service_inv E H) toggle_mode (\<lambda>_. service_inv E H)"
  unfolding toggle_mode_def by (intro service_intros mod_service) simp

lemma on_key_up_service:
  assumes "env_ok E"
  shows "ensures (service_inv E H) (on_key_up E H N d k) (\<lambda>_. service_inv E H)"
  unfolding on_key_up_def by (intro service_intros assms mod_service) simp_all

lemma settings_service:
  assumes "env_ok E"
  shows "ensures (service_inv E H) (refresh_input_settings E H N immediate enabled) (\<lambda>_. service_inv E H)"
  unfolding refresh_input_settings_def by (intro service_intros assms mod_service) simp_all

end
