(* ===== verification/Controller_Documents.thy ===== *)
theory Controller_Documents
  imports Controller_Steps
begin

text \<open>
  Which composition the controller works on: no operation moves a composition to another document, only typing
  opens one, and nothing but the opening of the candidate list locks a syllable.
\<close>

definition unlocked :: "composition \<Rightarrow> bool" where
  "unlocked c \<longleftrightarrow> lock_entry (comp_candidates c) = None"

text \<open>The composition after a step is the one before it, or a new one in \<open>D\<close>.\<close>

definition follows_on :: "document_id \<Rightarrow> world \<Rightarrow> world \<Rightarrow> bool" where
  "follows_on D w w' \<longleftrightarrow> (\<forall>c'. composition w' = Some c' \<longrightarrow>
     (\<exists>c. composition w = Some c \<and> comp_document c = comp_document c' \<and> (unlocked c \<longrightarrow> unlocked c')) \<or>
     comp_document c' = D \<and> unlocked c')"

definition keeps :: "document_id \<Rightarrow> (world, 'a) ctl \<Rightarrow> bool" where
  "keeps D m \<longleftrightarrow> (\<forall>w. follows_on D w (snd (m w)))"

named_theorems keeps_intros \<open>computations that keep the composition where it is\<close>

lemma follows_refl [simp]: "follows_on D w w"
  by (auto simp: follows_on_def)

lemma follows_same: "composition w' = composition w \<Longrightarrow> follows_on D w w'"
  by (auto simp: follows_on_def)

lemma follows_none [simp]: "composition w' = None \<Longrightarrow> follows_on D w w'"
  by (simp add: follows_on_def)

lemma follows_trans:
  assumes "follows_on D w w1" "follows_on D w1 w2"
  shows "follows_on D w w2"
  unfolding follows_on_def
proof (intro allI impI)
  fix c2 assume "composition w2 = Some c2"
  with assms(2) consider c1 where "composition w1 = Some c1" "comp_document c1 = comp_document c2" "unlocked c1 \<longrightarrow> unlocked c2"
    | "comp_document c2 = D" "unlocked c2" unfolding follows_on_def by blast
  then show "(\<exists>c. composition w = Some c \<and> comp_document c = comp_document c2 \<and> (unlocked c \<longrightarrow> unlocked c2)) \<or>
    comp_document c2 = D \<and> unlocked c2"
  proof cases
    case (1 c1)
    with assms(1) show ?thesis unfolding follows_on_def by metis
  qed simp
qed

lemma keepsD: "keeps D m \<Longrightarrow> follows_on D w (snd (m w))"
  by (simp add: keeps_def)

lemma keeps_bind [keeps_intros]:
  assumes m: "keeps D m" and f: "\<And>x. keeps D (f x)"
  shows "keeps D (bindC m f)"
  unfolding keeps_def
proof
  fix w
  obtain r w1 where r: "m w = (r, w1)" by (cases "m w") simp
  have 1: "follows_on D w w1" using keepsD [OF m, of w] r by simp
  then show "follows_on D w (snd (bindC m f w))"
    using r follows_trans [OF 1 keepsD [OF f]] by (cases r) (simp_all add: bindC_def)
qed

lemma keeps_then [keeps_intros]: "keeps D m \<Longrightarrow> keeps D n \<Longrightarrow> keeps D (thenC m n)"
  unfolding thenC_def by (rule keeps_bind)

lemma keeps_ret [keeps_intros]: "keeps D (ret x)"
  by (simp add: keeps_def ret_def)

lemma keeps_getC [keeps_intros]: "keeps D (getC f)"
  by (simp add: keeps_def getC_def)

lemma keeps_evalC [keeps_intros]: "keeps D (evalC f)"
  by (simp add: keeps_def evalC_def)

lemma keeps_modC: "(\<And>w. follows_on D w (f w)) \<Longrightarrow> keeps D (modC f)"
  by (simp add: keeps_def modC_def)

lemma keeps_frame: "(\<And>w. composition (f w) = composition w) \<Longrightarrow> keeps D (modC f)"
  by (rule keeps_modC) (simp add: follows_same)

lemma keeps_close [keeps_intros]: "keeps D (modC (\<lambda>w. w\<lparr>composition := None\<rparr>))"
  by (rule keeps_modC) simp

lemma keeps_whenC [keeps_intros]: "keeps D m \<Longrightarrow> keeps D (whenC b m)"
  by (simp add: whenC_def keeps_ret)

lemma keeps_catchC [keeps_intros]: "keeps D m \<Longrightarrow> keeps D (catchC m)"
  by (simp add: keeps_def catchC_def)

lemma keeps_option [keeps_intros]:
  "keeps D m \<Longrightarrow> (\<And>y. keeps D (f y)) \<Longrightarrow> keeps D (case x of None \<Rightarrow> m | Some y \<Rightarrow> f y)"
  by (cases x) simp_all

lemma keeps_if [keeps_intros]: "keeps D m \<Longrightarrow> keeps D n \<Longrightarrow> keeps D (if b then m else n)"
  by simp

lemma keeps_upd_comp: "(\<And>c. comp_document (f c) = comp_document c) \<Longrightarrow> (\<And>c. comp_candidates (f c) = comp_candidates c) \<Longrightarrow>
    keeps D (modC (upd_comp f))"
  by (rule keeps_modC) (auto simp: follows_on_def upd_comp_def unlocked_def)

lemma keeps_upd_buf [keeps_intros]: "keeps D (modC (upd_buf f))"
  unfolding upd_buf_def by (rule keeps_upd_comp) simp_all

lemma keeps_host_does [keeps_intros]: "keeps D (host_does c)"
  unfolding host_does_def by (rule keeps_frame) simp

lemma keeps_upd_segment [keeps_intros]: "keeps D (upd_segment i f)"
  unfolding upd_segment_def by (rule keeps_frame) simp

lemma keeps_send [keeps_intros]: "keeps D (send_conversion r c)"
  by (simp add: keeps_def send_conversion_def follows_same)

lemma keeps_forget [keeps_intros]: "keeps D (modC (forget d))"
  by (rule keeps_frame) (simp add: forget_def)

lemma keeps_conversions [keeps_intros]: "keeps D (modC (\<lambda>w. w\<lparr>conversions := f (conversions w)\<rparr>))"
  by (rule keeps_frame) simp

lemma keeps_segments [keeps_intros]: "keeps D (modC (\<lambda>w. w\<lparr>segments := f (segments w)\<rparr>))"
  by (rule keeps_frame) simp

lemma keeps_request [keeps_intros]: "keeps D request_conversion"
  unfolding request_conversion_def by (intro keeps_intros keeps_upd_comp) simp_all

lemma keeps_convert [keeps_intros]: "keeps D (convert i)"
  unfolding convert_def by (intro keeps_intros)

lemma keeps_render_now [keeps_intros]: "keeps D (render_now E)"
  unfolding render_now_def by (intro keeps_intros)

section \<open>Edits\<close>

lemma keeps_apply_conversion [keeps_intros]: "keeps D (apply_conversion E request s converted)"
  unfolding keeps_def
proof
  fix w
  show "follows_on D w (snd (apply_conversion E request s converted w))"
  proof (cases "composition w")
    case (Some c)
    define r where "r = merge_conversion (comp_buf c) s (req_snapshot request) converted (lock_entry (comp_candidates c))"
    define c1 where "c1 = c\<lparr>comp_buf := fst r\<rparr>"
    define c2 where "c2 = (case held (snd r) of Some (req, out) \<Rightarrow> c1\<lparr>comp_candidates := lock_hold s req out (comp_candidates c1)\<rparr> | None \<Rightarrow> c1)"
    define c3 where "c3 = (if req_revision request = revision (comp_buf c2) then c2\<lparr>comp_converted := Some (req_revision request)\<rparr> else c2)"
    have lock: "lock_entry (lock_hold s req out l) = lock_entry l" for req out l
      by (auto simp: lock_hold_def split: option.split)
    have c2: "comp_document c2 = comp_document c" "unlocked c \<longrightarrow> unlocked c2"
      by (auto simp: c2_def c1_def unlocked_def lock split: option.split)
    then have "comp_document c3 = comp_document c" "unlocked c \<longrightarrow> unlocked c3" by (simp_all add: c3_def unlocked_def)
    then have 1: "follows_on D w (w\<lparr>composition := Some c3\<rparr>)" using Some by (simp add: follows_on_def)
    have eq: "snd (apply_conversion E request s converted w) =
        snd (whenC (changed (snd r)) (render_now E) (w\<lparr>composition := Some c3\<rparr>))"
      unfolding apply_conversion_def run_simps(1) Some option.case Let_def run_simps(2) c3_def c2_def c1_def r_def by (rule refl)
    show ?thesis unfolding eq
      by (rule follows_trans [OF 1 keepsD [OF keeps_whenC [OF keeps_render_now]]])
  qed (simp add: apply_conversion_def bindC_def getC_def ret_def)
qed

lemma keeps_write_finished_loop [keeps_intros]: "keeps D (write_finished_loop E H d left i waiting)"
proof (induction left arbitrary: i waiting)
  case (Suc left)
  then show ?case unfolding write_finished_loop.simps write_segment_def Let_def by (intro keeps_intros)
qed (simp add: keeps_ret)

text \<open>An edit runner, inside an edit or outside, keeps the composition if the edits do.\<close>

definition keeping :: "document_id \<Rightarrow> run_edit_fn \<Rightarrow> bool" where
  "keeping D re \<longleftrightarrow> (\<forall>d e. keeps D (re d e))"

lemma keeping_run: "keeping D re \<Longrightarrow> keeps D (re d e)"
  by (simp add: keeping_def)

lemma keeps_run [keeps_intros]: "keeping D re \<Longrightarrow> keeps D (run re e)"
  unfolding run_def by (intro keeps_intros keeping_run [of D re])

lemma keeps_write_when [keeps_intros]: "keeping D re \<Longrightarrow> keeps D (write_when_possible re d)"
  unfolding write_when_possible_def by (intro keeps_intros keeping_run [of D re])

lemma keeps_write_if [keeps_intros]: "keeping D re \<Longrightarrow> keeps D (write_if_finished re i)"
  unfolding write_if_finished_def by (intro keeps_intros)

lemma keeps_context_at_caret [keeps_intros]: "keeps D (context_at_caret E H d)"
  unfolding context_at_caret_def by (intro keeps_intros)

lemma keeps_sealed [keeps_intros]:
  assumes "keeping D re"
  shows "keeps D (sealed_context_ready re e p)" "keeps D (sealed_placed re e)" "keeps D (sealed_on_conversion re e s rq c)"
    "keeps D (erase_at_caret_sealed re H d)"
    "keeps D (sealed_add re E e d b pc fl)"
  unfolding sealed_context_ready_def sealed_placed_def sealed_on_conversion_def erase_at_caret_sealed_def
    sealed_add_def
  by (intro keeps_intros assms)+

lemma keeps_exec_edit [keeps_intros]:
  assumes "keeping D re"
  shows "keeps D (exec_edit re E H e)"
proof -
  note defs = exec_edit.simps exec_open_def context_ready_def exec_show_def exec_apply_def exec_local_def
    exec_backspace_def write_finished_def exec_insert_def exec_recheck_def Let_def
  show ?thesis
    by (cases e; simp only: defs; (intro keeps_intros assms keeps_upd_comp)?; simp?)
qed

lemma keeping_nested: "keeping D (nested_run_edit H)"
  unfolding keeping_def nested_run_edit_def
  by (intro allI keeps_intros keeps_frame) (simp add: enqueue_def)

lemma keeps_run_queued: "keeps D (run_queued E H d fuel)"
proof (induction fuel)
  case (Suc fuel)
  have "keeps D (case q of [] \<Rightarrow> ret () | e # es \<Rightarrow>
      thenC (modC (\<lambda>w. w\<lparr>queued_edits := (queued_edits w)(d := es)\<rparr>))
      (thenC (catchC (exec_edit (nested_run_edit H) E H e)) (run_queued E H d fuel)))" for q
    by (cases q; simp; intro keeps_intros keeping_nested Suc keeps_frame; simp)
  then show ?case unfolding run_queued.simps by (intro keeps_intros)
qed (simp add: keeps_ret)

lemma keeps_run_edits [keeps_intros]: "keeps D (run_edits E H d)"
  unfolding run_edits_def by (intro keeps_intros keeps_run_queued keeps_frame) simp_all

lemma keeping_run_edit [keeps_intros]: "keeping D (run_edit E H)"
  unfolding keeping_def run_edit_def
  by (intro allI keeps_intros keeps_frame) (simp add: enqueue_def)

section \<open>Keys\<close>

lemma keeps_update [keeps_intros]: "keeps D (update (run_edit E H) E)"
  unfolding update_def discard_def show_comp_def by (intro keeps_intros)

lemma keeps_open [keeps_intros]: "keeps D (open_comp (run_edit E H) D prefill)"
  unfolding keeps_def
proof
  fix w
  have new: "keeps D (thenC (modC (\<lambda>w. w\<lparr>next_epoch := e + 1, composition := Some (new_composition e D (immediate_conversion w))\<rparr>))
      (thenC (run (run_edit E H) (Open_edit D e prefill)) (getC (\<lambda>w. composition w \<noteq> None))))" for e
    by (intro keeps_intros keeps_modC)
      (simp add: follows_on_def new_composition_def unlocked_def new_lock_def)
  show "follows_on D w (snd (open_comp (run_edit E H) D prefill w))"
    unfolding open_comp_def by (intro keepsD keeps_intros new)
qed

lemma keeps_seal [keeps_intros]: "keeps D (seal (run_edit E H) E)"
  unfolding keeps_def
proof
  fix w
  show "follows_on D w (snd (seal (run_edit E H) E w))"
  proof (cases "composition w")
    case (Some c0)
    define frozen where "frozen = fst (freeze_readings (comp_buf c0))"
    define c where "c = c0\<lparr>comp_buf := snd (freeze_readings (comp_buf c0))\<rparr>"
    define rest where "rest = (if settled c then commit (run_edit E H) E
      else bindC (getC (\<lambda>w. in_flight_for w frozen c)) (\<lambda>in_flight.
        thenC (modC (\<lambda>w. w\<lparr>composition := None\<rparr>))
        (thenC (sealed_add (run_edit E H) E (comp_epoch c) (comp_document c) (comp_buf c) (comp_preceding c) in_flight)
          (run (run_edit E H) (Seal_edit (comp_document c) (comp_epoch c))))))"
    have 1: "follows_on D w (w\<lparr>composition := Some c\<rparr>)" using Some by (simp add: follows_on_def c_def unlocked_def)
    have "keeps D rest" unfolding rest_def commit_def by (intro keeps_intros)
    note 2 = keepsD [OF this, of "w\<lparr>composition := Some c\<rparr>"]
    have eq: "seal (run_edit E H) E w = rest (w\<lparr>composition := Some c\<rparr>)"
      unfolding seal_def run_simps(1) Some option.case Let_def run_simps(2) rest_def c_def frozen_def by (rule refl)
    show ?thesis unfolding eq by (rule follows_trans [OF 1 2])
  qed (simp add: seal_def bindC_def getC_def ret_def)
qed

lemma keeps_handle:
  assumes "ev \<in> {Type_reading D c, Type_text D s, Discard_reading D, Backspace D, Move_caret D fw te, Enter D, Escape D,
    Backspace_in_order D, Select_candidate i k, Candidate_finalized D, Seal_open, Insert_text D s, Recheck_commit D s n}"
  shows "keeps D (handle E H ev)"
proof -
  note defs = handle.simps type_reading_def type_text_def discard_reading_def backspace_def move_caret_def enter_def escape_def
    backspace_in_order_def ctrl_select_candidate_def candidate_finalized_def insert_text_def commit_def discard_def show_comp_def
  show ?thesis using assms
    by (elim insertE emptyE; simp only: defs; intro keeps_intros)
qed

text \<open>Closing the list unlocks, and nothing that follows locks again or moves to another document.\<close>

lemma closed_run:
  assumes "composition (snd (handle E H (Candidates_closed d) w)) = Some c" "\<forall>c. composition w = Some c \<longrightarrow> comp_document c = d"
  shows "unlocked c \<and> comp_document c = d"
proof (cases "composition w")
  case None
  then show ?thesis using assms(1) by (simp add: candidates_closed_def bindC_def getC_def live_def ret_def)
next
  case (Some c0)
  then have live: "live w d = Some c0" using assms(2) by (simp add: live_def)
  let ?w = "upd_comp (\<lambda>c. c\<lparr>comp_candidates := snd (lock_close (comp_candidates c))\<rparr>) w"
  let ?rest = "case fst (lock_close (comp_candidates c0)) of
      None \<Rightarrow> ret ()
    | Some (s, requested, converted) \<Rightarrow>
        (let r = merge_conversion (comp_buf c0) s [requested] [converted] None in
         thenC (modC (upd_buf (\<lambda>_. fst r))) (whenC (changed (snd r)) (show_comp (run_edit E H) E)))"
  have "keeps d ?rest"
    unfolding Let_def show_comp_def by (cases "fst (lock_close (comp_candidates c0))"; simp add: case_prod_unfold; intro keeps_intros)
  note rest = keepsD [OF this, of ?w]
  have "snd (handle E H (Candidates_closed d) w) = snd (?rest ?w)"
    unfolding handle.simps candidates_closed_def run_simps(1) live option.case run_simps(2) by (rule refl)
  then have "composition (snd (?rest ?w)) = Some c" using assms(1) by simp
  moreover have "\<forall>c'. composition ?w = Some c' \<longrightarrow> unlocked c' \<and> comp_document c' = d"
    using Some assms(2) by (simp add: upd_comp_def unlocked_def lock_close_def)
  moreover have "(\<exists>c1. composition ?w = Some c1 \<and> comp_document c1 = comp_document c \<and> (unlocked c1 \<longrightarrow> unlocked c)) \<or>
      comp_document c = d \<and> unlocked c"
    using rest calculation(1) unfolding follows_on_def by blast
  ultimately show ?thesis by auto
qed

lemmas closed_unlocks = closed_run [THEN conjunct1]
lemmas closed_stays = closed_run [THEN conjunct2]

text \<open>Sealing leaves nothing open.\<close>

lemma keeps_nothing:
  assumes "\<And>D. keeps D m" "composition w = None"
  shows "composition (snd (m w)) = None"
proof (rule ccontr)
  assume "composition (snd (m w)) \<noteq> None"
  then obtain c where c: "composition (snd (m w)) = Some c" by blast
  have "comp_document c = D" for D
    using keepsD [OF assms(1), of D w] c assms(2) by (auto simp: follows_on_def)
  from this [of "comp_document c + 1"] show False by simp
qed

lemma sealed_nothing_open:
  assumes "handle E H Seal_open w = (Inr (), w')"
  shows "composition w' = None"
proof (cases "composition w")
  case None
  then show ?thesis using assms by (simp add: seal_def bindC_def getC_def ret_def)
next
  case (Some c0)
  define c where "c = c0\<lparr>comp_buf := snd (freeze_readings (comp_buf c0))\<rparr>"
  let ?w = "w\<lparr>composition := Some c\<rparr>"
  have seal: "handle E H Seal_open w = (if settled c then commit (run_edit E H) E ?w
      else bindC (getC (\<lambda>w. in_flight_for w (fst (freeze_readings (comp_buf c0))) c)) (\<lambda>in_flight.
        thenC (modC (\<lambda>w. w\<lparr>composition := None\<rparr>))
        (thenC (sealed_add (run_edit E H) E (comp_epoch c) (comp_document c) (comp_buf c) (comp_preceding c) in_flight)
          (run (run_edit E H) (Seal_edit (comp_document c) (comp_epoch c))))) ?w)"
    unfolding handle.simps seal_def run_simps(1) Some option.case Let_def run_simps(2) c_def by simp
  show ?thesis
  proof (cases "settled c")
    case True
    have commit: "commit (run_edit E H) E ?w = bindC (evalC (\<lambda>_. training_sample E (comp_buf c)
        (case comp_preceding c of None \<Rightarrow> [] | Some p \<Rightarrow> p))) (\<lambda>sample.
          thenC (modC (\<lambda>w. w\<lparr>composition := None\<rparr>)) (run (run_edit E H) (Commit_edit (comp_document c) (comp_epoch c) sample))) ?w"
      by (simp add: commit_def bindC_def getC_def)
    then obtain sample where "training_sample E (comp_buf c) (case comp_preceding c of None \<Rightarrow> [] | Some p \<Rightarrow> p) = Inr sample"
      using assms seal True by (cases "training_sample E (comp_buf c) (case comp_preceding c of None \<Rightarrow> [] | Some p \<Rightarrow> p)")
        (simp_all add: bindC_def evalC_def)
    then have "w' = snd (run (run_edit E H) (Commit_edit (comp_document c) (comp_epoch c) sample) (?w\<lparr>composition := None\<rparr>))"
      using assms seal True commit by (simp add: run_simps) (metis snd_conv)
    then show ?thesis using keeps_nothing [of "run (run_edit E H) (Commit_edit (comp_document c) (comp_epoch c) sample)"]
      by (simp add: keeps_run keeping_run_edit)
  next
    case False
    let ?rest = "thenC (sealed_add (run_edit E H) E (comp_epoch c) (comp_document c) (comp_buf c) (comp_preceding c)
        (in_flight_for ?w (fst (freeze_readings (comp_buf c0))) c)) (run (run_edit E H) (Seal_edit (comp_document c) (comp_epoch c)))"
    have "keeps D ?rest" for D by (intro keeps_intros)
    from keeps_nothing [of ?rest, OF this]
    have "composition (snd (?rest (?w\<lparr>composition := None\<rparr>))) = None" by simp
    then show ?thesis using assms seal False by (simp add: run_simps) (metis snd_conv)
  qed
qed

end
