(* ===== verification/Key_Properties.thy ===== *)
theory Key_Properties
  imports Key_Router
begin

text \<open>
  What the router promises: keys with Alt belong to the system, keys that edit a composition are only
  taken while there is one, English is typed as it is, a reading key types its own symbol, and Shift
  alone, however often repeated, is what a tap is.
\<close>

text \<open>\<open>TextService\<close> asks for a key's text only if \<open>printable\<close> holds.\<close>

definition press_ok :: "key_press \<Rightarrow> bool" where
  "press_ok p \<longleftrightarrow> (typed p \<noteq> None \<longrightarrow> printable (key p) (modifiers_of p))"

definition english_now :: "key_press \<Rightarrow> key_context \<Rightarrow> bool" where
  "english_now p c \<longleftrightarrow> mode c = English \<or> shift (modifiers_of p)"

definition toggles_width :: "key_press \<Rightarrow> key_context \<Rightarrow> bool" where
  "toggles_width p c \<longleftrightarrow>
     width_toggle_enabled c \<and> key p = VK_SPACE \<and> shift (modifiers_of p) \<and> \<not> ctrl (modifiers_of p) \<and> \<not> alt (modifiers_of p)"

definition plain_press :: "u64 \<Rightarrow> u16string option \<Rightarrow> key_press" where
  "plain_press k s = \<lparr>key = k, modifiers_of = \<lparr>shift = False, ctrl = False, alt = False\<rparr>, repeated = False, typed = s\<rparr>"

definition idle_context :: "input_mode \<Rightarrow> bool \<Rightarrow> key_context" where
  "idle_context m composing_now =
     \<lparr>mode = m, composing = composing_now, reading_complete = False, candidates_open = False, candidates_take_key = False,
      document_behind = False, full_width = False, width_toggle_enabled = False, backtick_prefix = False\<rparr>"

lemmas press_defs = plain_press_def idle_context_def

text \<open>A key held with Alt is never taken from the system or the application, whatever the input method
  is doing.\<close>

theorem alt_keys_pass:
  assumes "press_ok p" "alt (modifiers_of p)" "\<not> is_shift (key p)"
  shows "route p c = Pass_through"
proof -
  have "typed p = None" using assms(1,2) by (auto simp: press_ok_def printable_def)
  moreover have "route_command p c = Pass_through" using assms(2) by (simp add: route_command_modified)
  ultimately show ?thesis
    using assms(2,3) ctrl_punctuation_plain [of "modifiers_of p" "key p"] backtick_punctuation_alt [of "modifiers_of p" "key p"]
    by (simp add: route_def route_text_def plain_def Let_def)
qed

lemma alt_keys_pass_witness:
  "route \<lparr>key = VK_TAB, modifiers_of = \<lparr>shift = False, ctrl = False, alt = True\<rparr>, repeated = False, typed = None\<rparr>
     (idle_context Chinese True) = Pass_through"
  by (rule alt_keys_pass) (simp_all add: press_ok_def is_shift_def)

text \<open>Every key action that works on a composition is only decided while there is one.\<close>

theorem composition_keys_need_composition:
  assumes "edits_composition (route p c)"
  shows "composing c"
  using assms route_command_composing [of p c] route_text_composing [of p c]
  by (auto simp: route_def Let_def edits_composition_def split: if_splits option.splits)

lemma composition_keys_need_composition_witness:
  "edits_composition (route (plain_press VK_BACK None) (idle_context Chinese True)) \<and> composing (idle_context Chinese True)"
proof -
  have "route (plain_press VK_BACK None) (idle_context Chinese True) = Backspace_action"
    by (simp add: route_def press_defs is_shift_def plain_def ctrl_punctuation_def route_text_def Let_def
        route_command_def is_modifier_def composing_key_def eaten_def)
  then have e: "edits_composition (route (plain_press VK_BACK None) (idle_context Chinese True))"
    by (simp add: edits_composition_def)
  show ?thesis using e composition_keys_need_composition [OF e] by blast
qed

text \<open>A key typed as a reading is typed without modifiers and stands for exactly the symbol the
  layout puts on it.\<close>

theorem reading_is_on_its_key:
  assumes "route p c = Reading s"
  shows "lookup (ucast (key p)) = Some s \<and> \<not> shift (modifiers_of p) \<and> \<not> ctrl (modifiers_of p) \<and> \<not> alt (modifiers_of p)"
proof -
  have cmd: "route_command p c = Reading s"
    using assms route_text_reading [of p c] by (auto simp: route_def Let_def split: if_splits option.splits)
  then have "\<not> shift (modifiers_of p) \<and> \<not> ctrl (modifiers_of p) \<and> \<not> alt (modifiers_of p)"
    by (auto simp: route_command_def composing_key_def reading_of_def Let_def layout_defs lookup_def split: if_splits)
  with route_command_reading [OF cmd] show ?thesis by (simp add: reading_of_def)
qed

lemma reading_is_on_its_key_witness:
  "route (plain_press 0x41 (Some [0x61])) (idle_context Chinese False) = Reading 0x3107 \<and> lookup 0x41 = Some 0x3107"
proof -
  have r: "route (plain_press 0x41 (Some [0x61])) (idle_context Chinese False) = Reading 0x3107"
    by (simp add: route_def press_defs is_shift_def plain_def ctrl_punctuation_def route_text_def Let_def
        route_command_def is_modifier_def reading_of_def lookup_def vkToBopomofo_def)
  from reading_is_on_its_key [OF r] r show ?thesis by (simp add: press_defs)
qed

text \<open>English outside a composition is typed straight into the document: a printable key gives the
  text of the layout, in the width that is on.\<close>

theorem english_is_typed:
  assumes "press_ok p" "typed p = Some s" "english_now p c" "\<not> composing c" "\<not> toggles_width p c"
  shows "route p c = Insert (width c s)"
proof -
  have pr: "printable (key p) (modifiers_of p)" using assms(1,2) by (simp add: press_ok_def)
  then have "\<not> is_shift (key p)" "key p \<noteq> VK_BACK" "\<not> ctrl (modifiers_of p)"
    by (auto simp: printable_def is_modifier_def)
  then show ?thesis
    using assms(2-5) ctrl_punctuation_plain [of "modifiers_of p" "key p"]
    by (auto simp: route_def english_now_def toggles_width_def route_text_def Let_def)
qed

lemma english_is_typed_witness:
  "route (plain_press 0x41 (Some [0x61])) (idle_context English False) = Insert [0x61]"
  using english_is_typed [of "plain_press 0x41 (Some [0x61])" "[0x61]" "idle_context English False"]
  by (simp add: press_defs press_ok_def printable_def is_modifier_def is_shift_def english_now_def toggles_width_def width_def)

text \<open>Full width is total and stable: no printable ASCII character is left, the length stays, and
  widening again changes nothing.\<close>

theorem full_width_total:
  "length (to_full_width s) = length s \<and> to_full_width (to_full_width s) = to_full_width s \<and>
   \<not> (\<exists>ch \<in> set (to_full_width s). 0x20 \<le> ch \<and> ch \<le> 0x7E)"
  using full_width_char_not_ascii by (auto simp: to_full_width_def full_width_char_idem)

section \<open>The Shift tap\<close>

text \<open>The state after a row of keys, each handled as it is routed in its context.\<close>

definition after_keys :: "(key_press \<times> key_context) list \<Rightarrow> key_state" where
  "after_keys ks = foldl (\<lambda>s (p, c). handled p (route p c) s) new_key_state ks"

lemma route_shift: "route p c = Shift_down \<longleftrightarrow> is_shift (key p)"
proof (cases "is_shift (key p)")
  case False
  define e where "e \<longleftrightarrow> mode c = English \<or> shift (modifiers_of p)"
  have not_text: "\<And>a. route_text p c b = Some a \<Longrightarrow> a \<noteq> Shift_down" for b
    by (auto simp: route_text_def split: option.splits if_splits)
  have either: "x \<noteq> Shift_down \<Longrightarrow> y \<noteq> Shift_down \<Longrightarrow> (if b then x else y) \<noteq> Shift_down" for b x y
    by simp
  have "composing_key p c \<noteq> Shift_down" unfolding composing_key_def by (intro either) simp_all
  then have not_command: "route_command p c \<noteq> Shift_down"
    unfolding route_command_def Let_def by (intro either) simp_all
  have rest: "(case route_text p c b of None \<Rightarrow> if q then Insert x else route_command p c | Some a \<Rightarrow> a) \<noteq> Shift_down"
    for b q x
    using not_text [of b] not_command by (cases "route_text p c b") simp_all
  show ?thesis
    using False rest
    unfolding route_def Let_def e_def [symmetric]
    by (cases "ctrl_punctuation (key p) (modifiers_of p)"; cases "backtick_punctuation (key p) (modifiers_of p)"; cases e)
      simp_all
qed (simp add: route_def Let_def)

lemma after_keys_snoc: "after_keys (ks @ [(p, c)]) = handled p (route p c) (after_keys ks)"
  by (simp add: after_keys_def)

lemma shift_alone_handled:
  "shift_alone (handled p (route p c) s) \<longleftrightarrow>
     (if is_shift (key p) then \<not> repeated p \<or> shift_alone s
      else \<not> shift (modifiers_of p) \<and> shift_alone s)"
  by (auto simp: handled_def observe_def route_shift is_modifier_def Let_def)

text \<open>Releasing Shift switches the input mode exactly when Shift was pressed afresh and no other key
  has been pressed with it since; holding Shift down repeats it without spoiling the tap.\<close>

theorem shift_tap:
  "fst (shift_released (after_keys ks)) \<longleftrightarrow>
     (\<exists>before p c since. ks = before @ (p, c) # since \<and> is_shift (key p) \<and> \<not> repeated p \<and>
        (\<forall>(q, d) \<in> set since. shift (modifiers_of q) \<longrightarrow> is_shift (key q)))"
    (is "?l ks \<longleftrightarrow> ?r ks")
proof (induction ks rule: rev_induct)
  case Nil
  then show ?case by (simp add: after_keys_def shift_released_def new_key_state_def)
next
  case (snoc k ks)
  obtain p c where k: "k = (p, c)" by (cases k)
  have split: "?r (ks @ [k]) \<longleftrightarrow>
      is_shift (key p) \<and> \<not> repeated p \<or> ?r ks \<and> (shift (modifiers_of p) \<longrightarrow> is_shift (key p))"
  proof
    assume "?r (ks @ [k])"
    then obtain bef q d since where r: "ks @ [k] = bef @ (q, d) # since" "is_shift (key q)" "\<not> repeated q"
      "\<forall>(q, d) \<in> set since. shift (modifiers_of q) \<longrightarrow> is_shift (key q)" by blast
    show "is_shift (key p) \<and> \<not> repeated p \<or> ?r ks \<and> (shift (modifiers_of p) \<longrightarrow> is_shift (key p))"
    proof (cases since rule: rev_cases)
      case Nil
      with r k show ?thesis by simp
    next
      case (snoc since' k')
      with r(1) have "k' = k" "ks = bef @ (q, d) # since'" by simp_all
      with r(2-4) snoc k show ?thesis by fastforce
    qed
  next
    assume "is_shift (key p) \<and> \<not> repeated p \<or> ?r ks \<and> (shift (modifiers_of p) \<longrightarrow> is_shift (key p))"
    then show "?r (ks @ [k])"
    proof
      assume "is_shift (key p) \<and> \<not> repeated p"
      then show ?thesis using k by (intro exI [of _ ks] exI [of _ p] exI [of _ c] exI [of _ "[]"]) simp
    next
      assume h: "?r ks \<and> (shift (modifiers_of p) \<longrightarrow> is_shift (key p))"
      then obtain bef q d since where "ks = bef @ (q, d) # since" "is_shift (key q)" "\<not> repeated q"
        "\<forall>(q, d) \<in> set since. shift (modifiers_of q) \<longrightarrow> is_shift (key q)" by blast
      with h k show ?thesis
        by (intro exI [of _ bef] exI [of _ q] exI [of _ d] exI [of _ "since @ [k]"]) auto
    qed
  qed
  have "?l (ks @ [k]) \<longleftrightarrow> is_shift (key p) \<and> \<not> repeated p \<or> ?l ks \<and> (shift (modifiers_of p) \<longrightarrow> is_shift (key p))"
    using shift_alone_handled [of p c "after_keys ks"] by (auto simp: k after_keys_snoc shift_released_def)
  with snoc split show ?case by blast
qed

lemma shift_tap_witness:
  "fst (shift_released (after_keys [(plain_press 0x41 None, idle_context English False), (plain_press VK_SHIFT None, idle_context English False)]))"
  by (rule shift_tap [THEN iffD2])
    (intro exI [of _ "[(plain_press 0x41 None, idle_context English False)]"] exI [of _ "plain_press VK_SHIFT None"]
       exI [of _ "idle_context English False"] exI [of _ "[]"], simp add: press_defs is_shift_def)

end
