(* ===== verification/Text_Service_Properties.thy ===== *)
theory Text_Service_Properties
  imports Text_Service_Steps Controller_Documents Key_Properties
begin

text \<open>
  What the text service promises for a key: it is handled without an exception, it is taken from the
  application exactly when the test announced it, and afterwards the composition, if there is one, is in the
  document of the key and locked only while its list is shown.
\<close>

section \<open>The text service as a transition system\<close>

datatype service_event =
    Test_key_down document_id key_press
  | Key_down document_id key_press
  | Key_up document_id u64
  | Settings bool bool
  | Focus_gained bool bool
  | Focus_lost
  | Mode_told input_mode
  | Elsewhere event

text \<open>The handlers catch every exception; what they did before it stays.\<close>

fun service_handle :: "env \<Rightarrow> host \<Rightarrow> host_now \<Rightarrow> service_event \<Rightarrow> unit tctl" where
  "service_handle E H N (Test_key_down d p) = catchC (bindC (on_test_key_down N d p) (\<lambda>_. ret ()))"
| "service_handle E H N (Key_down d p) = catchC (bindC (on_key_down E H N d p) (\<lambda>_. ret ()))"
| "service_handle E H N (Key_up d k) = catchC (bindC (on_key_up E H N d k) (\<lambda>_. ret ()))"
| "service_handle E H N (Settings immediate enabled) = refresh_input_settings E H N immediate enabled"
| "service_handle E H N (Focus_gained immediate enabled) =
     thenC (refresh_input_settings E H N immediate enabled) (bindC (refresh_input_mode_indicator True) (\<lambda>_. ret ()))"
| "service_handle E H N Focus_lost = modC forget_recent_commit"
| "service_handle E H N (Mode_told m) =
     thenC (modC (\<lambda>t. t\<lparr>ts_mode := m\<rparr>)) (bindC (refresh_input_mode_indicator False) (\<lambda>_. ret ()))"
| "service_handle E H N (Elsewhere ev) = control E H N ev"

fun service_event_ok :: "env \<Rightarrow> service_event \<Rightarrow> bool" where
  "service_event_ok E (Test_key_down d p) = press_text_ok E p"
| "service_event_ok E (Key_down d p) = press_text_ok E p"
| "service_event_ok E (Elsewhere ev) = event_ok E ev"
| "service_event_ok E _ = True"

inductive service_reachable :: "env \<Rightarrow> host \<Rightarrow> text_service \<Rightarrow> bool" for E :: env and H :: host where
  service_start: "service_reachable E H new_service"
| service_step: "service_reachable E H t \<Longrightarrow> service_event_ok E ev \<Longrightarrow> service_handle E H N ev t = (r, t') \<Longrightarrow>
    service_reachable E H t'"

definition full_inv :: "env \<Rightarrow> host \<Rightarrow> text_service \<Rightarrow> bool" where
  "full_inv E H t \<longleftrightarrow> service_inv E H t \<and> tested_ok E t"

lemma tested_ok_fields [simp]:
  "tested_ok E (t\<lparr>ts_keys := k\<rparr>) = tested_ok E t" "tested_ok E (t\<lparr>ts_requests := rs\<rparr>) = tested_ok E t"
  "tested_ok E (t\<lparr>ts_mode := m\<rparr>) = tested_ok E t" "tested_ok E (t\<lparr>ts_recent := r\<rparr>) = tested_ok E t"
  by (simp_all add: tested_ok_def)

text \<open>Properties of the state a computation keeps, whether it throws or not.\<close>

definition preserves :: "('w \<Rightarrow> bool) \<Rightarrow> ('w, 'a) ctl \<Rightarrow> bool" where
  "preserves P m \<longleftrightarrow> (\<forall>t. P t \<longrightarrow> P (snd (m t)))"

named_theorems preserves_intros \<open>computations that keep a property of the state\<close>

lemma preserves_bind [preserves_intros]: "preserves P m \<Longrightarrow> (\<And>x. preserves P (f x)) \<Longrightarrow> preserves P (bindC m f)"
  by (auto simp: preserves_def bindC_def split: prod.split sum.split)

lemma preserves_then [preserves_intros]: "preserves P m \<Longrightarrow> preserves P n \<Longrightarrow> preserves P (thenC m n)"
  unfolding thenC_def by (rule preserves_bind)

lemma preserves_basic [preserves_intros]:
  "preserves P (ret x)" "preserves P (getC f)" "preserves P (evalC g)" "preserves P m \<Longrightarrow> preserves P (whenC b m)"
  "preserves P m \<Longrightarrow> preserves P (catchC m)"
  by (simp_all add: preserves_def ret_def getC_def evalC_def whenC_def catchC_def)

lemma preserves_mod: "(\<And>t. P t \<Longrightarrow> P (f t)) \<Longrightarrow> preserves P (modC f)"
  by (simp add: preserves_def modC_def)

lemma preserves_if [preserves_intros]: "preserves P m \<Longrightarrow> preserves P n \<Longrightarrow> preserves P (if b then m else n)"
  by simp

lemma preserves_option [preserves_intros]:
  "preserves P m \<Longrightarrow> (\<And>x. preserves P (f x)) \<Longrightarrow> preserves P (case o' of None \<Rightarrow> m | Some x \<Rightarrow> f x)"
  by (cases o') simp_all

lemma preserves_pair [preserves_intros]: "(\<And>x y. preserves P (f x y)) \<Longrightarrow> preserves P (case p of (x, y) \<Rightarrow> f x y)"
  by (cases p) simp

lemma preserves_finally [preserves_intros]: "preserves P m \<Longrightarrow> preserves P n \<Longrightarrow> preserves P (finallyC m n)"
  by (auto simp: preserves_def finallyC_def split: prod.split sum.split)

text \<open>
  A property of the world and of the tested key does not see the list, the key state and the rest. So a handler
  keeps it when the events it may raise keep it.
\<close>

definition about_world :: "(text_service \<Rightarrow> bool) \<Rightarrow> bool" where
  "about_world P \<longleftrightarrow> (\<forall>t t'. ts_world t = ts_world t' \<longrightarrow> ts_tested t = ts_tested t' \<longrightarrow> P t = P t')"

lemma about_worldD: "about_world P \<Longrightarrow> P t \<Longrightarrow> ts_world t' = ts_world t \<Longrightarrow> ts_tested t' = ts_tested t \<Longrightarrow> P t'"
  unfolding about_world_def by metis

lemma preserves_rest:
  assumes "about_world P" "\<And>t. ts_world (f t) = ts_world t" "\<And>t. ts_tested (f t) = ts_tested t"
  shows "preserves P (modC f)"
  by (rule preserves_mod) (rule about_worldD [OF assms(1) _ assms(2,3)])

text \<open>What a handler needs of such a property: the events it may raise in its document \<open>d\<close> keep it.\<close>

locale kept_by_events =
  fixes P :: "text_service \<Rightarrow> bool" and E :: env and H :: host and N :: host_now and d :: document_id
  assumes rest: "about_world P"
    and keyed: "ev \<in> {Discard_reading d, Backspace d, Enter d, Escape d, Backspace_in_order d, Candidate_finalized d} \<Longrightarrow>
      preserves P (control E H N ev)"
    and typing: "preserves P (control E H N (Type_reading d c))" "preserves P (control E H N (Type_text d s))"
      "preserves P (control E H N (Insert_text d s))"
    and moving: "preserves P (control E H N (Move_caret d fw te))"
    and choosing: "preserves P (control E H N (Select_candidate i k))" "preserves P (control E H N (Candidates_opened i))"
    and rechecking: "preserves P (control E H N (Recheck_commit d s n))"
begin

lemma mod_rest: "(\<And>t. ts_world (f t) = ts_world t) \<Longrightarrow> (\<And>t. ts_tested (f t) = ts_tested t) \<Longrightarrow> preserves P (modC f)"
  by (rule preserves_rest [OF rest])

lemma keyed_events:
  "preserves P (control E H N (Discard_reading d))" "preserves P (control E H N (Backspace d))"
  "preserves P (control E H N (Enter d))" "preserves P (control E H N (Escape d))"
  "preserves P (control E H N (Backspace_in_order d))" "preserves P (control E H N (Candidate_finalized d))"
  by (rule keyed; simp)+

lemmas events = keyed_events typing moving choosing rechecking

lemma small:
  "preserves P (modC hide_list)" "preserves P (worker_asks r)" "preserves P (refresh_input_mode_indicator q)"
  "preserves P toggle_mode" "preserves P (decide q d' p)"
  unfolding worker_asks_def refresh_input_mode_indicator_def toggle_mode_def decide_def
  by (intro preserves_intros mod_rest; simp add: hide_list_def)+

lemma handlers:
  "preserves P (show_candidate_list_for_current_input E H N d)" "preserves P (list_takes_key E H N k)"
  "preserves P (discard_recent_commit E H N d)" "preserves P (perform_reading E H N d c)"
  unfolding show_candidate_list_for_current_input_def show_candidate_list_def list_takes_key_def candidate_picked_def
    discard_recent_commit_def perform_reading_def
  by (intro preserves_intros small events mod_rest; simp add: forget_recent_commit_def)+

lemma performing: "preserves P (perform n E H N d p a)"
proof (induction n arbitrary: a)
  case (Suc n)
  then show ?case
    by (cases a; simp only: perform.simps key_action.case perform_candidate_key_def after_hiding_def;
        intro preserves_intros small handlers events mod_rest; simp)
qed (simp add: preserves_basic)

lemma carrying_out: "preserves P (carry_out E H N d p a)"
  unfolding carry_out_def by (intro preserves_intros handlers performing mod_rest; simp)

end

text \<open>Only the test of a key changes what was tested, and the key takes it.\<close>

lemma tested_control: "preserves (\<lambda>t. ts_tested t = v) (control E H N ev)"
  using follow_frame(3) by (simp add: preserves_def control_def case_prod_unfold)

interpretation tested: kept_by_events "\<lambda>t. ts_tested t = v" E H N d for v E H N d
  by unfold_locales (simp_all add: about_world_def tested_control)

lemma on_key_down_accepted:
  assumes "accepts_input N"
  shows "on_key_down E H N d p t =
    thenC (leave_other_document E H N d)
      (finallyC (bindC (case ts_tested t of Some (k, a) \<Rightarrow> if k = key p then ret a else decide False d p | None \<Rightarrow> decide False d p)
          (carry_out E H N d p)) (close_list E H N d)) (t\<lparr>ts_tested := None\<rparr>)"
  unfolding on_key_down_def run_simps using assms by simp

lemma tested_after_key_down: "ts_tested (snd (on_key_down E H N d p t)) = None"
proof (cases "accepts_input N")
  case True
  have "preserves (\<lambda>t. ts_tested t = None) (thenC (leave_other_document E H N d)
      (finallyC (bindC (case ts_tested t of Some (k, a) \<Rightarrow> if k = key p then ret a else decide False d p | None \<Rightarrow> decide False d p)
          (carry_out E H N d p)) (close_list E H N d)))"
    unfolding leave_other_document_def close_list_def by (intro preserves_intros tested.carrying_out tested.small tested_control)
  then show ?thesis by (simp add: on_key_down_accepted [OF True] preserves_def)
qed (simp add: on_key_down_def run_simps ret_def)

lemma decide_run:
  "decide q d p t =
     (let t1 = (if q \<and> backend_attached (conversions (ts_world t)) then t\<lparr>ts_requests := ts_requests t @ [Ask_mode]\<rparr> else t);
          m = cached_input_mode t;
          t2 = t1\<lparr>ts_keys := mode_changed m (ts_keys t1)\<rparr>
      in (Inr (route p (key_context_for d (key p) m t2)), t2))"
  by (simp add: decide_def refresh_input_mode_indicator_def worker_asks_def bindC_def thenC_def whenC_def modC_def getC_def
      ret_def cached_input_mode_def Let_def)

lemma test_run:
  assumes "accepts_input N"
  shows "on_test_key_down N d p t =
     (case decide True d p (t\<lparr>ts_tested := None, ts_keys := observe p (ts_keys t)\<rparr>) of
        (Inr a, t') \<Rightarrow> (Inr (eaten a), t'\<lparr>ts_tested := Some (key p, a)\<rparr>)
      | (Inl e, t') \<Rightarrow> (Inl e, t'))"
  using assms by (simp add: on_test_key_down_def bindC_def thenC_def modC_def ret_def split: prod.split sum.split)

lemma tested_other:
  "preserves (\<lambda>t. ts_tested t = v) (service_handle E H N (Key_up d k))"
  "preserves (\<lambda>t. ts_tested t = v) (service_handle E H N (Settings i e))"
  "preserves (\<lambda>t. ts_tested t = v) (service_handle E H N (Focus_gained i e))"
  "preserves (\<lambda>t. ts_tested t = v) (service_handle E H N Focus_lost)"
  "preserves (\<lambda>t. ts_tested t = v) (service_handle E H N (Mode_told m))"
  "preserves (\<lambda>t. ts_tested t = v) (service_handle E H N (Elsewhere ev))"
  unfolding service_handle.simps refresh_input_settings_def on_key_up_def
  by (intro preserves_intros tested.small tested.mod_rest tested_control; simp add: forget_recent_commit_def)+

lemma service_keeps_tested:
  assumes "tested_ok E t" "service_event_ok E ev"
  shows "tested_ok E (snd (service_handle E H N ev t))"
proof (cases ev)
  case (Test_key_down d p)
  have "action_ok E a" if "ts_tested (snd (on_test_key_down N d p t)) = Some (k, a)" for k a
  proof (cases "accepts_input N")
    case True
    then show ?thesis using that assms(2) Test_key_down
      by (auto simp: test_run decide_run Let_def route_action_ok split: if_splits)
  qed (use that in \<open>simp add: on_test_key_down_def thenC_def bindC_def modC_def ret_def\<close>)
  moreover have "snd (service_handle E H N ev t) = snd (on_test_key_down N d p t)"
    unfolding Test_key_down by (simp add: catchC_def bindC_def ret_def split: prod.split sum.split)
  ultimately show ?thesis by (simp add: tested_ok_def)
next
  case (Key_down d p)
  have "snd (service_handle E H N ev t) = snd (on_key_down E H N d p t)"
    unfolding Key_down by (simp add: catchC_def bindC_def ret_def split: prod.split sum.split)
  then show ?thesis using tested_after_key_down by (simp add: tested_ok_def)
qed (use assms(1) tested_other in \<open>simp_all add: preserves_def tested_ok_def\<close>)

lemma on_key_down_full:
  assumes "env_ok E" "press_text_ok E p" "full_inv E H t"
  obtains eats t' where "on_key_down E H N d p t = (Inr eats, t')" "full_inv E H t'"
proof -
  have "service_inv E H t \<and> tested_ok E t" using assms(3) by (simp add: full_inv_def)
  with on_key_down_service [OF assms(1,2)] obtain eats t' where
    run: "on_key_down E H N d p t = (Inr eats, t')" "service_inv E H t'" by (rule ensuresD)
  then have "ts_tested t' = None" using tested_after_key_down [of E H N d p t] by simp
  then show ?thesis using that run by (simp add: full_inv_def tested_ok_def)
qed

lemma service_step_inv:
  assumes env: "env_ok E" and inv: "full_inv E H t" and ev: "service_event_ok E ev"
  shows "full_inv E H (snd (service_handle E H N ev t))"
proof -
  have t: "service_inv E H t" using inv by (simp add: full_inv_def)
  have "service_inv E H (snd (service_handle E H N ev t))"
  proof (cases ev)
    case (Key_down d p)
    then have "press_text_ok E p" using ev by simp
    from on_key_down_full [OF env this inv] obtain eats t' where
      "on_key_down E H N d p t = (Inr eats, t')" "full_inv E H t'" by blast
    then show ?thesis unfolding Key_down by (simp add: catchC_def bindC_def ret_def full_inv_def)
  next
    case (Test_key_down d p)
    have "ensures (service_inv E H) (service_handle E H N ev) (\<lambda>_. service_inv E H)"
      unfolding Test_key_down service_handle.simps
      by (intro service_intros catchC_ok ensures_bind [OF on_test_key_down_service])
    with t show ?thesis by (auto elim: ensuresD)
  next
    case (Key_up d k)
    have "ensures (service_inv E H) (service_handle E H N ev) (\<lambda>_. service_inv E H)"
      unfolding Key_up service_handle.simps by (intro service_intros catchC_ok ensures_bind [OF on_key_up_service [OF env]])
    with t show ?thesis by (auto elim: ensuresD)
  next
    case (Settings i e)
    have "ensures (service_inv E H) (refresh_input_settings E H N i e) (\<lambda>_. service_inv E H)"
      by (rule settings_service [OF env])
    with t show ?thesis unfolding Settings service_handle.simps by (auto elim: ensuresD)
  next
    case (Focus_gained i e)
    have "ensures (service_inv E H) (service_handle E H N ev) (\<lambda>_. service_inv E H)"
      unfolding Focus_gained service_handle.simps by (intro service_intros settings_service [OF env])
    with t show ?thesis by (auto elim: ensuresD)
  next
    case (Mode_told m)
    have "ensures (service_inv E H) (service_handle E H N ev) (\<lambda>_. service_inv E H)"
      unfolding Mode_told service_handle.simps by (intro service_intros mod_service) simp
    with t show ?thesis by (auto elim: ensuresD)
  next
    case (Elsewhere ev')
    then have "event_ok E ev'" using ev by simp
    then have "ensures (service_inv E H) (control E H N ev') (\<lambda>_. service_inv E H)" by (rule control_ok [OF env])
    with t show ?thesis unfolding Elsewhere service_handle.simps by (auto elim: ensuresD)
  qed (use t in \<open>simp add: modC_def forget_recent_commit_def\<close>)
  then show ?thesis using service_keeps_tested [OF _ ev] inv by (simp add: full_inv_def)
qed

lemma service_reachable_inv:
  assumes "env_ok E" "service_reachable E H t"
  shows "full_inv E H t"
  using assms(2)
proof (induction rule: service_reachable.induct)
  case service_start
  have "tested_ok E new_service" by (simp add: tested_ok_def new_service_def)
  then show ?case by (simp add: full_inv_def new_service_inv)
next
  case (service_step t ev N r t')
  then show ?case using service_step_inv [OF assms(1), of H t ev N] by simp
qed

section \<open>A key is taken as announced\<close>

lemma after_ret:
  assumes "ensures P m (\<lambda>_. P)" "Q x"
  shows "ensures P (thenC m (ret x)) (\<lambda>y _. Q y)"
  by (rule ensures_then [OF assms(1)], rule ensures_ret) (rule assms(2))

lemma perform_eats:
  assumes env: "env_ok E" and press: "press_text_ok E p" and a: "action_ok E a" "a \<noteq> Candidates" and q: "Q (eaten a)"
  shows "ensures (service_inv E H) (perform (Suc n) E H N d p a) (\<lambda>x _. Q x)"
proof -
  have ctl: "ensures (service_inv E H) (thenC (control E H N ev) (ret True)) (\<lambda>x _. Q x)" if "event_ok E ev" "Q True" for ev
    by (rule after_ret [of "service_inv E H"]) (rule control_ok [OF env that(1)], rule that(2))
  have hide: "ensures (service_inv E H) (after_hiding E H N ev) (\<lambda>x _. Q x)" if "event_ok E ev" "Q True" for ev
    unfolding after_hiding_def by (rule ensures_then [OF hide_service ctl [OF that]])
  have mod: "ensures (service_inv E H) (thenC (modC f) (ret True)) (\<lambda>x _. Q x)"
    if "\<And>t. service_inv E H t \<Longrightarrow> service_inv E H (f t)" "Q True" for f
    by (rule after_ret [of "service_inv E H"]) (rule mod_service [OF that(1)], assumption, rule that(2))
  have list: "ensures (service_inv E H) (thenC (show_candidate_list_for_current_input E H N d) (ret True)) (\<lambda>x _. Q x)" if "Q True"
    by (rule after_ret [of "service_inv E H"]) (rule show_current_service [OF env], rule that)
  note parts = ensures_then [OF hide_service] ensures_then [OF control_ok [OF env]]
    ensures_then [OF when_service [OF worker_asks_service]]
  show ?thesis
    using a q by (cases a) (auto simp: eaten_def text_ok_def perform_reading_def intro!: hide mod list ctl parts ensures_ret)
qed

end
