(* ===== verification/Text_Service_Keys.thy ===== *)
theory Text_Service_Keys
  imports Text_Service_Properties Controller_Properties
begin

text \<open>
  The keys of the text service: a key is taken from the application exactly when its test announced it, and
  afterwards the composition is in the document of the key and is locked only while its list is shown.
\<close>

section \<open>A key the list took in the test\<close>

lemma test_decides:
  assumes "accepts_input N" "on_test_key_down N d p t = (r, t1)"
  obtains a where "r = Inr (eaten a)" "ts_tested t1 = Some (key p, a)"
    "a = route p (key_context_for d (key p) (cached_input_mode t1) t1)"
proof -
  have "r = Inr (eaten (route p (key_context_for d (key p) (cached_input_mode t1) t1)))
      \<and> ts_tested t1 = Some (key p, route p (key_context_for d (key p) (cached_input_mode t1) t1))"
    using assms(2) by (auto simp: test_run [OF assms(1)] decide_run Let_def key_context_for_def cached_input_mode_def)
  then show ?thesis using that by blast
qed

definition numpad_types :: "key_press \<Rightarrow> bool" where
  "numpad_types p \<longleftrightarrow> (0x61 \<le> key p \<and> key p \<le> 0x69 \<longrightarrow> typed p \<noteq> None)"

lemma route_command_list:
  "route_command p c = Candidates \<Longrightarrow> composing c \<and> candidates_open c \<and> candidates_take_key c"
  by (auto simp: route_command_def composing_key_def Let_def split: if_splits)

lemma route_text_list: "route_text p c english \<noteq> Some Candidates"
  by (auto simp: route_text_def split: option.splits)

lemma last_branch:
  assumes "(if A then x1 else if B then x2 else if C then (if D then x3 else x4) else if F then x5
    else case o1 of Some s \<Rightarrow> x6 s | None \<Rightarrow> (case o2 of Some s \<Rightarrow> x6 s | None \<Rightarrow> (case o3 of Some a \<Rightarrow> a | None \<Rightarrow>
      if G then x8 else z))) = r"
    "x1 \<noteq> r" "x2 \<noteq> r" "x3 \<noteq> r" "x4 \<noteq> r" "x5 \<noteq> r" "\<And>s. x6 s \<noteq> r" "x8 \<noteq> r" "o3 \<noteq> Some r"
  shows "\<not> A \<and> \<not> B \<and> \<not> C \<and> \<not> F \<and> o1 = None \<and> o2 = None \<and> o3 = None \<and> \<not> G \<and> z = r"
  using assms by (cases o1; cases o2; cases o3) (simp_all split: if_splits)

lemma skip_branches:
  "\<not> A \<Longrightarrow> \<not> B \<Longrightarrow> \<not> C \<Longrightarrow> \<not> F \<Longrightarrow> o1 = None \<Longrightarrow> o2 = None \<Longrightarrow> o3 = None \<Longrightarrow> \<not> G \<Longrightarrow>
    (if A then x1 else if B then x2 else if C then x3 else if F then x5
     else case o1 of Some s \<Rightarrow> x6 s | None \<Rightarrow> (case o2 of Some s \<Rightarrow> x6 s | None \<Rightarrow> (case o3 of Some a \<Rightarrow> a | None \<Rightarrow>
       if G then x8 else z))) = z"
  by simp

lemma route_list:
  assumes "route p c = Candidates"
  shows "\<not> is_shift (key p)"
    "\<not> (width_toggle_enabled c \<and> key p = VK_SPACE \<and> shift (modifiers_of p) \<and> \<not> ctrl (modifiers_of p) \<and> \<not> alt (modifiers_of p))"
    "\<not> (\<not> (mode c = English \<or> shift (modifiers_of p)) \<and> key p = VK_OEM_3 \<and> plain (modifiers_of p))"
    "ctrl_punctuation (key p) (modifiers_of p) = None"
    "route_text p c (mode c = English \<or> shift (modifiers_of p)) = None" "route_command p c = Candidates"
  using last_branch [OF assms [unfolded route_def Let_def]] route_text_list [of p c] by auto

lemma route_command_rerouted:
  assumes "route_command p c = Candidates" "reading_of (key p) \<noteq> None" "key p \<noteq> VK_SPACE"
  shows "eaten (route_command p (c\<lparr>candidates_open := False, candidates_take_key := b, backtick_prefix := b'\<rparr>))"
proof -
  have first: "\<not> A" if "(if A then Pass_through else y) = Candidates" for A y using that by (simp split: if_splits)
  have rest: "eaten (if A then x1 else if B then x2 else if C then x3 else if D then x4 else x5)"
    if "\<not> A" "\<not> B" "C \<Longrightarrow> eaten x3" "D" "eaten x4" for A B C D x1 x2 x3 x4 x5
    using that by simp
  note modified = first [OF assms(1) [unfolded route_command_def Let_def]]
  show ?thesis
    unfolding route_command_def Let_def by (rule rest) (use modified assms(2,3) in \<open>simp_all add: eaten_def\<close>)
qed

text \<open>A digit the list had no candidate for is decided again without the list, and is still taken.\<close>

lemma rerouted_eaten:
  assumes "route p c = Candidates" "reading_of (key p) \<noteq> None" "key p \<noteq> VK_SPACE"
  shows "eaten (route p (c\<lparr>candidates_open := False, candidates_take_key := b, backtick_prefix := False\<rparr>))"
proof -
  let ?c = "c\<lparr>candidates_open := False, candidates_take_key := b, backtick_prefix := False\<rparr>"
  note l = route_list [OF assms(1)]
  have "composing c" using route_command_list [OF l(6)] by simp
  moreover have "route_text p ?c e = route_text p c e" for e
    by (cases "typed p") (simp_all add: route_text_def width_def)
  ultimately have "route p ?c = route_command p ?c"
    unfolding route_def Let_def by (intro skip_branches) (use l(1-5) in simp_all)
  then show ?thesis using route_command_rerouted [OF l(6) assms(2,3)] by simp
qed

lemma digit_reading:
  assumes "0x31 \<le> k" "k \<le> 0x39"
  shows "reading_of k \<noteq> None"
proof -
  have nine: "n \<in> set [49, 50, 51, 52, 53, 54, 55, 56, 57]" if "49 \<le> n" "n \<le> 57" for n :: nat
  proof -
    have "[49..<58] = [49, 50, 51, 52, 53, 54, 55, 56, 57]" by (simp add: upt_rec)
    moreover have "n \<in> set [49..<58]" using that by (simp only: set_upt atLeastLessThan_iff) arith
    ultimately show ?thesis by metis
  qed
  have "k \<in> {0x31, 0x32, 0x33, 0x34, 0x35, 0x36, 0x37, 0x38, 0x39}"
    using nine [of "unat k"] assms by (simp add: word_le_nat_alt word_unat_eq_iff)
  then show ?thesis by (auto simp: reading_of_def lookup_def vkToBopomofo_def)
qed

lemma list_leaves_digits:
  assumes "shown l" "items l \<noteq> []" "list_can_handle_key k" "controller_handle_key k l = (r, picked, l')"
  shows "r \<in> {Navigated, Aborted, Finalized} \<or>
    r = Not_handled \<and> picked = None \<and> (0x31 \<le> k \<and> k \<le> 0x39 \<or> 0x61 \<le> k \<and> k \<le> 0x69)"
proof -
  obtain r' picked' l0 where eq: "list_handle_key k l = (r', picked', l0)" by (metis prod_cases3)
  then have "r = r'" "picked = picked'" using assms(1,4) by (simp_all add: controller_handle_key_def)
  moreover have "r' \<in> {Navigated, Aborted, Finalized} \<or>
      r' = Not_handled \<and> picked' = None \<and> (0x31 \<le> k \<and> k \<le> 0x39 \<or> 0x61 \<le> k \<and> k \<le> 0x69)"
  proof (cases "0x31 \<le> k \<and> k \<le> 0x39 \<or> 0x61 \<le> k \<and> k \<le> 0x69")
    case True
    then show ?thesis using eq by (simp add: list_handle_key_def pick_on_page_def Let_def split: if_splits prod.splits)
  next
    case False
    with assms(3) have "k \<in> {0x26, 0x28, 0x25, 0x27, 0x24, 0x23, 0x21, 0x22, 0x09, 0x0D, 0x20, 0x1B}"
      by (simp add: list_can_handle_key_def)
    then show ?thesis using eq assms(2,3) by (elim insertE emptyE) (simp_all add: list_handle_key_def split: prod.splits)
  qed
  ultimately show ?thesis by simp
qed

lemma numpad_reading:
  assumes "0x61 \<le> k" "k \<le> 0x69"
  shows "reading_of k = None"
proof -
  have nine: "n \<in> set [97, 98, 99, 100, 101, 102, 103, 104, 105]" if "97 \<le> n" "n \<le> 105" for n :: nat
  proof -
    have "[97..<106] = [97, 98, 99, 100, 101, 102, 103, 104, 105]" by (simp add: upt_rec)
    moreover have "n \<in> set [97..<106]" using that by (simp only: set_upt atLeastLessThan_iff) arith
    ultimately show ?thesis by metis
  qed
  have "k \<in> {0x61, 0x62, 0x63, 0x64, 0x65, 0x66, 0x67, 0x68, 0x69}"
    using nine [of "unat k"] assms by (simp add: word_le_nat_alt word_unat_eq_iff)
  then show ?thesis by (elim insertE emptyE) (simp_all add: reading_of_def lookup_def vkToBopomofo_def)
qed

section \<open>A key is taken as announced\<close>

lemma carry_out_eats:
  assumes env: "env_ok E" and press: "press_text_ok E p" and a: "action_ok E a" "a \<noteq> Candidates"
  shows "ensures (service_inv E H) (carry_out E H N d p a) (\<lambda>x _. x = eaten a)"
proof -
  have eats: "ensures (service_inv E H) (perform (Suc 1) E H N d p a) (\<lambda>x _. x = eaten a)"
    by (rule perform_eats [OF env press a, of "\<lambda>x. x = eaten a"]) simp
  have keys: "ensures (service_inv E H) (modC (\<lambda>t. t\<lparr>ts_keys := handled p a (ts_keys t)\<rparr>)) (\<lambda>_. service_inv E H)"
    by (rule mod_service) simp
  show ?thesis
    unfolding carry_out_def numeral_2_eq_2 One_nat_def [symmetric]
    by (rule ensures_bind [OF get_service], rule ensures_then [OF when_service [OF discard_recent_service [OF env]]],
        rule ensures_then [OF keys eats])
qed

lemma again_eats:
  assumes env: "env_ok E" and press: "press_text_ok E p" and t: "service_inv E H t"
    and closed: "\<not> candidates_open c"
  shows "\<exists>t'. perform (Suc n) E H N d p (route p c) t = (Inr (eaten (route p c)), t')"
proof -
  have "route p c \<noteq> Candidates" using route_list(6) route_command_list closed by blast
  then have "ensures (service_inv E H) (perform (Suc n) E H N d p (route p c)) (\<lambda>x _. x = eaten (route p c))"
    using perform_eats [OF env press route_action_ok [OF press], of c "\<lambda>x. x = eaten (route p c)" H n N d] by simp
  with t obtain x t' where "perform (Suc n) E H N d p (route p c) t = (Inr x, t')" "x = eaten (route p c)"
    by (auto elim: ensuresD)
  then show ?thesis by blast
qed

text \<open>Running the list: what it leaves is decided again on a state that differs only in the list.\<close>

lemma perform_list_eats:
  assumes env: "env_ok E" and press: "press_text_ok E p" and t: "service_inv E H t"
    and list: "shown (ts_list t)" "list_can_handle_key (key p)" "\<not> backtick_armed (ts_keys t)"
    and again: "\<And>b. 0x31 \<le> key p \<and> key p \<le> 0x39 \<or> 0x61 \<le> key p \<and> key p \<le> 0x69 \<Longrightarrow>
      eaten (route p ((key_context_for d (key p) (cached_input_mode t) t)\<lparr>candidates_open := False, candidates_take_key := b, backtick_prefix := False\<rparr>))"
  shows "\<exists>t'. perform (Suc (Suc 0)) E H N d p Candidates t = (Inr True, t')"
proof -
  obtain r picked l where run: "controller_handle_key (key p) (ts_list t) = (r, picked, l)" by (metis prod_cases3)
  have items: "items (ts_list t) \<noteq> []" using t list(1) by (simp add: service_inv_def)
  have takes: "ensures (service_inv E H) (list_takes_key E H N (key p)) (\<lambda>_. service_inv E H)"
    by (rule list_takes_key_service [OF env])
  obtain r' t1 where t1: "list_takes_key E H N (key p) t = (Inr r', t1)" "service_inv E H t1"
    using takes t by (rule ensuresD)
  then have [simp]: "r' = r" using run
    by (auto simp: list_takes_key_def bindC_def getC_def thenC_def modC_def ret_def split: prod.splits sum.splits)
  consider "r = Navigated \<or> r = Aborted" | "r = Finalized"
    | "r = Not_handled" "picked = None" "0x31 \<le> key p \<and> key p \<le> 0x39 \<or> 0x61 \<le> key p \<and> key p \<le> 0x69"
    using list_leaves_digits [OF list(1) items list(2) run] by blast
  then show ?thesis
  proof cases
    case 1
    then show ?thesis using t1 by (auto simp: perform_candidate_key_def bindC_def ret_def)
  next
    case 2
    have "ensures (service_inv E H) (control E H N (Candidate_finalized d)) (\<lambda>_. service_inv E H)"
      by (rule control_ok [OF env]) simp
    then obtain u t2 where "control E H N (Candidate_finalized d) t1 = (Inr u, t2)" using t1(2) by (rule ensuresD)
    then show ?thesis using t1(1) 2 by (simp add: perform_candidate_key_def bindC_def thenC_def ret_def)
  next
    case 3
    have "t1 = t\<lparr>ts_list := l\<rparr>" using t1(1) run 3(2)
      by (simp add: list_takes_key_def bindC_def getC_def thenC_def modC_def ret_def)
    then have "(key_context_for d (key p) (cached_input_mode t1) t1)\<lparr>candidates_open := False\<rparr> =
        (key_context_for d (key p) (cached_input_mode t) t)\<lparr>candidates_open := False,
          candidates_take_key := shown l \<and> list_can_handle_key (key p), backtick_prefix := False\<rparr>"
      using list(3) by (simp add: key_context_for_def cached_input_mode_def Let_def)
    moreover note again_eats [OF env press t1(2), of "(key_context_for d (key p) (cached_input_mode t1) t1)\<lparr>candidates_open := False\<rparr>" 0 N d]
    ultimately obtain t2 where "perform (Suc 0) E H N d p (route p ((key_context_for d (key p) (cached_input_mode t1) t1)\<lparr>candidates_open := False\<rparr>)) t1
        = (Inr True, t2)" using again [OF 3(3)] by auto
    then show ?thesis using t1(1) 3(1) by (simp add: perform_candidate_key_def bindC_def getC_def)
  qed
qed

lemma test_key_reaches:
  assumes "service_reachable E H t" "press_text_ok E p" "on_test_key_down N d p t = (r, t1)"
  shows "service_reachable E H t1"
  by (rule service_step [OF assms(1), of "Test_key_down d p" N "Inr ()"])
    (use assms(2,3) in \<open>simp_all add: catchC_def bindC_def ret_def split: prod.split sum.split\<close>)

lemma key_reaches:
  assumes "service_reachable E H t" "press_text_ok E p" "on_key_down E H N d p t = (r, t1)"
  shows "service_reachable E H t1"
  by (rule service_step [OF assms(1), of "Key_down d p" N "Inr ()"])
    (use assms(2,3) in \<open>simp_all add: catchC_def bindC_def ret_def split: prod.split sum.split\<close>)

lemma close_list_returns:
  assumes "env_ok E" "service_inv E H t"
  obtains t' where "close_list E H N d t = (Inr (), t')" "service_inv E H t'"
proof -
  obtain u t' where "close_list E H N d t = (Inr u, t')" "service_inv E H t'"
    using close_list_service [OF assms(1)] assms(2) by (rule ensuresD)
  then show ?thesis using that by simp
qed

lemma cached_mode_fields [simp]:
  "cached_input_mode (t\<lparr>ts_keys := k\<rparr>) = cached_input_mode t" "cached_input_mode (t\<lparr>ts_tested := a\<rparr>) = cached_input_mode t"
  by (simp_all add: cached_input_mode_def)

lemma carry_out_announced:
  assumes env: "env_ok E" and press: "press_text_ok E p" and numpad: "numpad_types p" and t: "service_inv E H t"
    and a: "a = route p (key_context_for d (key p) (cached_input_mode t) t)"
  shows "\<exists>t'. carry_out E H N d p a t = (Inr (eaten a), t') \<and> service_inv E H t'"
proof -
  have ok: "action_ok E a" unfolding a by (rule route_action_ok [OF press])
  obtain x t' where run: "carry_out E H N d p a t = (Inr x, t')" "service_inv E H t'"
    using carry_out_service [OF env press ok] t by (rule ensuresD)
  have "x = eaten a"
  proof (cases "a = Candidates")
    case False
    from carry_out_eats [OF env press ok False] t obtain y t2 where "carry_out E H N d p a t = (Inr y, t2)" "y = eaten a"
      by (rule ensuresD)
    then show ?thesis using run(1) by simp
  next
    case True
    let ?c = "key_context_for d (key p) (cached_input_mode t) t"
    let ?t = "t\<lparr>ts_keys := handled p Candidates (ts_keys t)\<rparr>"
    note route = route_list [OF a [symmetric, unfolded True]]
    have list: "composing ?c" "shown (ts_list t)" "list_can_handle_key (key p)"
      using route_command_list [OF route(6)] by (simp_all add: key_context_for_def Let_def)
    have digits: "reading_of (key p) \<noteq> None" if "0x31 \<le> key p \<and> key p \<le> 0x39 \<or> 0x61 \<le> key p \<and> key p \<le> 0x69"
    proof (cases "0x31 \<le> key p \<and> key p \<le> 0x39")
      case False
      have "typed p \<noteq> None" using that False numpad by (auto simp: numpad_types_def)
      then show ?thesis using route(5) list(1) by (auto simp: route_text_def split: if_splits)
    qed (use digit_reading in auto)
    have "\<not> is_modifier (key p)" using list(3) by (auto simp: list_can_handle_key_def is_modifier_def is_shift_def)
    then have armed: "\<not> backtick_armed (ts_keys ?t)" by (simp add: handled_def Let_def)
    have again: "eaten (route p ((key_context_for d (key p) (cached_input_mode ?t) ?t)
        \<lparr>candidates_open := False, candidates_take_key := b, backtick_prefix := False\<rparr>))"
      if k: "0x31 \<le> key p \<and> key p \<le> 0x39 \<or> 0x61 \<le> key p \<and> key p \<le> 0x69" for b
    proof -
      have "key p \<noteq> VK_SPACE" using k by auto
      from rerouted_eaten [OF a [symmetric, unfolded True] digits [OF k] this, of b]
      show ?thesis by (simp add: key_context_for_def Let_def)
    qed
    have not_back: "key p \<noteq> VK_BACK" using list(3) by (auto simp: list_can_handle_key_def)
    have "\<exists>t'. perform (Suc (Suc 0)) E H N d p Candidates ?t = (Inr True, t')"
      by (rule perform_list_eats [OF env press _ _ list(3) armed again]) (use t list(2) in simp_all)
    then show ?thesis using run(1) not_back True
      by (auto simp: carry_out_def bindC_def getC_def thenC_def modC_def numeral_2_eq_2 whenC_def ret_def eaten_def
          simp del: perform.simps)
  qed
  then show ?thesis using run by blast
qed

lemma elsewhere_nothing:
  "\<not> (composition (ts_world t) \<noteq> None \<and> \<not> owns (ts_world t) d) \<Longrightarrow> leave_other_document E H N d t = (Inr (), t)"
  unfolding leave_other_document_def bindC_def getC_def whenC_def by (auto simp: ret_def)

text \<open>Leaving another document changes nothing the decision reads, when the key's document is the one composed in.\<close>

lemma announced_carries_over:
  assumes env: "env_ok E" and press: "press_text_ok E p" and numpad: "numpad_types p" and t: "full_inv E H t"
    and tested: "ts_tested t = Some (key p, a)" "a = route p (key_context_for d (key p) (cached_input_mode t) t)"
    and accepts: "accepts_input N"
  shows "\<exists>t'. on_key_down E H N d p t = (Inr (eaten a), t')"
proof -
  let ?t = "t\<lparr>ts_tested := None\<rparr>"
  have ok: "action_ok E a" unfolding tested(2) by (rule route_action_ok [OF press])
  have inv: "service_inv E H ?t" using t by (simp add: full_inv_def)
  obtain u t2 where left: "leave_other_document E H N d ?t = (Inr u, t2)" "service_inv E H t2"
    using leave_service [OF env] inv by (rule ensuresD)
  have "\<exists>t3. carry_out E H N d p a t2 = (Inr (eaten a), t3) \<and> service_inv E H t3"
  proof (cases "a = Candidates")
    case False
    obtain x t3 where run: "carry_out E H N d p a t2 = (Inr x, t3)" "service_inv E H t3"
      using carry_out_service [OF env press ok] left(2) by (rule ensuresD)
    from carry_out_eats [OF env press ok False] left(2) obtain y t4 where "carry_out E H N d p a t2 = (Inr y, t4)" "y = eaten a"
      by (rule ensuresD)
    with run show ?thesis by simp
  next
    case True
    have "owns (ts_world t) d"
      using route_command_list [OF route_list(6) [OF tested(2) [symmetric, unfolded True]]] by (simp add: key_context_for_def Let_def)
    then have same: "t2 = ?t" using left(1) elsewhere_nothing [of ?t d E H N] by simp
    have "a = route p (key_context_for d (key p) (cached_input_mode ?t) ?t)"
      unfolding tested(2) by (simp add: key_context_for_def Let_def)
    from carry_out_announced [OF env press numpad inv this] show ?thesis unfolding same .
  qed
  then obtain t3 where run: "carry_out E H N d p a t2 = (Inr (eaten a), t3)" "service_inv E H t3" by blast
  obtain t4 where "close_list E H N d t3 = (Inr (), t4)" by (rule close_list_returns [OF env run(2)])
  then show ?thesis
    using left(1) run(1) tested(1) by (simp add: on_key_down_accepted [OF accepts] thenC_def bindC_def finallyC_def ret_def)
qed

section \<open>Where the composition is\<close>

definition at_home :: "document_id \<Rightarrow> text_service \<Rightarrow> bool" where
  "at_home d t \<longleftrightarrow> (\<forall>c. composition (ts_world t) = Some c \<longrightarrow> comp_document c = d)"

lemma home_control:
  assumes "\<And>w :: world. (\<forall>c. composition w = Some c \<longrightarrow> comp_document c = d) \<Longrightarrow>
    (\<forall>c. composition (snd (handle E H ev w)) = Some c \<longrightarrow> comp_document c = d)"
  shows "preserves (at_home d) (control E H N ev)"
proof -
  have "at_home d (snd (control E H N ev t))" if home: "at_home d t" for t
  proof -
    have "ts_world (snd (control E H N ev t)) = snd (handle E H ev (ts_world t))"
      using follow_frame(1) by (simp add: control_def case_prod_unfold)
    moreover have "\<forall>c. composition (snd (handle E H ev (ts_world t))) = Some c \<longrightarrow> comp_document c = d"
      using home unfolding at_home_def by (rule assms)
    ultimately show ?thesis by (simp add: at_home_def)
  qed
  then show ?thesis by (simp add: preserves_def)
qed

lemma home_kept:
  assumes "keeps d (handle E H ev)"
  shows "preserves (at_home d) (control E H N ev)"
proof (rule home_control)
  fix w :: world assume "\<forall>c. composition w = Some c \<longrightarrow> comp_document c = d"
  then show "\<forall>c. composition (snd (handle E H ev w)) = Some c \<longrightarrow> comp_document c = d"
    using keepsD [OF assms, of w] unfolding follows_on_def by metis
qed

lemma home_opened: "preserves (at_home d) (control E H N (Candidates_opened i))"
  by (rule home_control) (auto simp: candidates_opened_def upd_comp_def modC_def split: option.splits)

lemma home_events:
  assumes "ev \<in> {Type_reading d c, Type_text d s, Discard_reading d, Backspace d, Move_caret d fw te, Enter d, Escape d,
    Backspace_in_order d, Select_candidate i k, Candidate_finalized d, Seal_open, Insert_text d s, Recheck_commit d s n}"
  shows "preserves (at_home d) (control E H N ev)"
  by (rule home_kept [OF keeps_handle [OF assms]])

interpretation home: kept_by_events "at_home d" E H N d for d E H N
proof unfold_locales
  show "about_world (at_home d)" by (simp add: about_world_def at_home_def)
qed (rule home_opened | rule home_events, auto)+

lemma leave_home:
  assumes "leave_other_document E H N d t = (Inr u, t')"
  shows "at_home d t'"
proof (cases "composition (ts_world t) \<noteq> None \<and> \<not> owns (ts_world t) d")
  case False
  then have "t' = t" using elsewhere_nothing [OF False, of E H N] assms by simp
  then show ?thesis using False by (auto simp: at_home_def owns_def)
next
  case True
  obtain r w where w: "handle E H Seal_open (ts_world t) = (r, w)" by (metis prod.exhaust)
  have "ts_world t' = w \<and> r = Inr ()"
    using True assms w follow_frame(1)
    by (auto simp: leave_other_document_def bindC_def getC_def whenC_def thenC_def modC_def control_def hide_list_def
        split: sum.splits)
  then show ?thesis using sealed_nothing_open w by (simp add: at_home_def)
qed

lemma closed_at_home:
  assumes "close_list E H N d t = (Inr u, t')" "at_home d t" "composition (ts_world t') = Some c"
  shows "comp_document c = d \<and> (unlocked c \<or> shown (ts_list t'))"
proof (cases "shown (ts_list t)")
  case True
  then have "t' = t" using assms(1) by (simp add: close_list_def run_simps whenC_def ret_def)
  then show ?thesis using assms(2,3) True by (simp add: at_home_def)
next
  case False
  have w: "ts_world t' = snd (handle E H (Candidates_closed d) (ts_world t))"
    using False assms(1) follow_frame(1)
    by (auto simp: close_list_def bindC_def getC_def whenC_def control_def split: prod.splits)
  have home: "\<forall>c. composition (ts_world t) = Some c \<longrightarrow> comp_document c = d" using assms(2) by (simp add: at_home_def)
  have "unlocked c" by (rule closed_unlocks [OF _ home]) (use assms(3) w in simp)
  moreover have "comp_document c = d" by (rule closed_stays [OF _ home]) (use assms(3) w in simp)
  ultimately show ?thesis by blast
qed

section \<open>The properties\<close>

text \<open>A document that takes input, in a host without a window, and the key A.\<close>

definition example_now :: host_now where
  "example_now = \<lparr>accepts_input = True, starts_composition = True, range_known = True, has_manager = True,
     owner_window = 0, anchor = None, may_show = None, private_scope = (\<lambda>_. False), commit_token = (\<lambda>_. 0), clock = 0\<rparr>"

lemma example_press_ok: "press_text_ok example_env (plain_press 0x41 (Some [0x61]))" "numpad_types (plain_press 0x41 (Some [0x61]))"
  by (simp_all add: press_text_ok_def text_ok_def punctuation_def example_displayable is_scalar_def plain_press_def
      to_full_width_def full_width_char_def numpad_types_def)

text \<open>(C22) Whatever was typed before, a key in a document that takes input is handled without an exception, and
  afterwards the composition, when there is one, is in the document of the key, and its entry is locked against
  the conversion only while the list of its candidates is shown.\<close>

theorem key_leaves_composition_here:
  assumes "env_ok E" "press_text_ok E p" "service_reachable E H t" "accepts_input N"
  shows "\<exists>eats t'. on_key_down E H N d p t = (Inr eats, t') \<and>
    (\<forall>c. composition (ts_world t') = Some c \<longrightarrow> comp_document c = d \<and> (unlocked c \<or> shown (ts_list t')))"
proof -
  let ?decision = "case ts_tested t of Some (k, a) \<Rightarrow> if k = key p then ret a else decide False d p | None \<Rightarrow> decide False d p"
  let ?t = "t\<lparr>ts_tested := None\<rparr>"
  have inv: "full_inv E H t" by (rule service_reachable_inv [OF assms(1,3)])
  obtain eats t' where run: "on_key_down E H N d p t = (Inr eats, t')" by (rule on_key_down_full [OF assms(1,2) inv])
  have "service_inv E H ?t" using inv by (simp add: full_inv_def)
  with leave_service [OF assms(1)] obtain u t1 where left: "leave_other_document E H N d ?t = (Inr u, t1)" by (rule ensuresD)
  obtain r t2 where carried: "bindC ?decision (carry_out E H N d p) t1 = (r, t2)" by (metis prod.exhaust)
  have "preserves (at_home d) (bindC ?decision (carry_out E H N d p))"
    by (intro preserves_intros home.carrying_out home.small)
  then have home: "at_home d t2" using leave_home [OF left] carried by (auto simp: preserves_def)
  obtain v where "close_list E H N d t2 = (Inr v, t')"
    using run left carried
    by (auto simp: on_key_down_accepted [OF assms(4)] thenC_def bindC_def finallyC_def split: prod.splits sum.splits)
  from closed_at_home [OF this home] run show ?thesis by blast
qed

lemma key_leaves_composition_here_witness:
  "\<exists>eats t'. on_key_down example_env (example_host True) example_now 7 (plain_press 0x41 (Some [0x61])) new_service = (Inr eats, t') \<and>
    (\<forall>c. composition (ts_world t') = Some c \<longrightarrow> comp_document c = 7 \<and> (unlocked c \<or> shown (ts_list t')))"
  by (rule key_leaves_composition_here [OF example_env_ok example_press_ok(1) service_start]) (simp add: example_now_def)

text \<open>(C23) A key is taken from the application exactly when its test announced it: \<open>OnKeyDown\<close> right after
  \<open>OnTestKeyDown\<close> of the same key returns what the test returned, also for a digit the candidate list has no
  candidate for, which is decided again without the list. The digits of the number pad are the exception the
  hypothesis names: they are taken as announced when they type a text.\<close>

theorem key_taken_as_announced:
  assumes "env_ok E" "press_text_ok E p" "numpad_types p" "service_reachable E H t"
    and "accepts_input N" "on_test_key_down N d p t = (Inr announced, t1)" "accepts_input N'"
  shows "\<exists>t2. on_key_down E H N' d p t1 = (Inr announced, t2)"
proof -
  obtain a where a: "(Inr announced :: exn + bool) = Inr (eaten a)" "ts_tested t1 = Some (key p, a)"
    "a = route p (key_context_for d (key p) (cached_input_mode t1) t1)"
    by (rule test_decides [OF assms(5,6)])
  have "full_inv E H t1"
    by (rule service_reachable_inv [OF assms(1) test_key_reaches [OF assms(4,2,6)]])
  from announced_carries_over [OF assms(1-3) this a(2,3) assms(7)] a(1) show ?thesis by simp
qed

lemma key_taken_as_announced_witness:
  "\<exists>t1 t2. on_test_key_down example_now 7 (plain_press 0x41 (Some [0x61])) new_service = (Inr True, t1) \<and>
    on_key_down example_env (example_host True) example_now 7 (plain_press 0x41 (Some [0x61])) t1 = (Inr True, t2)"
proof -
  let ?p = "plain_press 0x41 (Some [0x61])"
  have accepts: "accepts_input example_now" by (simp add: example_now_def)
  obtain t1 where test: "on_test_key_down example_now 7 ?p new_service = (Inr True, t1)"
    by (simp add: test_run [OF accepts] decide_run Let_def plain_press_def key_context_for_def new_service_def route_def
        route_text_def is_shift_def ctrl_punctuation_plain eaten_def cached_input_mode_def new_world_def new_tracker_def)
  from key_taken_as_announced [OF example_env_ok example_press_ok service_start accepts test accepts]
  show ?thesis using test by blast
qed

text \<open>(C24) While something is composed, a digit of the number pad is typed into the composition, whether or not
  the candidate list is shown and would take the key: the list never sees it, so its picks for the number pad
  are not reached.\<close>

theorem numpad_types_past_the_list:
  assumes "0x61 \<le> key p" "key p \<le> 0x69" "typed p = Some s" "composing c"
    "\<not> ctrl (modifiers_of p)" "\<not> alt (modifiers_of p)"
  shows "route p c = (if mode c = Chinese \<and> shift (modifiers_of p) then Compose_english (width c s) else Compose (width c s))"
proof -
  have not: "\<not> is_shift (key p)" "key p \<noteq> VK_SPACE" "key p \<noteq> VK_OEM_3" "key p \<noteq> VK_BACK"
    using assms(1,2) by (auto simp: is_shift_def)
  have "ctrl_punctuation (key p) (modifiers_of p) = None" using assms(5) by (rule ctrl_punctuation_plain [OF disjI1])
  moreover have "backtick_punctuation (key p) (modifiers_of p) = None"
    using assms(1,2) by (auto simp: backtick_punctuation_def)
  moreover have "reading_of (key p) = None" by (rule numpad_reading [OF assms(1,2)])
  ultimately show ?thesis
    using not assms(3,4) by (cases "mode c") (simp_all add: route_def Let_def route_text_def)
qed

lemma numpad_types_past_the_list_witness:
  "route (plain_press 0x62 (Some [0x32])) ((idle_context Chinese False)\<lparr>composing := True, candidates_open := True, candidates_take_key := True\<rparr>)
    = Compose [0x32] \<and> list_can_handle_key 0x62"
  using numpad_types_past_the_list [of "plain_press 0x62 (Some [0x32])" "[0x32]"
    "(idle_context Chinese False)\<lparr>composing := True, candidates_open := True, candidates_take_key := True\<rparr>"]
  by (simp add: press_defs width_def list_can_handle_key_def)

end
