(* ===== verification/Prediction_Client.thy ===== *)
theory Prediction_Client
  imports Byte_Codec Conversion
begin

text \<open>
  \<open>frontend/src/engine/impl/pipeEngine.hpp\<close>: the text service's end of the prediction pipe.  Whether
  the pipe can be opened, whether a write succeeds and which bytes the service answers before the
  pipe breaks are parameters of each operation; starting the service is not modelled.  An operation
  returns its value, the engine afterwards and what it put on the pipe.
\<close>

section \<open>Requests\<close>

definition predict_command :: u8 where "predict_command = 1"
definition toggle_command :: u8 where "toggle_command = 2"
definition get_mode_command :: u8 where "get_mode_command = 3"
definition ready_command :: u8 where "ready_command = 4"
definition record_command :: u8 where "record_command = 5"
definition discard_command :: u8 where "discard_command = 6"
definition prefill_command :: u8 where "prefill_command = 7"

lemmas pipe_commands = predict_command_def toggle_command_def get_mode_command_def ready_command_def
  record_command_def discard_command_def prefill_command_def

definition start_request :: "u8 \<Rightarrow> u8 list" where
  "start_request command = put_word 1 command"

definition prefill_request :: "u16string \<Rightarrow> u8 list" where
  "prefill_request ctxt = start_request prefill_command @ put_utf16 ctxt"

definition padding_request :: "pos \<Rightarrow> exn + u8 list" where
  "padding_request entry =
     (if chosen entry then rbind (current32 entry) (\<lambda>c. Inr (put_flag True @ put_word 4 c))
      else Inr (put_flag False @ put_utf16 (to_bopomofo_string entry)))"

definition predict_request :: "u16string \<Rightarrow> pos list \<Rightarrow> exn + u8 list" where
  "predict_request ctxt padding =
     rbind (mapR padding_request padding) (\<lambda>entries.
       Inr (start_request predict_command @ put_utf16 ctxt @ put_u32 (length padding) @ concat entries))"

definition commit_entry_request :: "commit_input_entry \<Rightarrow> u8 list" where
  "commit_entry_request e =
     put_utf16 (entry_reading e) @ put_utf16 (entry_output e) @ put_flag (entry_manually_selected e)"

definition record_request :: "u64 \<Rightarrow> commit_sample \<Rightarrow> u8 list" where
  "record_request token sample =
     start_request record_command @ put_word 8 token @ put_utf16 (context_text sample) @ put_utf16 (answer sample) @
     put_u32 (length (commit_input sample)) @ put_many commit_entry_request (commit_input sample)"

definition discard_request :: "u64 \<Rightarrow> u8 list" where
  "discard_request token = start_request discard_command @ put_word 8 token"

section \<open>The engine\<close>

record pipe_engine =
  connected :: bool
  aborted :: bool
  next_commit_token :: u64

definition maximum_reply_candidates :: nat where
  "maximum_reply_candidates = 4096"

text \<open>What the surroundings do during a request.\<close>

record channel =
  can_connect :: bool
  write_succeeds :: bool
  reply :: "u8 list"

definition disconnect :: "pipe_engine \<Rightarrow> pipe_engine" where
  "disconnect e = e\<lparr>connected := False\<rparr>"

definition engine_backend_state :: "pipe_engine \<Rightarrow> backend_state" where
  "engine_backend_state e = (if connected e then Connected else Unavailable)"

definition abort_engine :: "pipe_engine \<Rightarrow> pipe_engine" where
  "abort_engine e = e\<lparr>aborted := True\<rparr>"

definition ensure_pipe :: "channel \<Rightarrow> pipe_engine \<Rightarrow> bool \<times> pipe_engine" where
  "ensure_pipe ch e =
     (if aborted e then (False, e)
      else if connected e then (True, e)
      else if can_connect ch then (True, e\<lparr>connected := True\<rparr>)
      else (False, e))"

text \<open>After \<open>abort\<close> every transfer is cancelled.\<close>

definition send_request :: "channel \<Rightarrow> u8 list \<Rightarrow> pipe_engine \<Rightarrow> bool" where
  "send_request ch bs e \<longleftrightarrow> write_succeeds ch \<and> \<not> aborted e"

definition answer_bytes :: "channel \<Rightarrow> pipe_engine \<Rightarrow> u8 list" where
  "answer_bytes ch e = (if aborted e then [] else reply ch)"

definition engine_ready :: "channel \<Rightarrow> pipe_engine \<Rightarrow> pipe_engine \<times> u8 list" where
  "engine_ready ch e0 =
     (case ensure_pipe ch e0 of
        (False, e) \<Rightarrow> (e, [])
      | (True, e) \<Rightarrow>
          if \<not> send_request ch (start_request ready_command) e \<or> get_word 1 (answer_bytes ch e) = (None :: (u8 \<times> u8 list) option)
          then (disconnect e, start_request ready_command)
          else (e, start_request ready_command))"

definition engine_prefill :: "channel \<Rightarrow> u16string \<Rightarrow> pipe_engine \<Rightarrow> pipe_engine \<times> u8 list" where
  "engine_prefill ch ctxt e0 =
     (case ensure_pipe ch e0 of
        (False, e) \<Rightarrow> (e, [])
      | (True, e) \<Rightarrow>
          (if send_request ch (prefill_request ctxt) e then e else disconnect e, prefill_request ctxt))"

text \<open>One answered entry: a single character is chosen, several become the candidates; an entry that was
  chosen already keeps its character.\<close>

definition answer_entry :: "u32string \<Rightarrow> pos \<Rightarrow> pos" where
  "answer_entry cs entry =
     (if \<not> chosen entry
      then if length cs = 1 then choose_candidate entry (hd cs) else set_candaiates entry cs
      else entry)\<lparr>predicted := True\<rparr>"

fun receive_entries :: "nat \<Rightarrow> nat \<Rightarrow> u8 list \<Rightarrow> pos list \<Rightarrow> bool \<times> pos list" where
  "receive_entries 0 i bs padding = (True, padding)"
| "receive_entries (Suc n) i bs padding =
     (case get_u32 bs of
        None \<Rightarrow> (False, padding)
      | Some (k, rest) \<Rightarrow>
          if maximum_reply_candidates < k then (False, padding)
          else
            (case get_many (get_word 4) k rest of
               None \<Rightarrow> (False, padding)
             | Some (cs, rest) \<Rightarrow>
                 receive_entries n (i + 1) rest (padding[i := answer_entry cs (padding ! i)])))"

definition receive_prediction :: "u8 list \<Rightarrow> pos list \<Rightarrow> bool \<times> pos list" where
  "receive_prediction bs padding =
     (case get_u32 bs of
        None \<Rightarrow> (False, padding)
      | Some (n, rest) \<Rightarrow> if length padding < n then (False, padding) else receive_entries n 0 rest padding)"

definition engine_predict :: "channel \<Rightarrow> u16string \<Rightarrow> pos list \<Rightarrow> pipe_engine \<Rightarrow> (exn + bool \<times> pos list) \<times> pipe_engine \<times> u8 list" where
  "engine_predict ch ctxt padding e0 =
     (if \<not> (\<forall>entry \<in> set padding. is_predictable_by_engine entry) then (Inr (False, padding), e0, [])
      else
        case ensure_pipe ch e0 of
          (False, e) \<Rightarrow> (Inr (False, padding), e, [])
        | (True, e) \<Rightarrow>
            (case predict_request ctxt padding of
               Inl x \<Rightarrow> (Inl x, e, [])
             | Inr request \<Rightarrow>
                 if \<not> send_request ch request e then (Inr (False, padding), disconnect e, request)
                 else
                   case receive_prediction (answer_bytes ch e) padding of
                     (True, padding') \<Rightarrow> (Inr (True, padding'), e, request)
                   | (False, padding') \<Rightarrow> (Inr (False, padding'), disconnect e, request)))"

definition engine_record :: "channel \<Rightarrow> commit_sample \<Rightarrow> pipe_engine \<Rightarrow> u64 \<times> pipe_engine \<times> u8 list" where
  "engine_record ch sample e0 =
     (if answer sample = [] \<or> commit_input sample = [] then (0, e0, [])
      else
        case ensure_pipe ch e0 of
          (False, e) \<Rightarrow> (0, e, [])
        | (True, e) \<Rightarrow>
            let token = next_commit_token e;
                e1 = e\<lparr>next_commit_token := token + 1\<rparr>;
                request = record_request token sample in
            if send_request ch request e1 then (token, e1, request) else (0, disconnect e1, request))"

definition engine_discard :: "channel \<Rightarrow> u64 \<Rightarrow> pipe_engine \<Rightarrow> pipe_engine \<times> u8 list" where
  "engine_discard ch token e0 =
     (if token = 0 then (e0, [])
      else
        case ensure_pipe ch e0 of
          (False, e) \<Rightarrow> (e, [])
        | (True, e) \<Rightarrow> (if send_request ch (discard_request token) e then e else disconnect e, discard_request token))"

text \<open>Without a service the mode is English.\<close>

definition query_input_mode :: "channel \<Rightarrow> u8 \<Rightarrow> pipe_engine \<Rightarrow> input_mode \<times> pipe_engine \<times> u8 list" where
  "query_input_mode ch command e0 =
     (case ensure_pipe ch e0 of
        (False, e) \<Rightarrow> (English, e, [])
      | (True, e) \<Rightarrow>
          if \<not> send_request ch (start_request command) e then (English, disconnect e, start_request command)
          else
            case get_word 1 (answer_bytes ch e) of
              None \<Rightarrow> (English, disconnect e, start_request command)
            | Some (raw :: u8, rest) \<Rightarrow> (if raw = 1 then English else Chinese, e, start_request command))"

definition engine_toggle :: "channel \<Rightarrow> pipe_engine \<Rightarrow> input_mode \<times> pipe_engine \<times> u8 list" where
  "engine_toggle ch = query_input_mode ch toggle_command"

definition engine_current_mode :: "channel \<Rightarrow> pipe_engine \<Rightarrow> input_mode \<times> pipe_engine \<times> u8 list" where
  "engine_current_mode ch = query_input_mode ch get_mode_command"

end
