(* ===== verification/Custom_Names.thy ===== *)
theory Custom_Names
  imports Prelude
begin

text \<open>
  \<open>service/src/service/custom_name_matcher.hpp\<close> and \<open>custom_name_matcher.cpp\<close>: the user's own names,
  found in a composition by their readings with an Aho-Corasick automaton.  \<open>compile\<close> and \<open>apply\<close> are
  translated loop by loop: the trie over reading tokens, its breadth-first linking, the scan and the
  left-to-right replacement.  An \<open>unordered_map\<close> of children is an association list; the order in which
  the linking visits it is unspecified in C++, so it is the parameter \<open>visit\<close>.  The three loops that
  are not structural carry fuel: the number of nodes for following failure links and for the queue,
  the number of entries for the replacement; \<open>Name_Automaton\<close> proves that this is enough.
\<close>

section \<open>State\<close>

record custom_name =
  name :: u32string
  readings :: "u16string list"

record padding_entry =
  bopomofo :: u16string
  entry_chosen :: bool
  chosen_char :: char32

record name_rule =
  characters :: u32string
  rule_order :: nat

record node =
  nexts :: "(nat \<times> nat) list"
  failure :: nat
  outputs :: "nat list"

record automaton =
  tokens :: "(u16string \<times> nat) list"
  nodes :: "node list"
  rules :: "name_rule list"

definition new_node :: node where
  "new_node = \<lparr>nexts = [], failure = 0, outputs = []\<rparr>"

abbreviation child_of :: "node list \<Rightarrow> nat \<Rightarrow> nat \<Rightarrow> nat option" where
  "child_of ns state token \<equiv> map_of (nexts (ns ! state)) token"

section \<open>Building the trie\<close>

definition usable_setting :: "custom_name \<Rightarrow> bool" where
  "usable_setting s \<longleftrightarrow>
     \<not> (name s = [] \<or> length (name s) \<noteq> length (readings s)) \<and> \<not> (\<exists>r \<in> set (readings s). r = [])"

text \<open>\<open>try_emplace\<close>: the token of a reading, the tokens and the next free one.\<close>

definition token_for :: "(u16string \<times> nat) list \<Rightarrow> nat \<Rightarrow> u16string \<Rightarrow> nat \<times> (u16string \<times> nat) list \<times> nat" where
  "token_for ts next_token reading =
     (case map_of ts reading of
        Some t \<Rightarrow> (t, ts, next_token)
      | None \<Rightarrow> (next_token, (reading, next_token) # ts, next_token + 1))"

fun add_reading :: "automaton \<times> nat \<times> nat \<Rightarrow> u16string \<Rightarrow> automaton \<times> nat \<times> nat" where
  "add_reading (a, next_token, state) reading =
     (case token_for (tokens a) next_token reading of
        (token, ts, next_token') \<Rightarrow>
          (case child_of (nodes a) state token of
             Some child \<Rightarrow> (a\<lparr>tokens := ts\<rparr>, next_token', child)
           | None \<Rightarrow>
               let child = length (nodes a);
                   ns = nodes a @ [new_node] in
               (a\<lparr>tokens := ts,
                  nodes := ns[state := (ns ! state)\<lparr>nexts := nexts (ns ! state) @ [(token, child)]\<rparr>]\<rparr>,
                next_token', child)))"

fun add_setting :: "automaton \<times> nat \<Rightarrow> nat \<times> custom_name \<Rightarrow> automaton \<times> nat" where
  "add_setting (a, next_token) (order, setting) =
     (if \<not> usable_setting setting then (a, next_token)
      else
        let rule_index = length (rules a);
            a1 = a\<lparr>rules := rules a @ [\<lparr>characters = name setting, rule_order = order\<rparr>]\<rparr> in
        case foldl add_reading (a1, next_token, 0) (readings setting) of
          (a2, next_token', state) \<Rightarrow>
            (a2\<lparr>nodes := (nodes a2)[state := (nodes a2 ! state)\<lparr>outputs := outputs (nodes a2 ! state) @ [rule_index]\<rparr>]\<rparr>,
             next_token'))"

definition build_trie :: "custom_name list \<Rightarrow> automaton" where
  "build_trie settings =
     fst (foldl add_setting (\<lparr>tokens = [], nodes = [new_node], rules = []\<rparr>, 0) (enumerate 0 settings))"

section \<open>Linking it\<close>

text \<open>\<open>while (state != 0 && !nodes[state].next.contains(token)) state = nodes[state].failure\<close>\<close>

fun follow :: "nat \<Rightarrow> node list \<Rightarrow> nat \<Rightarrow> nat \<Rightarrow> nat" where
  "follow 0 ns state token = state"
| "follow (Suc fuel) ns state token =
     (if state \<noteq> 0 \<and> child_of ns state token = None then follow fuel ns (failure (ns ! state)) token else state)"

definition link_child :: "nat \<Rightarrow> node list \<Rightarrow> nat \<times> nat \<Rightarrow> node list" where
  "link_child parent ns edge =
     (case edge of (token, child) \<Rightarrow>
        let f = follow (length ns) ns (failure (ns ! parent)) token;
            f' = (case child_of ns f token of Some v \<Rightarrow> v | None \<Rightarrow> f) in
        ns[child := (ns ! child)\<lparr>failure := f', outputs := outputs (ns ! child) @ outputs (ns ! f')\<rparr>])"

type_synonym visit_order = "(nat \<times> nat) list \<Rightarrow> (nat \<times> nat) list"

fun link_loop :: "visit_order \<Rightarrow> nat \<Rightarrow> node list \<Rightarrow> nat list \<Rightarrow> node list" where
  "link_loop visit 0 ns pending = ns"
| "link_loop visit (Suc fuel) ns [] = ns"
| "link_loop visit (Suc fuel) ns (parent # pending) =
     (let edges = visit (nexts (ns ! parent)) in
      link_loop visit fuel (foldl (link_child parent) ns edges) (pending @ map snd edges))"

definition compile_names :: "visit_order \<Rightarrow> custom_name list \<Rightarrow> automaton" where
  "compile_names visit settings =
     (let a = build_trie settings in
      a\<lparr>nodes := link_loop visit (length (nodes a)) (nodes a) (map snd (visit (nexts (nodes a ! 0))))\<rparr>)"

section \<open>Scanning a composition\<close>

text \<open>A rule found at its last entry \<open>index\<close> is kept for its first one if it is longer than the one
  kept there, or as long and earlier in the settings.\<close>

definition offer :: "automaton \<Rightarrow> nat \<Rightarrow> nat option list \<Rightarrow> nat \<Rightarrow> nat option list" where
  "offer a index best rule_index =
     (let rule = rules a ! rule_index;
          start = index + 1 - length (characters rule) in
      case best ! start of
        None \<Rightarrow> best[start := Some rule_index]
      | Some current \<Rightarrow>
          let previous = rules a ! current in
          if length (characters previous) < length (characters rule) \<or>
             length (characters rule) = length (characters previous) \<and> rule_order rule < rule_order previous
          then best[start := Some rule_index] else best)"

fun scan :: "automaton \<Rightarrow> nat \<Rightarrow> nat \<Rightarrow> padding_entry list \<Rightarrow> nat option list \<Rightarrow> nat option list" where
  "scan a index state [] best = best"
| "scan a index state (entry # padding) best =
     (if entry_chosen entry then scan a (index + 1) 0 padding best
      else case map_of (tokens a) (bopomofo entry) of
        None \<Rightarrow> scan a (index + 1) 0 padding best
      | Some token \<Rightarrow>
          let s = follow (length (nodes a)) (nodes a) state token;
              s' = (case child_of (nodes a) s token of Some v \<Rightarrow> v | None \<Rightarrow> 0) in
          scan a (index + 1) s' padding (foldl (offer a index) best (outputs (nodes a ! s'))))"

text \<open>The replaced entries and the characters that replace them.\<close>

type_synonym replaced = "padding_entry list \<times> char32 option list"

fun put_characters :: "nat \<Rightarrow> char32 list \<Rightarrow> replaced \<Rightarrow> replaced" where
  "put_characters i [] out = out"
| "put_characters i (c # cs) (padding, replacements) =
     put_characters (i + 1) cs
       (padding[i := (padding ! i)\<lparr>entry_chosen := True, chosen_char := c\<rparr>], replacements[i := Some c])"

fun replace_matches :: "automaton \<Rightarrow> nat option list \<Rightarrow> nat \<Rightarrow> nat \<Rightarrow> replaced \<Rightarrow> replaced" where
  "replace_matches a best 0 start out = out"
| "replace_matches a best (Suc fuel) start out =
     (if \<not> start < length (fst out) then out
      else case best ! start of
        None \<Rightarrow> replace_matches a best fuel (start + 1) out
      | Some r \<Rightarrow>
          let matched = characters (rules a ! r) in
          replace_matches a best fuel (start + length matched) (put_characters start matched out))"

definition apply_names :: "automaton \<Rightarrow> padding_entry list \<Rightarrow> replaced" where
  "apply_names a padding =
     (let replacements = replicate (length padding) None in
      if padding = [] \<or> rules a = [] then (padding, replacements)
      else
        let best = scan a 0 0 padding (replicate (length padding) None) in
        replace_matches a best (length padding) 0 (padding, replacements))"

section \<open>What it is for\<close>

text \<open>
  The reference: at each entry, the longest usable name whose readings are those of the entries from
  there on, none of them fixed already, the first in the settings of equally long ones; its
  characters replace the entries, and the search goes on behind it.
\<close>

definition key_of :: "padding_entry \<Rightarrow> u16string option" where
  "key_of e = (if entry_chosen e then None else Some (bopomofo e))"

definition fits :: "custom_name \<Rightarrow> padding_entry list \<Rightarrow> bool" where
  "fits s padding \<longleftrightarrow> usable_setting s \<and> length (readings s) \<le> length padding \<and>
     map Some (readings s) = map key_of (take (length (readings s)) padding)"

fun longest_first :: "custom_name list \<Rightarrow> custom_name option" where
  "longest_first [] = None"
| "longest_first (s # ss) =
     (case longest_first ss of
        None \<Rightarrow> Some s
      | Some t \<Rightarrow> if length (name t) \<le> length (name s) then Some s else Some t)"

definition best_fit :: "custom_name list \<Rightarrow> padding_entry list \<Rightarrow> custom_name option" where
  "best_fit settings padding = longest_first (filter (\<lambda>s. fits s padding) settings)"

function greedy :: "custom_name list \<Rightarrow> padding_entry list \<Rightarrow> char32 option list" where
  "greedy settings [] = []"
| "greedy settings (e # es) =
     (case best_fit settings (e # es) of
        None \<Rightarrow> None # greedy settings es
      | Some s \<Rightarrow> map Some (name s) @ greedy settings (drop (length (name s)) (e # es)))"
  by pat_completeness auto

lemma longest_first_member: "longest_first ss = Some s \<Longrightarrow> s \<in> set ss"
  by (induction ss) (auto split: option.splits if_splits)

lemma best_fit_fits: "best_fit settings padding = Some s \<Longrightarrow> s \<in> set settings \<and> fits s padding"
  by (auto simp: best_fit_def dest: longest_first_member)

lemma fits_name: "fits s padding \<Longrightarrow> name s \<noteq> [] \<and> length (name s) = length (readings s) \<and> length (name s) \<le> length padding"
  by (auto simp: fits_def usable_setting_def)

termination greedy
proof (relation "measure (\<lambda>(_, es). length es)")
  fix settings e es s
  assume "best_fit settings (e # es) = Some s"
  then have "0 < length (name s)" using best_fit_fits fits_name by fastforce
  then show "((settings, drop (length (name s)) (e # es)), (settings, e # es)) \<in> measure (\<lambda>(_, es). length es)"
    by simp
qed simp_all

definition fix_entry :: "padding_entry \<Rightarrow> char32 option \<Rightarrow> padding_entry" where
  "fix_entry e r = (case r of None \<Rightarrow> e | Some c \<Rightarrow> e\<lparr>entry_chosen := True, chosen_char := c\<rparr>)"

end
