(* ===== verification/Prediction_Server.thy ===== *)
theory Prediction_Server
  imports Byte_Codec Custom_Names Conversion
begin

text \<open>
  \<open>service/src/service/prediction_pipe_server.hpp\<close>: the service's end of the prediction pipe, one
  \<open>handle_client\<close> for each connection.  The inference core is other code: \<open>infer\<close> is what a session's
  \<open>predict\<close> returned or threw after the calls before it (the characters of each prediction; their
  weights are not sent), and \<open>blank_entry\<close> is a default-constructed \<open>PaddingEntry\<close>.  Acquiring a
  session is \<open>Inference_Sessions\<close>.  The writer of the training data is a list of the calls it gets.
  Writes are taken to succeed: a connection that cannot be written to cannot be read from either.
\<close>

section \<open>Reading requests\<close>

definition maximum_context_length :: nat where "maximum_context_length = 4096"
definition maximum_entry_count :: nat where "maximum_entry_count = 1024"
definition maximum_entry_length :: nat where "maximum_entry_length = 1024"
definition maximum_answer_length :: nat where "maximum_answer_length = 1024"

lemmas pipe_limits = maximum_context_length_def maximum_entry_count_def maximum_entry_length_def maximum_answer_length_def

definition get_padding_entry :: "padding_entry \<Rightarrow> u8 list \<Rightarrow> (padding_entry \<times> u8 list) option" where
  "get_padding_entry blank bs =
     (case get_word 1 bs of
        None \<Rightarrow> None
      | Some (kind :: u8, rest) \<Rightarrow>
          if 1 < kind then None
          else if kind = 0
          then map_option (\<lambda>(s, rest). (blank\<lparr>bopomofo := s, entry_chosen := False\<rparr>, rest)) (get_utf16 maximum_entry_length rest)
          else
            (case get_word 4 rest of
               None \<Rightarrow> None
             | Some (c :: char32, rest) \<Rightarrow>
                 if 0x10FFFF < c then None else Some (blank\<lparr>chosen_char := c, entry_chosen := True\<rparr>, rest)))"

definition read_padding :: "padding_entry \<Rightarrow> u8 list \<Rightarrow> (padding_entry list \<times> u8 list) option" where
  "read_padding blank bs =
     (case get_u32 bs of
        None \<Rightarrow> None
      | Some (n, rest) \<Rightarrow> if maximum_entry_count < n then None else get_many (get_padding_entry blank) n rest)"

record raw_commit_entry =
  raw_reading :: u16string
  raw_output :: u16string
  raw_manually_selected :: bool

record raw_commit_event =
  event_context :: u16string
  event_answer :: u16string
  event_input :: "raw_commit_entry list"
  event_session :: string
  event_sequence :: u64
  event_time :: string

definition get_commit_entry :: "u8 list \<Rightarrow> (raw_commit_entry \<times> u8 list) option" where
  "get_commit_entry bs =
     (case get_utf16 maximum_entry_length bs of None \<Rightarrow> None | Some (reading, b1) \<Rightarrow>
     (case get_utf16 maximum_entry_length b1 of None \<Rightarrow> None | Some (out, b2) \<Rightarrow>
       if out = [] then None
       else
         (case get_word 1 b2 of None \<Rightarrow> None | Some (flag :: u8, b3) \<Rightarrow>
            if 1 < flag then None
            else Some (\<lparr>raw_reading = reading, raw_output = out, raw_manually_selected = (flag \<noteq> 0)\<rparr>, b3))))"

definition read_commit :: "string \<Rightarrow> string \<Rightarrow> u64 \<Rightarrow> u8 list \<Rightarrow> (raw_commit_event \<times> u8 list) option" where
  "read_commit session time latest bs =
     (case get_word 8 bs of None \<Rightarrow> None | Some (token, b1) \<Rightarrow>
       if token = 0 \<or> token \<le> latest then None
       else
         (case get_utf16 maximum_context_length b1 of None \<Rightarrow> None | Some (ctxt, b2) \<Rightarrow>
         (case get_utf16 maximum_answer_length b2 of None \<Rightarrow> None | Some (text, b3) \<Rightarrow>
         (case get_u32 b3 of None \<Rightarrow> None | Some (n, b4) \<Rightarrow>
            if n = 0 \<or> maximum_entry_count < n then None
            else map_option (\<lambda>(entries, rest).
              (\<lparr>event_context = ctxt, event_answer = text, event_input = entries, event_session = session,
                event_sequence = token, event_time = time\<rparr>, rest))
              (get_many get_commit_entry n b4)))))"

section \<open>Answering them\<close>

definition put_prediction :: "u32string \<Rightarrow> u8 list" where
  "put_prediction cs = put_u32 (length cs) @ put_many (put_word 4) cs"

definition write_response :: "u32string list \<Rightarrow> u8 list" where
  "write_response results = put_u32 (length results) @ put_many put_prediction results"

text \<open>The characters of custom names replace what the model predicted for their entries.\<close>

fun override :: "u32string list \<Rightarrow> char32 option list \<Rightarrow> u32string list" where
  "override (r # rs) (x # xs) = (case x of Some c \<Rightarrow> [c] | None \<Rightarrow> r) # override rs xs"
| "override rs xs = rs"

definition mode_byte :: "input_mode \<Rightarrow> u8" where
  "mode_byte m = (case m of Chinese \<Rightarrow> 0 | English \<Rightarrow> 1)"

definition toggled :: "input_mode \<Rightarrow> input_mode" where
  "toggled m = (if m = Chinese then English else Chinese)"

datatype session_call =
    Session_prefill u16string
  | Session_predict u16string "padding_entry list"

datatype writer_call =
    Enqueue raw_commit_event
  | Discard_staged string u64

record service =
  blank_entry :: padding_entry
  infer :: "session_call list \<Rightarrow> u16string \<Rightarrow> padding_entry list \<Rightarrow> exn + u32string list"
  ready_succeeds :: bool
  custom_names :: automaton
  collection_session :: string
  utc_time :: string

text \<open>The input mode is one variable of the service, which all its connections share; here it is part of the one
  connection looked at, and what the others do to it meanwhile is left out.  Only the answers to mode requests
  read it, and no property speaks of them.\<close>

record connection =
  service_mode :: input_mode
  latest_commit_token :: u64
  session_calls :: "session_call list"
  writer_calls :: "writer_call list"
  response :: "u8 list"

definition respond :: "u8 list \<Rightarrow> connection \<Rightarrow> connection" where
  "respond bs c = c\<lparr>response := response c @ bs\<rparr>"

definition serve_predict :: "service \<Rightarrow> u16string \<Rightarrow> padding_entry list \<Rightarrow> connection \<Rightarrow> connection" where
  "serve_predict S ctxt padding c =
     (case apply_names (custom_names S) padding of
        (padding', replacements) \<Rightarrow>
          let c1 = c\<lparr>session_calls := session_calls c @ [Session_predict ctxt padding']\<rparr> in
          (case infer S (session_calls c) ctxt padding' of
             Inl e \<Rightarrow> respond (put_u32 0) c1
           | Inr results \<Rightarrow> respond (write_response (override results replacements)) c1))"

text \<open>One command: the bytes behind it and the connection afterwards, or nothing when the loop ends.\<close>

definition serve_command :: "service \<Rightarrow> u8 list \<Rightarrow> connection \<Rightarrow> (u8 list \<times> connection) option" where
  "serve_command S b0 c =
     (case get_word 1 b0 of None \<Rightarrow> None | Some (command :: u8, b1) \<Rightarrow>
        if command = 2 then
          let m = toggled (service_mode c) in Some (b1, respond (put_word 1 (mode_byte m)) (c\<lparr>service_mode := m\<rparr>))
        else if command = 3 then Some (b1, respond (put_word 1 (mode_byte (service_mode c))) c)
        else if command = 4 then Some (b1, respond (put_flag (ready_succeeds S)) c)
        else if command = 7 then
          (case get_utf16 maximum_context_length b1 of None \<Rightarrow> None | Some (ctxt, b2) \<Rightarrow>
             Some (b2, c\<lparr>session_calls := session_calls c @ [Session_prefill ctxt]\<rparr>))
        else if command = 5 then
          (case read_commit (collection_session S) (utc_time S) (latest_commit_token c) b1 of None \<Rightarrow> None | Some (event, b2) \<Rightarrow>
             Some (b2, c\<lparr>writer_calls := writer_calls c @ [Enqueue event], latest_commit_token := event_sequence event\<rparr>))
        else if command = 6 then
          (case get_word 8 b1 of None \<Rightarrow> None | Some (token, b2) \<Rightarrow>
             Some (b2, if token = latest_commit_token c
                       then c\<lparr>writer_calls := writer_calls c @ [Discard_staged (collection_session S) token]\<rparr> else c))
        else if command \<noteq> 1 then None
        else
          (case get_utf16 maximum_context_length b1 of None \<Rightarrow> None | Some (ctxt, b2) \<Rightarrow>
          (case read_padding (blank_entry S) b2 of None \<Rightarrow> None | Some (padding, b3) \<Rightarrow>
             if padding = [] \<and> ctxt = [] then None else Some (b3, serve_predict S ctxt padding c))))"

text \<open>The loop, on everything the client sends before it closes its end.\<close>

fun serve_client :: "nat \<Rightarrow> service \<Rightarrow> u8 list \<Rightarrow> connection \<Rightarrow> connection" where
  "serve_client 0 S bs c = c"
| "serve_client (Suc fuel) S bs c =
     (case serve_command S bs c of None \<Rightarrow> c | Some (rest, c') \<Rightarrow> serve_client fuel S rest c')"

text \<open>Each command takes a byte, so the bytes are fuel enough.\<close>

lemma get_padding_entry_consumes: "get_padding_entry blank bs = Some (e, rest) \<Longrightarrow> length rest \<le> length bs"
  by (auto simp: get_padding_entry_def split: option.splits if_splits
      dest!: get_word_consumes get_utf16_consumes)

lemma get_commit_entry_consumes: "get_commit_entry bs = Some (e, rest) \<Longrightarrow> length rest \<le> length bs"
  by (auto simp: get_commit_entry_def split: option.splits if_splits dest!: get_word_consumes get_utf16_consumes)

lemma get_padding_entries_consume:
  assumes "get_many (get_padding_entry blank) n bs = Some (es, rest)"
  shows "length rest \<le> length bs"
  using get_many_consumes [OF _ assms] get_padding_entry_consumes by blast

lemma get_commit_entries_consume:
  assumes "get_many get_commit_entry n bs = Some (es, rest)"
  shows "length rest \<le> length bs"
  using get_many_consumes [OF _ assms] get_commit_entry_consumes by blast

lemma read_padding_consumes: "read_padding blank bs = Some (es, rest) \<Longrightarrow> length rest \<le> length bs"
  by (auto simp: read_padding_def split: option.splits if_splits dest!: get_u32_consumes get_padding_entries_consume)

lemma read_commit_consumes: "read_commit session time latest bs = Some (e, rest) \<Longrightarrow> length rest \<le> length bs"
  by (auto simp: read_commit_def split: option.splits if_splits
      dest!: get_word_consumes get_utf16_consumes get_u32_consumes get_commit_entries_consume)

lemma serve_command_consumes:
  assumes "serve_command S bs c = Some (rest, c')"
  shows "length rest < length bs"
  using assms
  by (auto simp: serve_command_def Let_def split: option.splits if_splits
      dest!: get_word_consumes get_utf16_consumes read_padding_consumes read_commit_consumes)

lemma serve_client_enough:
  "length bs < fuel \<Longrightarrow> serve_client fuel S bs c = serve_client (Suc (length bs)) S bs c"
proof (induction "length bs" arbitrary: bs c fuel rule: less_induct)
  case less
  obtain f where f: "fuel = Suc f" using less.prems by (cases fuel) auto
  show ?case
  proof (cases "serve_command S bs c")
    case (Some r)
    obtain rest c' where r: "r = (rest, c')" by (cases r)
    then have short: "length rest < length bs" using Some serve_command_consumes by blast
    have "serve_client f S rest c' = serve_client (Suc (length rest)) S rest c'"
      using less.hyps [OF short, of f c'] short less.prems f by simp
    moreover have "serve_client (length bs) S rest c' = serve_client (Suc (length rest)) S rest c'"
      using less.hyps [OF short, of "length bs" c'] short by simp
    ultimately show ?thesis using Some r f by simp
  qed (use f in simp)
qed

end
