(* ===== verification/Longest_Suffix.thy ===== *)
theory Longest_Suffix
  imports Prelude "HOL-Library.Sublist"
begin

text \<open>
  The longest suffix of a word that belongs to a prefix-closed set of words, which is what a state of
  an Aho-Corasick automaton stands for, and the best element of a set under an order, which is what
  the scan keeps for every start position.
\<close>

section \<open>Longest suffix in a set\<close>

fun longest_suffix :: "'a list set \<Rightarrow> 'a list \<Rightarrow> 'a list" where
  "longest_suffix W [] = []"
| "longest_suffix W (x # xs) = (if x # xs \<in> W then x # xs else longest_suffix W xs)"

definition prefix_closed :: "'a list set \<Rightarrow> bool" where
  "prefix_closed W \<longleftrightarrow> [] \<in> W \<and> (\<forall>w a. w @ [a] \<in> W \<longrightarrow> w \<in> W)"

lemma longest_suffix_suffix: "suffix (longest_suffix W w) w"
  by (induction w) (auto intro: suffix_ConsI)

lemma longest_suffix_in: "[] \<in> W \<Longrightarrow> longest_suffix W w \<in> W"
  by (induction w) auto

lemma longest_suffix_id [simp]: "w \<in> W \<Longrightarrow> longest_suffix W w = w"
  by (cases w) auto

lemma longest_suffix_greatest: "v \<in> W \<Longrightarrow> suffix v w \<Longrightarrow> suffix v (longest_suffix W w)"
proof (induction w)
  case (Cons x w)
  then show ?case by (auto simp: suffix_Cons)
qed simp

lemma suffix_longest_iff: "v \<in> W \<Longrightarrow> suffix v (longest_suffix W w) \<longleftrightarrow> suffix v w"
  using longest_suffix_greatest [of v W w] longest_suffix_suffix [of W w] by (blast intro: suffix_order.trans)

lemma longest_suffix_length: "length (longest_suffix W w) \<le> length w"
  using longest_suffix_suffix [of W w] by (rule suffix_length_le)

text \<open>One more letter can be read from the longest suffix alone.\<close>

lemma longest_suffix_snoc:
  assumes "prefix_closed W"
  shows "longest_suffix W (w @ [a]) = longest_suffix W (longest_suffix W w @ [a])"
proof (induction w)
  case (Cons x w)
  show ?case
  proof (cases "x # w \<in> W")
    case False
    then have "(x # w) @ [a] \<notin> W" using assms by (auto simp: prefix_closed_def simp del: append_Cons)
    with False Cons show ?thesis by simp
  qed simp
qed simp

lemma longest_suffix_foreign: "(\<forall>w \<in> W. a \<notin> set w) \<Longrightarrow> longest_suffix W (w @ [a]) = []"
  by (induction w) auto

lemma longest_suffix_next:
  assumes "prefix_closed W" "u \<in> W" "u @ [a] \<notin> W" "u \<noteq> []"
  shows "longest_suffix W (u @ [a]) = longest_suffix W (longest_suffix W (tl u) @ [a])"
  using assms longest_suffix_snoc [OF assms(1), of "tl u" a] by (cases u) auto

text \<open>A prefix-closed set has all prefixes of its words.\<close>

lemma prefix_closed_prefix: "prefix_closed W \<Longrightarrow> prefix v w \<Longrightarrow> w \<in> W \<Longrightarrow> v \<in> W"
proof (induction w rule: rev_induct)
  case (snoc a w)
  then show ?case by (auto simp: prefix_closed_def)
qed (auto simp: prefix_closed_def)

lemma prefix_closed_bound:
  assumes "prefix_closed W" "finite W" "w \<in> W"
  shows "length w < card W"
proof -
  let ?ps = "(\<lambda>k. take k w) ` {..length w}"
  have "?ps \<subseteq> W" using prefix_closed_prefix [OF assms(1) take_is_prefix assms(3)] by blast
  moreover have "inj_on (\<lambda>k. take k w) {..length w}"
    by (auto simp: inj_on_def dest: arg_cong [where f = length])
  then have "card ?ps = length w + 1" by (simp add: card_image)
  ultimately show ?thesis using card_mono [OF assms(2), of ?ps] by simp
qed

section \<open>The best of a set\<close>

definition best_of :: "('a \<Rightarrow> 'a \<Rightarrow> bool) \<Rightarrow> 'a set \<Rightarrow> 'a option \<Rightarrow> bool" where
  "best_of better S x \<longleftrightarrow>
     (case x of None \<Rightarrow> S = {} | Some r \<Rightarrow> r \<in> S \<and> (\<forall>q \<in> S. q \<noteq> r \<longrightarrow> better r q))"

definition strict_total :: "('a \<Rightarrow> 'a \<Rightarrow> bool) \<Rightarrow> 'a set \<Rightarrow> bool" where
  "strict_total better U \<longleftrightarrow>
     (\<forall>x \<in> U. \<not> better x x) \<and> (\<forall>x \<in> U. \<forall>y \<in> U. x \<noteq> y \<longrightarrow> better x y \<or> better y x) \<and>
     (\<forall>x \<in> U. \<forall>y \<in> U. \<forall>z \<in> U. better x y \<longrightarrow> better y z \<longrightarrow> better x z)"

lemma best_of_insert:
  assumes "strict_total better U" "S \<subseteq> U" "r \<in> U" "best_of better S x"
  shows "best_of better (insert r S)
    (case x of None \<Rightarrow> Some r | Some c \<Rightarrow> if better r c then Some r else Some c)"
proof (cases x)
  case None
  then show ?thesis using assms(4) by (simp add: best_of_def)
next
  case (Some c)
  have c: "c \<in> S" "\<forall>q \<in> S. q \<noteq> c \<longrightarrow> better c q" using assms(4) Some by (simp_all add: best_of_def)
  have U: "c \<in> U" using c(1) assms(2) by blast
  show ?thesis
  proof (cases "better r c")
    case True
    have "better r q" if "q \<in> S" "q \<noteq> r" for q
    proof (cases "q = c")
      case False
      then have "better c q" "q \<in> U" using c(2) that assms(2) by blast+
      then show ?thesis using True assms(1,3) U unfolding strict_total_def by blast
    qed (use True in simp)
    then show ?thesis using Some True by (simp add: best_of_def)
  next
    case False
    then have "r \<noteq> c \<longrightarrow> better c r" using assms(1,3) U unfolding strict_total_def by blast
    then show ?thesis using Some False c by (auto simp: best_of_def)
  qed
qed

lemma best_of_unique:
  assumes "strict_total better U" "S \<subseteq> U" "best_of better S x" "best_of better S y"
  shows "x = y"
proof (cases x; cases y)
  fix a b assume xy: "x = Some a" "y = Some b"
  then have "a \<in> S" "b \<in> S" "a \<noteq> b \<longrightarrow> better a b" "a \<noteq> b \<longrightarrow> better b a"
    using assms(3,4) by (auto simp: best_of_def)
  then have "a = b" using assms(1,2) unfolding strict_total_def by blast
  with xy show ?thesis by simp
qed (use assms(3,4) in \<open>auto simp: best_of_def\<close>)

end
