(* ===== verification/Name_Automaton.thy ===== *)
theory Name_Automaton
  imports Custom_Names Longest_Suffix "HOL-Library.Multiset"
begin

text \<open>
  The automaton of the custom names is right: \<open>word v\<close> is the token word that leads to node \<open>v\<close>; the
  trie holds exactly the prefixes of the names' words, linking sets every failure link to the longest
  proper suffix that is a node and every output list to the names that end there, and the scan stands
  at the longest suffix of what it has read.
\<close>

section \<open>Tries\<close>

definition words_of :: "node list \<Rightarrow> (nat \<Rightarrow> nat list) \<Rightarrow> nat list set" where
  "words_of ns word = word ` {..< length ns}"

definition trie :: "node list \<Rightarrow> (nat \<Rightarrow> nat list) \<Rightarrow> bool" where
  "trie ns word \<longleftrightarrow>
     0 < length ns \<and> word 0 = [] \<and> inj_on word {..< length ns} \<and>
     (\<forall>u < length ns. \<forall>t v. child_of ns u t = Some v \<longleftrightarrow> v < length ns \<and> word v = word u @ [t]) \<and>
     (\<forall>u < length ns. distinct (map fst (nexts (ns ! u)))) \<and>
     (\<forall>v < length ns. v \<noteq> 0 \<longrightarrow> (\<exists>u < length ns. \<exists>t. word v = word u @ [t]))"

lemma trieD:
  assumes "trie ns word"
  shows "0 < length ns" "word 0 = []" "inj_on word {..< length ns}"
    "\<And>u t v. u < length ns \<Longrightarrow> child_of ns u t = Some v \<longleftrightarrow> v < length ns \<and> word v = word u @ [t]"
    "\<And>u. u < length ns \<Longrightarrow> distinct (map fst (nexts (ns ! u)))"
    "\<And>v. v < length ns \<Longrightarrow> v \<noteq> 0 \<Longrightarrow> \<exists>u < length ns. \<exists>t. word v = word u @ [t]"
  using assms by (auto simp: trie_def)

lemma trie_word_eq: "trie ns word \<Longrightarrow> u < length ns \<Longrightarrow> v < length ns \<Longrightarrow> word u = word v \<longleftrightarrow> u = v"
  using trieD(3) [of ns word] by (auto simp: inj_on_def)

lemma trie_root: "trie ns word \<Longrightarrow> v < length ns \<Longrightarrow> word v = [] \<longleftrightarrow> v = 0"
  using trie_word_eq [of ns word v 0] trieD(1,2) [of ns word] by simp

lemma trie_prefix_closed: "trie ns word \<Longrightarrow> prefix_closed (words_of ns word)"
  unfolding prefix_closed_def words_of_def
proof (intro conjI allI impI)
  assume t: "trie ns word"
  then show "[] \<in> word ` {..< length ns}"
    using trieD(1,2) [OF t] by (intro image_eqI [of _ _ 0]) simp_all
  fix w a assume "w @ [a] \<in> word ` {..< length ns}"
  then obtain v where v: "v < length ns" "word v = w @ [a]" by auto
  then have "v \<noteq> 0" using trieD(2) [OF t] by (cases v) auto
  then obtain u t' where "u < length ns" "word v = word u @ [t']" using trieD(6) [OF t v(1)] by blast
  then show "w \<in> word ` {..< length ns}" using v(2) by auto
qed

lemma words_of_finite [simp]: "finite (words_of ns word)"
  by (simp add: words_of_def)

lemma words_of_I: "v < length ns \<Longrightarrow> word v \<in> words_of ns word"
  by (simp add: words_of_def)

lemma word_length_less:
  assumes "trie ns word" "v < length ns"
  shows "length (word v) < length ns"
proof -
  have "length (word v) < card (words_of ns word)"
    using prefix_closed_bound [OF trie_prefix_closed [OF assms(1)] words_of_finite words_of_I [of v ns word]] assms(2) by simp
  also have "\<dots> \<le> length ns" unfolding words_of_def by (metis card_image_le card_lessThan finite_lessThan)
  finally show ?thesis .
qed

text \<open>What the trie is depends only on its edges.\<close>

lemma trie_cong:
  assumes "length ns' = length ns" "\<And>u. u < length ns \<Longrightarrow> nexts (ns' ! u) = nexts (ns ! u)"
  shows "trie ns' word = trie ns word"
  using assms by (auto simp: trie_def)

section \<open>Following failure links\<close>

definition linked_node :: "node list \<Rightarrow> (nat \<Rightarrow> nat list) \<Rightarrow> nat \<Rightarrow> bool" where
  "linked_node ns word v \<longleftrightarrow>
     failure (ns ! v) < length ns \<and> word (failure (ns ! v)) = longest_suffix (words_of ns word) (tl (word v))"

text \<open>The transition from the state where following stops.\<close>

lemma stopped_step:
  assumes t: "trie ns word" and s: "s < length ns" and stop: "s = 0 \<or> child_of ns s a \<noteq> None"
  shows "case child_of ns s a of
       Some v \<Rightarrow> v < length ns \<and> word v = longest_suffix (words_of ns word) (word s @ [a])
     | None \<Rightarrow> s = 0 \<and> longest_suffix (words_of ns word) (word s @ [a]) = []"
proof (cases "child_of ns s a")
  case None
  with stop have "s = 0" by simp
  moreover have "[a] \<notin> words_of ns word"
  proof
    assume "[a] \<in> words_of ns word"
    then obtain v where "v < length ns" "word v = word 0 @ [a]"
      using trieD(2) [OF t] by (auto simp: words_of_def)
    then have "child_of ns 0 a = Some v" using trieD(1,4) [OF t] by simp
    with None \<open>s = 0\<close> show False by simp
  qed
  ultimately show ?thesis using None trieD(2) [OF t] by simp
next
  case (Some v)
  then have "v < length ns" "word v = word s @ [a]" using trieD(4) [OF t s] by simp_all
  with Some words_of_I [of v ns word] show ?thesis by simp
qed

text \<open>From a state whose failure chain is linked, the transition reads one token more.\<close>

lemma follow_step:
  assumes t: "trie ns word"
    and "s < length ns" "length (word s) \<le> fuel"
    and "\<And>v. v < length ns \<Longrightarrow> v \<noteq> 0 \<Longrightarrow> length (word v) \<le> length (word s) \<Longrightarrow> linked_node ns word v"
  shows "follow fuel ns s a < length ns \<and>
    (case child_of ns (follow fuel ns s a) a of
       Some v \<Rightarrow> v < length ns \<and> word v = longest_suffix (words_of ns word) (word s @ [a])
     | None \<Rightarrow> follow fuel ns s a = 0 \<and> longest_suffix (words_of ns word) (word s @ [a]) = [])"
  using assms(2-4)
proof (induction fuel arbitrary: s)
  case 0
  then have "s = 0" using trie_root [OF t] by simp
  then show ?case
    using stopped_step [OF t 0(1), of a] 0(1) unfolding follow.simps by (auto split: option.splits)
next
  case (Suc fuel)
  show ?case
  proof (cases "s \<noteq> 0 \<and> child_of ns s a = None")
    case True
    then have root: "word s \<noteq> []" using trie_root [OF t Suc.prems(1)] by simp
    have link: "linked_node ns word s" using Suc.prems(1,3) True by simp
    let ?f = "failure (ns ! s)"
    have f: "?f < length ns" "word ?f = longest_suffix (words_of ns word) (tl (word s))"
      using link by (simp_all add: linked_node_def)
    have shorter: "length (word ?f) < length (word s)"
      using longest_suffix_length [of "words_of ns word" "tl (word s)"] root f(2) by (cases "word s") auto
    have "word s @ [a] \<notin> words_of ns word"
    proof
      assume "word s @ [a] \<in> words_of ns word"
      then obtain v where "v < length ns" "word v = word s @ [a]" by (auto simp: words_of_def)
      then have "child_of ns s a = Some v" using trieD(4) [OF t Suc.prems(1)] by simp
      with True show False by simp
    qed
    then have eq: "longest_suffix (words_of ns word) (word s @ [a]) = longest_suffix (words_of ns word) (word ?f @ [a])"
      using longest_suffix_next [OF trie_prefix_closed [OF t] words_of_I [of s ns word]] Suc.prems(1) root f(2) by simp
    have "linked_node ns word v" if "v < length ns" "v \<noteq> 0" "length (word v) \<le> length (word ?f)" for v
      using Suc.prems(3) that shorter by simp
    moreover have step: "follow (Suc fuel) ns s a = follow fuel ns ?f a" using True by simp
    ultimately show ?thesis using Suc.IH [OF f(1)] Suc.prems(2) shorter unfolding eq step by simp
  next
    case False
    then have step: "follow (Suc fuel) ns s a = s" by auto
    have "s = 0 \<or> child_of ns s a \<noteq> None" using False by auto
    then show ?thesis unfolding step using stopped_step [OF t Suc.prems(1), of a] Suc.prems(1) by blast
  qed
qed

section \<open>Linking one child\<close>

text \<open>A node is finished when its failure link is right and its outputs are all the rules that end there.\<close>

definition finished :: "node list \<Rightarrow> (nat \<Rightarrow> nat list) \<Rightarrow> (nat \<Rightarrow> nat list) \<Rightarrow> nat \<Rightarrow> nat \<Rightarrow> bool" where
  "finished ns word rw R v \<longleftrightarrow>
     linked_node ns word v \<and> set (outputs (ns ! v)) = {r. r < R \<and> suffix (rw r) (word v)}"

lemma finished_cong:
  "length ns' = length ns \<Longrightarrow> ns' ! v = ns ! v \<Longrightarrow> finished ns' word rw R v = finished ns word rw R v"
  by (simp add: finished_def linked_node_def words_of_def)

lemma suffix_proper: "w \<noteq> [] \<Longrightarrow> suffix v w \<longleftrightarrow> v = w \<or> suffix v (tl w)"
  by (cases w) (auto simp: suffix_Cons)

lemma link_child_finishes:
  assumes t: "trie ns word" and rw: "\<And>r. r < R \<Longrightarrow> rw r \<in> words_of ns word"
    and p: "p < length ns" "p \<noteq> 0" and edge: "child_of ns p tok = Some c"
    and fin: "\<And>v. v < length ns \<Longrightarrow> length (word v) \<le> length (word p) \<Longrightarrow> finished ns word rw R v"
    and outs: "set (outputs (ns ! c)) = {r. r < R \<and> rw r = word c}"
  shows "\<exists>x. link_child p ns (tok, c) = ns[c := x] \<and> nexts x = nexts (ns ! c) \<and>
    finished (ns[c := x]) word rw R c"
proof -
  let ?W = "words_of ns word"
  let ?s = "failure (ns ! p)"
  let ?f = "follow (length ns) ns ?s tok"
  let ?f' = "case child_of ns ?f tok of Some v \<Rightarrow> v | None \<Rightarrow> ?f"
  let ?x = "(ns ! c)\<lparr>failure := ?f', outputs := outputs (ns ! c) @ outputs (ns ! ?f')\<rparr>"
  have c: "c < length ns" "word c = word p @ [tok]" using trieD(4) [OF t p(1)] edge by simp_all
  have nonempty: "word p \<noteq> []" using trie_root [OF t p(1)] p(2) by simp
  have tl: "tl (word c) = tl (word p) @ [tok]" "word c \<noteq> []" using c(2) nonempty by simp_all
  have s: "?s < length ns" "word ?s = longest_suffix ?W (tl (word p))"
    using fin [OF p(1)] by (simp_all add: finished_def linked_node_def)
  have short: "length (word ?s) < length (word p)"
    using longest_suffix_length [of ?W "tl (word p)"] nonempty s(2) by (cases "word p") auto
  have "linked_node ns word v" if "v < length ns" "v \<noteq> 0" "length (word v) \<le> length (word ?s)" for v
    using fin [OF that(1)] that(3) short by (simp add: finished_def)
  with follow_step [OF t s(1), of "length ns" tok] word_length_less [OF t s(1)]
  have "?f < length ns" and step: "case child_of ns ?f tok of
       Some v \<Rightarrow> v < length ns \<and> word v = longest_suffix ?W (word ?s @ [tok])
     | None \<Rightarrow> ?f = 0 \<and> longest_suffix ?W (word ?s @ [tok]) = []"
    by auto
  moreover have "longest_suffix ?W (word ?s @ [tok]) = longest_suffix ?W (tl (word c))"
    unfolding s(2) tl by (rule longest_suffix_snoc [OF trie_prefix_closed [OF t], symmetric])
  ultimately have f': "?f' < length ns" "word ?f' = longest_suffix ?W (tl (word c))"
    using trieD(2) [OF t] by (auto split: option.splits)
  have "length (word ?f') \<le> length (word p)"
    using longest_suffix_length [of ?W "tl (word c)"] f'(2) tl c(2) nonempty by simp
  then have "set (outputs (ns ! ?f')) = {r. r < R \<and> suffix (rw r) (word ?f')}"
    using fin [OF f'(1)] by (simp add: finished_def)
  also have "\<dots> = {r. r < R \<and> suffix (rw r) (tl (word c))}"
    unfolding f'(2) using suffix_longest_iff [OF rw] by auto
  finally have "set (outputs ?x) = {r. r < R \<and> suffix (rw r) (word c)}"
    using outs suffix_proper [OF tl(2)] by auto
  moreover have "linked_node (ns[c := ?x]) word c"
    using c(1) f' by (simp add: linked_node_def words_of_def)
  ultimately have "finished (ns[c := ?x]) word rw R c" using c(1) by (simp add: finished_def)
  moreover have "link_child p ns (tok, c) = ns[c := ?x]" by (simp add: link_child_def Let_def)
  ultimately show ?thesis by (intro exI [of _ ?x]) simp
qed

section \<open>Linking all children of a node\<close>

lemma link_children:
  assumes "trie ns word" "\<And>r. r < R \<Longrightarrow> rw r \<in> words_of ns word" "p < length ns" "p \<noteq> 0"
    and "\<And>e. e \<in> set es \<Longrightarrow> child_of ns p (fst e) = Some (snd e)" "distinct (map snd es)"
    and "\<And>v. v < length ns \<Longrightarrow> length (word v) \<le> length (word p) \<Longrightarrow> finished ns word rw R v"
    and "\<And>e. e \<in> set es \<Longrightarrow> set (outputs (ns ! snd e)) = {r. r < R \<and> rw r = word (snd e)}"
  shows "length (foldl (link_child p) ns es) = length ns \<and>
    (\<forall>v. nexts (foldl (link_child p) ns es ! v) = nexts (ns ! v)) \<and>
    (\<forall>v. v \<notin> snd ` set es \<longrightarrow> foldl (link_child p) ns es ! v = ns ! v) \<and>
    (\<forall>e \<in> set es. finished (foldl (link_child p) ns es) word rw R (snd e))"
  using assms
proof (induction es arbitrary: ns)
  case (Cons e es)
  obtain tok c where e: "e = (tok, c)" by (cases e)
  have edge: "child_of ns p tok = Some c" using Cons.prems(5) [of e] e by simp
  have c: "c < length ns" "word c = word p @ [tok]" using trieD(4) [OF Cons.prems(1,3)] edge by simp_all
  obtain x where x: "link_child p ns (tok, c) = ns[c := x]" "nexts x = nexts (ns ! c)" "finished (ns[c := x]) word rw R c"
    using link_child_finishes [OF Cons.prems(1,2,3,4) edge Cons.prems(7)] Cons.prems(8) [of e] e by auto
  let ?ns = "ns[c := x]"
  have nexts: "nexts (?ns ! v) = nexts (ns ! v)" for v using x(2) by (cases "v = c") (simp_all add: nth_list_update c(1))
  have fresh: "snd e' \<noteq> c" if "e' \<in> set es" for e' using Cons.prems(6) e that by auto
  have "length (foldl (link_child p) ?ns es) = length ?ns \<and>
    (\<forall>v. nexts (foldl (link_child p) ?ns es ! v) = nexts (?ns ! v)) \<and>
    (\<forall>v. v \<notin> snd ` set es \<longrightarrow> foldl (link_child p) ?ns es ! v = ?ns ! v) \<and>
    (\<forall>e \<in> set es. finished (foldl (link_child p) ?ns es) word rw R (snd e))"
  proof (rule Cons.IH)
    show "trie ?ns word" using trie_cong [of ?ns ns word] nexts Cons.prems(1) by simp
    show "rw r \<in> words_of ?ns word" if "r < R" for r using Cons.prems(2) [OF that] by (simp add: words_of_def)
    show "finished ?ns word rw R v" if "v < length ?ns" "length (word v) \<le> length (word p)" for v
    proof -
      have "c \<noteq> v" using that(2) c(2) by auto
      then show ?thesis using Cons.prems(7) [of v] that finished_cong [of ?ns ns v word rw R] by simp
    qed
    show "set (outputs (?ns ! snd e')) = {r. r < R \<and> rw r = word (snd e')}" if "e' \<in> set es" for e'
      using Cons.prems(8) [of e'] fresh [OF that] that by simp
  qed (use Cons.prems(3-6) nexts in simp_all)
  then have IH: "length (foldl (link_child p) ?ns es) = length ns"
    "\<And>v. nexts (foldl (link_child p) ?ns es ! v) = nexts (ns ! v)"
    "\<And>v. v \<notin> snd ` set es \<Longrightarrow> foldl (link_child p) ?ns es ! v = ?ns ! v"
    "\<And>e. e \<in> set es \<Longrightarrow> finished (foldl (link_child p) ?ns es) word rw R (snd e)"
    using nexts by auto
  have "finished (foldl (link_child p) ?ns es) word rw R c"
  proof -
    have "c \<notin> snd ` set es" using fresh by blast
    then show ?thesis
      using finished_cong [of "foldl (link_child p) ?ns es" ?ns c word rw R] IH(1,3) x(3) by simp
  qed
  with IH show ?case by (auto simp: e x(1))
qed simp

section \<open>The breadth-first queue\<close>

definition bfs :: "(nat \<Rightarrow> nat list) \<Rightarrow> (nat \<Rightarrow> nat list) \<Rightarrow> nat \<Rightarrow> nat set \<Rightarrow> nat list \<Rightarrow> node list \<Rightarrow> bool" where
  "bfs word rw R D pending ns \<longleftrightarrow>
     D \<subseteq> {..< length ns} \<and> 0 \<in> D \<and> set pending \<subseteq> {..< length ns} \<and> distinct pending \<and> set pending \<inter> D = {} \<and>
     (\<forall>u < length ns. \<forall>t v. child_of ns u t = Some v \<longrightarrow> (v \<in> D \<union> set pending \<longleftrightarrow> u \<in> D)) \<and>
     sorted (map (\<lambda>v. length (word v)) pending) \<and>
     (\<forall>x \<in> set pending. \<forall>y \<in> set pending. length (word y) \<le> length (word x) + 1) \<and>
     (\<forall>v \<in> D \<union> set pending. finished ns word rw R v) \<and>
     (\<forall>v < length ns. v \<notin> D \<union> set pending \<longrightarrow> set (outputs (ns ! v)) = {r. r < R \<and> rw r = word v})"

text \<open>Everything no deeper than the head of the queue has been reached.\<close>

lemma bfs_reached:
  assumes t: "trie ns word" and b: "bfs word rw R D pending ns"
    and low: "\<And>x. x \<in> set pending \<Longrightarrow> k \<le> length (word x)"
  shows "v < length ns \<Longrightarrow> length (word v) \<le> k \<Longrightarrow> v \<in> D \<union> set pending"
proof (induction "length (word v)" arbitrary: v rule: less_induct)
  case less
  show ?case
  proof (cases "v = 0")
    case True
    then show ?thesis using b by (simp add: bfs_def)
  next
    case False
    then obtain u tok where u: "u < length ns" "word v = word u @ [tok]" using trieD(6) [OF t less.prems(1)] by blast
    have "u \<in> D \<union> set pending" using less.hyps [OF _ u(1)] u(2) less.prems(2) by simp
    then have "u \<in> D" using low [of u] u(2) less.prems(2) by auto
    moreover have "child_of ns u tok = Some v" using trieD(4) [OF t u(1)] u(2) less.prems(1) by simp
    ultimately show ?thesis using b u(1) unfolding bfs_def by blast
  qed
qed

lemma children_of:
  assumes t: "trie ns word" and p: "p < length ns"
  shows "e \<in> set (nexts (ns ! p)) \<Longrightarrow> child_of ns p (fst e) = Some (snd e)"
    and "e \<in> set (nexts (ns ! p)) \<Longrightarrow> snd e < length ns \<and> word (snd e) = word p @ [fst e]"
    and "distinct (map snd (nexts (ns ! p)))"
    and "snd ` set (nexts (ns ! p)) = {c. \<exists>tok. child_of ns p tok = Some c}"
proof -
  note d = trieD(5) [OF t p]
  show e: "child_of ns p (fst e) = Some (snd e)" if "e \<in> set (nexts (ns ! p))" for e
    using d that by (cases e) simp
  then show w: "snd e < length ns \<and> word (snd e) = word p @ [fst e]" if "e \<in> set (nexts (ns ! p))" for e
    using trieD(4) [OF t p, of "fst e" "snd e"] that by simp
  have "inj_on snd (set (nexts (ns ! p)))"
    using w by (intro inj_onI) (metis last_snoc prod.collapse)
  then show "distinct (map snd (nexts (ns ! p)))"
    using d by (simp add: distinct_map)
  show "snd ` set (nexts (ns ! p)) = {c. \<exists>tok. child_of ns p tok = Some c}"
    using e by (force dest: map_of_SomeD)
qed

lemma bfs_step:
  assumes t: "trie ns word" and rw: "\<And>r. r < R \<Longrightarrow> rw r \<in> words_of ns word"
    and b: "bfs word rw R D (p # pending) ns" and edges: "mset es = mset (nexts (ns ! p))"
  shows "bfs word rw R (insert p D) (pending @ map snd es) (foldl (link_child p) ns es) \<and>
    trie (foldl (link_child p) ns es) word \<and> length (foldl (link_child p) ns es) = length ns"
proof -
  let ?ns = "foldl (link_child p) ns es"
  have p: "p < length ns" "p \<noteq> 0" "p \<notin> D" using b by (auto simp: bfs_def)
  have set_es: "set es = set (nexts (ns ! p))" using edges by (rule mset_eq_setD)
  have es: "\<And>e. e \<in> set es \<Longrightarrow> child_of ns p (fst e) = Some (snd e)"
    "\<And>e. e \<in> set es \<Longrightarrow> snd e < length ns \<and> word (snd e) = word p @ [fst e]"
    "snd ` set es = {c. \<exists>tok. child_of ns p tok = Some c}"
    using children_of [OF t p(1)] set_es by simp_all
  have distinct: "distinct (map snd es)"
    using children_of(3) [OF t p(1)] edges by (metis mset_eq_imp_distinct_iff mset_map)
  have order: "\<And>x. x \<in> set (p # pending) \<Longrightarrow> length (word p) \<le> length (word x)"
    using b by (auto simp: bfs_def)
  have fin: "finished ns word rw R v" if "v < length ns" "length (word v) \<le> length (word p)" for v
    using bfs_reached [OF t b order that] b by (auto simp: bfs_def)
  have new: "c \<notin> D \<union> set (p # pending)" if "c \<in> snd ` set es" for c
    using b p that unfolding es(3) bfs_def by blast
  have outs: "set (outputs (ns ! snd e)) = {r. r < R \<and> rw r = word (snd e)}" if "e \<in> set es" for e
    using b new [of "snd e"] es(2) [OF that] that unfolding bfs_def by auto
  from link_children [OF t rw p(1,2) es(1) distinct fin outs]
  have ns: "length ?ns = length ns" "\<And>v. nexts (?ns ! v) = nexts (ns ! v)"
    "\<And>v. v \<notin> snd ` set es \<Longrightarrow> ?ns ! v = ns ! v" "\<And>e. e \<in> set es \<Longrightarrow> finished ?ns word rw R (snd e)"
    by blast+
  have tr: "trie ?ns word" using trie_cong [OF ns(1,2)] t by simp
  have old: "finished ?ns word rw R v" if "v \<in> D \<union> set (p # pending)" for v
  proof -
    have "v \<notin> snd ` set es" using new that by blast
    then have "finished ?ns word rw R v = finished ns word rw R v" by (intro finished_cong ns(1,3))
    moreover have "finished ns word rw R v" using b that by (auto simp: bfs_def)
    ultimately show ?thesis by simp
  qed
  have parents: "v \<in> insert p D \<union> set (pending @ map snd es) \<longleftrightarrow> u \<in> insert p D"
    if u: "u < length ns" and v: "child_of ns u tok = Some v" for u tok v
  proof (cases "u = p")
    case True
    then show ?thesis using v es(3) by auto
  next
    case False
    have "v \<notin> snd ` set es"
    proof
      assume "v \<in> snd ` set es"
      then obtain tok' where "word v = word p @ [tok']" using es(2) by auto
      moreover have "word v = word u @ [tok]" using trieD(4) [OF t u] v by simp
      ultimately show False using trie_word_eq [OF t u p(1)] False by simp
    qed
    moreover have "v \<in> D \<union> set (p # pending) \<longleftrightarrow> u \<in> D" using b u v unfolding bfs_def by blast
    ultimately show ?thesis using False by auto
  qed
  have deep: "length (word c) = length (word p) + 1" if "c \<in> snd ` set es" for c
    using es(2) that by auto
  have near: "length (word x) \<le> length (word p) + 1" if "x \<in> set pending" for x
    using b that by (auto simp: bfs_def)
  have "bfs word rw R (insert p D) (pending @ map snd es) ?ns"
    unfolding bfs_def ns(1,2)
  proof (intro conjI)
    show "sorted (map (\<lambda>v. length (word v)) (pending @ map snd es))"
    proof -
      have flat: "map (\<lambda>v. length (word v)) (map snd es) = replicate (length es) (length (word p) + 1)"
        using deep by (simp add: list_eq_iff_nth_eq)
      have "sorted (map (\<lambda>v. length (word v)) pending)" using b by (simp add: bfs_def)
      then show ?thesis unfolding map_append flat using near by (simp add: sorted_append)
    qed
    show "\<forall>x \<in> set (pending @ map snd es). \<forall>y \<in> set (pending @ map snd es). length (word y) \<le> length (word x) + 1"
    proof (intro ballI)
      fix x y assume xy: "x \<in> set (pending @ map snd es)" "y \<in> set (pending @ map snd es)"
      have "length (word p) \<le> length (word x)" using xy(1) order [of x] deep [of x]
        by (cases "x \<in> set pending") simp_all
      moreover have "length (word y) \<le> length (word p) + 1" using xy(2) near [of y] deep [of y]
        by (cases "y \<in> set pending") simp_all
      ultimately show "length (word y) \<le> length (word x) + 1" by simp
    qed
    show "\<forall>v \<in> insert p D \<union> set (pending @ map snd es). finished ?ns word rw R v"
      using old ns(4) by auto
    show "\<forall>v < length ns. v \<notin> insert p D \<union> set (pending @ map snd es) \<longrightarrow>
        set (outputs (?ns ! v)) = {r. r < R \<and> rw r = word v}"
      using b ns(3) by (auto simp: bfs_def)
    have old_parts: "distinct (p # pending)" "set (p # pending) \<inter> D = {}" "set pending \<subseteq> {..< length ns}"
      using b by (simp_all add: bfs_def)
    have apart: "snd ` set es \<inter> (D \<union> set (p # pending)) = {}" using new by blast
    then show "distinct (pending @ map snd es)" using distinct old_parts(1) by auto
    show "set (pending @ map snd es) \<inter> insert p D = {}" using apart old_parts(1,2) by auto
    show "set (pending @ map snd es) \<subseteq> {..< length ns}" using old_parts(3) es(2) by auto
    show "\<forall>u < length ns. \<forall>t v. map_of (nexts (ns ! u)) t = Some v \<longrightarrow>
        (v \<in> insert p D \<union> set (pending @ map snd es) \<longleftrightarrow> u \<in> insert p D)"
      using parents by blast
  qed (use b p(1) in \<open>simp_all add: bfs_def\<close>)
  with tr ns(1) show ?thesis by simp
qed

text \<open>The queue runs empty within as many steps as there are nodes, and then all of them are linked.\<close>

lemma link_loop_finishes:
  assumes "\<And>xs. mset (visit xs) = mset xs" "trie ns word" "\<And>r. r < R \<Longrightarrow> rw r \<in> words_of ns word"
    and "bfs word rw R D pending ns" "card D + fuel = length ns + 1"
  shows "length (link_loop visit fuel ns pending) = length ns \<and>
    trie (link_loop visit fuel ns pending) word \<and>
    (\<forall>v < length ns. finished (link_loop visit fuel ns pending) word rw R v)"
  using assms
proof (induction visit fuel ns pending arbitrary: D rule: link_loop.induct)
  case (1 visit ns pending)
  have "card D \<le> length ns" using 1(4) card_mono [of "{..< length ns}" D] by (simp add: bfs_def)
  with 1(5) show ?case by simp
next
  case (2 visit fuel ns)
  have "v \<in> D" if "v < length ns" for v
    using bfs_reached [OF 2(2,4), of "length (word v)" v] that by simp
  then show ?case using 2(2,4) by (auto simp: bfs_def)
next
  case (3 visit fuel ns p pending)
  let ?es = "visit (nexts (ns ! p))"
  let ?ns = "foldl (link_child p) ns ?es"
  have step: "bfs word rw R (insert p D) (pending @ map snd ?es) ?ns" "trie ?ns word" "length ?ns = length ns"
    using bfs_step [OF 3(3,4,5) 3(2)] by simp_all
  have words: "rw r \<in> words_of ?ns word" if "r < R" for r
    using 3(4) [OF that] step(3) by (simp add: words_of_def)
  have "p \<notin> D" "finite D" using 3(5) finite_subset [of D "{..< length ns}"] by (auto simp: bfs_def)
  then have "card (insert p D) + fuel = length ?ns + 1" using 3(6) step(3) by simp
  then show ?case using 3(1) [OF refl 3(2) step(2) words step(1)] step(3) by (simp add: Let_def)
qed

text \<open>The queue starts with the children of the root.\<close>

lemma link_loop_root:
  assumes visit: "\<And>xs. mset (visit xs) = mset xs" and t: "trie ns word"
    and rw: "\<And>r. r < R \<Longrightarrow> rw r \<in> words_of ns word \<and> rw r \<noteq> []"
    and fail: "\<And>v. v < length ns \<Longrightarrow> failure (ns ! v) = 0"
    and outs: "\<And>v. v < length ns \<Longrightarrow> set (outputs (ns ! v)) = {r. r < R \<and> rw r = word v}"
  shows "bfs word rw R {0} (map snd (visit (nexts (ns ! 0)))) ns"
proof -
  let ?es = "visit (nexts (ns ! 0))"
  have root: "0 < length ns" "word 0 = []" by (rule trieD [OF t])+
  note c = children_of [OF t root(1)]
  have set_es: "set ?es = set (nexts (ns ! 0))" using visit by (rule mset_eq_setD)
  have distinct: "distinct (map snd ?es)"
    using c(3) visit by (metis mset_eq_imp_distinct_iff mset_map)
  have child: "v < length ns \<and> length (word v) = 1 \<and> v \<noteq> 0" if "v \<in> snd ` set ?es" for v
  proof -
    obtain e where e: "e \<in> set (nexts (ns ! 0))" "v = snd e" using \<open>v \<in> snd ` set ?es\<close> unfolding set_es by blast
    then have "word v = [fst e]" "v < length ns" using c(2) [OF e(1)] root(2) by simp_all
    then show ?thesis using root(2) by (cases v) auto
  qed
  have fin: "finished ns word rw R v" if "v \<in> insert 0 (snd ` set ?es)" for v
  proof -
    have v: "v < length ns" "length (word v) \<le> 1" using child [of v] that root by (cases "v = 0", simp_all)+
    have "suffix (rw r) (word v) \<longleftrightarrow> rw r = word v" if "r < R" for r
      using rw [OF that] v(2) suffix_length_le [of "rw r" "word v"]
      by (cases "word v"; cases "rw r") (auto simp: suffix_Cons)
    moreover have "tl (word v) = []" using v(2) by (cases "word v") auto
    ultimately show ?thesis using fail [OF v(1)] outs [OF v(1)] root by (auto simp: finished_def linked_node_def)
  qed
  have "sorted (map (\<lambda>v. length (word v)) (map snd ?es))"
  proof -
    have "map (\<lambda>v. length (word v)) (map snd ?es) = replicate (length ?es) 1"
      using child by (simp add: list_eq_iff_nth_eq)
    then show ?thesis by simp
  qed
  moreover have "v \<in> {0} \<union> set (map snd ?es) \<longleftrightarrow> u \<in> {0}"
    if "u < length ns" "child_of ns u tok = Some v" for u tok v
  proof -
    have v: "v < length ns" "word v = word u @ [tok]" using trieD(4) [OF t that(1)] that(2) by simp_all
    have "v \<in> snd ` set ?es \<longleftrightarrow> u = 0"
    proof
      assume "v \<in> snd ` set ?es"
      then have "length (word v) = 1" using child by simp
      then show "u = 0" using v(2) trie_root [OF t that(1)] by simp
    next
      assume "u = 0"
      then show "v \<in> snd ` set ?es" unfolding set_es c(4) using that(2) by blast
    qed
    moreover have "v \<noteq> 0" using v(2) root(2) by (cases v) auto
    ultimately show ?thesis by simp
  qed
  moreover have all: "\<forall>v \<in> set (map snd ?es). v < length ns \<and> length (word v) = 1 \<and> v \<noteq> 0"
    using child by simp
  then have "set (map snd ?es) \<subseteq> {..< length ns}" "set (map snd ?es) \<inter> {0} = {}"
    "\<forall>x \<in> set (map snd ?es). \<forall>y \<in> set (map snd ?es). length (word y) \<le> length (word x) + 1"
    by auto
  moreover have "\<forall>v \<in> {0} \<union> set (map snd ?es). finished ns word rw R v"
    using fin by simp
  moreover have "\<forall>v < length ns. v \<notin> {0} \<union> set (map snd ?es) \<longrightarrow> set (outputs (ns ! v)) = {r. r < R \<and> rw r = word v}"
    using outs by blast
  moreover have "{0} \<subseteq> {..< length ns}" "0 \<in> {0 :: nat}" using root(1) by simp_all
  ultimately show ?thesis
    unfolding bfs_def using distinct by (intro conjI) auto
qed

end
