(* ===== verification/Name_Building.thy ===== *)
theory Name_Building
  imports Name_Automaton
begin

text \<open>
  \<open>compile\<close> builds what it should: the readings become token words of a trie, each usable setting a
  rule with its word, and linking (\<open>Name_Automaton\<close>) makes every output list complete.
\<close>

section \<open>A new child\<close>

definition with_child :: "node list \<Rightarrow> nat \<Rightarrow> nat \<Rightarrow> node list" where
  "with_child ns u t =
     (ns @ [new_node])[u := ((ns @ [new_node]) ! u)\<lparr>nexts := nexts ((ns @ [new_node]) ! u) @ [(t, length ns)]\<rparr>]"

lemma with_child_simps [simp]:
  "length (with_child ns u t) = length ns + 1"
  "u < length ns \<Longrightarrow> with_child ns u t ! length ns = new_node"
  "v < length ns \<Longrightarrow> v \<noteq> u \<Longrightarrow> with_child ns u t ! v = ns ! v"
  "u < length ns \<Longrightarrow> with_child ns u t ! u = (ns ! u)\<lparr>nexts := nexts (ns ! u) @ [(t, length ns)]\<rparr>"
  by (simp_all add: with_child_def nth_append)

lemma with_child_fields:
  assumes "u < length ns" "v < length ns"
  shows "failure (with_child ns u t ! v) = failure (ns ! v)" "outputs (with_child ns u t ! v) = outputs (ns ! v)"
  using assms by (cases "v = u"; simp)+

lemma trie_with_child:
  assumes t: "trie ns word" and u: "u < length ns" and free: "child_of ns u tok = None"
  shows "trie (with_child ns u tok) (word(length ns := word u @ [tok]))"
proof -
  let ?n = "length ns"
  let ?ns = "with_child ns u tok"
  let ?word = "word(?n := word u @ [tok])"
  have fresh: "word v \<noteq> word u @ [tok]" if "v < ?n" for v
    using trieD(4) [OF t u, of tok v] free that by auto
  have deeper: "word v \<noteq> (word u @ [tok]) @ [tok']" if v: "v < ?n" for v tok'
  proof
    assume eq: "word v = (word u @ [tok]) @ [tok']"
    then have "v \<noteq> 0" using trieD(2) [OF t] by (cases v) auto
    then obtain u' tok'' where "u' < ?n" "word v = word u' @ [tok'']" using trieD(6) [OF t v] by blast
    with eq fresh show False by simp
  qed
  have child: "child_of ?ns p a = Some v \<longleftrightarrow> v < length ?ns \<and> ?word v = ?word p @ [a]"
    if p: "p < length ?ns" for p a v
  proof -
    consider "p = ?n" | "p = u" | "p < ?n" "p \<noteq> u" using p by fastforce
    then show ?thesis
    proof cases
      case 1
      then show ?thesis using u deeper by (auto simp: new_node_def less_Suc_eq)
    next
      case 2
      have "map_of (nexts (ns ! u) @ [(tok, ?n)]) a = (if a = tok then Some ?n else child_of ns u a)"
        using free by (auto simp: map_add_def split: option.split)
      then show ?thesis using 2 u trieD(4) [OF t u, of a v] fresh [of v] by (auto simp: less_Suc_eq)
    next
      case 3
      have "word p @ [a] \<noteq> word u @ [tok]" using trie_word_eq [OF t 3(1) u] 3(2) by simp
      then show ?thesis using 3 trieD(4) [OF t 3(1), of a v] by (auto simp: less_Suc_eq)
    qed
  qed
  have distinct: "distinct (map fst (nexts (?ns ! p)))" if p: "p < length ?ns" for p
  proof -
    consider "p = ?n" | "p = u" | "p < ?n" "p \<noteq> u" using p by fastforce
    then show ?thesis
    proof cases
      case 2
      have "tok \<notin> fst ` set (nexts (ns ! u))" using free by (simp add: map_of_eq_None_iff)
      then show ?thesis using 2 u trieD(5) [OF t u] by simp
    qed (use u trieD(5) [OF t] in \<open>simp_all add: new_node_def\<close>)
  qed
  have "inj_on ?word {..< length ?ns}"
    using trieD(3) [OF t] fresh by (fastforce simp: inj_on_def less_Suc_eq)
  moreover have "\<exists>p < length ?ns. \<exists>a. ?word v = ?word p @ [a]" if v: "v < length ?ns" "v \<noteq> 0" for v
  proof (cases "v = ?n")
    case True
    then show ?thesis using u by (intro exI [of _ u]) auto
  next
    case False
    then obtain p a where "p < ?n" "word v = word p @ [a]" using trieD(6) [OF t, of v] v by auto
    then show ?thesis using False by (intro exI [of _ p]) auto
  qed
  ultimately show ?thesis
    unfolding trie_def using trieD(1,2) [OF t] child distinct by simp
qed

section \<open>Reading by reading\<close>

definition tokens_ok :: "(u16string \<times> nat) list \<Rightarrow> nat \<Rightarrow> bool" where
  "tokens_ok ts next_token \<longleftrightarrow> (\<forall>r t. map_of ts r = Some t \<longrightarrow> t < next_token) \<and>
     (\<forall>r r' t. map_of ts r = Some t \<longrightarrow> map_of ts r' = Some t \<longrightarrow> r = r')"

definition ready :: "automaton \<Rightarrow> nat \<Rightarrow> (nat \<Rightarrow> nat list) \<Rightarrow> bool" where
  "ready a next_token word \<longleftrightarrow>
     trie (nodes a) word \<and> tokens_ok (tokens a) next_token \<and> (\<forall>v < length (nodes a). failure (nodes a ! v) = 0)"

definition grows :: "automaton \<Rightarrow> (nat \<Rightarrow> nat list) \<Rightarrow> automaton \<Rightarrow> (nat \<Rightarrow> nat list) \<Rightarrow> bool" where
  "grows a word a' word' \<longleftrightarrow>
     length (nodes a) \<le> length (nodes a') \<and> rules a' = rules a \<and> map_of (tokens a) \<subseteq>\<^sub>m map_of (tokens a') \<and>
     (\<forall>v < length (nodes a). word' v = word v \<and> outputs (nodes a' ! v) = outputs (nodes a ! v)) \<and>
     (\<forall>v. length (nodes a) \<le> v \<longrightarrow> v < length (nodes a') \<longrightarrow> outputs (nodes a' ! v) = [])"

lemma grows_refl [simp]: "grows a word a word"
  by (simp add: grows_def)

lemma grows_trans: "grows a w a' w' \<Longrightarrow> grows a' w' a'' w'' \<Longrightarrow> grows a w a'' w''"
proof -
  assume g: "grows a w a' w'" "grows a' w' a'' w''"
  have "outputs (nodes a'' ! v) = []" if "length (nodes a) \<le> v" "v < length (nodes a'')" for v
  proof (cases "v < length (nodes a')")
    case True
    then show ?thesis using g that by (simp add: grows_def)
  next
    case False
    then show ?thesis using g(2) that by (simp add: grows_def)
  qed
  moreover have "map_of (tokens a) \<subseteq>\<^sub>m map_of (tokens a'')"
    using g by (auto simp: grows_def intro: map_le_trans)
  ultimately show "grows a w a'' w''" using g by (simp add: grows_def)
qed

definition spell :: "(u16string \<times> nat) list \<Rightarrow> u16string list \<Rightarrow> nat list" where
  "spell ts rs = map (\<lambda>r. the (map_of ts r)) rs"

lemma spell_mono:
  assumes "map_of ts \<subseteq>\<^sub>m map_of ts'" "\<forall>r \<in> set rs. map_of ts r \<noteq> None"
  shows "spell ts' rs = spell ts rs"
  using assms by (auto simp: spell_def map_le_def dom_def)

lemma token_for_ok:
  assumes "tokens_ok ts next_token" "token_for ts next_token r = (t, ts', next_token')"
  shows "tokens_ok ts' next_token'" "map_of ts \<subseteq>\<^sub>m map_of ts'" "map_of ts' r = Some t"
proof -
  have "tokens_ok ts' next_token' \<and> map_of ts \<subseteq>\<^sub>m map_of ts' \<and> map_of ts' r = Some t"
  proof (cases "map_of ts r")
    case None
    then have eq: "ts' = (r, next_token) # ts" "next_token' = next_token + 1" "t = next_token"
      using assms(2) by (auto simp: token_for_def)
    have less: "map_of ts x = Some y \<Longrightarrow> y < next_token" for x y using assms(1) by (auto simp: tokens_ok_def)
    then have "map_of ts x \<noteq> Some next_token" for x by blast
    then show ?thesis using assms(1) less None unfolding eq
      by (auto simp: tokens_ok_def map_le_def dom_def less_Suc_eq)
  qed (use assms in \<open>auto simp: token_for_def\<close>)
  then show "tokens_ok ts' next_token'" "map_of ts \<subseteq>\<^sub>m map_of ts'" "map_of ts' r = Some t" by simp_all
qed

lemma add_reading_ok:
  assumes r: "ready a next_token word" and s: "s < length (nodes a)"
    and step: "add_reading (a, next_token, s) reading = (a', next_token', s')"
  shows "\<exists>word' t. ready a' next_token' word' \<and> grows a word a' word' \<and> s' < length (nodes a') \<and>
    word' s' = word s @ [t] \<and> map_of (tokens a') reading = Some t"
proof -
  obtain t ts nt where tok: "token_for (tokens a) next_token reading = (t, ts, nt)" by (cases "token_for (tokens a) next_token reading")
  note ts = token_for_ok [OF _ tok]
  have T: "trie (nodes a) word" "tokens_ok (tokens a) next_token" using r by (simp_all add: ready_def)
  show ?thesis
  proof (cases "child_of (nodes a) s t")
    case (Some v)
    then have "a' = a\<lparr>tokens := ts\<rparr>" "next_token' = nt" "s' = v" using step tok by simp_all
    moreover have "v < length (nodes a)" "word v = word s @ [t]" using trieD(4) [OF T(1) s] Some by simp_all
    ultimately show ?thesis
      using r ts [OF T(2)] by (intro exI [of _ word] exI [of _ t]) (simp add: ready_def grows_def)
  next
    case None
    let ?word = "word(length (nodes a) := word s @ [t])"
    have a': "a' = a\<lparr>tokens := ts, nodes := with_child (nodes a) s t\<rparr>" "next_token' = nt" "s' = length (nodes a)"
      using step tok None by (auto simp add: Let_def with_child_def)
    have "ready a' next_token' ?word"
      using r ts(1) [OF T(2)] trie_with_child [OF T(1) s None] with_child_fields(1) [OF s] s
      by (auto simp: ready_def a' less_Suc_eq new_node_def)
    moreover have "grows a word a' ?word"
      using ts(2) [OF T(2)] with_child_fields(2) [OF s] s by (auto simp: grows_def a' less_Suc_eq new_node_def)
    ultimately show ?thesis
      using ts(3) [OF T(2)] by (intro exI [of _ ?word] exI [of _ t]) (simp add: a')
  qed
qed

lemma add_readings_ok:
  assumes "ready a next_token word" "s < length (nodes a)"
    "foldl add_reading (a, next_token, s) rs = (a', next_token', s')"
  shows "\<exists>word'. ready a' next_token' word' \<and> grows a word a' word' \<and> s' < length (nodes a') \<and>
    word' s' = word s @ spell (tokens a') rs \<and> (\<forall>r \<in> set rs. map_of (tokens a') r \<noteq> None)"
  using assms
proof (induction rs arbitrary: a next_token s word)
  case Nil
  then show ?case by (auto simp: spell_def intro!: exI [of _ word])
next
  case (Cons r rs)
  obtain a1 n1 s1 where one: "add_reading (a, next_token, s) r = (a1, n1, s1)" by (cases "add_reading (a, next_token, s) r")
  obtain word1 t where w1: "ready a1 n1 word1" "grows a word a1 word1" "s1 < length (nodes a1)"
    "word1 s1 = word s @ [t]" "map_of (tokens a1) r = Some t"
    using add_reading_ok [OF Cons.prems(1,2) one] by blast
  have "foldl add_reading (a1, n1, s1) rs = (a', next_token', s')" using Cons.prems(3) one by simp
  then obtain word' where w': "ready a' next_token' word'" "grows a1 word1 a' word'" "s' < length (nodes a')"
    "word' s' = word1 s1 @ spell (tokens a') rs" "\<forall>r \<in> set rs. map_of (tokens a') r \<noteq> None"
    using Cons.IH [OF w1(1,3)] by blast
  have "map_of (tokens a') r = Some t" using w1(5) w'(2) by (force simp: grows_def map_le_def)
  with w1 w' show ?case by (auto simp: spell_def intro!: exI [of _ word'] intro: grows_trans)
qed

section \<open>Setting by setting\<close>

type_synonym numbered = "nat \<times> custom_name"

definition rule_of :: "numbered \<Rightarrow> name_rule" where
  "rule_of e = \<lparr>characters = name (snd e), rule_order = fst e\<rparr>"

definition rule_word :: "automaton \<Rightarrow> numbered list \<Rightarrow> nat \<Rightarrow> nat list" where
  "rule_word a us r = spell (tokens a) (readings (snd (us ! r)))"

definition spelled :: "automaton \<Rightarrow> numbered list \<Rightarrow> bool" where
  "spelled a us \<longleftrightarrow> (\<forall>e \<in> set us. \<forall>r \<in> set (readings (snd e)). map_of (tokens a) r \<noteq> None)"

definition built :: "automaton \<Rightarrow> nat \<Rightarrow> (nat \<Rightarrow> nat list) \<Rightarrow> numbered list \<Rightarrow> bool" where
  "built a next_token word us \<longleftrightarrow>
     ready a next_token word \<and> rules a = map rule_of us \<and> spelled a us \<and>
     (\<forall>r < length us. rule_word a us r \<in> words_of (nodes a) word) \<and>
     (\<forall>v < length (nodes a). set (outputs (nodes a ! v)) = {r. r < length us \<and> rule_word a us r = word v})"

lemma rule_word_grows:
  assumes "spelled a us" "map_of (tokens a) \<subseteq>\<^sub>m map_of (tokens a')" "r < length us"
  shows "rule_word a' us r = rule_word a us r"
  using assms by (auto simp: rule_word_def spelled_def intro!: spell_mono)

lemma built_add:
  assumes b: "built a next_token word us" and usable: "usable_setting s"
    and step: "add_setting (a, next_token) (i, s) = (a', next_token')"
  shows "\<exists>word'. built a' next_token' word' (us @ [(i, s)])"
proof -
  let ?us = "us @ [(i, s)]"
  let ?a1 = "a\<lparr>rules := rules a @ [rule_of (i, s)]\<rparr>"
  obtain a2 n2 v2 where fold: "foldl add_reading (?a1, next_token, 0) (readings s) = (a2, n2, v2)"
    by (cases "foldl add_reading (?a1, next_token, 0) (readings s)")
  let ?ns = "(nodes a2)[v2 := (nodes a2 ! v2)\<lparr>outputs := outputs (nodes a2 ! v2) @ [length us]\<rparr>]"
  have len: "length (rules a) = length us" using b by (simp add: built_def)
  have a': "a' = a2\<lparr>nodes := ?ns\<rparr>" "next_token' = n2"
    using step fold usable len by (auto simp: Let_def rule_of_def)
  have r1: "ready ?a1 next_token word" using b by (simp add: built_def ready_def)
  then have "0 < length (nodes ?a1)" using trieD(1) by (auto simp: ready_def)
  from add_readings_ok [OF r1 this fold] trieD(2) r1
  obtain word' where w: "ready a2 n2 word'" "grows ?a1 word a2 word'" "v2 < length (nodes a2)"
    "word' v2 = spell (tokens a2) (readings s)" "\<forall>r \<in> set (readings s). map_of (tokens a2) r \<noteq> None"
    unfolding ready_def by (metis append_Nil)
  have grow: "length (nodes a) \<le> length (nodes a2)" "map_of (tokens a) \<subseteq>\<^sub>m map_of (tokens a2)"
    "\<And>v. v < length (nodes a) \<Longrightarrow> word' v = word v" "rules a2 = map rule_of ?us"
    using w(2) b by (simp_all add: grows_def built_def)
  have sp: "spelled a' ?us" using b grow(2) w(5) by (fastforce simp: built_def spelled_def a' map_le_def dom_def)
  have old: "rule_word a' ?us r = rule_word a us r" if "r < length us" for r
    using rule_word_grows [of a us a' r] b grow(2) that by (simp add: built_def a' rule_word_def nth_append)
  have new: "rule_word a' ?us (length us) = word' v2" by (simp add: rule_word_def w(4) a')
  have words: "rule_word a us r \<in> words_of (nodes a) word" if "r < length us" for r
    using b that by (simp add: built_def)
  have inside: "\<exists>u < length (nodes a). rule_word a us r = word' u" if "r < length us" for r
    using words [OF that] grow(3) by (auto simp: words_of_def)
  have t2: "trie (nodes a2) word'" using w(1) by (simp add: ready_def)
  have outs2: "set (outputs (nodes a2 ! v)) = {r. r < length us \<and> rule_word a us r = word' v}"
    if v: "v < length (nodes a2)" for v
  proof (cases "v < length (nodes a)")
    case True
    then show ?thesis using w(2) b grow(3) by (simp add: grows_def built_def)
  next
    case False
    have "rule_word a us r \<noteq> word' v" if "r < length us" for r
    proof
      assume "rule_word a us r = word' v"
      with inside [OF that] obtain u where "u < length (nodes a)" "word' u = word' v" by auto
      then show False using trie_word_eq [OF t2 _ v, of u] grow(1) False by simp
    qed
    moreover have "outputs (nodes a2 ! v) = []" using w(2) v False by (simp add: grows_def)
    ultimately show ?thesis by auto
  qed
  have outs: "set (outputs (?ns ! v)) = {r. r < length ?us \<and> rule_word a' ?us r = word' v}"
    if v: "v < length ?ns" for v
  proof -
    have "{r. r < length ?us \<and> rule_word a' ?us r = word' v} =
        {r. r < length us \<and> rule_word a us r = word' v} \<union> (if v = v2 then {length us} else {})"
      using old new trie_word_eq [OF t2 w(3), of v] v by (auto simp: less_Suc_eq)
    then show ?thesis using outs2 [of v] v by (cases "v = v2") (simp_all add: nth_list_update)
  qed
  have "nexts (?ns ! v) = nexts (nodes a2 ! v)" for v by (cases "v = v2") (simp_all add: nth_list_update w(3))
  then have "trie ?ns word'" using trie_cong [of ?ns "nodes a2" word'] t2 by simp
  moreover have "failure (?ns ! v) = failure (nodes a2 ! v)" for v by (cases "v = v2") (simp_all add: nth_list_update w(3))
  then have "\<forall>v < length ?ns. failure (?ns ! v) = 0" using w(1) by (simp add: ready_def)
  ultimately have "ready a' next_token' word'" using w(1) by (simp add: ready_def a')
  moreover have "rule_word a' ?us r \<in> words_of (nodes a') word'" if "r < length ?us" for r
  proof (cases "r = length us")
    case True
    then show ?thesis using new w(3) by (simp add: a' words_of_def)
  next
    case False
    then show ?thesis using inside [of r] old [of r] grow(1) that by (auto simp: a' words_of_def)
  qed
  ultimately show ?thesis using sp grow(4) outs by (intro exI [of _ word']) (simp add: built_def a')
qed

abbreviation usable_of :: "numbered list \<Rightarrow> numbered list" where
  "usable_of es \<equiv> filter (\<lambda>e. usable_setting (snd e)) es"

lemma built_fold:
  assumes "built a next_token word us"
  shows "\<exists>word' next_token'. built (fst (foldl add_setting (a, next_token) es)) next_token' word' (us @ usable_of es)"
  using assms
proof (induction es arbitrary: a next_token word us)
  case (Cons e es)
  obtain i s where e: "e = (i, s)" by (cases e)
  obtain a' n' where step: "add_setting (a, next_token) (i, s) = (a', n')" by (cases "add_setting (a, next_token) (i, s)")
  show ?case
  proof (cases "usable_setting s")
    case True
    then obtain word' where "built a' n' word' (us @ [(i, s)])" using built_add [OF Cons.prems _ step] by blast
    from Cons.IH [OF this] True step show ?thesis by (simp add: e)
  next
    case False
    with step have "a' = a" "n' = next_token" by simp_all
    then show ?thesis using Cons.IH [OF Cons.prems] False step by (simp add: e)
  qed
qed auto

lemma built_empty: "built \<lparr>tokens = [], nodes = [new_node], rules = []\<rparr> 0 (\<lambda>_. []) []"
  by (auto simp: built_def ready_def trie_def tokens_ok_def spelled_def new_node_def inj_on_def)

section \<open>The compiled automaton\<close>

definition compiled :: "automaton \<Rightarrow> (nat \<Rightarrow> nat list) \<Rightarrow> numbered list \<Rightarrow> bool" where
  "compiled a word us \<longleftrightarrow>
     trie (nodes a) word \<and> rules a = map rule_of us \<and> spelled a us \<and>
     (\<forall>r r' t. map_of (tokens a) r = Some t \<longrightarrow> map_of (tokens a) r' = Some t \<longrightarrow> r = r') \<and>
     (\<forall>r < length us. rule_word a us r \<in> words_of (nodes a) word) \<and>
     (\<forall>v < length (nodes a). finished (nodes a) word (rule_word a us) (length us) v)"

lemma compile_names_compiled:
  assumes visit: "\<And>xs. mset (visit xs) = mset xs"
  shows "\<exists>word. compiled (compile_names visit settings) word (usable_of (enumerate 0 settings))"
proof -
  let ?a = "build_trie settings"
  let ?us = "usable_of (enumerate 0 settings)"
  let ?root = "map snd (visit (nexts (nodes ?a ! 0)))"
  let ?ns = "link_loop visit (length (nodes ?a)) (nodes ?a) ?root"
  obtain word n where b: "built ?a n word ?us"
    using built_fold [OF built_empty, of "enumerate 0 settings"] by (auto simp: build_trie_def)
  then have t: "trie (nodes ?a) word" by (simp add: built_def ready_def)
  have words: "rule_word ?a ?us r \<in> words_of (nodes ?a) word \<and> rule_word ?a ?us r \<noteq> []" if r: "r < length ?us" for r
  proof -
    have "usable_setting (snd (?us ! r))" using nth_mem [OF r] by simp
    then have "readings (snd (?us ! r)) \<noteq> []" by (auto simp: usable_setting_def)
    then show ?thesis using b r by (simp add: built_def) (simp add: rule_word_def spell_def)
  qed
  have "bfs word (rule_word ?a ?us) (length ?us) {0} ?root (nodes ?a)"
    using link_loop_root [OF visit t words] b by (simp add: built_def ready_def)
  then have "trie ?ns word \<and> length ?ns = length (nodes ?a) \<and>
      (\<forall>v < length (nodes ?a). finished ?ns word (rule_word ?a ?us) (length ?us) v)"
    using link_loop_finishes [OF visit t, of "length ?us" "rule_word ?a ?us" "{0}" ?root "length (nodes ?a)"] words
    by simp
  moreover have "rule_word (compile_names visit settings) ?us = rule_word ?a ?us"
    by (rule ext) (simp add: rule_word_def compile_names_def Let_def)
  moreover have "compile_names visit settings = ?a\<lparr>nodes := ?ns\<rparr>" by (simp add: compile_names_def Let_def)
  ultimately show ?thesis
    using b by (intro exI [of _ word]) (auto simp: compiled_def built_def ready_def tokens_ok_def spelled_def words_of_def)
qed

end
