(* ===== verification/Name_Scan.thy ===== *)
theory Name_Scan
  imports Name_Building
begin

text \<open>
  The scan over a composition: after reading some entries the automaton stands at the longest suffix
  of their tokens that it knows, and \<open>best\<close> holds, for every first entry, the best rule that fits
  from there on within what was read.
\<close>

section \<open>The state of the scan\<close>

definition token_of :: "automaton \<Rightarrow> padding_entry \<Rightarrow> nat option" where
  "token_of a e = (if entry_chosen e then None else map_of (tokens a) (bopomofo e))"

abbreviation known_words :: "automaton \<Rightarrow> (nat \<Rightarrow> nat list) \<Rightarrow> nat option list set" where
  "known_words a word \<equiv> map Some ` words_of (nodes a) word"

definition stands_at :: "automaton \<Rightarrow> (nat \<Rightarrow> nat list) \<Rightarrow> nat \<Rightarrow> nat option list \<Rightarrow> bool" where
  "stands_at a word s toks \<longleftrightarrow> s < length (nodes a) \<and> map Some (word s) = longest_suffix (known_words a word) toks"

lemma longest_suffix_map: "inj f \<Longrightarrow> longest_suffix (map f ` W) (map f w) = map f (longest_suffix W w)"
proof (induction w)
  case (Cons x w)
  have "map f (x # w) \<in> map f ` W \<longleftrightarrow> x # w \<in> W"
    using Cons.prems by (rule inj_image_mem_iff [OF inj_mapI])
  then show ?case using Cons by simp
qed simp

lemma prefix_closed_map: "prefix_closed W \<Longrightarrow> prefix_closed (map f ` W)"
  unfolding prefix_closed_def
proof (intro conjI allI impI; elim conjE)
  fix w a
  assume closed: "\<forall>w a. w @ [a] \<in> W \<longrightarrow> w \<in> W" and "w @ [a] \<in> map f ` W"
  then obtain u where u: "u \<in> W" "w @ [a] = map f u" by blast
  then obtain u' z where "u = u' @ [z]" by (cases u rule: rev_cases) auto
  with u closed show "w \<in> map f ` W" by auto
qed auto

lemma stands_at_reset: "trie (nodes a) word \<Longrightarrow> stands_at a word 0 (toks @ [None])"
proof -
  assume t: "trie (nodes a) word"
  have "longest_suffix (known_words a word) (toks @ [None]) = []" by (rule longest_suffix_foreign) auto
  then show ?thesis using trieD(1,2) [OF t] by (simp add: stands_at_def)
qed

definition transition :: "automaton \<Rightarrow> nat \<Rightarrow> nat option \<Rightarrow> nat" where
  "transition a s x =
     (case x of None \<Rightarrow> 0
      | Some token \<Rightarrow>
          (case child_of (nodes a) (follow (length (nodes a)) (nodes a) s token) token of Some v \<Rightarrow> v | None \<Rightarrow> 0))"

lemma compiled_linked: "compiled a word us \<Longrightarrow> v < length (nodes a) \<Longrightarrow> linked_node (nodes a) word v"
  by (simp add: compiled_def finished_def)

lemma stands_at_step:
  assumes c: "compiled a word us" and s: "stands_at a word s toks"
  shows "stands_at a word (transition a s x) (toks @ [x])"
proof (cases x)
  case None
  then show ?thesis using stands_at_reset [of a word toks] c by (simp add: transition_def compiled_def)
next
  case (Some token)
  have t: "trie (nodes a) word" using c by (simp add: compiled_def)
  have s': "s < length (nodes a)" using s by (simp add: stands_at_def)
  let ?v = "transition a s x"
  let ?W = "words_of (nodes a) word"
  have "?v < length (nodes a) \<and> word ?v = longest_suffix ?W (word s @ [token])"
    using follow_step [OF t s' _ compiled_linked [OF c], of "length (nodes a)" token] word_length_less [OF t s'] trieD(1,2) [OF t]
    by (auto simp: transition_def Some split: option.splits)
  moreover have "longest_suffix (known_words a word) (toks @ [x]) =
      longest_suffix (known_words a word) (longest_suffix (known_words a word) toks @ [x])"
    by (rule longest_suffix_snoc [OF prefix_closed_map [OF trie_prefix_closed [OF t]]])
  moreover have "longest_suffix (known_words a word) toks @ [x] = map Some (word s @ [token])"
    using s by (simp add: stands_at_def Some)
  ultimately show ?thesis by (simp only: stands_at_def longest_suffix_map [OF inj_Some])
qed

lemma scan_Cons:
  "scan a index state (e # padding) best =
     (case token_of a e of
        None \<Rightarrow> scan a (index + 1) 0 padding best
      | Some token \<Rightarrow>
          scan a (index + 1) (transition a state (token_of a e)) padding
            (foldl (offer a index) best (outputs (nodes a ! transition a state (token_of a e)))))"
  by (auto simp: token_of_def transition_def Let_def split: option.split)

text \<open>The outputs of the state are the rules that end with what was read.\<close>

lemma suffix_map_iff: "inj f \<Longrightarrow> suffix (map f xs) (map f ys) \<longleftrightarrow> suffix xs ys"
  by (auto simp: suffix_def map_eq_append_conv inj_map_eq_map)

lemma outputs_end_here:
  assumes c: "compiled a word us" and s: "stands_at a word s toks"
  shows "set (outputs (nodes a ! s)) = {r. r < length us \<and> suffix (map Some (rule_word a us r)) toks}"
proof -
  have "suffix (rule_word a us r) (word s) \<longleftrightarrow> suffix (map Some (rule_word a us r)) toks" if "r < length us" for r
  proof -
    have "map Some (rule_word a us r) \<in> known_words a word" using c that by (simp add: compiled_def)
    then have "suffix (map Some (rule_word a us r)) (map Some (word s)) \<longleftrightarrow> suffix (map Some (rule_word a us r)) toks"
      using s suffix_longest_iff by (simp add: stands_at_def)
    then show ?thesis by (simp only: suffix_map_iff [OF inj_Some])
  qed
  then show ?thesis using c s by (auto simp: compiled_def finished_def stands_at_def)
qed

section \<open>The best rule for every first entry\<close>

definition numbering :: "numbered list \<Rightarrow> bool" where
  "numbering us \<longleftrightarrow> sorted_wrt (\<lambda>x y. fst x < fst y) us \<and> (\<forall>e \<in> set us. usable_setting (snd e))"

lemma numbering_usable: "numbering (usable_of (enumerate n settings))"
proof -
  have "sorted_wrt (\<lambda>x y. fst x < fst y) (enumerate n settings)"
    by (simp add: sorted_wrt_iff_nth_less nth_enumerate_eq)
  then show ?thesis by (simp add: numbering_def sorted_wrt_filter)
qed

definition rule_length :: "numbered list \<Rightarrow> nat \<Rightarrow> nat" where
  "rule_length us r = length (name (snd (us ! r)))"

definition better :: "numbered list \<Rightarrow> nat \<Rightarrow> nat \<Rightarrow> bool" where
  "better us q r \<longleftrightarrow> rule_length us r < rule_length us q \<or> rule_length us r = rule_length us q \<and> q < r"

lemma better_total: "strict_total (better us) U"
  by (auto simp: strict_total_def better_def)

lemma rule_word_length: "numbering us \<Longrightarrow> r < length us \<Longrightarrow> length (rule_word a us r) = rule_length us r \<and> 0 < rule_length us r"
proof -
  assume n: "numbering us" and r: "r < length us"
  then have "usable_setting (snd (us ! r))" using nth_mem [OF r] by (simp add: numbering_def)
  then show ?thesis by (auto simp: rule_word_def spell_def rule_length_def usable_setting_def)
qed

lemma order_less:
  assumes "numbering us" "q < length us" "r < length us"
  shows "fst (us ! q) < fst (us ! r) \<longleftrightarrow> q < r"
  using assms unfolding numbering_def sorted_wrt_iff_nth_less
  by (metis linorder_neqE_nat order_less_asym order_less_irrefl)

lemma offer_better:
  assumes "rules a = map rule_of us" "numbering us" "r < length us" "\<forall>c. best ! (index + 1 - rule_length us r) = Some c \<longrightarrow> c < length us"
  shows "offer a index best r = best[index + 1 - rule_length us r :=
    (case best ! (index + 1 - rule_length us r) of None \<Rightarrow> Some r | Some c \<Rightarrow> if better us r c then Some r else Some c)]"
proof -
  have "characters (rules a ! q) = name (snd (us ! q))" "rule_order (rules a ! q) = fst (us ! q)" if "q < length us" for q
    using assms(1) that by (simp_all add: rule_of_def)
  moreover have "best[k := best ! k] = best" for k by (rule list_update_id)
  ultimately show ?thesis using assms order_less [OF assms(2,3)]
    by (auto simp: offer_def Let_def better_def rule_length_def split: option.splits) (metis list_update_id)+
qed

lemma offers_best:
  assumes "rules a = map rule_of us" "numbering us" "set os \<subseteq> {..< length us}"
    and "\<And>st. st < length best \<Longrightarrow> S st \<subseteq> {..< length us} \<and> best_of (better us) (S st) (best ! st)"
    and "\<And>r. r \<in> set os \<Longrightarrow> index + 1 - rule_length us r < length best"
  shows "length (foldl (offer a index) best os) = length best \<and>
    (\<forall>st < length best. best_of (better us) (S st \<union> {r \<in> set os. index + 1 - rule_length us r = st})
       (foldl (offer a index) best os ! st))"
  using assms
proof (induction os arbitrary: best S)
  case (Cons r os)
  let ?st = "index + 1 - rule_length us r"
  have r: "r < length us" "?st < length best" using Cons.prems(3,5) by auto
  have "\<forall>c. best ! ?st = Some c \<longrightarrow> c < length us"
    using Cons.prems(4) [OF r(2)] by (auto simp: best_of_def)
  note eq = offer_better [OF Cons.prems(1,2) r(1) this]
  let ?best = "offer a index best r"
  let ?S = "\<lambda>st. if st = ?st then insert r (S st) else S st"
  have len: "length ?best = length best" by (simp add: eq)
  have "?S st \<subseteq> {..< length us} \<and> best_of (better us) (?S st) (?best ! st)" if "st < length ?best" for st
  proof (cases "st = ?st")
    case True
    have "best_of (better us) (insert r (S ?st)) (?best ! ?st)"
      using best_of_insert [OF better_total, of "S ?st" "{..< length us}" r us "best ! ?st"] Cons.prems(4) [OF r(2)] r
      by (simp add: eq)
    then show ?thesis using True Cons.prems(4) [OF r(2)] r(1) by simp
  next
    case False
    then show ?thesis using Cons.prems(4) [of st] that len by (simp add: eq)
  qed
  from Cons.IH [OF Cons.prems(1,2) _ this] Cons.prems(3,5) len
  have IH: "length (foldl (offer a index) ?best os) = length best"
    "\<And>st. st < length best \<Longrightarrow> best_of (better us) (?S st \<union> {r \<in> set os. index + 1 - rule_length us r = st})
       (foldl (offer a index) ?best os ! st)"
    by simp_all
  have "?S st \<union> {r \<in> set os. index + 1 - rule_length us r = st} =
      S st \<union> {q \<in> set (r # os). index + 1 - rule_length us q = st}" for st
    by auto
  then show ?case using IH by simp
qed simp

section \<open>What fits within what was read\<close>

definition within :: "automaton \<Rightarrow> numbered list \<Rightarrow> nat option list \<Rightarrow> nat \<Rightarrow> nat set" where
  "within a us toks st = {r. r < length us \<and> prefix (map Some (rule_word a us r)) (drop st toks)}"

lemma within_Nil: "numbering us \<Longrightarrow> within a us [] st = {}"
  using rule_word_length [of us _ a] by (fastforce simp: within_def)

lemma within_snoc:
  assumes "numbering us"
  shows "within a us (toks @ [x]) st = within a us toks st \<union>
    {r. r < length us \<and> suffix (map Some (rule_word a us r)) (toks @ [x]) \<and> length toks + 1 - rule_length us r = st}"
proof -
  have ends: "prefix p (drop st (toks @ [x])) \<longleftrightarrow> prefix p (drop st toks) \<or> suffix p (toks @ [x]) \<and> length toks + 1 - length p = st"
    if p: "p \<noteq> []" for p :: "nat option list"
  proof (cases "st \<le> length toks")
    case True
    have "p = drop st (toks @ [x]) \<longleftrightarrow> suffix p (toks @ [x]) \<and> length toks + 1 - length p = st"
    proof
      assume p: "p = drop st (toks @ [x])"
      have "suffix p (toks @ [x])" unfolding p by (rule suffix_drop)
      then show "suffix p (toks @ [x]) \<and> length toks + 1 - length p = st" using True p by simp
    next
      assume a: "suffix p (toks @ [x]) \<and> length toks + 1 - length p = st"
      then obtain zs where zs: "toks @ [x] = zs @ p" by (auto simp: suffix_def)
      then have "length zs = st" using a by (metis add_diff_cancel_right' length_append length_append_singleton Suc_eq_plus1)
      then show "p = drop st (toks @ [x])" using zs by simp
    qed
    moreover have "drop st (toks @ [x]) = drop st toks @ [x]" using True by simp
    ultimately show ?thesis using prefix_snoc [of p "drop st toks" x] by metis
  next
    case False
    moreover have "length toks + 1 - length p \<le> length toks" using p by (cases p) auto
    ultimately show ?thesis using p by (auto simp: prefix_bot.extremum_unique)
  qed
  show ?thesis
  proof (rule set_eqI)
    fix r
    show "r \<in> within a us (toks @ [x]) st \<longleftrightarrow> r \<in> within a us toks st \<union>
      {r. r < length us \<and> suffix (map Some (rule_word a us r)) (toks @ [x]) \<and> length toks + 1 - rule_length us r = st}"
    proof (cases "r < length us")
      case True
      then have "map Some (rule_word a us r) \<noteq> []" "length (map Some (rule_word a us r)) = rule_length us r"
        using rule_word_length [OF assms True, of a] by auto
      with ends [of "map Some (rule_word a us r)"] True show ?thesis
        unfolding within_def mem_Collect_eq Un_iff by simp
    qed (simp add: within_def)
  qed
qed

lemma scan_best:
  assumes c: "compiled a word us" and n: "numbering us"
    and "stands_at a word s (map (token_of a) read)" "index = length read"
    and "length best = length read + length padding"
    and "\<And>st. st < length best \<Longrightarrow> best_of (better us) (within a us (map (token_of a) read) st) (best ! st)"
  shows "length (scan a index s padding best) = length best \<and>
    (\<forall>st < length best. best_of (better us) (within a us (map (token_of a) (read @ padding)) st) (scan a index s padding best ! st))"
  using assms(3-)
proof (induction padding arbitrary: index s read best)
  case (Cons e padding)
  let ?toks = "map (token_of a) read"
  let ?s = "transition a s (token_of a e)"
  let ?os = "outputs (nodes a ! ?s)"
  let ?best = "foldl (offer a index) best ?os"
  have stands: "stands_at a word ?s (?toks @ [token_of a e])" by (rule stands_at_step [OF c Cons.prems(1)])
  have os: "set ?os = {r. r < length us \<and> suffix (map Some (rule_word a us r)) (?toks @ [token_of a e])}"
    by (rule outputs_end_here [OF c stands])
  have step: "scan a index s (e # padding) best = scan a (index + 1) ?s padding ?best"
  proof (cases "token_of a e")
    case None
    have "\<not> suffix (map Some (rule_word a us r)) (?toks @ [None])" if "r < length us" for r
      using rule_word_length [OF n that, of a] by (cases "rule_word a us r" rule: rev_cases) auto
    then have "set ?os = {}" unfolding os unfolding None by blast
    then have "?os = []" by simp
    then show ?thesis unfolding scan_Cons by (simp add: None transition_def)
  qed (simp add: scan_Cons del: scan.simps)
  have rules: "rules a = map rule_of us" using c by (simp add: compiled_def)
  have "set ?os \<subseteq> {..< length us}" using os by auto
  moreover have "within a us ?toks st \<subseteq> {..< length us} \<and> best_of (better us) (within a us ?toks st) (best ! st)"
    if "st < length best" for st
    using Cons.prems(4) [OF that] by (auto simp: within_def)
  moreover have "index + 1 - rule_length us r < length best" if "r \<in> set ?os" for r
  proof -
    have "r < length us" using os that by blast
    then have "0 < rule_length us r" using rule_word_length [OF n] by blast
    then show ?thesis using Cons.prems(2,3) by simp
  qed
  ultimately have offers: "length ?best = length best \<and> (\<forall>st < length best. best_of (better us)
      (within a us ?toks st \<union> {r \<in> set ?os. index + 1 - rule_length us r = st}) (?best ! st))"
    by (rule offers_best [OF rules n])
  have "within a us ?toks st \<union> {r \<in> set ?os. index + 1 - rule_length us r = st} = within a us (map (token_of a) (read @ [e])) st" for st
  proof -
    have "{r \<in> set ?os. index + 1 - rule_length us r = st} = {r. r < length us \<and>
        suffix (map Some (rule_word a us r)) (?toks @ [token_of a e]) \<and> length ?toks + 1 - rule_length us r = st}"
      unfolding os Cons.prems(2) length_map by blast
    then show ?thesis using within_snoc [OF n, of a ?toks "token_of a e" st] by simp
  qed
  with offers have best: "length ?best = length best"
    "\<And>st. st < length best \<Longrightarrow> best_of (better us) (within a us (map (token_of a) (read @ [e])) st) (?best ! st)"
    by simp_all
  have "stands_at a word ?s (map (token_of a) (read @ [e]))" using stands by simp
  from Cons.IH [OF this] best Cons.prems(2,3) show ?case unfolding step by simp
qed simp

end
