(* ===== verification/Name_Properties.thy ===== *)
theory Name_Properties
  imports Name_Scan
begin

text \<open>
  What the custom names do to a composition: \<open>apply\<close> of a compiled automaton is the reference
  \<open>greedy\<close> of \<open>Custom_Names\<close>, whatever order the children of a node are visited in.
\<close>

section \<open>The best rule is the best name\<close>

lemma spell_prefix:
  assumes "\<forall>r \<in> set rs. map_of (tokens a) r \<noteq> None"
    and inj: "\<forall>r r' t. map_of (tokens a) r = Some t \<longrightarrow> map_of (tokens a) r' = Some t \<longrightarrow> r = r'"
  shows "length rs \<le> length p \<and> map Some rs = map key_of (take (length rs) p) \<longleftrightarrow>
    prefix (map Some (spell (tokens a) rs)) (map (token_of a) p)"
  using assms(1)
proof (induction rs arbitrary: p)
  case Nil
  then show ?case by (simp add: spell_def)
next
  case (Cons r rs)
  show ?case
  proof (cases p)
    case Nil
    then show ?thesis by (simp add: spell_def)
  next
    case (Cons e es)
    obtain t where t: "map_of (tokens a) r = Some t" using Cons.prems by auto
    have "map_of (tokens a) (bopomofo e) = Some t \<longleftrightarrow> bopomofo e = r" using inj t by blast
    then have "Some r = key_of e \<longleftrightarrow> Some t = token_of a e"
      by (auto simp: key_of_def token_of_def)
    then show ?thesis using Cons.IH [of es] Cons.prems t by (auto simp: Cons spell_def)
  qed
qed

lemma fits_within:
  assumes c: "compiled a word us" and n: "numbering us" and r: "r < length us"
  shows "fits (snd (us ! r)) (drop st padding) \<longleftrightarrow> r \<in> within a us (map (token_of a) padding) st"
proof -
  have "us ! r \<in> set us" using r by simp
  then have "usable_setting (snd (us ! r))" "\<forall>x \<in> set (readings (snd (us ! r))). map_of (tokens a) x \<noteq> None"
    using n c by (simp_all add: numbering_def compiled_def spelled_def)
  moreover have "\<forall>r r' t. map_of (tokens a) r = Some t \<longrightarrow> map_of (tokens a) r' = Some t \<longrightarrow> r = r'"
    using c by (simp add: compiled_def)
  ultimately show ?thesis
    using spell_prefix [of "readings (snd (us ! r))" a "drop st padding"] r
    by (simp add: fits_def within_def rule_word_def drop_map)
qed

lemma longest_first_split:
  "\<forall>x \<in> set xs. length (name x) < length (name s) \<Longrightarrow> \<forall>y \<in> set ys. length (name y) \<le> length (name s) \<Longrightarrow>
   longest_first (xs @ s # ys) = Some s"
proof (induction xs)
  case Nil
  then show ?case by (auto split: option.splits dest: longest_first_member)
qed auto

lemma best_fit_of_best:
  assumes c: "compiled a word us" and n: "numbering us"
    and settings: "filter usable_setting settings = map snd us"
    and best: "best_of (better us) (within a us (map (token_of a) padding) st) x"
  shows "best_fit settings (drop st padding) = map_option (\<lambda>r. snd (us ! r)) x"
proof -
  let ?p = "drop st padding"
  let ?fits = "\<lambda>e. fits (snd e) ?p"
  have "filter (\<lambda>s. fits s ?p) settings = filter (\<lambda>s. fits s ?p) (filter usable_setting settings)"
    unfolding filter_filter by (rule filter_cong) (auto simp: fits_def)
  then have eq: "best_fit settings ?p = longest_first (map snd (filter ?fits us))"
    by (simp add: best_fit_def settings filter_map comp_def)
  show ?thesis
  proof (cases x)
    case None
    then have "\<not> ?fits (us ! q)" if "q < length us" for q
      using best fits_within [OF c n that] by (simp add: best_of_def)
    then have "filter ?fits us = []" by (metis filter_empty_conv in_set_conv_nth)
    then show ?thesis using None by (simp add: eq)
  next
    case (Some r)
    then have r: "r \<in> within a us (map (token_of a) padding) st" "r < length us"
      "\<And>q. q \<in> within a us (map (token_of a) padding) st \<Longrightarrow> q \<noteq> r \<Longrightarrow> better us r q"
      using best by (auto simp: best_of_def within_def)
    have "us = take r us @ us ! r # drop (Suc r) us" using r(2) by (rule id_take_nth_drop)
    then have "filter ?fits us = filter ?fits (take r us @ us ! r # drop (Suc r) us)" by (rule arg_cong)
    also have "\<dots> = filter ?fits (take r us) @ us ! r # filter ?fits (drop (Suc r) us)"
      using fits_within [OF c n r(2)] r(1) by simp
    finally have "filter ?fits us = filter ?fits (take r us) @ us ! r # filter ?fits (drop (Suc r) us)" .
    moreover have "length (name (snd e)) < length (name (snd (us ! r)))" if e: "e \<in> set (filter ?fits (take r us))" for e
    proof -
      obtain q where q: "q < r" "e = us ! q" using e r(2) by (auto simp: in_set_conv_nth)
      then have "better us r q" using r(2,3) fits_within [OF c n, of q] e by simp
      then show ?thesis using q by (simp add: better_def rule_length_def)
    qed
    moreover have "length (name (snd e)) \<le> length (name (snd (us ! r)))" if e: "e \<in> set (filter ?fits (drop (Suc r) us))" for e
    proof -
      obtain i where "i < length (drop (Suc r) us)" "e = drop (Suc r) us ! i"
        using e by (metis filter_is_subset in_set_conv_nth subsetD)
      then have "Suc r + i < length us" "Suc r + i \<noteq> r" "e = us ! (Suc r + i)" by simp_all
      then obtain q where q: "q < length us" "q \<noteq> r" "e = us ! q" by blast
      then have "better us r q" using r(3) fits_within [OF c n q(1)] e by simp
      then show ?thesis using q by (auto simp: better_def rule_length_def)
    qed
    ultimately show ?thesis
      using longest_first_split [of "map snd (filter ?fits (take r us))" "snd (us ! r)" "map snd (filter ?fits (drop (Suc r) us))"]
      by (simp add: eq Some)
  qed
qed

section \<open>Replacing from left to right\<close>

lemma greedy_length [simp]: "length (greedy settings p) = length p"
proof (induction settings p rule: greedy.induct)
  case (2 settings e es)
  then show ?case
    using fits_name [OF conjunct2 [OF best_fit_fits]] by (fastforce split: option.split)
qed simp

lemma put_characters_spec:
  assumes "i + length cs \<le> length padding" "length replacements = length padding"
  shows "put_characters i cs (padding, replacements) =
    (take i padding @ map2 fix_entry (drop i padding) (map Some cs) @ drop (i + length cs) padding,
     take i replacements @ map Some cs @ drop (i + length cs) replacements)"
  using assms
proof (induction cs arbitrary: i padding replacements)
  case (Cons c cs)
  let ?p = "padding[i := (padding ! i)\<lparr>entry_chosen := True, chosen_char := c\<rparr>]"
  let ?r = "replacements[i := Some c]"
  have i: "i < length padding" "i < length replacements" using Cons.prems by simp_all
  have "take (Suc i) ?p = take i padding @ [fix_entry (padding ! i) (Some c)]" "drop (Suc i) ?p = drop (Suc i) padding"
    "take (Suc i) ?r = take i replacements @ [Some c]"
    using i by (simp_all add: take_Suc_conv_app_nth fix_entry_def)
  moreover have "drop i padding = padding ! i # drop (Suc i) padding" using i(1) by (simp add: Cons_nth_drop_Suc)
  ultimately show ?case using Cons.IH [of "Suc i" ?p ?r] Cons.prems by simp
qed simp

lemma greedy_None: "best_fit settings (e # es) = None \<Longrightarrow> greedy settings (e # es) = None # greedy settings es"
  by simp

lemma greedy_Some:
  "best_fit settings p = Some s \<Longrightarrow> p \<noteq> [] \<Longrightarrow>
   greedy settings p = map Some (name s) @ greedy settings (drop (length (name s)) p)"
  by (cases p) simp_all

lemma map2_fix_split:
  "length xs \<le> length p \<Longrightarrow>
   map2 fix_entry p (xs @ ys) = map2 fix_entry p xs @ map2 fix_entry (drop (length xs) p) ys"
proof (induction xs arbitrary: p)
  case (Cons x xs)
  then show ?case by (cases p) simp_all
qed simp

lemma replace_matches_greedy:
  assumes best: "\<And>st. st < n \<Longrightarrow> best_fit settings (drop st padding) = map_option (\<lambda>r. snd (us ! r)) (best ! st) \<and>
      (\<forall>r. best ! st = Some r \<longrightarrow> characters (rules a ! r) = name (snd (us ! r)))"
    and "length padding = n" "length p = n" "length rs = n" "start \<le> n" "n - start \<le> fuel"
    and "drop start p = drop start padding" "drop start rs = replicate (n - start) None"
  shows "replace_matches a best fuel start (p, rs) =
    (take start p @ map2 fix_entry (drop start padding) (greedy settings (drop start padding)),
     take start rs @ greedy settings (drop start padding))"
  using assms(2-)
proof (induction fuel arbitrary: start p rs)
  case (Suc fuel)
  show ?case
  proof (cases "start < n")
    case True
    have cons: "drop start padding = padding ! start # drop (Suc start) padding" "p ! start = padding ! start" "rs ! start = None"
      using True Suc.prems Cons_nth_drop_Suc [of start padding]
      by (simp, metis hd_drop_conv_nth, metis hd_drop_conv_nth hd_replicate zero_less_diff neq0_conv replicate_empty)
    show ?thesis
    proof (cases "best ! start")
      case None
      have tail: "drop (Suc start) p = drop (Suc start) padding" "drop (Suc start) rs = replicate (n - Suc start) None"
        using Suc.prems(6,7) by (metis drop_Suc tl_drop, metis drop_Suc tl_drop tl_replicate diff_Suc_eq_diff_pred diff_commute One_nat_def)
      have "best_fit settings (padding ! start # drop (Suc start) padding) = None" using best [OF True] None cons(1) by simp
      note g = greedy_None [OF this]
      from Suc.IH [of p rs "Suc start", OF Suc.prems(1-3) _ _ tail] True Suc.prems(5)
      have "replace_matches a best fuel (Suc start) (p, rs) =
        (take (Suc start) p @ map2 fix_entry (drop (Suc start) padding) (greedy settings (drop (Suc start) padding)),
         take (Suc start) rs @ greedy settings (drop (Suc start) padding))" by simp
      then show ?thesis using True Suc.prems(2,3) None cons g
        by (simp add: take_Suc_conv_app_nth fix_entry_def)
    next
      case (Some r)
      let ?s = "snd (us ! r)"
      let ?m = "name ?s"
      have fit: "best_fit settings (drop start padding) = Some ?s" and chars: "characters (rules a ! r) = ?m"
        using best [OF True] Some by simp_all
      then have m: "0 < length ?m" "start + length ?m \<le> n"
        using fits_name [OF conjunct2 [OF best_fit_fits [OF fit]]] Suc.prems(1) True by auto
      let ?p = "take start p @ map2 fix_entry (drop start p) (map Some ?m) @ drop (start + length ?m) p"
      let ?rs = "take start rs @ map Some ?m @ drop (start + length ?m) rs"
      have put: "put_characters start ?m (p, rs) = (?p, ?rs)"
        using put_characters_spec [of start ?m p rs] m(2) Suc.prems(2,3) by simp
      have later: "drop (start + length ?m) p = drop (start + length ?m) padding"
        "drop (start + length ?m) rs = replicate (n - (start + length ?m)) None"
        using arg_cong [OF Suc.prems(6), of "drop (length ?m)"] arg_cong [OF Suc.prems(7), of "drop (length ?m)"]
        by (simp_all add: add.commute)
      have tail: "drop (start + length ?m) ?p = drop (start + length ?m) padding"
        "drop (start + length ?m) ?rs = replicate (n - (start + length ?m)) None"
        using m Suc.prems(2,3) later by simp_all
      have less: "n - (start + length ?m) \<le> fuel" using m(1) Suc.prems(5) by linarith
      have IH: "replace_matches a best fuel (start + length ?m) (?p, ?rs) =
        (take (start + length ?m) ?p @ map2 fix_entry (drop (start + length ?m) padding) (greedy settings (drop (start + length ?m) padding)),
         take (start + length ?m) ?rs @ greedy settings (drop (start + length ?m) padding))"
        by (rule Suc.IH [OF Suc.prems(1) _ _ _ less tail]) (use m Suc.prems in simp_all)
      have heads: "take (start + length ?m) ?p = take start p @ map2 fix_entry (drop start padding) (map Some ?m)"
        "take (start + length ?m) ?rs = take start rs @ map Some ?m"
        using m Suc.prems by simp_all
      have "drop start padding \<noteq> []" using True Suc.prems(1) by simp
      from greedy_Some [OF fit this] have g: "greedy settings (drop start padding) =
        map Some ?m @ greedy settings (drop (start + length ?m) padding)" by (simp add: add.commute)
      have "map2 fix_entry (drop start padding) (greedy settings (drop start padding)) =
        map2 fix_entry (drop start padding) (map Some ?m) @
        map2 fix_entry (drop (start + length ?m) padding) (greedy settings (drop (start + length ?m) padding))"
        unfolding g using map2_fix_split [of "map Some ?m" "drop start padding"] m Suc.prems(1) by (simp add: add.commute)
      then show ?thesis
        using IH put chars Some True Suc.prems(2) unfolding g heads by (simp add: Let_def)
    qed
  qed (use Suc.prems in simp)
qed simp

section \<open>Applying the names\<close>

lemma greedy_without_rules: "filter usable_setting settings = [] \<Longrightarrow> greedy settings p = replicate (length p) None"
proof (induction settings p rule: greedy.induct)
  case (2 settings e es)
  have "filter (\<lambda>s. fits s (e # es)) settings = []"
    using 2(3) by (auto simp: filter_empty_conv fits_def)
  then have "best_fit settings (e # es) = None" by (simp add: best_fit_def)
  with 2 show ?case by simp
qed simp

lemma map2_fix_None: "map2 fix_entry p (replicate (length p) None) = p"
  by (induction p) (simp_all add: fix_entry_def)

lemma usable_names: "map snd (usable_of (enumerate n settings)) = filter usable_setting settings"
proof -
  have "filter usable_setting settings = filter usable_setting (map snd (enumerate n settings))" by simp
  then show ?thesis by (simp only: filter_map comp_def)
qed

lemma apply_names_spec:
  assumes c: "compiled a word us" and n: "numbering us" and settings: "filter usable_setting settings = map snd us"
  shows "apply_names a padding = (map2 fix_entry padding (greedy settings padding), greedy settings padding)"
proof (cases "padding = [] \<or> rules a = []")
  case True
  then have "greedy settings padding = replicate (length padding) None"
    using greedy_without_rules [of settings padding] settings c by (auto simp: compiled_def)
  then show ?thesis using True map2_fix_None [of padding] by (auto simp: apply_names_def)
next
  case False
  let ?k = "length padding"
  let ?best = "scan a 0 0 padding (replicate ?k None)"
  have t: "trie (nodes a) word" "rules a = map rule_of us" using c by (simp_all add: compiled_def)
  have "stands_at a word 0 (map (token_of a) [])" using trieD(1,2) [OF t(1)] by (simp add: stands_at_def)
  from scan_best [OF c n this, of 0 "replicate ?k None" padding] within_Nil [OF n]
  have best: "length ?best = ?k"
    "\<And>st. st < ?k \<Longrightarrow> best_of (better us) (within a us (map (token_of a) padding) st) (?best ! st)"
    by (simp_all add: best_of_def)
  have "best_fit settings (drop st padding) = map_option (\<lambda>r. snd (us ! r)) (?best ! st) \<and>
      (\<forall>r. ?best ! st = Some r \<longrightarrow> characters (rules a ! r) = name (snd (us ! r)))" if st: "st < ?k" for st
  proof
    show "best_fit settings (drop st padding) = map_option (\<lambda>r. snd (us ! r)) (?best ! st)"
      by (rule best_fit_of_best [OF c n settings best(2) [OF st]])
    show "\<forall>r. ?best ! st = Some r \<longrightarrow> characters (rules a ! r) = name (snd (us ! r))"
      using best(2) [OF st] t(2) by (auto simp: best_of_def within_def rule_of_def)
  qed
  from replace_matches_greedy [OF this, where start = 0 and p = padding and rs = "replicate ?k None" and fuel = ?k]
  show ?thesis using False by (simp add: apply_names_def Let_def)
qed

lemma apply_compiled_names:
  assumes "\<And>edges. mset (visit edges) = mset edges"
  shows "apply_names (compile_names visit settings) padding =
    (map2 fix_entry padding (greedy settings padding), greedy settings padding)"
proof -
  obtain word where "compiled (compile_names visit settings) word (usable_of (enumerate 0 settings))"
    using compile_names_compiled [OF assms] by blast
  then show ?thesis
    by (rule apply_names_spec [OF _ numbering_usable usable_names [symmetric]])
qed

text \<open>(C15) The compiled automaton replaces exactly what the reference replaces: from the left, at each
  entry the longest usable name whose readings are those of the unfixed entries from there on, the
  first in the settings of equally long ones, and everything else stays as it is; the order in which
  the children of a node were linked does not matter.
\<close>

theorem names_are_greedy:
  assumes "\<And>edges. mset (visit edges) = mset edges"
  shows "apply_names (compile_names visit settings) padding =
    (map2 fix_entry padding (greedy settings padding), greedy settings padding)"
  by (rule apply_compiled_names [OF assms])

text \<open>
  Two names over the readings 1 and 2: the composition 1 1 2 takes the one-character name at its first
  entry and the longer one at its second.
\<close>

definition two_names :: "custom_name list" where
  "two_names = [\<lparr>name = [10], readings = [[1]]\<rparr>, \<lparr>name = [20, 21], readings = [[1], [2]]\<rparr>]"

definition read_entry :: "u16string \<Rightarrow> padding_entry" where
  "read_entry r = \<lparr>bopomofo = r, entry_chosen = False, chosen_char = 0\<rparr>"

theorem names_are_greedy_witness:
  "snd (apply_names (compile_names rev two_names) [read_entry [1], read_entry [1], read_entry [2]]) =
    [Some 10, Some 20, Some 21]"
proof -
  have "snd (apply_names (compile_names rev two_names) [read_entry [1], read_entry [1], read_entry [2]]) =
      greedy two_names [read_entry [1], read_entry [1], read_entry [2]]"
    by (simp only: names_are_greedy [of rev, OF mset_rev] snd_conv)
  also have "\<dots> = [Some 10, Some 20, Some 21]"
    by (simp add: two_names_def read_entry_def best_fit_def fits_def key_of_def usable_setting_def)
  finally show ?thesis .
qed

text \<open>An entry that is fixed is no part of a name.\<close>

lemma fits_unchosen: "fits s p \<Longrightarrow> i < length (name s) \<Longrightarrow> \<not> entry_chosen (p ! i)"
proof
  assume f: "fits s p" and i: "i < length (name s)" and chosen: "entry_chosen (p ! i)"
  have len: "length (name s) = length (readings s)" "length (name s) \<le> length p" using fits_name [OF f] by simp_all
  have "map Some (readings s) ! i = map key_of (take (length (readings s)) p) ! i" using f by (simp add: fits_def)
  then show False using i len chosen by (simp add: key_of_def)
qed

lemma greedy_keeps_chosen: "i < length p \<Longrightarrow> entry_chosen (p ! i) \<Longrightarrow> greedy settings p ! i = None"
proof (induction settings p arbitrary: i rule: greedy.induct)
  case (2 settings e es)
  show ?case
  proof (cases "best_fit settings (e # es)")
    case None
    then show ?thesis using 2(1) [of "i - 1"] 2(3,4) by (cases i) simp_all
  next
    case (Some s)
    have f: "fits s (e # es)" using best_fit_fits [OF Some] by simp
    have i: "length (name s) \<le> i" using fits_unchosen [OF f, of i] 2(4) by (meson not_le)
    have "(e # es) ! i = drop (length (name s)) (e # es) ! (i - length (name s))"
      using i fits_name [OF f] by simp
    moreover have "i - length (name s) < length (drop (length (name s)) (e # es))" using i 2(3) by simp
    ultimately have "greedy settings (drop (length (name s)) (e # es)) ! (i - length (name s)) = None"
      using 2(2) [OF Some] 2(4) by simp
    moreover have "greedy settings (e # es) = map Some (name s) @ greedy settings (drop (length (name s)) (e # es))"
      by (rule greedy_Some [OF Some]) simp
    ultimately show ?thesis using i by (simp add: nth_append del: greedy.simps)
  qed
qed simp

text \<open>An entry the user has fixed keeps its character, whatever names there are.\<close>

theorem names_keep_choices:
  assumes "\<And>edges. mset (visit edges) = mset edges" "i < length padding" "entry_chosen (padding ! i)"
  shows "fst (apply_names (compile_names visit settings) padding) ! i = padding ! i \<and>
    snd (apply_names (compile_names visit settings) padding) ! i = None"
  unfolding apply_compiled_names [OF assms(1)]
  using assms(2,3) greedy_keeps_chosen [OF assms(2,3), of settings] by (simp add: fix_entry_def)

theorem names_keep_choices_witness:
  "fst (apply_names (compile_names rev two_names) [read_entry [1], (read_entry [2])\<lparr>entry_chosen := True, chosen_char := 7\<rparr>]) ! 1 =
    (read_entry [2])\<lparr>entry_chosen := True, chosen_char := 7\<rparr>"
  using names_keep_choices [of rev 1 "[read_entry [1], (read_entry [2])\<lparr>entry_chosen := True, chosen_char := 7\<rparr>]" two_names]
  by simp

end
