(* ===== verification/Prediction_Properties.thy ===== *)
theory Prediction_Properties
  imports Prediction_Client Prediction_Server Name_Properties
begin

text \<open>
  The two ends of the prediction pipe agree: what the client asks for is what the service reads, and
  what the service answers is what the client puts into its syllables, custom names included.
\<close>

section \<open>Commits\<close>

definition raw_entry :: "commit_input_entry \<Rightarrow> raw_commit_entry" where
  "raw_entry e = \<lparr>raw_reading = entry_reading e, raw_output = entry_output e, raw_manually_selected = entry_manually_selected e\<rparr>"

definition put_raw_entry :: "raw_commit_entry \<Rightarrow> u8 list" where
  "put_raw_entry e = put_utf16 (raw_reading e) @ put_utf16 (raw_output e) @ put_flag (raw_manually_selected e)"

definition raw_entry_ok :: "raw_commit_entry \<Rightarrow> bool" where
  "raw_entry_ok e \<longleftrightarrow> raw_output e \<noteq> [] \<and> length (raw_reading e) \<le> maximum_entry_length \<and> length (raw_output e) \<le> maximum_entry_length"

interpretation commit_entry_codec: codec put_raw_entry get_commit_entry raw_entry_ok
proof
  fix e rest
  assume "raw_entry_ok e"
  then show "get_commit_entry (put_raw_entry e @ rest) = Some (e, rest)"
    by (simp add: get_commit_entry_def put_raw_entry_def raw_entry_ok_def get_put_utf16 get_put_flag get_put_flag [unfolded One_nat_def] pipe_limits)
qed

definition sample_ok :: "commit_sample \<Rightarrow> bool" where
  "sample_ok s \<longleftrightarrow>
     length (context_text s) \<le> maximum_context_length \<and> length (answer s) \<le> maximum_answer_length \<and>
     commit_input s \<noteq> [] \<and> length (commit_input s) \<le> maximum_entry_count \<and>
     list_all (\<lambda>e. raw_entry_ok (raw_entry e)) (commit_input s)"

definition commit_event :: "service \<Rightarrow> u64 \<Rightarrow> commit_sample \<Rightarrow> raw_commit_event" where
  "commit_event S token s =
     \<lparr>event_context = context_text s, event_answer = answer s, event_input = map raw_entry (commit_input s),
      event_session = collection_session S, event_sequence = token, event_time = utc_time S\<rparr>"

lemma put_commit_entries: "put_many commit_entry_request es = put_many put_raw_entry (map raw_entry es)"
  by (simp add: put_many_def commit_entry_request_def [abs_def] put_raw_entry_def raw_entry_def comp_def)

lemma serve_record:
  assumes "sample_ok s" "latest_commit_token c < token"
  shows "serve_command S (record_request token s @ rest) c =
    Some (rest, c\<lparr>writer_calls := writer_calls c @ [Enqueue (commit_event S token s)], latest_commit_token := token\<rparr>)"
proof -
  have "token \<noteq> 0" using assms(2) by auto
  moreover have "get_many get_commit_entry (length (map raw_entry (commit_input s)))
      (put_many put_raw_entry (map raw_entry (commit_input s)) @ rest) = Some (map raw_entry (commit_input s), rest)"
    by (rule commit_entry_codec.get_put_many) (use assms(1) in \<open>auto simp: sample_ok_def list_all_iff\<close>)
  ultimately show ?thesis
    using assms
    by (auto simp: serve_command_def record_request_def start_request_def record_command_def read_commit_def sample_ok_def
        get_put get_put_utf16 get_put_u32 pipe_limits put_commit_entries commit_event_def not_le)
qed

text \<open>(C12) A commit the client records reaches the writer of the training data exactly as it was sampled,
  under the token the client keeps for it, and the service is ready for the next command.\<close>

theorem commit_reaches_the_writer:
  assumes "engine_record ch sample e = (token, e', bytes)" "token \<noteq> 0" "sample_ok sample" "latest_commit_token c < token"
  shows "\<exists>c'. serve_command S (bytes @ rest) c = Some (rest, c') \<and> latest_commit_token c' = token \<and>
    writer_calls c' = writer_calls c @ [Enqueue (commit_event S token sample)]"
proof -
  have "bytes = record_request token sample"
    using assms(1,2) by (auto simp: engine_record_def Let_def split: if_splits prod.splits bool.splits)
  then show ?thesis using serve_record [OF assms(3,4)] by simp
qed

definition sample_service :: service where
  "sample_service = \<lparr>blank_entry = \<lparr>bopomofo = [], entry_chosen = False, chosen_char = 0\<rparr>,
     infer = (\<lambda>calls ctxt padding. Inr (map (\<lambda>_. [65, 66]) padding)), ready_succeeds = True,
     custom_names = compile_names rev two_names, collection_session = ''s'', utc_time = ''t''\<rparr>"

definition new_connection :: connection where
  "new_connection = \<lparr>service_mode = Chinese, latest_commit_token = 0, session_calls = [], writer_calls = [], response = []\<rparr>"

definition small_sample :: commit_sample where
  "small_sample = \<lparr>context_text = [], answer = [20320],
     commit_input = [\<lparr>entry_reading = [12563], entry_output = [20320], entry_manually_selected = False\<rparr>]\<rparr>"

theorem commit_reaches_the_writer_witness:
  "\<exists>bytes c'. serve_command sample_service (bytes @ []) new_connection = Some ([], c') \<and>
    writer_calls c' = [Enqueue (commit_event sample_service 1 small_sample)]"
proof -
  let ?ch = "\<lparr>can_connect = True, write_succeeds = True, reply = []\<rparr>"
  let ?e = "\<lparr>connected = False, aborted = False, next_commit_token = 1\<rparr>"
  have "engine_record ?ch small_sample ?e =
      (1, \<lparr>connected = True, aborted = False, next_commit_token = 2\<rparr>, record_request 1 small_sample)"
    by (simp add: engine_record_def small_sample_def ensure_pipe_def send_request_def Let_def)
  moreover have "sample_ok small_sample"
    by (simp add: small_sample_def sample_ok_def raw_entry_ok_def raw_entry_def pipe_limits)
  moreover have "latest_commit_token new_connection < 1" by (simp add: new_connection_def)
  ultimately obtain c' where "serve_command sample_service (record_request 1 small_sample @ []) new_connection = Some ([], c')"
    "writer_calls c' = writer_calls new_connection @ [Enqueue (commit_event sample_service 1 small_sample)]"
    using commit_reaches_the_writer [of ?ch small_sample ?e 1 _ _ new_connection sample_service "[]"] by auto
  then show ?thesis by (auto simp: new_connection_def)
qed

section \<open>Predictions\<close>

definition put_padding_entry :: "padding_entry \<Rightarrow> u8 list" where
  "put_padding_entry e =
     (if entry_chosen e then put_flag True @ put_word 4 (chosen_char e) else put_flag False @ put_utf16 (bopomofo e))"

definition padding_ok :: "padding_entry \<Rightarrow> padding_entry \<Rightarrow> bool" where
  "padding_ok blank e \<longleftrightarrow>
     (if entry_chosen e then e = blank\<lparr>chosen_char := chosen_char e, entry_chosen := True\<rparr> \<and> chosen_char e \<le> 0x10FFFF
      else e = blank\<lparr>bopomofo := bopomofo e, entry_chosen := False\<rparr> \<and> length (bopomofo e) \<le> maximum_entry_length)"

interpretation padding_codec: codec put_padding_entry "get_padding_entry blank" "padding_ok blank" for blank
proof
  fix e rest
  assume "padding_ok blank e"
  then show "get_padding_entry blank (put_padding_entry e @ rest) = Some (e, rest)"
    by (auto simp: get_padding_entry_def put_padding_entry_def padding_ok_def get_put_flag get_put_flag [unfolded One_nat_def]
        get_put get_put_utf16 pipe_limits not_less split: if_splits)
qed

text \<open>The entry the service reads for a syllable.\<close>

definition entry_for :: "padding_entry \<Rightarrow> pos \<Rightarrow> padding_entry" where
  "entry_for blank p =
     (if chosen p then blank\<lparr>chosen_char := (case current32 p of Inr c \<Rightarrow> c | Inl e \<Rightarrow> 0), entry_chosen := True\<rparr>
      else blank\<lparr>bopomofo := to_bopomofo_string p, entry_chosen := False\<rparr>)"

definition sendable :: "pos \<Rightarrow> bool" where
  "sendable p \<longleftrightarrow>
     (if chosen p then case current32 p of Inr c \<Rightarrow> c \<le> 0x10FFFF | Inl e \<Rightarrow> False else is_compositable p)"

lemma sendable_entry:
  assumes "sendable p"
  shows "is_predictable_by_engine p \<and> padding_request p = Inr (put_padding_entry (entry_for blank p)) \<and> padding_ok blank (entry_for blank p)"
proof (cases "chosen p")
  case True
  then obtain c where "current32 p = Inr c" "c \<le> 0x10FFFF" using assms by (auto simp: sendable_def split: sum.splits)
  then show ?thesis
    using True by (simp add: is_predictable_by_engine_def padding_request_def put_padding_entry_def entry_for_def padding_ok_def)
next
  case False
  have "length (to_bopomofo_string p) \<le> 4" by (simp add: to_bopomofo_string_def to_toneless_bopomofo_string_def)
  then show ?thesis
    using False assms
    by (simp add: is_predictable_by_engine_def padding_request_def put_padding_entry_def entry_for_def padding_ok_def
        sendable_def is_compositable_def pipe_limits)
qed

lemma predict_request_sendable:
  assumes "list_all sendable padding"
  shows "predict_request ctxt padding =
    Inr (start_request predict_command @ put_utf16 ctxt @ put_u32 (length padding) @ put_many put_padding_entry (map (entry_for blank) padding))"
proof -
  have "mapR padding_request padding = Inr (map (\<lambda>p. put_padding_entry (entry_for blank p)) padding)"
    by (rule mapR_Inr) (use assms sendable_entry in \<open>auto simp: list_all_iff\<close>)
  then show ?thesis by (simp add: predict_request_def put_many_def comp_def)
qed

lemma serve_predict_request:
  assumes "list_all sendable padding" "length ctxt \<le> maximum_context_length" "length padding \<le> maximum_entry_count"
    and "\<not> (padding = [] \<and> ctxt = [])" "predict_request ctxt padding = Inr request"
  shows "serve_command S (request @ rest) c = Some (rest, serve_predict S ctxt (map (entry_for (blank_entry S)) padding) c)"
proof -
  have "get_many (get_padding_entry (blank_entry S)) (length (map (entry_for (blank_entry S)) padding))
      (put_many put_padding_entry (map (entry_for (blank_entry S)) padding) @ rest) = Some (map (entry_for (blank_entry S)) padding, rest)"
    by (rule padding_codec.get_put_many) (use assms(1) sendable_entry in \<open>auto simp: list_all_iff\<close>)
  moreover have "request = start_request predict_command @ put_utf16 ctxt @ put_u32 (length padding) @
      put_many put_padding_entry (map (entry_for (blank_entry S)) padding)"
    using predict_request_sendable [OF assms(1), of ctxt "blank_entry S"] assms(5) by simp
  ultimately show ?thesis
    using assms(2-4)
    by (auto simp: serve_command_def start_request_def predict_command_def read_padding_def get_put get_put_utf16 get_put_u32 pipe_limits)
qed

lemma receive_entries_predictions:
  assumes "i + length rs \<le> length padding" "\<forall>r \<in> set rs. length r \<le> maximum_reply_candidates"
  shows "receive_entries (length rs) i (put_many put_prediction rs @ rest) padding =
    (True, take i padding @ map2 answer_entry rs (drop i padding) @ drop (i + length rs) padding)"
  using assms
proof (induction rs arbitrary: i padding)
  case (Cons r rs)
  let ?p = "padding[i := answer_entry r (padding ! i)]"
  have i: "i < length padding" using Cons.prems(1) by simp
  have len: "length r < 2 ^ 32" "length r \<le> maximum_reply_candidates"
    using Cons.prems(2) by (simp_all add: maximum_reply_candidates_def)
  have "receive_entries (length (r # rs)) i (put_many put_prediction (r # rs) @ rest) padding =
      receive_entries (length rs) (i + 1) (put_many put_prediction rs @ rest) ?p"
    using len by (simp add: put_many_def [of put_prediction] put_prediction_def get_put_u32 u32_codec.get_put_many)
  also have "\<dots> = (True, take (i + 1) ?p @ map2 answer_entry rs (drop (i + 1) ?p) @ drop (i + 1 + length rs) ?p)"
    by (rule Cons.IH) (use Cons.prems in simp_all)
  also have "take (i + 1) ?p = take i padding @ [answer_entry r (padding ! i)]" using i by (simp add: take_Suc_conv_app_nth)
  finally show ?case using i by (simp add: Cons_nth_drop_Suc [OF i, symmetric])
qed simp

lemma override_length [simp]: "length (override rs xs) = length rs"
  by (induction rs xs rule: override.induct) simp_all

lemma override_short:
  "\<forall>r \<in> set rs. length r \<le> n \<Longrightarrow> 1 \<le> n \<Longrightarrow> \<forall>r \<in> set (override rs xs). length r \<le> n"
  by (induction rs xs rule: override.induct) (auto split: option.split)

lemma receive_response:
  assumes "length rs \<le> length padding" "length padding < 2 ^ 32" "\<forall>r \<in> set rs. length r \<le> maximum_reply_candidates"
  shows "receive_prediction (write_response rs) padding = (True, map2 answer_entry rs padding @ drop (length rs) padding)"
  using receive_entries_predictions [of 0 rs padding "[]"] assms
  by (simp add: receive_prediction_def write_response_def get_put_u32)

text \<open>(C1) A composition sent for conversion comes back, over both ends of the pipe, with every syllable
  answered: by the character of the custom name the reference search finds for it, else by what the
  model predicted; a syllable the user has chosen keeps its character, and the pipe stays usable.\<close>

theorem prediction_over_the_pipe:
  assumes names: "custom_names S = compile_names visit settings" "\<And>edges. mset (visit edges) = mset edges"
    and size: "length ctxt \<le> maximum_context_length" "padding \<noteq> []" "length padding \<le> maximum_entry_count"
    and sendable: "list_all sendable padding"
    and model: "infer S (session_calls c) ctxt (fst (apply_names (custom_names S) (map (entry_for (blank_entry S)) padding))) = Inr results"
      "length results = length padding" "list_all (\<lambda>r. length r \<le> maximum_reply_candidates) results"
    and pipe: "\<not> aborted e" "connected e \<or> can_connect ch" "write_succeeds ch"
    and request: "predict_request ctxt padding = Inr request"
    and served: "serve_command S request c = Some (rest, c')" "response c' = response c @ reply ch"
  shows "engine_predict ch ctxt padding e =
    (Inr (True, map2 answer_entry (override results (greedy settings (map (entry_for (blank_entry S)) padding))) padding),
     e\<lparr>connected := True\<rparr>, request) \<and> rest = []"
proof -
  let ?es = "map (entry_for (blank_entry S)) padding"
  let ?rs = "override results (greedy settings ?es)"
  have names': "snd (apply_names (custom_names S) ?es) = greedy settings ?es"
    unfolding names(1) apply_compiled_names [OF names(2)] by simp
  have "serve_command S (request @ []) c = Some ([], serve_predict S ctxt ?es c)"
    by (rule serve_predict_request) (use size sendable request in simp_all)
  then have served': "rest = []" "c' = serve_predict S ctxt ?es c" using served(1) by simp_all
  obtain es' xs where applied: "apply_names (custom_names S) ?es = (es', xs)" by (cases "apply_names (custom_names S) ?es")
  have "response c' = response c @ write_response ?rs"
    using applied model(1) names' by (simp add: served' serve_predict_def respond_def Let_def)
  then have reply: "reply ch = write_response ?rs" using served(2) by simp
  have "\<forall>r \<in> set ?rs. length r \<le> maximum_reply_candidates"
    by (rule override_short) (use model(3) in \<open>simp_all add: list_all_iff maximum_reply_candidates_def\<close>)
  then have "receive_prediction (write_response ?rs) padding = (True, map2 answer_entry ?rs padding)"
    using receive_response [of ?rs padding] model(2) size(3) by (simp add: pipe_limits)
  moreover have "\<forall>p \<in> set padding. is_predictable_by_engine p" using sendable sendable_entry by (simp add: list_all_iff)
  moreover have "ensure_pipe ch e = (True, e\<lparr>connected := True\<rparr>)" using pipe by (auto simp: ensure_pipe_def)
  ultimately show ?thesis
    using pipe request reply served'(1) by (simp add: engine_predict_def send_request_def answer_bytes_def)
qed

text \<open>Two syllables with the readings of a two-character name come back with that name.\<close>

definition syllable :: "char16 \<Rightarrow> pos" where
  "syllable i = new_pos\<lparr>initial := i, compositable := True, candidates := [1]\<rparr>"

theorem prediction_over_the_pipe_witness:
  "\<exists>request c' padding e'.
    predict_request [] [syllable 1, syllable 2] = Inr request \<and>
    serve_command sample_service request new_connection = Some ([], c') \<and>
    engine_predict \<lparr>can_connect = True, write_succeeds = True, reply = response c'\<rparr> [] [syllable 1, syllable 2]
      \<lparr>connected = False, aborted = False, next_commit_token = 1\<rparr> = (Inr (True, padding), e', request) \<and>
    map (\<lambda>p. (chosen p, candidates p)) padding = [(True, [20, 1]), (True, [21, 1])]"
proof -
  let ?p = "[syllable 1, syllable 2]"
  let ?S = "sample_service"
  let ?c = "new_connection"
  let ?c' = "serve_predict ?S [] (map (entry_for (blank_entry ?S)) ?p) ?c"
  let ?ch = "\<lparr>can_connect = True, write_succeeds = True, reply = response ?c'\<rparr>"
  let ?e = "\<lparr>connected = False, aborted = False, next_commit_token = 1\<rparr>"
  have sendable: "list_all sendable ?p" by (simp add: sendable_def syllable_def is_compositable_def new_pos_def)
  obtain request where request: "predict_request [] ?p = Inr request"
    using predict_request_sendable [OF sendable, of "[]" "blank_entry ?S"] by simp
  have "serve_command ?S (request @ []) ?c = Some ([], ?c')"
    by (rule serve_predict_request) (use sendable request in \<open>simp_all add: pipe_limits\<close>)
  then have served: "serve_command ?S request ?c = Some ([], ?c')" by simp
  have names: "custom_names ?S = compile_names rev two_names" by (simp add: sample_service_def)
  have model: "infer ?S (session_calls ?c) [] (fst (apply_names (custom_names ?S) (map (entry_for (blank_entry ?S)) ?p))) =
      Inr [[65, 66], [65, 66]]"
  proof -
    have "length (fst (apply_names (custom_names ?S) (map (entry_for (blank_entry ?S)) ?p))) = 2"
      unfolding names apply_compiled_names [OF mset_rev] by (simp del: greedy.simps)
    then show ?thesis by (auto simp: sample_service_def length_Suc_conv numeral_2_eq_2)
  qed
  have entries: "map (entry_for (blank_entry ?S)) ?p = [read_entry [1], read_entry [2]]"
    by (simp add: entry_for_def syllable_def new_pos_def sample_service_def read_entry_def to_bopomofo_string_def to_toneless_bopomofo_string_def)
  have greedy: "greedy two_names [read_entry [1], read_entry [2]] = [Some 20, Some 21]"
    by (simp add: two_names_def read_entry_def best_fit_def fits_def key_of_def usable_setting_def)
  have "engine_predict ?ch [] ?p ?e =
      (Inr (True, map2 answer_entry (override [[65, 66], [65, 66]] (greedy two_names (map (entry_for (blank_entry ?S)) ?p))) ?p),
       ?e\<lparr>connected := True\<rparr>, request) \<and> [] = ([] :: u8 list)"
    by (rule prediction_over_the_pipe [OF names mset_rev _ _ _ sendable model _ _ _ _ _ request served])
      (simp_all add: maximum_reply_candidates_def pipe_limits new_connection_def)
  then have "engine_predict ?ch [] ?p ?e =
      (Inr (True, map2 answer_entry (override [[65, 66], [65, 66]] [Some 20, Some 21]) ?p), ?e\<lparr>connected := True\<rparr>, request)"
    unfolding entries greedy by simp
  then show ?thesis
    using request served
    by (intro exI [of _ request] exI [of _ ?c'] exI [of _ "map2 answer_entry (override [[65, 66], [65, 66]] [Some 20, Some 21]) ?p"] exI)
      (simp add: answer_entry_def choose_candidate_def syllable_def new_pos_def)
qed

section \<open>What the writer of the training data gets\<close>

text \<open>Reading the calls from the left with the token recorded last: a commit has a greater token, a discard
  names the last one.\<close>

fun in_order :: "u64 \<Rightarrow> writer_call list \<Rightarrow> bool" where
  "in_order t [] = True"
| "in_order t (Enqueue ev # calls) = (t < event_sequence ev \<and> in_order (event_sequence ev) calls)"
| "in_order t (Discard_staged session t' # calls) = (t' = t \<and> in_order t calls)"

fun last_token :: "u64 \<Rightarrow> writer_call list \<Rightarrow> u64" where
  "last_token t [] = t"
| "last_token t (Enqueue ev # calls) = last_token (event_sequence ev) calls"
| "last_token t (Discard_staged session t' # calls) = last_token t calls"

lemma in_order_append: "in_order t (xs @ ys) \<longleftrightarrow> in_order t xs \<and> in_order (last_token t xs) ys"
  by (induction t xs rule: in_order.induct) auto

lemma last_token_append: "last_token t (xs @ ys) = last_token (last_token t xs) ys"
  by (induction t xs rule: last_token.induct) auto

definition writer_inv :: "connection \<Rightarrow> bool" where
  "writer_inv c \<longleftrightarrow> in_order 0 (writer_calls c) \<and> last_token 0 (writer_calls c) = latest_commit_token c"

lemma read_commit_newer: "read_commit session time latest bs = Some (ev, rest) \<Longrightarrow> latest < event_sequence ev"
  by (auto simp: read_commit_def not_le split: option.splits if_splits)

lemma serve_predict_writer [simp]:
  "writer_calls (serve_predict S ctxt padding c) = writer_calls c"
  "latest_commit_token (serve_predict S ctxt padding c) = latest_commit_token c"
  by (simp_all add: serve_predict_def respond_def Let_def split: prod.split sum.split)

lemma serve_command_writer: "writer_inv c \<Longrightarrow> serve_command S bs c = Some (rest, c') \<Longrightarrow> writer_inv c'"
  by (auto simp: serve_command_def writer_inv_def respond_def Let_def in_order_append last_token_append
      split: option.splits if_splits dest!: read_commit_newer)

lemma serve_client_writer: "writer_inv c \<Longrightarrow> writer_inv (serve_client fuel S bs c)"
  by (induction fuel S bs c rule: serve_client.induct) (auto split: option.split dest: serve_command_writer)

text \<open>(C13) Whatever a client sends, the commits of its connection reach the writer with increasing tokens,
  and only the last one is ever taken back.\<close>

theorem writer_calls_in_order:
  "in_order 0 (writer_calls (serve_client fuel S bytes new_connection))"
proof -
  have "writer_inv new_connection" by (simp add: writer_inv_def new_connection_def)
  then show ?thesis using serve_client_writer by (simp add: writer_inv_def)
qed

end
