(* ===== verification/Gpu_Lease.thy ===== *)
theory Gpu_Lease
  imports Prelude
begin

text \<open>
  \<open>service/src/service/gpu_activity_lease.hpp\<close>: while the user types, the GPU driver is asked for a
  higher clock, and asked to give it back when no key has come for a while.  The class runs on one
  executor, so it is a state machine: \<open>set_backend\<close>, \<open>activate\<close>, \<open>set_enabled\<close>, the timer handler and
  the destructor are its events.  The driver is the \<open>Boost\<close> object passed in: what a call of it did
  is part of the event, and the calls made are kept in the ghost field \<open>driver_calls\<close>.  The steady
  clock is an integer read once per event, and \<open>arm\<close> may throw.  A cancelled wait of the timer still
  runs its handler, with an error or, when it had already expired, without one.
\<close>

section \<open>State\<close>

datatype boost_result = Boost_success | Boost_retry_later | Boost_unavailable

datatype driven = Returned boost_result | Threw

record 'b lease =
  backend :: "'b option"
  generation :: nat
  active :: bool
  enabled :: bool
  releasing :: bool
  release_failures :: nat
  deadline :: int
  retry_after :: int
  idle_timeout :: int
  retry_delay :: int
  waits :: "nat list"
  driver_calls :: "('b \<times> bool \<times> driven) list"

definition max_release_attempts :: nat where
  "max_release_attempts = 4"

text \<open>What the surroundings do during an event: the time, what the driver answers to \<open>false\<close> and to
  \<open>true\<close>, and whether the timer can be armed.\<close>

record surroundings =
  now :: int
  on_request :: driven
  off_request :: driven
  arm_works :: bool

definition new_lease :: "int \<Rightarrow> int \<Rightarrow> 'b lease" where
  "new_lease timeout delay =
     \<lparr>backend = None, generation = 0, active = False, enabled = True, releasing = False, release_failures = 0,
      deadline = 0, retry_after = 0, idle_timeout = timeout, retry_delay = delay, waits = [], driver_calls = []\<rparr>"

section \<open>Operations\<close>

definition reset :: "surroundings \<Rightarrow> 'b lease \<Rightarrow> 'b lease" where
  "reset env s =
     (let s1 = s\<lparr>generation := generation s + 1, active := False, releasing := False, release_failures := 0,
                 retry_after := 0, backend := None\<rparr> in
      case backend s of
        Some b \<Rightarrow> if active s then s1\<lparr>driver_calls := driver_calls s @ [(b, False, off_request env)]\<rparr> else s1
      | None \<Rightarrow> s1)"

text \<open>\<open>arm\<close>: waiting again replaces the wait before it, whose handler then runs with an error.\<close>

definition arm :: "'b lease \<Rightarrow> 'b lease" where
  "arm s = s\<lparr>waits := waits s @ [generation s]\<rparr>"

definition activate :: "surroundings \<Rightarrow> 'b lease \<Rightarrow> 'b lease" where
  "activate env s =
     (case backend s of
        None \<Rightarrow> s
      | Some b \<Rightarrow>
          if \<not> enabled s \<or> releasing s then s
          else if now env < retry_after s then s
          else
            let s1 = s\<lparr>deadline := now env + idle_timeout s\<rparr> in
            if active s1 then s1
            else
              let s2 = s1\<lparr>driver_calls := driver_calls s1 @ [(b, True, on_request env)]\<rparr> in
              (case on_request env of
                 Returned Boost_retry_later \<Rightarrow> s2\<lparr>retry_after := now env + retry_delay s\<rparr>
               | Returned Boost_unavailable \<Rightarrow> reset env s2
               | Returned Boost_success \<Rightarrow>
                   let s3 = s2\<lparr>active := True\<rparr> in
                   if arm_works env then arm s3 else reset env s3
               | Threw \<Rightarrow> reset env s2))"

text \<open>Calling an empty \<open>move_only_function\<close> is undefined; it is the value \<open>None\<close> here.\<close>

definition release :: "surroundings \<Rightarrow> 'b lease \<Rightarrow> 'b lease option" where
  "release env s =
     (case backend s of
        None \<Rightarrow> None
      | Some b \<Rightarrow>
          let s1 = s\<lparr>releasing := True, driver_calls := driver_calls s @ [(b, False, off_request env)]\<rparr> in
          if off_request env = Returned Boost_success
          then Some (s1\<lparr>active := False, releasing := False, release_failures := 0\<rparr>)
          else
            let s2 = s1\<lparr>release_failures := release_failures s1 + 1\<rparr> in
            if max_release_attempts \<le> release_failures s2 then Some s2
            else
              let s3 = s2\<lparr>deadline := now env + retry_delay s2\<rparr> in
              Some (if arm_works env then arm s3 else s3))"

definition timer_handler :: "surroundings \<Rightarrow> nat \<Rightarrow> bool \<Rightarrow> 'b lease \<Rightarrow> 'b lease option" where
  "timer_handler env expected failed s =
     (if failed \<or> expected \<noteq> generation s then Some s
      else if now env < deadline s then Some (if arm_works env then arm s else s\<lparr>releasing := True\<rparr>)
      else release env s)"

section \<open>Events\<close>

datatype 'b lease_event =
    Set_backend "'b option"
  | Set_enabled bool
  | Activate
  | Expire nat bool
  | Destroy

text \<open>The timer runs the handler of a wait that was started; a wait of the current generation has not
  been cancelled, so it reports no error.\<close>

definition may_happen :: "'b lease \<Rightarrow> 'b lease_event \<Rightarrow> bool" where
  "may_happen s e =
     (case e of Expire expected failed \<Rightarrow> expected \<in> set (waits s) \<and> (failed \<longrightarrow> expected \<noteq> generation s) | _ \<Rightarrow> True)"

definition lease_step :: "surroundings \<Rightarrow> 'b lease_event \<Rightarrow> 'b lease \<Rightarrow> 'b lease option" where
  "lease_step env e s =
     (case e of
        Set_backend b \<Rightarrow> Some ((reset env s)\<lparr>backend := b\<rparr>)
      | Set_enabled x \<Rightarrow> Some (s\<lparr>enabled := x\<rparr>)
      | Activate \<Rightarrow> Some (activate env s)
      | Expire expected failed \<Rightarrow> timer_handler env expected failed (s\<lparr>waits := remove1 expected (waits s)\<rparr>)
      | Destroy \<Rightarrow> Some (reset env s))"

fun lease_run :: "(surroundings \<times> 'b lease_event) list \<Rightarrow> 'b lease \<Rightarrow> 'b lease option" where
  "lease_run [] s = Some s"
| "lease_run ((env, e) # es) s =
     (if may_happen s e then (case lease_step env e s of Some s' \<Rightarrow> lease_run es s' | None \<Rightarrow> None) else Some s)"

section \<open>The invariant\<close>

text \<open>\<open>owed\<close> reads the driver calls: the backend that was switched on and not yet asked to switch off;
  the whole is \<open>None\<close> when a call went to a driver while such a request was still owed.\<close>

fun owed :: "'b option \<Rightarrow> ('b \<times> bool \<times> driven) list \<Rightarrow> 'b option option" where
  "owed b [] = Some b"
| "owed None ((c, on, d) # calls) = owed (if on \<and> d = Returned Boost_success then Some c else None) calls"
| "owed (Some b) ((c, on, d) # calls) = (if c = b \<and> \<not> on then owed None calls else None)"

lemma owed_append: "owed b (xs @ ys) = (case owed b xs of None \<Rightarrow> None | Some b' \<Rightarrow> owed b' ys)"
  by (induction b xs rule: owed.induct) simp_all

definition live_waits :: "'b lease \<Rightarrow> nat" where
  "live_waits s = count_list (waits s) (generation s)"

definition lease_inv :: "'b lease \<Rightarrow> bool" where
  "lease_inv s \<longleftrightarrow>
     (active s \<longrightarrow> backend s \<noteq> None) \<and> (releasing s \<longrightarrow> active s) \<and>
     (\<not> releasing s \<longrightarrow> release_failures s = 0) \<and> release_failures s \<le> max_release_attempts \<and>
     (\<forall>w \<in> set (waits s). w \<le> generation s) \<and>
     live_waits s \<le> 1 \<and> (active s \<and> \<not> releasing s \<longrightarrow> live_waits s = 1) \<and>
     (live_waits s = 1 \<longrightarrow> active s \<and> release_failures s < max_release_attempts) \<and>
     (\<exists>x. owed None (driver_calls s) = Some x \<and>
       (x = (if active s then backend s else None) \<or> x = None \<and> releasing s))"

lemma lease_inv_new: "lease_inv (new_lease t d)"
  by (simp add: lease_inv_def new_lease_def live_waits_def max_release_attempts_def)

lemma count_list_remove1: "x \<in> set xs \<Longrightarrow> count_list (remove1 x xs) y = count_list xs y - (if x = y then 1 else 0)"
  by (induction xs) auto

lemma count_list_above: "\<forall>w \<in> set xs. w \<le> (n :: nat) \<Longrightarrow> count_list xs (Suc n) = 0"
  by (induction xs) auto

lemma reset_inv: "lease_inv s \<Longrightarrow> lease_inv ((reset env s)\<lparr>backend := b\<rparr>)"
  by (auto simp: lease_inv_def reset_def Let_def live_waits_def count_list_above max_release_attempts_def owed_append
      le_Suc_eq split: option.splits)

lemma reset_backend: "(reset env s)\<lparr>backend := None\<rparr> = reset env s"
  by (simp add: reset_def Let_def split: option.split)

lemma activate_inv: "lease_inv s \<Longrightarrow> lease_inv (activate env s)"
proof (cases "backend s")
  case None
  then show "lease_inv s \<Longrightarrow> ?thesis" by (simp add: activate_def)
next
  case (Some b)
  assume inv: "lease_inv s"
  show ?thesis
  proof (cases "enabled s \<and> \<not> releasing s \<and> retry_after s \<le> now env \<and> \<not> active s")
    case False
    then show ?thesis using inv Some by (auto simp: activate_def Let_def lease_inv_def live_waits_def)
  next
    case True
    have counts: "live_waits s = 0" "release_failures s = 0" "owed None (driver_calls s) = Some None"
      using inv True by (auto simp: lease_inv_def)
    let ?s2 = "s\<lparr>deadline := now env + idle_timeout s, driver_calls := driver_calls s @ [(b, True, on_request env)]\<rparr>"
    have plain: "lease_inv ?s2" if "on_request env \<noteq> Returned Boost_success"
      using inv counts that True by (auto simp: lease_inv_def live_waits_def owed_append)
    have reset: "lease_inv (reset env t)" if "lease_inv t" for t :: "'a lease"
      using reset_inv [OF that, where env = env and b = None] by (simp add: reset_backend)
    show ?thesis
    proof (cases "on_request env")
      case Threw
      then show ?thesis using plain reset [of ?s2] True Some by (simp add: activate_def Let_def)
    next
      case (Returned r)
      show ?thesis
      proof (cases r)
        case Boost_success
        let ?s3 = "?s2\<lparr>active := True\<rparr>"
        have "lease_inv (arm ?s3)"
          using inv counts Returned Boost_success Some True
          by (auto simp: lease_inv_def live_waits_def arm_def owed_append max_release_attempts_def)
        moreover have "lease_inv (reset env ?s3)"
          using inv counts Returned Boost_success Some True
          by (auto simp: lease_inv_def live_waits_def reset_def Let_def count_list_above owed_append max_release_attempts_def le_Suc_eq)
        ultimately show ?thesis using Returned Boost_success Some True by (simp add: activate_def Let_def)
      next
        case Boost_retry_later
        have "lease_inv (?s2\<lparr>retry_after := now env + retry_delay s\<rparr>)"
          using plain Returned Boost_retry_later by (auto simp: lease_inv_def live_waits_def)
        then show ?thesis using Returned Boost_retry_later True Some by (simp add: activate_def Let_def)
      next
        case Boost_unavailable
        then show ?thesis using plain reset [of ?s2] Returned True Some by (simp add: activate_def Let_def)
      qed
    qed
  qed
qed

text \<open>The handler of a wait that has just been taken out of the list.\<close>

definition woken_inv :: "nat \<Rightarrow> 'b lease \<Rightarrow> bool" where
  "woken_inv w s \<longleftrightarrow> w = generation s \<and> active s \<and> backend s \<noteq> None \<and> release_failures s < max_release_attempts \<and>
     (\<not> releasing s \<longrightarrow> release_failures s = 0) \<and> live_waits s = 0 \<and> (\<forall>w \<in> set (waits s). w \<le> generation s) \<and>
     (\<exists>x. owed None (driver_calls s) = Some x \<and> (x = backend s \<or> x = None \<and> releasing s))"

lemma woken:
  assumes "lease_inv s" "w \<in> set (waits s)" "w = generation s"
  shows "woken_inv w (s\<lparr>waits := remove1 w (waits s)\<rparr>)"
proof -
  have "live_waits s = 1"
    using assms count_list_0_iff [of "waits s" w] by (fastforce simp: lease_inv_def live_waits_def)
  then show ?thesis
    using assms by (auto simp: woken_inv_def lease_inv_def live_waits_def count_list_remove1 dest: notin_set_remove1)
qed

lemma release_inv:
  assumes "woken_inv w s"
  shows "\<exists>s'. release env s = Some s' \<and> lease_inv s'"
proof -
  obtain b where b: "backend s = Some b" using assms by (auto simp: woken_inv_def)
  have w: "generation s \<notin> set (waits s)" "\<And>v. v \<in> set (waits s) \<Longrightarrow> v \<le> generation s"
    using assms count_list_0_iff [of "waits s" "generation s"] by (auto simp: woken_inv_def live_waits_def)
  show ?thesis
    using assms b w
    by (auto simp: release_def Let_def lease_inv_def woken_inv_def live_waits_def arm_def owed_append max_release_attempts_def)
qed

lemma lease_step_inv:
  assumes "lease_inv s" "may_happen s e"
  shows "\<exists>s'. lease_step env e s = Some s' \<and> lease_inv s'"
proof (cases e)
  case (Expire w failed)
  let ?s = "s\<lparr>waits := remove1 w (waits s)\<rparr>"
  show ?thesis
  proof (cases "w = generation s")
    case True
    have wait: "w \<in> set (waits s)" "\<not> failed" using assms(2) Expire True by (auto simp: may_happen_def)
    have woken: "woken_inv w ?s" by (rule woken [OF assms(1) wait(1) True])
    then have "lease_inv (arm ?s)" "lease_inv (?s\<lparr>releasing := True\<rparr>)"
      by (auto simp: woken_inv_def lease_inv_def arm_def live_waits_def max_release_attempts_def)
    then show ?thesis
      using release_inv [OF woken, of env] Expire wait(2) True by (simp add: lease_step_def timer_handler_def)
  next
    case False
    then have "lease_inv ?s"
      using assms by (auto simp: lease_inv_def live_waits_def Expire may_happen_def count_list_remove1 dest: notin_set_remove1)
    then show ?thesis using Expire False by (simp add: lease_step_def timer_handler_def)
  qed
next
  case Activate
  then show ?thesis using activate_inv [OF assms(1)] by (simp add: lease_step_def)
next
  case (Set_enabled x)
  then show ?thesis using assms(1) by (auto simp: lease_step_def lease_inv_def live_waits_def)
next
  case (Set_backend b)
  then show ?thesis using reset_inv [OF assms(1)] by (simp add: lease_step_def)
next
  case Destroy
  then show ?thesis using reset_inv [OF assms(1), where env = env and b = None] by (simp add: lease_step_def reset_backend)
qed

lemma lease_run_inv: "lease_inv s \<Longrightarrow> \<exists>s'. lease_run es s = Some s' \<and> lease_inv s'"
proof (induction es s rule: lease_run.induct)
  case (2 env e es s)
  show ?case
  proof (cases "may_happen s e")
    case True
    obtain s' where "lease_step env e s = Some s'" "lease_inv s'" using lease_step_inv [OF 2(2) True] by blast
    then show ?thesis using 2(1) [OF True] True by simp
  qed (use 2 in simp)
qed simp

section \<open>What the lease guarantees\<close>

text \<open>Destroying the lease asks for what is still owed.\<close>

lemma reset_settles:
  assumes "lease_inv s"
  shows "owed None (driver_calls (reset env s)) = Some None"
  using assms by (auto simp: lease_inv_def reset_def Let_def owed_append split: option.splits if_splits)

text \<open>Once four releases have failed, the driver is left alone until the backend is replaced.\<close>

lemma given_up:
  assumes "lease_inv s" "release_failures s = max_release_attempts" "may_happen s e"
    and "lease_step env e s = Some s'" "e \<noteq> Destroy" "\<And>b. e \<noteq> Set_backend b"
  shows "driver_calls s' = driver_calls s \<and> release_failures s' = max_release_attempts"
proof -
  have "releasing s" "generation s \<notin> set (waits s)"
    using assms(1,2) count_list_0_iff [of "waits s" "generation s"]
    by (auto simp: lease_inv_def live_waits_def max_release_attempts_def le_Suc_eq)
  then show ?thesis
    using assms(2-) by (cases e) (auto simp: lease_step_def activate_def timer_handler_def may_happen_def split: option.splits if_splits)
qed

text \<open>(C9) However its events interleave, the lease never calls an empty backend; after a driver has been
  switched on, the next driver call is the switch-off of that same driver, and destroying the lease
  leaves no driver switched on that was not asked to switch off.\<close>

theorem lease_switches_off:
  "\<exists>s. lease_run events (new_lease timeout delay) = Some s \<and> owed None (driver_calls s) \<noteq> None \<and>
    (\<exists>s'. lease_step env Destroy s = Some s' \<and> owed None (driver_calls s') = Some None)"
proof -
  obtain s where s: "lease_run events (new_lease timeout delay) = Some s" "lease_inv s"
    using lease_run_inv [OF lease_inv_new] by blast
  have "owed None (driver_calls s) \<noteq> None" using s(2) by (auto simp: lease_inv_def)
  then show ?thesis using s(1) reset_settles [OF s(2)] by (simp add: lease_step_def)
qed

text \<open>A switched-on driver has a running wait, or its releases have all failed, as long as the timer can be
  armed.\<close>

definition lease_armed :: "'b lease \<Rightarrow> bool" where
  "lease_armed s \<longleftrightarrow> (active s \<longrightarrow> generation s \<in> set (waits s) \<or> release_failures s = max_release_attempts)"

lemma reset_armed: "lease_armed ((reset env s)\<lparr>backend := b\<rparr>)" "lease_armed (reset env s)"
  by (simp_all add: lease_armed_def reset_def Let_def split: option.split)

lemma activate_armed: "lease_armed s \<Longrightarrow> arm_works env \<Longrightarrow> lease_armed (activate env s)"
  by (auto simp: activate_def Let_def reset_armed split: option.split driven.split boost_result.split)
    (auto simp: lease_armed_def arm_def)

lemma release_armed:
  "woken_inv w s \<Longrightarrow> arm_works env \<Longrightarrow> release env s = Some s' \<Longrightarrow> lease_armed s'"
  by (auto simp: woken_inv_def release_def Let_def lease_armed_def arm_def split: option.splits if_splits)

lemma lease_step_armed:
  assumes "lease_inv s" "lease_armed s" "may_happen s e" "arm_works env" "lease_step env e s = Some s'"
  shows "lease_armed s'"
proof (cases e)
  case (Expire w failed)
  let ?s = "s\<lparr>waits := remove1 w (waits s)\<rparr>"
  show ?thesis
  proof (cases "w = generation s")
    case True
    have wait: "w \<in> set (waits s)" "\<not> failed" using assms(3) Expire True by (auto simp: may_happen_def)
    have "lease_armed (arm ?s)" by (simp add: lease_armed_def arm_def)
    then show ?thesis
      using release_armed [OF woken [OF assms(1) wait(1) True] assms(4)] assms(4,5) Expire wait(2) True
      by (auto simp: lease_step_def timer_handler_def split: if_splits)
  next
    case False
    then show ?thesis using assms(2,5) Expire by (auto simp: lease_step_def timer_handler_def lease_armed_def)
  qed
next
  case Activate
  then show ?thesis using assms activate_armed by (auto simp: lease_step_def)
next
  case (Set_enabled x)
  then show ?thesis using assms by (auto simp: lease_step_def lease_armed_def)
qed (use assms(5) reset_armed in \<open>auto simp: lease_step_def\<close>)

lemma lease_run_armed:
  "lease_inv s \<Longrightarrow> lease_armed s \<Longrightarrow> \<forall>x \<in> set es. arm_works (fst x) \<Longrightarrow> lease_run es s = Some s' \<Longrightarrow> lease_armed s'"
proof (induction es s rule: lease_run.induct)
  case (2 env e es s)
  show ?case
  proof (cases "may_happen s e")
    case True
    obtain t where t: "lease_step env e s = Some t" "lease_inv t" using lease_step_inv [OF 2(2) True] by blast
    have "lease_armed t" using lease_step_armed [OF 2(2,3) True _ t(1)] 2(4) by simp
    then show ?thesis using 2(1) [OF True t] 2(4,5) True t by simp
  qed (use 2 in simp)
qed simp

text \<open>The wait of the current generation is the only one, so it is gone when its handler runs.\<close>

lemma live_wait_taken:
  assumes "lease_inv s"
  shows "generation s \<notin> set (remove1 (generation s) (waits s))"
proof (cases "generation s \<in> set (waits s)")
  case True
  then have "count_list (remove1 (generation s) (waits s)) (generation s) = 0"
    using assms by (simp add: count_list_remove1 live_waits_def lease_inv_def)
  then show ?thesis by (rule count_list_0_iff [THEN iffD1])
qed (simp add: remove1_idem)

text \<open>One attempt to switch off.\<close>

definition released :: "surroundings \<Rightarrow> 'b \<Rightarrow> 'b lease \<Rightarrow> 'b lease \<Rightarrow> bool" where
  "released env b s s' \<longleftrightarrow>
     backend s' = Some b \<and> driver_calls s' = driver_calls s @ [(b, False, off_request env)] \<and>
     (if off_request env = Returned Boost_success then \<not> active s' \<and> generation s' \<notin> set (waits s')
      else active s' \<and> releasing s' \<and> release_failures s' = release_failures s + 1 \<and>
        (generation s' \<in> set (waits s') \<longleftrightarrow> arm_works env \<and> release_failures s' < max_release_attempts))"

lemma release_attempt:
  assumes "backend s = Some b" "active s" "generation s \<notin> set (waits s)"
  shows "\<exists>s'. release env s = Some s' \<and> released env b s s'"
proof (cases "off_request env = Returned Boost_success")
  case False
  then show ?thesis
    using assms by (cases "max_release_attempts \<le> Suc (release_failures s)")
      (auto simp: release_def released_def arm_def Let_def)
qed (use assms in \<open>auto simp: release_def released_def Let_def\<close>)

text \<open>(C10) While a driver is switched on, a wait of the timer is running unless a release is under way.
  When the wait ends after the deadline, exactly one call asks the driver to switch off: if it agrees
  the lease is over, and otherwise the driver stays switched on for another attempt, with a new wait
  unless this was the fourth failure or the timer could not be armed.  As long as the timer can be
  armed, a switched-on driver is without a wait only after four failed attempts.\<close>

theorem idle_lease_is_released:
  assumes "lease_run events (new_lease timeout delay) = Some s" "active s"
  shows "(generation s \<in> set (waits s) \<or> releasing s) \<and>
    (generation s \<in> set (waits s) \<and> deadline s \<le> now env \<longrightarrow>
      may_happen s (Expire (generation s) False) \<and>
      (\<exists>s' b. lease_step env (Expire (generation s) False) s = Some s' \<and> backend s = Some b \<and> backend s' = Some b \<and>
        driver_calls s' = driver_calls s @ [(b, False, off_request env)] \<and>
        (if off_request env = Returned Boost_success then \<not> active s' \<and> generation s' \<notin> set (waits s')
         else active s' \<and> releasing s' \<and> release_failures s' = release_failures s + 1 \<and>
           (generation s' \<in> set (waits s') \<longleftrightarrow> arm_works env \<and> release_failures s' < max_release_attempts)))) \<and>
    ((\<forall>x \<in> set events. arm_works (fst x)) \<longrightarrow>
      generation s \<in> set (waits s) \<or> release_failures s = max_release_attempts)"
proof -
  have inv: "lease_inv s" using lease_run_inv [OF lease_inv_new, of events timeout delay] assms(1) by auto
  have "generation s \<in> set (waits s) \<or> releasing s"
    using inv assms(2) count_list_0_iff [of "waits s" "generation s"] by (auto simp: lease_inv_def live_waits_def)
  moreover have "generation s \<in> set (waits s) \<or> release_failures s = max_release_attempts"
    if "\<forall>x \<in> set events. arm_works (fst x)"
    using lease_run_armed [OF lease_inv_new _ that assms(1)] assms(2) by (simp add: lease_armed_def new_lease_def)
  moreover have "\<exists>s' b. lease_step env (Expire (generation s) False) s = Some s' \<and> backend s = Some b \<and> released env b s s'"
    if late: "deadline s \<le> now env"
  proof -
    obtain b where b: "backend s = Some b" using inv assms(2) by (auto simp: lease_inv_def)
    let ?s = "s\<lparr>waits := remove1 (generation s) (waits s)\<rparr>"
    obtain s' where "release env ?s = Some s'" "released env b ?s s'"
      using release_attempt [of ?s b env] b assms(2) live_wait_taken [OF inv] by auto
    then show ?thesis using late b by (auto simp: lease_step_def timer_handler_def released_def)
  qed
  ultimately show ?thesis unfolding released_def by (auto simp: may_happen_def)
qed

definition quiet :: "int \<Rightarrow> surroundings" where
  "quiet t = \<lparr>now = t, on_request = Returned Boost_success, off_request = Returned Boost_success, arm_works = True\<rparr>"

theorem idle_lease_is_released_witness:
  "\<exists>s s'. lease_run [(quiet 0, Set_backend (Some CHR ''n'')), (quiet 5, Activate)] (new_lease 2 1) = Some s \<and>
    lease_step (quiet 9) (Expire (generation s) False) s = Some s' \<and> \<not> active s'"
proof -
  let ?es = "[(quiet 0, Set_backend (Some CHR ''n'')), (quiet 5, Activate)]"
  define s :: "char lease" where "s = the (lease_run ?es (new_lease 2 1))"
  have run: "lease_run ?es (new_lease 2 1) = Some s" "active s" "deadline s \<le> now (quiet 9)" "\<not> releasing s"
    by (simp_all add: s_def quiet_def new_lease_def lease_step_def may_happen_def activate_def reset_def arm_def Let_def)
  have agrees: "off_request (quiet 9) = Returned Boost_success" by (simp add: quiet_def)
  from idle_lease_is_released [OF run(1,2), of "quiet 9"] run show ?thesis unfolding agrees by auto
qed

end
