(* ===== verification/Inference_Sessions.thy ===== *)
theory Inference_Sessions
  imports Gpu_Lease "HOL-Library.Multiset"
begin

text \<open>
  \<open>SessionLru\<close> of \<open>service/src/service/prediction_pipe_server.hpp\<close>: the inference contexts of the
  prediction server and which client has one.  There are at most \<open>capacity\<close> of them; a client that
  has none takes an idle one, a new one, or the one of the client that has not asked for the longest
  time.  The inference core and the driver hint are other code: what \<open>Core\<close>'s constructor and
  \<open>create_session\<close> returned or threw is part of the operation, and \<open>make_boost\<close> is
  \<open>make_gpu_latency_boost\<close>.  The iterator an entry keeps into \<open>recency_\<close> is the position of its client.
\<close>

section \<open>State\<close>

type_synonym client_id = u64

record ('c, 'b, 's) session_lru =
  core :: 'c
  gpu_activity :: "'b lease"
  gpu_boost_enabled :: bool
  boost_backend_initialized :: bool
  recency :: "client_id list"
  sessions :: "(client_id \<times> 's) list"
  idle :: "'s list"

definition capacity :: nat where
  "capacity = 1"

section \<open>Operations\<close>

definition lease_set_backend :: "surroundings \<Rightarrow> 'b option \<Rightarrow> 'b lease \<Rightarrow> 'b lease" where
  "lease_set_backend env b s = (reset env s)\<lparr>backend := b\<rparr>"

definition new_lru :: "('c \<Rightarrow> 'b option) \<Rightarrow> int \<Rightarrow> int \<Rightarrow> surroundings \<Rightarrow> 'c option \<Rightarrow> bool \<Rightarrow> exn + ('c, 'b, 's) session_lru" where
  "new_lru make_boost timeout delay env c boost_enabled =
     (case c of
        None \<Rightarrow> Inl Invalid_argument
      | Some c \<Rightarrow>
          let l = (new_lease timeout delay)\<lparr>enabled := boost_enabled\<rparr> in
          Inr \<lparr>core = c, gpu_activity = (if boost_enabled then lease_set_backend env (make_boost c) l else l),
               gpu_boost_enabled = boost_enabled, boost_backend_initialized = boost_enabled,
               recency = [], sessions = [], idle = []\<rparr>)"

definition replace_core :: "('c \<Rightarrow> 'b option) \<Rightarrow> surroundings \<Rightarrow> exn + 'c \<Rightarrow> ('c, 'b, 's) session_lru \<Rightarrow> exn + ('c, 'b, 's) session_lru" where
  "replace_core make_boost env replacement s =
     rbind replacement (\<lambda>c.
       let s1 = s\<lparr>sessions := [], idle := [], recency := [], core := c,
                 gpu_activity := lease_set_backend env None (gpu_activity s)\<rparr> in
       Inr (s1\<lparr>gpu_activity := lease_set_backend env (if gpu_boost_enabled s then make_boost c else None) (gpu_activity s1),
              boost_backend_initialized := gpu_boost_enabled s\<rparr>))"

definition set_gpu_boost_enabled :: "('c \<Rightarrow> 'b option) \<Rightarrow> surroundings \<Rightarrow> bool \<Rightarrow> ('c, 'b, 's) session_lru \<Rightarrow> ('c, 'b, 's) session_lru" where
  "set_gpu_boost_enabled make_boost env on s =
     (let s1 = (if on \<and> \<not> boost_backend_initialized s
                then s\<lparr>gpu_activity := lease_set_backend env (make_boost (core s)) (gpu_activity s), boost_backend_initialized := True\<rparr>
                else s) in
      s1\<lparr>gpu_boost_enabled := on, gpu_activity := (gpu_activity s1)\<lparr>enabled := on\<rparr>\<rparr>)"

definition session_ready :: "surroundings \<Rightarrow> ('c, 'b, 's) session_lru \<Rightarrow> ('c, 'b, 's) session_lru" where
  "session_ready env s = s\<lparr>gpu_activity := activate env (gpu_activity s)\<rparr>"

definition give :: "client_id \<Rightarrow> 's \<Rightarrow> ('c, 'b, 's) session_lru \<Rightarrow> (exn + 's) \<times> ('c, 'b, 's) session_lru" where
  "give client x s = (Inr x, s\<lparr>recency := client # recency s, sessions := (client, x) # sessions s\<rparr>)"

text \<open>The map always holds the evicted client; if it did not, the code would dereference the end
  iterator, for which the exception below stands.  \<open>acquire_works\<close> shows that this never happens.\<close>

definition acquire :: "surroundings \<Rightarrow> exn + 's \<Rightarrow> client_id \<Rightarrow> ('c, 'b, 's) session_lru \<Rightarrow> (exn + 's) \<times> ('c, 'b, 's) session_lru" where
  "acquire env created client s0 =
     (let s = session_ready env s0 in
      case map_of (sessions s) client of
        Some x \<Rightarrow> (Inr x, s\<lparr>recency := client # remove1 client (recency s)\<rparr>)
      | None \<Rightarrow>
          if idle s \<noteq> [] then give client (last (idle s)) (s\<lparr>idle := butlast (idle s)\<rparr>)
          else if length (sessions s) < capacity
          then (case created of Inl e \<Rightarrow> (Inl e, s) | Inr x \<Rightarrow> give client x s)
          else
            let evicted = last (recency s) in
            case map_of (sessions s) evicted of
              None \<Rightarrow> (Inl Logic_error, s)
            | Some x \<Rightarrow>
                give client x
                  (s\<lparr>recency := butlast (recency s), sessions := filter (\<lambda>e. fst e \<noteq> evicted) (sessions s)\<rparr>))"

definition erase_session :: "client_id \<Rightarrow> ('c, 'b, 's) session_lru \<Rightarrow> ('c, 'b, 's) session_lru" where
  "erase_session client s =
     (case map_of (sessions s) client of
        None \<Rightarrow> s
      | Some x \<Rightarrow> s\<lparr>recency := remove1 client (recency s), sessions := filter (\<lambda>e. fst e \<noteq> client) (sessions s),
                     idle := idle s @ [x]\<rparr>)"

definition release_gpu_activity :: "surroundings \<Rightarrow> ('c, 'b, 's) session_lru \<Rightarrow> ('c, 'b, 's) session_lru" where
  "release_gpu_activity env s = s\<lparr>gpu_activity := lease_set_backend env None (gpu_activity s)\<rparr>"

section \<open>The invariant\<close>

definition contexts :: "('c, 'b, 's) session_lru \<Rightarrow> 's list" where
  "contexts s = map snd (sessions s) @ idle s"

definition lru_inv :: "('c, 'b, 's) session_lru \<Rightarrow> bool" where
  "lru_inv s \<longleftrightarrow>
     distinct (recency s) \<and> distinct (map fst (sessions s)) \<and> set (recency s) = fst ` set (sessions s) \<and>
     length (contexts s) \<le> capacity \<and> distinct (contexts s) \<and> lease_inv (gpu_activity s)"

text \<open>The clients that asked last, the last one first.\<close>

definition touch :: "client_id \<Rightarrow> client_id list \<Rightarrow> client_id list" where
  "touch client xs = take capacity (client # removeAll client xs)"

lemma lease_set_backend_inv: "lease_inv l \<Longrightarrow> lease_inv (lease_set_backend env b l)"
  by (simp add: lease_set_backend_def reset_inv)

lemma lease_enabled_inv: "lease_inv l \<Longrightarrow> lease_inv (l\<lparr>enabled := x\<rparr>)"
  by (auto simp: lease_inv_def live_waits_def)

lemma lru_lengths:
  assumes "lru_inv s"
  shows "length (recency s) = length (sessions s)"
  using assms unfolding lru_inv_def by (metis distinct_card length_map list.set_map)

lemma map_of_split:
  assumes "distinct (map fst xs)" "map_of xs k = Some v"
  shows "\<exists>as bs. xs = as @ (k, v) # bs \<and> filter (\<lambda>e. fst e \<noteq> k) xs = as @ bs \<and> k \<notin> fst ` set (as @ bs)"
proof -
  obtain as bs where xs: "xs = as @ (k, v) # bs" using split_list [OF map_of_SomeD [OF assms(2)]] by blast
  then have k: "k \<notin> fst ` set (as @ bs)" using assms(1) by auto
  have "filter (\<lambda>e. fst e \<noteq> k) (as @ bs) = as @ bs" by (rule filter_True) (use k in auto)
  then have "filter (\<lambda>e. fst e \<noteq> k) xs = as @ bs" unfolding xs by simp
  then show ?thesis using xs k by blast
qed

text \<open>A new context is made only for a client without one, when none is idle and there is room.\<close>

definition needs_context :: "client_id \<Rightarrow> client_id list \<Rightarrow> nat \<Rightarrow> bool" where
  "needs_context client xs n \<longleftrightarrow> client \<notin> set xs \<and> n = length xs \<and> n < capacity"

text \<open>What \<open>acquire\<close> does to the clients and contexts.\<close>

lemma acquire_works:
  assumes inv: "lru_inv s" and fresh: "\<And>x. created = Inr x \<Longrightarrow> x \<notin> set (contexts s)"
  shows "(case acquire env created client s of
      (Inr x, s') \<Rightarrow> lru_inv s' \<and> map_of (sessions s') client = Some x \<and> recency s' = touch client (recency s) \<and>
        set (contexts s') \<subseteq> set (contexts s) \<union> {x. created = Inr x} \<and>
        (needs_context client (recency s) (length (contexts s)) \<longrightarrow> created \<in> range Inr) \<and>
        length (contexts s') = length (contexts s) + (if needs_context client (recency s) (length (contexts s)) then 1 else 0)
    | (Inl e, s') \<Rightarrow> needs_context client (recency s) (length (contexts s)) \<and> created = Inl e \<and>
        s' = session_ready env s \<and> lru_inv s')"
proof -
  let ?s = "session_ready env s"
  have same [simp]: "sessions ?s = sessions s" "idle ?s = idle s" "recency ?s = recency s" "contexts ?s = contexts s"
    by (simp_all add: session_ready_def contexts_def)
  have inv': "lru_inv ?s" using inv activate_inv by (auto simp: lru_inv_def session_ready_def contexts_def)
  note parts = inv' [unfolded lru_inv_def]
  have len: "length (recency s) = length (sessions s)" using lru_lengths [OF inv] .
  show ?thesis
  proof (cases "map_of (sessions s) client")
    case (Some x)
    then have "client \<in> set (recency s)" using parts by (force dest: map_of_SomeD)
    moreover have "removeAll client (recency s) = remove1 client (recency s)"
      using parts by (simp add: distinct_remove1_removeAll)
    moreover have "length (client # remove1 client (recency s)) = length (recency s)"
      using calculation(1) length_pos_if_in_set [of client "recency s"] by (simp add: length_remove1)
    moreover have "length (recency s) \<le> capacity" using parts len by (simp add: contexts_def)
    ultimately have "touch client (recency s) = client # remove1 client (recency s)" by (simp add: touch_def)
    then show ?thesis
      using Some parts \<open>client \<in> set (recency s)\<close>
      by (auto simp: acquire_def Let_def lru_inv_def contexts_def session_ready_def set_remove1_eq needs_context_def)
  next
    case None
    then have new: "client \<notin> fst ` set (sessions s)" by (simp add: map_of_eq_None_iff)
    then have gone: "removeAll client (recency s) = recency s" using parts by simp
    have short: "touch client (recency s) = client # recency s" if "length (recency s) < capacity"
      using that gone by (simp add: touch_def)
    consider "idle s \<noteq> []" | "idle s = []" "length (sessions s) < capacity" | "idle s = []" "length (sessions s) = capacity"
      using parts by (fastforce simp: contexts_def)
    then show ?thesis
    proof cases
      case 1
      then obtain xs x where idle: "idle s = xs @ [x]" by (cases "idle s" rule: rev_cases) auto
      then show ?thesis
        using None new parts len short by (auto simp: acquire_def Let_def give_def lru_inv_def contexts_def needs_context_def)
    next
      case 2
      show ?thesis
      proof (cases created)
        case (Inl e)
        then show ?thesis
          using None 2 inv' new parts len by (simp add: acquire_def Let_def needs_context_def contexts_def)
      next
        case (Inr x)
        then show ?thesis
          using None 2 new parts len short fresh
          by (auto simp: acquire_def Let_def give_def lru_inv_def contexts_def needs_context_def)
      qed
    next
      case 3
      then obtain rs old where rs: "recency s = rs @ [old]"
        using len by (cases "recency s" rule: rev_cases) (auto simp: capacity_def)
      then obtain x where x: "map_of (sessions s) old = Some x"
        using parts by (metis in_set_conv_decomp map_of_eq_None_iff not_None_eq same(1,3))
      obtain as bs where ab: "sessions s = as @ (old, x) # bs" "filter (\<lambda>e. fst e \<noteq> old) (sessions s) = as @ bs"
        "old \<notin> fst ` set (as @ bs)"
        using map_of_split [OF _ x] parts by auto
      have "set rs = fst ` set (as @ bs)" using parts rs ab(1,3) by auto
      moreover have cap: "capacity = Suc (length rs)" using len 3 rs by simp
      then have "touch client (recency s) = client # rs" unfolding touch_def gone cap by (simp add: rs)
      moreover have "acquire env created client s =
          (Inr x, ?s\<lparr>recency := client # rs, sessions := (client, x) # as @ bs\<rparr>)"
        using None 3 rs x ab(2) by (simp add: acquire_def Let_def give_def)
      ultimately show ?thesis
        using new parts 3 rs ab(1,3) cap len by (auto simp: lru_inv_def contexts_def needs_context_def)
    qed
  qed
qed

lemma erase_inv:
  assumes inv: "lru_inv s"
  shows "lru_inv (erase_session client s) \<and> recency (erase_session client s) = removeAll client (recency s) \<and>
    mset (contexts (erase_session client s)) = mset (contexts s)"
proof (cases "map_of (sessions s) client")
  case None
  then have "erase_session client s = s" "client \<notin> fst ` set (sessions s)"
    by (simp add: erase_session_def) (use None in \<open>simp add: map_of_eq_None_iff\<close>)
  then show ?thesis using inv by (simp add: lru_inv_def)
next
  case (Some x)
  obtain as bs where ab: "sessions s = as @ (client, x) # bs" "filter (\<lambda>e. fst e \<noteq> client) (sessions s) = as @ bs"
    "client \<notin> fst ` set (as @ bs)"
    using map_of_split [OF _ Some] inv by (auto simp: lru_inv_def)
  have "set (remove1 client (recency s)) = fst ` set (as @ bs)"
    using inv ab by (auto simp: lru_inv_def set_remove1_eq)
  moreover have "removeAll client (recency s) = remove1 client (recency s)"
    using inv by (simp add: lru_inv_def distinct_remove1_removeAll)
  ultimately show ?thesis
    using inv Some ab by (auto simp: erase_session_def lru_inv_def contexts_def)
qed

lemma replace_core_inv:
  assumes "lru_inv s" "replace_core make_boost env replacement s = Inr s'"
  shows "lru_inv s' \<and> recency s' = [] \<and> contexts s' = []"
proof -
  have "lease_inv (lease_set_backend env b (lease_set_backend env None (gpu_activity s)))" for b
    using assms(1) by (simp add: lru_inv_def lease_set_backend_inv)
  then show ?thesis
    using assms by (auto simp: replace_core_def rbind_Inr_iff Let_def lru_inv_def contexts_def)
qed

lemma set_gpu_boost_enabled_inv:
  "lru_inv s \<Longrightarrow> lru_inv (set_gpu_boost_enabled make_boost env on s) \<and>
    recency (set_gpu_boost_enabled make_boost env on s) = recency s \<and>
    contexts (set_gpu_boost_enabled make_boost env on s) = contexts s"
  by (auto simp: set_gpu_boost_enabled_def Let_def lru_inv_def contexts_def intro!: lease_enabled_inv lease_set_backend_inv)

lemma new_lru_inv:
  assumes "new_lru make_boost timeout delay env c boost_enabled = Inr s"
  shows "lru_inv s \<and> recency s = [] \<and> contexts s = []"
proof -
  have "lease_inv ((new_lease timeout delay)\<lparr>enabled := boost_enabled\<rparr> :: 'b lease)"
    by (rule lease_enabled_inv [OF lease_inv_new])
  then show ?thesis
    using assms lease_set_backend_inv by (auto simp: new_lru_def Let_def lru_inv_def contexts_def split: option.splits)
qed

section \<open>The contexts over a run of the server\<close>

datatype ('c, 's) lru_op =
    Acquire surroundings "exn + 's" client_id
  | Erase client_id
  | Replace surroundings "exn + 'c"
  | Set_boost surroundings bool
  | Session_ready surroundings
  | Release_gpu surroundings

definition lru_do :: "('c \<Rightarrow> 'b option) \<Rightarrow> ('c, 's) lru_op \<Rightarrow> ('c, 'b, 's) session_lru \<Rightarrow> ('c, 'b, 's) session_lru" where
  "lru_do make_boost p s =
     (case p of
        Acquire env created client \<Rightarrow> snd (acquire env created client s)
      | Erase client \<Rightarrow> erase_session client s
      | Replace env replacement \<Rightarrow> (case replace_core make_boost env replacement s of Inl e \<Rightarrow> s | Inr s' \<Rightarrow> s')
      | Set_boost env on \<Rightarrow> set_gpu_boost_enabled make_boost env on s
      | Session_ready env \<Rightarrow> session_ready env s
      | Release_gpu env \<Rightarrow> release_gpu_activity env s)"

text \<open>The contexts the core created.\<close>

fun created_contexts :: "('c, 's) lru_op list \<Rightarrow> 's list" where
  "created_contexts [] = []"
| "created_contexts (Acquire env (Inr x) client # ps) = x # created_contexts ps"
| "created_contexts (p # ps) = created_contexts ps"

text \<open>The clients that should have a context, the one that asked last first, and the number of contexts:
  a client that asks gets one unless a new one is needed and cannot be made.\<close>

fun latest :: "('c, 's) lru_op \<Rightarrow> client_id list \<times> nat \<Rightarrow> client_id list \<times> nat" where
  "latest (Acquire env created client) (xs, n) =
     (if needs_context client xs n
      then (case created of Inl e \<Rightarrow> (xs, n) | Inr x \<Rightarrow> (touch client xs, n + 1))
      else (touch client xs, n))"
| "latest (Erase client) (xs, n) = (removeAll client xs, n)"
| "latest (Replace env (Inr c)) (xs, n) = ([], 0)"
| "latest p (xs, n) = (xs, n)"

definition clients :: "('c, 'b, 's) session_lru \<Rightarrow> client_id list \<times> nat" where
  "clients s = (recency s, length (contexts s))"

lemma lru_do_inv:
  assumes "lru_inv s" "set (created_contexts (p # ps)) \<inter> set (contexts s) = {}" "distinct (created_contexts (p # ps))"
  shows "lru_inv (lru_do make_boost p s) \<and> clients (lru_do make_boost p s) = latest p (clients s) \<and>
    set (created_contexts ps) \<inter> set (contexts (lru_do make_boost p s)) = {}"
proof (cases p)
  case (Acquire env created client)
  obtain r s' where step: "acquire env created client s = (r, s')" by (cases "acquire env created client s")
  have fresh: "\<And>y. created = Inr y \<Longrightarrow> y \<notin> set (contexts s)" using assms(2) Acquire by (cases created) auto
  have later: "set (created_contexts ps) \<inter> (set (contexts s) \<union> {x. created = Inr x}) = {}"
    using assms(2,3) Acquire by (cases created) auto
  show ?thesis
  proof (cases r)
    case (Inl e)
    then show ?thesis
      using acquire_works [OF assms(1), where created = created and env = env and client = client, OF fresh] step Acquire later
      by (auto simp: lru_do_def clients_def session_ready_def contexts_def)
  next
    case (Inr x)
    then have acquired: "lru_inv s'" "recency s' = touch client (recency s)"
      "set (contexts s') \<subseteq> set (contexts s) \<union> {x. created = Inr x}"
      "needs_context client (recency s) (length (contexts s)) \<longrightarrow> created \<in> range Inr"
      "length (contexts s') = length (contexts s) + (if needs_context client (recency s) (length (contexts s)) then 1 else 0)"
      using acquire_works [OF assms(1), where created = created and env = env and client = client, OF fresh] step by auto
    show ?thesis using acquired step Acquire later by (auto simp: lru_do_def clients_def)
  qed
next
  case (Erase client)
  have "set (contexts (erase_session client s)) = set (contexts s)" "length (contexts (erase_session client s)) = length (contexts s)"
    using erase_inv [OF assms(1), of client] mset_eq_setD mset_eq_length by blast+
  then show ?thesis using Erase erase_inv [OF assms(1), of client] assms(2) by (simp add: lru_do_def clients_def)
next
  case (Replace env replacement)
  show ?thesis
  proof (cases replacement)
    case (Inl e)
    then show ?thesis using Replace assms(1,2) by (simp add: lru_do_def replace_core_def clients_def)
  next
    case (Inr c)
    then obtain s' where "replace_core make_boost env replacement s = Inr s'" by (simp add: replace_core_def Let_def)
    then show ?thesis using Replace Inr replace_core_inv [OF assms(1)] by (auto simp: lru_do_def clients_def)
  qed
next
  case (Set_boost env on)
  then show ?thesis using set_gpu_boost_enabled_inv [OF assms(1)] assms(2) by (simp add: lru_do_def clients_def)
next
  case (Session_ready env)
  then show ?thesis
    using assms(1,2) activate_inv by (auto simp: lru_do_def session_ready_def lru_inv_def contexts_def clients_def)
next
  case (Release_gpu env)
  then show ?thesis
    using assms(1,2) lease_set_backend_inv
    by (auto simp: lru_do_def release_gpu_activity_def lru_inv_def contexts_def clients_def)
qed

lemma lru_run_inv:
  assumes "lru_inv s" "set (created_contexts ps) \<inter> set (contexts s) = {}" "distinct (created_contexts ps)"
  shows "lru_inv (fold (lru_do make_boost) ps s) \<and> clients (fold (lru_do make_boost) ps s) = fold latest ps (clients s)"
  using assms
proof (induction ps arbitrary: s)
  case (Cons p ps)
  have "distinct (created_contexts ps)" using Cons.prems(3) by (cases "(p # ps)" rule: created_contexts.cases) auto
  with Cons.IH lru_do_inv [OF Cons.prems, of make_boost] show ?case by simp
qed simp

text \<open>(C11) After any run of the prediction server no two clients share an inference context, there are at
  most \<open>capacity\<close> contexts, and the clients that have one are exactly those that asked last and have not
  left, the latest first; a client whose new context could not be made counts as not having asked.\<close>

theorem latest_clients_have_contexts:
  assumes "new_lru make_boost timeout delay env c boost_enabled = Inr s0"
    and "distinct (created_contexts ps)" "s = fold (lru_do make_boost) ps s0"
  shows "(recency s, length (map snd (sessions s) @ idle s)) = fold latest ps ([], 0) \<and>
    set (recency s) = fst ` set (sessions s) \<and> distinct (map fst (sessions s)) \<and>
    distinct (map snd (sessions s) @ idle s) \<and> length (map snd (sessions s) @ idle s) \<le> capacity"
proof -
  have s0: "lru_inv s0" "recency s0 = []" "contexts s0 = []" using new_lru_inv [OF assms(1)] by simp_all
  have "lru_inv s" "clients s = fold latest ps ([], 0)"
    unfolding assms(3) using lru_run_inv [OF s0(1) _ assms(2)] s0(2,3) by (simp_all add: clients_def)
  then show ?thesis by (simp add: lru_inv_def contexts_def clients_def)
qed

definition some_asking :: "(char, nat) lru_op list" where
  "some_asking = [Acquire (quiet 0) (Inl Runtime_error) 6, Acquire (quiet 1) (Inr 10) 7, Acquire (quiet 2) (Inl Runtime_error) 8,
     Erase 8, Acquire (quiet 3) (Inr 12) 9]"

theorem latest_clients_have_contexts_witness:
  "\<exists>s0. new_lru (\<lambda>_. Some True) 2 1 (quiet 0) (Some CHR ''m'') True = Inr s0 \<and>
    recency (fold (lru_do (\<lambda>_. Some True)) some_asking s0) = [9]"
proof -
  obtain s0 :: "(char, bool, nat) session_lru"
    where s0: "new_lru (\<lambda>_. Some True) 2 1 (quiet 0) (Some CHR ''m'') True = Inr s0"
    by (simp add: new_lru_def Let_def)
  from latest_clients_have_contexts [OF s0 _ refl, of some_asking]
  show ?thesis using s0 by (auto simp: some_asking_def touch_def needs_context_def capacity_def)
qed

end
