(* ===== verification/Engine_Worker.thy ===== *)
theory Engine_Worker
  imports Conversion "HOL-Library.Multiset"
begin

text \<open>
  \<open>frontend/src/engine/engine_worker.cpp\<close> and \<open>engine_worker.hpp\<close>: the worker that owns the
  connection to the service.  The user interface thread queues jobs; the worker's coroutine takes them
  one at a time, runs each on the engine and posts what it learned back to the user interface thread.
  The two threads interleave at the granularity of the code: an operation of the user interface thread
  under the mutex, taking a job, the engine's outcome, one post, one task run on the user interface
  thread.  The engine (\<open>IEngine\<close>) is a parameter: what it answered, and its \<open>backend_state\<close>
  afterwards, are part of the event in which a job ends.  Posted tasks run in order, as the
  dispatcher queue they are posted to promises.
\<close>

section \<open>State\<close>

datatype job_kind = Other_job | Ready_job | Query_job | Prefill_job | Predict_job

datatype job_work =
    Do_ready
  | Do_prefill u16string
  | Do_query nat
  | Do_toggle nat
  | Do_predict nat u16string "pos list"
  | Do_record nat commit_sample
  | Do_discard nat

record job =
  job_kind :: job_kind
  job_sequence :: nat
  job_group :: nat
  job_work :: job_work

datatype ui_task =
    Publish_mode input_mode nat
  | Publish_backend backend_state
  | Publish_prediction conversion_result
  | Retry_query

datatype callback =
    Mode_changed input_mode
  | Backend_changed backend_state
  | Predicted conversion_result

text \<open>The calls made on the engine, kept in the ghost field \<open>engine_calls\<close>.  The engine is only given the
  sample, or the number it returned for one; the tokens the user interface thread knows a commit by
  are written beside them.\<close>

datatype engine_call =
    Engine_record nat commit_sample
  | Engine_recorded nat nat
  | Engine_discard nat nat

datatype pump =
    Waiting
  | Running job
  | Posting "ui_task list"

record worker =
  ui_mode :: input_mode
  mode_revision :: nat
  ui_backend :: backend_state
  ui_alive :: bool
  next_commit :: nat
  jobs :: "job list"
  stopping :: bool
  retry_posted :: bool
  recorded_commit :: nat
  transport_commit :: nat
  engine_backend :: backend_state
  pump :: pump
  tasks :: "ui_task list"
  callbacks :: "callback list"
  engine_calls :: "engine_call list"

definition new_worker :: worker where
  "new_worker = \<lparr>ui_mode = English, mode_revision = 0, ui_backend = Connected, ui_alive = True, next_commit = 0,
     jobs = [], stopping = False, retry_posted = False, recorded_commit = 0, transport_commit = 0,
     engine_backend = Unavailable, pump = Waiting, tasks = [], callbacks = [], engine_calls = []\<rparr>"

section \<open>Queueing jobs\<close>

definition superseded_by :: "job_kind \<Rightarrow> nat \<Rightarrow> job \<Rightarrow> bool" where
  "superseded_by kind grp queued \<longleftrightarrow> \<not> (job_kind queued \<noteq> kind \<or> job_group queued \<noteq> grp)"

definition superseded_result :: "nat \<Rightarrow> conversion_result" where
  "superseded_result s = \<lparr>result_sequence = s, result_status = Superseded, result_padding = []\<rparr>"

text \<open>The superseded results are posted after the lock on the queue is released.  The worker may take a job
  and post between the two, which only changes the order of the posts; they are one step here.\<close>

definition submit :: "job \<Rightarrow> worker \<Rightarrow> worker" where
  "submit j w =
     (if stopping w then w
      else
        let dropped = (if job_kind j = Other_job then []
                       else filter (superseded_by (job_kind j) (job_group j)) (jobs w));
            kept = (if job_kind j = Other_job then jobs w
                    else filter (\<lambda>q. \<not> superseded_by (job_kind j) (job_group j) q) (jobs w));
            superseded = (if job_kind j = Predict_job then map job_sequence dropped else []) in
        w\<lparr>jobs := kept @ [j], tasks := tasks w @ map (\<lambda>s. Publish_prediction (superseded_result s)) superseded\<rparr>)"

definition plain_job :: "job_kind \<Rightarrow> job_work \<Rightarrow> job" where
  "plain_job kind work = \<lparr>job_kind = kind, job_sequence = 0, job_group = 0, job_work = work\<rparr>"

definition query_mode :: "nat \<Rightarrow> worker \<Rightarrow> worker" where
  "query_mode asked = submit (plain_job Query_job (Do_query asked))"

definition refresh_input_mode :: "worker \<Rightarrow> worker" where
  "refresh_input_mode w = query_mode (mode_revision w) w"

definition toggle_input_mode :: "worker \<Rightarrow> worker" where
  "toggle_input_mode w =
     (let w1 = w\<lparr>ui_mode := (if ui_mode w = Chinese then English else Chinese), mode_revision := mode_revision w + 1\<rparr> in
      submit (plain_job Other_job (Do_toggle (mode_revision w1))) w1)"

definition worker_ready :: "worker \<Rightarrow> worker" where
  "worker_ready = submit (plain_job Ready_job Do_ready)"

definition worker_prefill :: "u16string \<Rightarrow> worker \<Rightarrow> worker" where
  "worker_prefill ctxt = submit (plain_job Prefill_job (Do_prefill ctxt))"

definition worker_predict :: "nat \<Rightarrow> nat \<Rightarrow> u16string \<Rightarrow> pos list \<Rightarrow> worker \<Rightarrow> worker" where
  "worker_predict seq grp ctxt padding =
     submit \<lparr>job_kind = Predict_job, job_sequence = seq, job_group = grp,
             job_work = Do_predict seq ctxt (map (\<lambda>e. e\<lparr>predicted := False\<rparr>) padding)\<rparr>"

definition record_commit :: "commit_sample \<Rightarrow> worker \<Rightarrow> nat \<times> worker" where
  "record_commit sample w =
     (let token = next_commit w + 1;
          w1 = w\<lparr>next_commit := token\<rparr> in
      (token, submit (plain_job Other_job (Do_record token sample)) w1))"

definition discard_commit :: "nat \<Rightarrow> worker \<Rightarrow> worker" where
  "discard_commit token = submit (plain_job Other_job (Do_discard token))"

section \<open>The worker's coroutine\<close>

definition start_job :: "job \<Rightarrow> worker \<Rightarrow> worker" where
  "start_job j w =
     (case job_work j of
        Do_record token sample \<Rightarrow>
          w\<lparr>recorded_commit := token, transport_commit := 0, engine_calls := engine_calls w @ [Engine_record token sample]\<rparr>
      | Do_discard token \<Rightarrow>
          if token = recorded_commit w \<and> transport_commit w \<noteq> 0
          then w\<lparr>engine_calls := engine_calls w @ [Engine_discard token (transport_commit w)]\<rparr>
          else w
      | _ \<Rightarrow> w)"

definition take_job :: "worker \<Rightarrow> worker" where
  "take_job w =
     (case (pump w, jobs w) of
        (Waiting, j # js) \<Rightarrow> if stopping w then w else start_job j (w\<lparr>jobs := js, pump := Running j\<rparr>)
      | _ \<Rightarrow> w)"

text \<open>What the engine answered: nothing or an exception, a mode, whether it converted and to what, or
  the token under which it recorded a commit.\<close>

datatype engine_answer =
    Engine_done
  | Engine_threw "pos list"
  | Answered_mode input_mode
  | Answered_padding bool "pos list"
  | Answered_token nat

definition prediction_result :: "nat \<Rightarrow> engine_answer \<Rightarrow> conversion_result" where
  "prediction_result seq outcome =
     (case outcome of
        Answered_padding answered padding \<Rightarrow>
          \<lparr>result_sequence = seq, result_status = (if answered then Converted else BackendLost), result_padding = padding\<rparr>
      | Engine_threw padding \<Rightarrow> \<lparr>result_sequence = seq, result_status = BackendLost, result_padding = padding\<rparr>
      | _ \<Rightarrow> \<lparr>result_sequence = seq, result_status = BackendLost, result_padding = []\<rparr>)"

definition job_posts :: "job \<Rightarrow> engine_answer \<Rightarrow> backend_state \<Rightarrow> ui_task list" where
  "job_posts j outcome backend =
     (case (job_work j, outcome) of
        (Do_query asked, Answered_mode mode) \<Rightarrow> [Publish_backend backend, Publish_mode mode asked]
      | (Do_toggle asked, Answered_mode mode) \<Rightarrow> [Publish_backend backend, Publish_mode mode asked]
      | (Do_predict seq ctxt padding, _) \<Rightarrow> [Publish_backend backend, Publish_prediction (prediction_result seq outcome)]
      | _ \<Rightarrow> [])"

definition finish_job :: "engine_answer \<Rightarrow> backend_state \<Rightarrow> worker \<Rightarrow> worker" where
  "finish_job outcome backend w =
     (case pump w of
        Running j \<Rightarrow>
          let w1 = w\<lparr>engine_backend := backend,
                    pump := (if job_posts j outcome backend = [] then Waiting else Posting (job_posts j outcome backend))\<rparr> in
          (case (job_work j, outcome) of
             (Do_record token sample, Answered_token transport) \<Rightarrow>
               w1\<lparr>transport_commit := transport, engine_calls := engine_calls w1 @ [Engine_recorded token transport]\<rparr>
           | _ \<Rightarrow> w1)
      | _ \<Rightarrow> w)"

definition post_next :: "worker \<Rightarrow> worker" where
  "post_next w =
     (case pump w of
        Posting (t # ts) \<Rightarrow> w\<lparr>tasks := tasks w @ [t], pump := (if ts = [] then Waiting else Posting ts)\<rparr>
      | Posting [] \<Rightarrow> w\<lparr>pump := Waiting\<rparr>
      | _ \<Rightarrow> w)"

text \<open>The wait for the next job ends after half a second while the service cannot be reached.\<close>

definition retry_due :: "worker \<Rightarrow> bool" where
  "retry_due w \<longleftrightarrow> pump w = Waiting \<and> jobs w = [] \<and> \<not> stopping w \<and> engine_backend w = Unavailable \<and> \<not> retry_posted w"

definition retry_timeout :: "worker \<Rightarrow> worker" where
  "retry_timeout w = (if retry_due w then w\<lparr>retry_posted := True, tasks := tasks w @ [Retry_query]\<rparr> else w)"

section \<open>Tasks on the user interface thread\<close>

definition run_task :: "ui_task \<Rightarrow> worker \<Rightarrow> worker" where
  "run_task t w =
     (case t of
        Publish_mode mode asked \<Rightarrow>
          if asked \<noteq> mode_revision w \<or> ui_mode w = mode then w
          else w\<lparr>ui_mode := mode, callbacks := callbacks w @ [Mode_changed mode]\<rparr>
      | Publish_backend backend \<Rightarrow>
          if ui_backend w = backend then w
          else w\<lparr>ui_backend := backend, callbacks := callbacks w @ [Backend_changed backend]\<rparr>
      | Publish_prediction r \<Rightarrow>
          let w1 = (if result_status r = BackendLost \<and> ui_mode w \<noteq> English
                    then w\<lparr>ui_mode := English, mode_revision := mode_revision w + 1, callbacks := callbacks w @ [Mode_changed English]\<rparr>
                    else w) in
          w1\<lparr>callbacks := callbacks w1 @ [Predicted r]\<rparr>
      | Retry_query \<Rightarrow>
          let w1 = w\<lparr>retry_posted := False\<rparr> in query_mode (mode_revision w1) w1)"

definition deliver :: "worker \<Rightarrow> worker" where
  "deliver w =
     (case tasks w of
        [] \<Rightarrow> w
      | t # ts \<Rightarrow> if ui_alive w then run_task t (w\<lparr>tasks := ts\<rparr>) else w\<lparr>tasks := ts\<rparr>)"

text \<open>The destructor drops the jobs, aborts the engine and joins the thread; tasks posted before are
  dropped because the state they need is gone.\<close>

definition destroy_worker :: "worker \<Rightarrow> worker" where
  "destroy_worker w = w\<lparr>stopping := True, jobs := [], pump := Waiting, ui_alive := False\<rparr>"

text \<open>The worker's thread ends on its own when the engine cannot be made or the coroutine throws.\<close>

definition thread_ends :: "worker \<Rightarrow> worker" where
  "thread_ends w = w\<lparr>stopping := True, jobs := [], pump := Waiting\<rparr>"

section \<open>Events\<close>

datatype worker_event =
    Refresh
  | Toggle
  | Send_ready
  | Send_prefill u16string
  | Send_predict nat nat u16string "pos list"
  | Send_record commit_sample
  | Send_discard nat
  | Take
  | Finish engine_answer backend_state
  | Post
  | Timeout
  | Deliver
  | Thread_ends
  | Destroy_worker

definition worker_step :: "worker_event \<Rightarrow> worker \<Rightarrow> worker" where
  "worker_step e w =
     (case e of
        Refresh \<Rightarrow> refresh_input_mode w
      | Toggle \<Rightarrow> toggle_input_mode w
      | Send_ready \<Rightarrow> worker_ready w
      | Send_prefill ctxt \<Rightarrow> worker_prefill ctxt w
      | Send_predict seq grp ctxt padding \<Rightarrow> worker_predict seq grp ctxt padding w
      | Send_record sample \<Rightarrow> snd (record_commit sample w)
      | Send_discard token \<Rightarrow> discard_commit token w
      | Take \<Rightarrow> take_job w
      | Finish outcome backend \<Rightarrow> finish_job outcome backend w
      | Post \<Rightarrow> post_next w
      | Timeout \<Rightarrow> retry_timeout w
      | Deliver \<Rightarrow> deliver w
      | Thread_ends \<Rightarrow> thread_ends w
      | Destroy_worker \<Rightarrow> destroy_worker w)"

section \<open>Every conversion is answered\<close>

text \<open>Where the sequence of a conversion can be: in a queued job, in the running one, in the posts of a
  finished one, in a posted task, or handed to the callback.\<close>

fun job_sequences :: "job list \<Rightarrow> nat list" where
  "job_sequences [] = []"
| "job_sequences (j # js) = (case job_work j of Do_predict s c p \<Rightarrow> s # job_sequences js | _ \<Rightarrow> job_sequences js)"

fun task_sequences :: "ui_task list \<Rightarrow> nat list" where
  "task_sequences [] = []"
| "task_sequences (Publish_prediction r # ts) = result_sequence r # task_sequences ts"
| "task_sequences (_ # ts) = task_sequences ts"

fun answered_sequences :: "callback list \<Rightarrow> nat list" where
  "answered_sequences [] = []"
| "answered_sequences (Predicted r # cs) = result_sequence r # answered_sequences cs"
| "answered_sequences (_ # cs) = answered_sequences cs"

definition pump_sequences :: "pump \<Rightarrow> nat list" where
  "pump_sequences p = (case p of Waiting \<Rightarrow> [] | Running j \<Rightarrow> job_sequences [j] | Posting ts \<Rightarrow> task_sequences ts)"

lemma sequences_append [simp]:
  "job_sequences (js @ ks) = job_sequences js @ job_sequences ks"
  "task_sequences (ts @ us) = task_sequences ts @ task_sequences us"
  "answered_sequences (cs @ ds) = answered_sequences cs @ answered_sequences ds"
  by (induction js) (auto split: job_work.split, induction ts rule: task_sequences.induct, auto,
      induction cs rule: answered_sequences.induct, auto)

definition flight :: "worker \<Rightarrow> nat multiset" where
  "flight w = mset (job_sequences (jobs w) @ pump_sequences (pump w) @ task_sequences (tasks w) @ answered_sequences (callbacks w))"

definition job_ok :: "job \<Rightarrow> bool" where
  "job_ok j \<longleftrightarrow>
     (case job_work j of
        Do_predict s c p \<Rightarrow> job_kind j = Predict_job \<and> job_sequence j = s
      | _ \<Rightarrow> job_kind j \<noteq> Predict_job)"

definition jobs_ok :: "worker \<Rightarrow> bool" where
  "jobs_ok w \<longleftrightarrow> (\<forall>j \<in> set (jobs w). job_ok j) \<and> (\<forall>j. pump w = Running j \<longrightarrow> job_ok j)"

lemma job_sequences_kind:
  assumes "\<forall>j \<in> set js. job_ok j"
  shows "job_sequences js = map job_sequence (filter (\<lambda>j. job_kind j = Predict_job) js)"
  using assms by (induction js) (auto simp: job_ok_def split: job_work.splits)

lemma mset_filter_split: "mset (map f (filter P xs)) + mset (map f (filter (\<lambda>x. \<not> P x) xs)) = mset (map f xs)"
  by (induction xs) auto

lemma task_sequences_superseded: "task_sequences (map (\<lambda>s. Publish_prediction (superseded_result s)) ss) = ss"
  by (induction ss) (simp_all add: superseded_result_def)

lemma superseded_kinds:
  "kind \<noteq> Predict_job \<Longrightarrow>
   filter (\<lambda>j. job_kind j = Predict_job) (filter (\<lambda>q. \<not> superseded_by kind g q) js) = filter (\<lambda>j. job_kind j = Predict_job) js"
  by (induction js) (auto simp: superseded_by_def)

lemma superseded_predicts:
  "filter (\<lambda>j. job_kind j = Predict_job) (filter (superseded_by Predict_job g) js) = filter (superseded_by Predict_job g) js"
  by (induction js) (auto simp: superseded_by_def)

lemma job_sequences_filter:
  "mset (job_sequences js) = mset (job_sequences (filter P js)) + mset (job_sequences (filter (\<lambda>j. \<not> P j) js))"
  by (induction js) (auto split: job_work.splits)

lemma submit_flight:
  assumes ok: "jobs_ok w" and j: "job_ok j" and run: "\<not> stopping w"
  shows "flight (submit j w) = flight w + mset (job_sequences [j]) \<and> jobs_ok (submit j w)"
proof -
  let ?P = "\<lambda>j. job_kind j = Predict_job"
  let ?S = "superseded_by (job_kind j) (job_group j)"
  let ?kept = "if job_kind j = Other_job then jobs w else filter (\<lambda>q. \<not> ?S q) (jobs w)"
  let ?sup = "if job_kind j = Predict_job then map job_sequence (if job_kind j = Other_job then [] else filter ?S (jobs w)) else []"
  have okj: "\<forall>j \<in> set (jobs w). job_ok j" using ok by (simp add: jobs_ok_def)
  have okk: "\<forall>j \<in> set ?kept. job_ok j" using okj by auto
  have kept: "mset (job_sequences ?kept) + mset ?sup = mset (job_sequences (jobs w))"
  proof (cases "job_kind j = Predict_job")
    case True
    have "job_sequences (filter ?S (jobs w)) = map job_sequence (filter ?S (jobs w))"
      using job_sequences_kind [of "filter ?S (jobs w)"] okj superseded_predicts True by simp
    moreover have "mset (job_sequences (jobs w)) = mset (job_sequences (filter ?S (jobs w))) + mset (job_sequences (filter (\<lambda>q. \<not> ?S q) (jobs w)))"
      by (rule job_sequences_filter)
    ultimately show ?thesis using True by simp
  next
    case False
    then have "job_sequences ?kept = job_sequences (jobs w)"
      unfolding job_sequences_kind [OF okk] job_sequences_kind [OF okj]
      using superseded_kinds [OF False, of "job_group j" "jobs w"] by (cases "job_kind j = Other_job") simp_all
    then show ?thesis using False by simp
  qed
  have "submit j w = w\<lparr>jobs := ?kept @ [j], tasks := tasks w @ map (\<lambda>s. Publish_prediction (superseded_result s)) ?sup\<rparr>"
    using run by (simp add: submit_def Let_def)
  then show ?thesis
    using kept okk ok j by (auto simp: flight_def task_sequences_superseded jobs_ok_def)
qed

text \<open>Each event leaves the conversions under way as they are; only sending one adds to them.\<close>

fun sent :: "worker_event list \<Rightarrow> nat list" where
  "sent [] = []"
| "sent (Send_predict seq grp ctxt padding # es) = seq # sent es"
| "sent (_ # es) = sent es"

lemma sent_Cons: "sent (e # es) = sent [e] @ sent es"
  by (cases e) simp_all

lemma submit_plain:
  assumes "jobs_ok w" "\<not> stopping w" "kind \<noteq> Predict_job" "\<And>s c p. work \<noteq> Do_predict s c p"
  shows "flight (submit (plain_job kind work) w) = flight w \<and> jobs_ok (submit (plain_job kind work) w)"
proof -
  have "job_ok (plain_job kind work)" "job_sequences [plain_job kind work] = []"
    using assms(3,4) by (auto simp: job_ok_def plain_job_def split: job_work.split)
  then show ?thesis using submit_flight [OF assms(1) _ assms(2), of "plain_job kind work"] by simp
qed

lemma submit_frame [simp]:
  "stopping (submit j w) = stopping w" "ui_alive (submit j w) = ui_alive w" "mode_revision (submit j w) = mode_revision w"
  "ui_mode (submit j w) = ui_mode w" "pump (submit j w) = pump w" "callbacks (submit j w) = callbacks w"
  "engine_calls (submit j w) = engine_calls w" "recorded_commit (submit j w) = recorded_commit w"
  "transport_commit (submit j w) = transport_commit w" "next_commit (submit j w) = next_commit w"
  by (simp_all add: submit_def Let_def)

lemma flight_frame [simp]:
  "flight (w\<lparr>ui_mode := m, mode_revision := r\<rparr>) = flight w" "flight (w\<lparr>next_commit := n\<rparr>) = flight w"
  "flight (w\<lparr>retry_posted := b\<rparr>) = flight w" "jobs_ok (w\<lparr>ui_mode := m, mode_revision := r\<rparr>) = jobs_ok w"
  "jobs_ok (w\<lparr>next_commit := n\<rparr>) = jobs_ok w" "jobs_ok (w\<lparr>retry_posted := b\<rparr>) = jobs_ok w"
  by (simp_all add: flight_def jobs_ok_def)

lemma take_job_flight:
  "jobs_ok w \<Longrightarrow> flight (take_job w) = flight w \<and> jobs_ok (take_job w)"
  by (cases "pump w"; cases "jobs w")
    (auto simp: take_job_def start_job_def flight_def jobs_ok_def pump_sequences_def split: job_work.splits)

lemma job_posts_sequences:
  "job_ok j \<Longrightarrow> task_sequences (job_posts j outcome backend) = job_sequences [j]"
  by (auto simp: job_posts_def prediction_result_def split: job_work.splits engine_answer.splits)

lemma finish_job_flight:
  assumes "jobs_ok w"
  shows "flight (finish_job outcome backend w) = flight w \<and> jobs_ok (finish_job outcome backend w)"
proof (cases "pump w")
  case (Running j)
  then have "task_sequences (job_posts j outcome backend) = job_sequences [j]"
    using job_posts_sequences assms by (simp add: jobs_ok_def)
  then have "pump_sequences (if job_posts j outcome backend = [] then Waiting else Posting (job_posts j outcome backend)) =
      job_sequences [j]"
    by (auto simp: pump_sequences_def)
  then show ?thesis
    using Running assms by (auto simp: finish_job_def Let_def flight_def jobs_ok_def pump_sequences_def split: job_work.split engine_answer.split)
qed (use assms in \<open>simp_all add: finish_job_def\<close>)

lemma post_next_flight: "jobs_ok w \<Longrightarrow> flight (post_next w) = flight w \<and> jobs_ok (post_next w)"
proof (cases "pump w")
  case (Posting ts)
  then show "jobs_ok w \<Longrightarrow> ?thesis"
    by (cases ts; cases "hd ts") (auto simp: post_next_def flight_def jobs_ok_def pump_sequences_def)
qed (simp_all add: post_next_def)

lemma run_task_flight:
  assumes "jobs_ok w" "\<not> stopping w"
  shows "flight (run_task t w) = flight w + mset (task_sequences [t]) \<and> jobs_ok (run_task t w)"
proof (cases t)
  case Retry_query
  have "jobs_ok (w\<lparr>retry_posted := False\<rparr>)" "\<not> stopping (w\<lparr>retry_posted := False\<rparr>)" using assms by simp_all
  from submit_plain [OF this, of Query_job "Do_query (mode_revision w)"] show ?thesis
    using Retry_query by (simp add: run_task_def query_mode_def)
next
  case (Publish_prediction r)
  then show ?thesis using assms by (auto simp: run_task_def Let_def flight_def jobs_ok_def)
qed (use assms in \<open>auto simp: run_task_def flight_def jobs_ok_def\<close>)

lemma deliver_flight:
  assumes "jobs_ok w" "\<not> stopping w" "ui_alive w"
  shows "flight (deliver w) = flight w \<and> jobs_ok (deliver w)"
proof (cases "tasks w")
  case (Cons t ts)
  let ?w = "w\<lparr>tasks := ts\<rparr>"
  have "flight w = flight ?w + mset (task_sequences [t])"
    using Cons by (cases t) (auto simp: flight_def)
  moreover have "jobs_ok ?w" "\<not> stopping ?w" using assms by (simp_all add: jobs_ok_def)
  ultimately show ?thesis using run_task_flight [of ?w t] Cons assms(3) by (simp add: deliver_def)
qed (use assms in \<open>simp add: deliver_def\<close>)

text \<open>The user interface state lives as long as the worker runs.\<close>

lemma run_task_frame [simp]: "stopping (run_task t w) = stopping w" "ui_alive (run_task t w) = ui_alive w"
  by (simp_all add: run_task_def query_mode_def Let_def split: ui_task.split)

lemma worker_step_stopping: "stopping w \<Longrightarrow> stopping (worker_step e w)"
  by (auto simp: worker_step_def refresh_input_mode_def query_mode_def toggle_input_mode_def worker_ready_def
      worker_prefill_def worker_predict_def record_commit_def discard_commit_def take_job_def finish_job_def post_next_def
      retry_timeout_def deliver_def thread_ends_def destroy_worker_def start_job_def Let_def
      split: worker_event.split pump.split list.split job_work.split engine_answer.split)

lemma worker_step_alive: "ui_alive w \<Longrightarrow> ui_alive (worker_step e w) \<or> stopping (worker_step e w)"
  by (auto simp: worker_step_def refresh_input_mode_def query_mode_def toggle_input_mode_def worker_ready_def
      worker_prefill_def worker_predict_def record_commit_def discard_commit_def take_job_def finish_job_def post_next_def
      retry_timeout_def deliver_def thread_ends_def destroy_worker_def start_job_def Let_def
      split: worker_event.split pump.split list.split job_work.split engine_answer.split)

lemma worker_step_flight:
  assumes ok: "jobs_ok w" and run: "\<not> stopping (worker_step e w)" "\<not> stopping w" and ui: "ui_alive w"
  shows "flight (worker_step e w) = flight w + mset (sent [e]) \<and> jobs_ok (worker_step e w)"
proof (cases e)
  case (Send_predict seq grp ctxt padding)
  let ?j = "\<lparr>job_kind = Predict_job, job_sequence = seq, job_group = grp,
             job_work = Do_predict seq ctxt (map (\<lambda>e. e\<lparr>predicted := False\<rparr>) padding)\<rparr>"
  have "job_ok ?j" by (simp add: job_ok_def)
  from submit_flight [OF ok this run(2)] show ?thesis using Send_predict by (simp add: worker_step_def worker_predict_def)
next
  case Toggle
  let ?w = "w\<lparr>ui_mode := if ui_mode w = Chinese then English else Chinese, mode_revision := mode_revision w + 1\<rparr>"
  have "jobs_ok ?w" "\<not> stopping ?w" using ok run(2) by simp_all
  from submit_plain [OF this, of Other_job "Do_toggle (mode_revision w + 1)"] show ?thesis
    using Toggle by (simp add: worker_step_def toggle_input_mode_def Let_def)
next
  case (Send_record sample)
  have "jobs_ok (w\<lparr>next_commit := next_commit w + 1\<rparr>)" "\<not> stopping (w\<lparr>next_commit := next_commit w + 1\<rparr>)"
    using ok run(2) by simp_all
  from submit_plain [OF this, of Other_job "Do_record (next_commit w + 1) sample"] show ?thesis
    using Send_record by (simp add: worker_step_def record_commit_def Let_def)
next
  case Timeout
  then show ?thesis using ok by (auto simp: worker_step_def retry_timeout_def flight_def jobs_ok_def)
next
  case Deliver
  then show ?thesis using deliver_flight [OF ok run(2) ui] by (simp add: worker_step_def)
next
  case Thread_ends
  then show ?thesis using run by (simp add: worker_step_def thread_ends_def)
next
  case Destroy_worker
  then show ?thesis using run by (simp add: worker_step_def destroy_worker_def)
qed (use ok run(2) submit_plain [of w] take_job_flight finish_job_flight post_next_flight in
    \<open>simp_all add: worker_step_def refresh_input_mode_def query_mode_def worker_ready_def worker_prefill_def discard_commit_def\<close>)

abbreviation worker_run :: "worker_event list \<Rightarrow> worker \<Rightarrow> worker" where
  "worker_run es \<equiv> fold worker_step es"

lemma worker_run_stopping: "stopping w \<Longrightarrow> stopping (worker_run es w)"
  by (induction es arbitrary: w) (simp_all add: worker_step_stopping)

lemma worker_run_flight:
  assumes "jobs_ok w" "\<not> stopping (worker_run es w)" "ui_alive w"
  shows "flight (worker_run es w) = flight w + mset (sent es) \<and> jobs_ok (worker_run es w) \<and> ui_alive (worker_run es w)"
  using assms
proof (induction es arbitrary: w)
  case (Cons e es)
  have run: "\<not> stopping (worker_step e w)" "\<not> stopping w"
    using Cons.prems(2) worker_run_stopping worker_step_stopping by fastforce+
  have "ui_alive (worker_step e w)" using worker_step_alive [OF Cons.prems(3)] run(1) by blast
  then show ?case
    using Cons.IH [of "worker_step e w"] worker_step_flight [OF Cons.prems(1) run Cons.prems(3)] Cons.prems(2)
    by (simp add: sent_Cons [of e es])
qed simp

end
