(* ===== verification/Worker_Properties.thy ===== *)
theory Worker_Properties
  imports Engine_Worker
begin

text \<open>
  What the worker promises: every conversion sent is answered exactly once, the worker comes to rest,
  a conversion is only dropped for a newer one of its composition, an answer about the input mode is
  only used while it is current, and only the commit recorded last is ever taken back.
\<close>

section \<open>Coming to rest\<close>

definition at_rest :: "worker \<Rightarrow> bool" where
  "at_rest w \<longleftrightarrow> pump w = Waiting \<and> jobs w = [] \<and> tasks w = []"

text \<open>What the two threads do without a call from outside.  \<open>Timeout\<close> is the probe the worker posts every
  half second while the service cannot be reached.\<close>

definition own_step :: "worker \<Rightarrow> worker_event \<Rightarrow> bool" where
  "own_step w e =
     (case e of
        Take \<Rightarrow> pump w = Waiting \<and> jobs w \<noteq> []
      | Finish outcome backend \<Rightarrow> (case pump w of Running j \<Rightarrow> True | _ \<Rightarrow> False)
      | Post \<Rightarrow> (case pump w of Posting ts \<Rightarrow> True | _ \<Rightarrow> False)
      | Timeout \<Rightarrow> retry_due w
      | Deliver \<Rightarrow> tasks w \<noteq> []
      | _ \<Rightarrow> False)"

fun own_steps :: "worker \<Rightarrow> worker_event list \<Rightarrow> bool" where
  "own_steps w [] = True"
| "own_steps w (e # es) = (own_step w e \<and> own_steps (worker_step e w) es)"

fun task_weight :: "ui_task \<Rightarrow> nat" where
  "task_weight Retry_query = 8"
| "task_weight _ = 1"

fun pump_weight :: "pump \<Rightarrow> nat" where
  "pump_weight Waiting = 0"
| "pump_weight (Running j) = 6"
| "pump_weight (Posting ts) = 1 + (\<Sum>t\<leftarrow>ts. task_weight t + 1)"

definition weight :: "worker \<Rightarrow> nat" where
  "weight w = 7 * length (jobs w) + pump_weight (pump w) + (\<Sum>t\<leftarrow>tasks w. task_weight t)"

lemma submit_query_weight: "weight (query_mode asked w) \<le> weight w + 7"
  by (auto simp: query_mode_def submit_def plain_job_def weight_def Let_def)

lemma job_posts_weight: "(\<Sum>t\<leftarrow>job_posts j outcome backend. task_weight t + 1) \<le> 4"
  by (auto simp: job_posts_def split: job_work.split engine_answer.split)

lemma start_job_frame [simp]:
  "jobs (start_job j w) = jobs w" "pump (start_job j w) = pump w" "tasks (start_job j w) = tasks w"
  "callbacks (start_job j w) = callbacks w" "stopping (start_job j w) = stopping w"
  by (auto simp: start_job_def split: job_work.split)

lemma retry_weight: "own_step w Timeout \<Longrightarrow> weight (worker_step Timeout w) = weight w + 8"
  by (simp add: own_step_def worker_step_def retry_timeout_def weight_def)

lemma own_step_weight:
  assumes "own_step w e" "\<not> stopping w" "e \<noteq> Timeout"
  shows "weight (worker_step e w) < weight w"
proof (cases e)
  case Take
  then show ?thesis
    using assms by (cases "jobs w") (auto simp: own_step_def worker_step_def take_job_def weight_def)
next
  case (Finish outcome backend)
  then obtain j where j: "pump w = Running j" using assms(1) by (auto simp: own_step_def split: pump.splits)
  have "pump_weight (if job_posts j outcome backend = [] then Waiting else Posting (job_posts j outcome backend)) < 6"
    using job_posts_weight [of j outcome backend] by auto
  then show ?thesis
    using Finish j by (auto simp: worker_step_def finish_job_def weight_def Let_def split: job_work.split engine_answer.split)
next
  case Post
  then obtain ts where "pump w = Posting ts" using assms(1) by (auto simp: own_step_def split: pump.splits)
  then show ?thesis using Post by (cases ts) (auto simp: worker_step_def post_next_def weight_def)
next
  case Deliver
  then obtain t ts where ts: "tasks w = t # ts" using assms(1) by (cases "tasks w") (auto simp: own_step_def)
  have "weight (run_task t (w\<lparr>tasks := ts\<rparr>)) < weight w"
  proof (cases t)
    case Retry_query
    then show ?thesis
      using submit_query_weight [of "mode_revision w" "w\<lparr>tasks := ts, retry_posted := False\<rparr>"] ts
      by (simp add: run_task_def weight_def)
  qed (use ts in \<open>auto simp: run_task_def weight_def Let_def\<close>)
  moreover have "0 < task_weight t" by (cases t) simp_all
  ultimately show ?thesis using Deliver ts by (auto simp: worker_step_def deliver_def weight_def)
qed (use assms in \<open>simp_all add: own_step_def\<close>)

lemma own_step_stopping: "own_step w e \<Longrightarrow> stopping (worker_step e w) = stopping w"
  by (cases e) (auto simp: own_step_def worker_step_def take_job_def finish_job_def post_next_def deliver_def
      retry_timeout_def Let_def split: pump.splits list.splits job_work.split engine_answer.split)

text \<open>The answers after which the service counts as unreachable.  Between two probes there is one: the
  first probe's task has to run, its question to be asked, and its answer to leave the service
  unreachable.\<close>

fun unreachable_answer :: "worker_event \<Rightarrow> bool" where
  "unreachable_answer (Finish outcome backend) \<longleftrightarrow> backend = Unavailable"
| "unreachable_answer _ \<longleftrightarrow> False"

definition no_probe :: "worker \<Rightarrow> bool" where
  "no_probe w \<longleftrightarrow> jobs w \<noteq> [] \<or> (\<exists>j. pump w = Running j) \<or> engine_backend w \<noteq> Unavailable \<or> retry_posted w"

lemma submit_unbound [simp]: "engine_backend (submit j w) = engine_backend w" "retry_posted (submit j w) = retry_posted w"
  by (simp_all add: submit_def Let_def)

lemma submit_jobs: "\<not> stopping w \<Longrightarrow> jobs (submit j w) \<noteq> []"
  by (simp add: submit_def Let_def)

lemma start_job_unbound [simp]:
  "engine_backend (start_job j w) = engine_backend w" "retry_posted (start_job j w) = retry_posted w"
  by (simp_all add: start_job_def split: job_work.split)

lemma no_probe_task:
  assumes "no_probe w" "\<not> stopping w"
  shows "no_probe (run_task t (w\<lparr>tasks := ts\<rparr>))"
proof (cases t)
  case Retry_query
  then show ?thesis using assms by (simp add: run_task_def query_mode_def no_probe_def submit_jobs)
qed (use assms in \<open>auto simp: run_task_def no_probe_def Let_def\<close>)

lemma no_probe_step:
  assumes "own_step w e" "\<not> stopping w" "no_probe w \<or> e = Timeout" "\<not> unreachable_answer e"
  shows "no_probe (worker_step e w)"
proof (cases e)
  case Deliver
  then obtain t ts where "tasks w = t # ts" using assms(1) by (cases "tasks w") (auto simp: own_step_def)
  then show ?thesis
    using Deliver assms(2,3) no_probe_task [of w t ts] by (auto simp: worker_step_def deliver_def no_probe_def)
qed (use assms in \<open>auto simp: own_step_def worker_step_def take_job_def finish_job_def post_next_def retry_timeout_def
      no_probe_def Let_def split: pump.splits list.splits job_work.split engine_answer.split\<close>)

lemma probes_answered:
  "own_steps w es \<Longrightarrow> \<not> stopping w \<Longrightarrow>
   length (filter ((=) Timeout) es) \<le> length (filter unreachable_answer es) + (if no_probe w then 0 else 1)"
proof (induction es arbitrary: w)
  case (Cons e es)
  then have e: "own_step w e" "own_steps (worker_step e w) es" "\<not> stopping (worker_step e w)"
    by (simp_all add: own_step_stopping)
  have "e = Timeout \<Longrightarrow> \<not> no_probe w" using e(1) by (auto simp: own_step_def retry_due_def no_probe_def)
  then show ?case using Cons.IH [OF e(2,3)] no_probe_step [OF e(1) Cons.prems(2)] by (auto split: if_splits)
qed simp

lemma own_steps_weight:
  "own_steps w es \<Longrightarrow> \<not> stopping w \<Longrightarrow>
   length es + weight (worker_run es w) \<le> weight w + 9 * length (filter ((=) Timeout) es)"
proof (induction es arbitrary: w)
  case (Cons e es)
  then have e: "own_step w e" "own_steps (worker_step e w) es" "\<not> stopping (worker_step e w)"
    by (simp_all add: own_step_stopping)
  show ?case
    using Cons.IH [OF e(2,3)] own_step_weight [OF e(1) Cons.prems(2)] retry_weight e(1) by (cases "e = Timeout") auto
qed simp

lemma own_step_or_rest:
  "at_rest w \<or> own_step w Take \<or> own_step w Post \<or> own_step w Deliver \<or> own_step w (Finish Engine_done Connected)"
  by (cases "pump w") (auto simp: at_rest_def own_step_def)

lemma own_step_at_rest: "at_rest w \<Longrightarrow> own_step w e \<Longrightarrow> e = Timeout \<and> engine_backend w = Unavailable"
  by (cases e) (auto simp: at_rest_def own_step_def retry_due_def)

text \<open>(C3) While the worker runs, the two threads left to themselves come to rest, whatever the engine answers and however they
  interleave, apart from the probe the worker repeats while the service cannot be reached.  The steps
  possible are bounded by the weight of the state and nine more for each answer that leaves the service
  unreachable and one last probe; where the threads have not come to rest they can take a step other
  than a probe, which lowers the weight; and at rest nothing is queued, running or undelivered, and the
  only step possible is the probe of an unreachable service.\<close>

theorem worker_comes_to_rest:
  assumes "\<not> stopping w" "own_steps w es" "w' = worker_run es w"
  shows "length es + weight w' \<le> weight w + 9 * (length (filter unreachable_answer es) + 1) \<and>
    (at_rest w' \<or> (\<exists>e. e \<noteq> Timeout \<and> own_step w' e \<and> weight (worker_step e w') < weight w')) \<and>
    (at_rest w' \<longrightarrow> (\<forall>e. own_step w' e \<longrightarrow> e = Timeout \<and> engine_backend w' = Unavailable))"
proof -
  have run: "\<not> stopping w'" unfolding assms(3) using assms(1,2)
    by (induction es arbitrary: w) (simp_all add: own_step_stopping)
  have "length es + weight w' \<le> weight w + 9 * (length (filter unreachable_answer es) + 1)"
    using own_steps_weight [OF assms(2,1)] probes_answered [OF assms(2,1)] by (auto simp: assms(3) split: if_splits)
  moreover have "at_rest w' \<or> (\<exists>e. e \<noteq> Timeout \<and> own_step w' e \<and> weight (worker_step e w') < weight w')"
    using own_step_or_rest [of w'] own_step_weight [OF _ run] by blast
  ultimately show ?thesis using own_step_at_rest by blast
qed

definition one_prediction :: worker where
  "one_prediction = worker_step (Send_predict 1 1 [] []) new_worker"

definition until_rest :: "worker_event list" where
  "until_rest = [Timeout, Deliver, Take, Finish (Answered_mode English) Connected, Post, Post, Deliver, Deliver]"

theorem worker_comes_to_rest_witness:
  "own_steps new_worker until_rest \<and> (8 :: nat) \<le> 9 * (length (filter unreachable_answer until_rest) + 1) \<and>
    at_rest (worker_run until_rest new_worker) \<and> (\<forall>e. \<not> own_step (worker_run until_rest new_worker) e)"
proof -
  let ?w = "worker_run until_rest new_worker"
  have run: "\<not> stopping new_worker" "own_steps new_worker until_rest" "at_rest ?w" "engine_backend ?w = Connected"
    "weight new_worker = 0" "length until_rest = 8"
    by (simp_all add: until_rest_def new_worker_def worker_step_def retry_timeout_def retry_due_def query_mode_def plain_job_def
        submit_def Let_def own_step_def take_job_def start_job_def finish_job_def job_posts_def post_next_def deliver_def
        run_task_def at_rest_def weight_def)
  show ?thesis using worker_comes_to_rest [OF run(1,2) refl] run by simp
qed

section \<open>One answer for every conversion\<close>

lemma new_worker_ok: "jobs_ok new_worker" "ui_alive new_worker" "flight new_worker = {#}" "\<not> stopping new_worker"
  by (simp_all add: jobs_ok_def new_worker_def flight_def pump_sequences_def)

text \<open>(C2) While the worker runs, no conversion is answered twice and none that was not sent; when it is at
  rest every conversion sent has been answered.\<close>

theorem every_prediction_is_answered:
  assumes "w = worker_run es new_worker" "\<not> stopping w" "distinct (sent es)"
  shows "distinct (answered_sequences (callbacks w)) \<and> set (answered_sequences (callbacks w)) \<subseteq> set (sent es) \<and>
    (at_rest w \<longrightarrow> set (answered_sequences (callbacks w)) = set (sent es))"
proof -
  have flight: "mset (sent es) = flight w"
    using worker_run_flight [OF new_worker_ok(1) _ new_worker_ok(2), of es] assms(1,2) new_worker_ok(3) by simp
  let ?rest = "job_sequences (jobs w) @ pump_sequences (pump w) @ task_sequences (tasks w)"
  have eq: "mset (sent es) = mset (?rest @ answered_sequences (callbacks w))" using flight by (simp add: flight_def)
  have "distinct (?rest @ answered_sequences (callbacks w))"
    using assms(3) mset_eq_imp_distinct_iff [OF eq] by simp
  moreover have "set (sent es) = set (?rest @ answered_sequences (callbacks w))" by (rule mset_eq_setD [OF eq])
  moreover have "at_rest w \<Longrightarrow> ?rest = []" by (simp add: at_rest_def pump_sequences_def)
  ultimately show ?thesis by auto
qed

definition two_predictions :: "worker_event list" where
  "two_predictions = [Send_predict 1 5 [] [], Send_predict 2 5 [] [], Take, Finish (Answered_padding True []) Connected,
     Post, Post, Deliver, Deliver, Deliver]"

theorem every_prediction_is_answered_witness:
  "set (answered_sequences (callbacks (worker_run two_predictions new_worker))) = {1, 2}"
proof -
  have "\<not> stopping (worker_run two_predictions new_worker)" "distinct (sent two_predictions)"
    "at_rest (worker_run two_predictions new_worker)" "set (sent two_predictions) = {1, 2}"
    by (auto simp: two_predictions_def new_worker_def worker_step_def worker_predict_def submit_def Let_def superseded_by_def
        superseded_result_def take_job_def start_job_def finish_job_def job_posts_def prediction_result_def post_next_def
        deliver_def run_task_def at_rest_def)
  with every_prediction_is_answered [OF refl this(1,2)] show ?thesis by blast
qed

section \<open>Only a newer conversion drops one\<close>

fun sent_pairs :: "worker_event list \<Rightarrow> (nat \<times> nat) list" where
  "sent_pairs [] = []"
| "sent_pairs (Send_predict seq grp ctxt padding # es) = (seq, grp) # sent_pairs es"
| "sent_pairs (_ # es) = sent_pairs es"

lemma sent_pairs_Cons: "sent_pairs (e # es) = sent_pairs [e] @ sent_pairs es"
  by (cases e) simp_all

definition overtaken :: "nat \<Rightarrow> (nat \<times> nat) list \<Rightarrow> bool" where
  "overtaken s ps \<longleftrightarrow> (\<exists>as g bs. ps = as @ (s, g) # bs \<and> g \<in> snd ` set bs)"

lemma overtaken_append:
  assumes "overtaken s ps"
  shows "overtaken s (ps @ qs)"
proof -
  obtain as g bs where "ps = as @ (s, g) # bs" "g \<in> snd ` set bs" using assms by (auto simp: overtaken_def)
  then have "ps @ qs = as @ (s, g) # (bs @ qs)" "g \<in> snd ` set (bs @ qs)" by auto
  then show ?thesis unfolding overtaken_def by blast
qed

lemma overtaken_new:
  assumes "(s, g) \<in> set ps"
  shows "overtaken s (ps @ [(s', g)])"
proof -
  obtain as bs where "ps = as @ (s, g) # bs" using split_list [OF assms] by blast
  then have "ps @ [(s', g)] = as @ (s, g) # (bs @ [(s', g)])" "g \<in> snd ` set (bs @ [(s', g)])" by simp_all
  then show ?thesis unfolding overtaken_def by blast
qed

text \<open>The answers that report a conversion as dropped.\<close>

fun dropped_tasks :: "ui_task list \<Rightarrow> nat list" where
  "dropped_tasks [] = []"
| "dropped_tasks (Publish_prediction r # ts) =
     (if result_status r = Superseded then result_sequence r # dropped_tasks ts else dropped_tasks ts)"
| "dropped_tasks (_ # ts) = dropped_tasks ts"

fun dropped_answers :: "callback list \<Rightarrow> nat list" where
  "dropped_answers [] = []"
| "dropped_answers (Predicted r # cs) =
     (if result_status r = Superseded then result_sequence r # dropped_answers cs else dropped_answers cs)"
| "dropped_answers (_ # cs) = dropped_answers cs"

lemma dropped_tasks_append [simp]: "dropped_tasks (ts @ us) = dropped_tasks ts @ dropped_tasks us"
  by (induction ts rule: dropped_tasks.induct) auto

lemma dropped_answers_append [simp]: "dropped_answers (cs @ ds) = dropped_answers cs @ dropped_answers ds"
  by (induction cs rule: dropped_answers.induct) auto

lemma dropped_superseded: "dropped_tasks (map (\<lambda>s. Publish_prediction (superseded_result s)) ss) = ss"
  by (induction ss) (simp_all add: superseded_result_def)

lemma dropped_job_posts: "dropped_tasks (job_posts j outcome backend) = []"
  by (auto simp: job_posts_def prediction_result_def split: job_work.split engine_answer.split)

definition dropped_inv :: "(nat \<times> nat) list \<Rightarrow> worker \<Rightarrow> bool" where
  "dropped_inv ps w \<longleftrightarrow>
     (\<forall>j \<in> set (jobs w). job_kind j = Predict_job \<longrightarrow> (job_sequence j, job_group j) \<in> set ps) \<and>
     (\<forall>s \<in> set (dropped_tasks (tasks w)) \<union> set (dropped_answers (callbacks w)). overtaken s ps) \<and>
     (case pump w of Posting ts \<Rightarrow> dropped_tasks ts = [] | _ \<Rightarrow> True)"

lemma dropped_inv_append: "dropped_inv ps w \<Longrightarrow> dropped_inv (ps @ qs) w"
  using overtaken_append by (auto simp: dropped_inv_def)

lemma dropped_inv_submit:
  assumes "dropped_inv ps w" "job_kind j = Predict_job \<longrightarrow> qs = [(job_sequence j, job_group j)]"
  shows "dropped_inv (ps @ qs) (submit j w)"
proof -
  have inv: "dropped_inv (ps @ qs) w" by (rule dropped_inv_append [OF assms(1)])
  have "overtaken s (ps @ qs)"
    if "s \<in> job_sequence ` set (filter (superseded_by (job_kind j) (job_group j)) (jobs w))" "job_kind j = Predict_job" for s
    using that assms overtaken_new [of s "job_group j" ps] by (auto simp: dropped_inv_def superseded_by_def)
  then show ?thesis
    using inv assms(2) by (auto simp: submit_def Let_def dropped_inv_def dropped_superseded)
qed

lemma dropped_inv_frame [simp]:
  "dropped_inv ps (w\<lparr>ui_mode := m, mode_revision := r\<rparr>) = dropped_inv ps w"
  "dropped_inv ps (w\<lparr>next_commit := n\<rparr>) = dropped_inv ps w" "dropped_inv ps (w\<lparr>retry_posted := b\<rparr>) = dropped_inv ps w"
  by (simp_all add: dropped_inv_def)

lemma dropped_inv_plain:
  "dropped_inv ps w \<Longrightarrow> kind \<noteq> Predict_job \<Longrightarrow> dropped_inv ps (submit (plain_job kind work) w)"
  using dropped_inv_submit [of ps w "plain_job kind work" "[]"] by (simp add: plain_job_def)

lemma dropped_inv_task:
  assumes inv: "dropped_inv ps w" and tasks: "tasks w = t # ts"
  shows "dropped_inv ps (run_task t (w\<lparr>tasks := ts\<rparr>))"
proof (cases t)
  case Retry_query
  have "dropped_inv ps (w\<lparr>tasks := ts, retry_posted := False\<rparr>)" using inv tasks Retry_query by (simp add: dropped_inv_def)
  then show ?thesis using Retry_query dropped_inv_plain by (simp add: run_task_def query_mode_def)
qed (use assms in \<open>auto simp: run_task_def Let_def dropped_inv_def split: if_splits\<close>)

lemma dropped_inv_step:
  assumes inv: "dropped_inv ps w"
  shows "dropped_inv (ps @ sent_pairs [e]) (worker_step e w)"
proof (cases e)
  case (Send_predict seq grp ctxt padding)
  show ?thesis unfolding Send_predict worker_step_def worker_predict_def
    by (simp only: worker_event.case) (rule dropped_inv_submit [OF inv], simp)
next
  case Take
  then show ?thesis
    using inv by (auto simp: worker_step_def take_job_def dropped_inv_def split: pump.splits list.splits)
next
  case (Finish outcome backend)
  then show ?thesis
    using inv dropped_job_posts
    by (auto simp: worker_step_def finish_job_def dropped_inv_def Let_def split: pump.splits job_work.split engine_answer.split)
next
  case Post
  show ?thesis
  proof (cases "pump w")
    case (Posting posts)
    show ?thesis
    proof (cases posts)
      case (Cons t ts)
      have "dropped_tasks [t] @ dropped_tasks ts = []"
        using inv Posting Cons dropped_tasks_append [of "[t]" ts] by (simp add: dropped_inv_def)
      then have "dropped_tasks [t] = []" "dropped_tasks ts = []" by simp_all
      then show ?thesis using inv Posting Cons Post by (auto simp: worker_step_def post_next_def dropped_inv_def)
    qed (use inv Posting Post in \<open>auto simp: worker_step_def post_next_def dropped_inv_def\<close>)
  qed (use inv Post in \<open>auto simp: worker_step_def post_next_def dropped_inv_def\<close>)
next
  case Deliver
  then show ?thesis
    using inv dropped_inv_task [OF inv] by (cases "tasks w"; cases "hd (tasks w)")
      (auto simp: worker_step_def deliver_def dropped_inv_def split: if_splits)
next
  case Timeout
  then show ?thesis using inv by (auto simp: worker_step_def retry_timeout_def dropped_inv_def)
next
  case Thread_ends
  then show ?thesis using inv by (auto simp: worker_step_def thread_ends_def dropped_inv_def)
next
  case Destroy_worker
  then show ?thesis using inv by (auto simp: worker_step_def destroy_worker_def dropped_inv_def)
qed (use inv dropped_inv_plain in \<open>simp_all add: worker_step_def refresh_input_mode_def query_mode_def toggle_input_mode_def
      worker_ready_def worker_prefill_def record_commit_def discard_commit_def Let_def\<close>)

lemma dropped_inv_run: "dropped_inv ps w \<Longrightarrow> dropped_inv (ps @ sent_pairs es) (worker_run es w)"
proof (induction es arbitrary: ps w)
  case (Cons e es)
  from Cons.IH [OF dropped_inv_step [OF Cons.prems]] show ?case by (simp add: sent_pairs_Cons [of e es])
qed simp

text \<open>(C4) A conversion reported as superseded was overtaken: a later one of the same composition was sent.\<close>

theorem superseded_by_a_newer_one:
  assumes "Predicted r \<in> set (callbacks (worker_run es new_worker))" "result_status r = Superseded"
  shows "\<exists>as g bs. sent_pairs es = as @ (result_sequence r, g) # bs \<and> g \<in> snd ` set bs"
proof -
  have "dropped_inv [] new_worker" by (simp add: dropped_inv_def new_worker_def)
  from dropped_inv_run [OF this, of es]
  have inv: "\<forall>s \<in> set (dropped_answers (callbacks (worker_run es new_worker))). overtaken s (sent_pairs es)"
    by (simp add: dropped_inv_def)
  have "Predicted r \<in> set cs \<Longrightarrow> result_sequence r \<in> set (dropped_answers cs)" for cs
    using assms(2) by (induction cs rule: dropped_answers.induct) auto
  then show ?thesis using assms(1) inv by (simp add: overtaken_def)
qed

theorem superseded_by_a_newer_one_witness:
  "\<exists>as g bs. [(1, 5), (2, 5)] = as @ (1 :: nat, g :: nat) # bs \<and> g \<in> snd ` set bs"
proof -
  have "Predicted (superseded_result 1) \<in> set (callbacks (worker_run two_predictions new_worker))"
    by (simp add: two_predictions_def new_worker_def worker_step_def worker_predict_def submit_def Let_def superseded_by_def
        take_job_def start_job_def finish_job_def job_posts_def prediction_result_def post_next_def
        deliver_def run_task_def superseded_result_def)
  from superseded_by_a_newer_one [OF this] show ?thesis by (simp add: two_predictions_def superseded_result_def)
qed

section \<open>Taking back a commit\<close>

text \<open>The commit recorded last and its token, as far as the engine has answered.\<close>

definition after_call :: "engine_call \<Rightarrow> (nat \<times> nat) option \<Rightarrow> (nat \<times> nat) option" where
  "after_call c recorded =
     (case c of Engine_record token sample \<Rightarrow> None | Engine_recorded token t \<Rightarrow> Some (token, t) | Engine_discard token t \<Rightarrow> recorded)"

definition last_recorded :: "engine_call list \<Rightarrow> (nat \<times> nat) option" where
  "last_recorded calls = fold after_call calls None"

lemma last_recorded_snoc [simp]: "last_recorded (calls @ [c]) = after_call c (last_recorded calls)"
  by (simp add: last_recorded_def)

definition discards_right :: "engine_call list \<Rightarrow> bool" where
  "discards_right calls \<longleftrightarrow>
     (\<forall>as token t bs. calls = as @ Engine_discard token t # bs \<longrightarrow> t \<noteq> 0 \<and> last_recorded as = Some (token, t))"

definition commits_inv :: "worker \<Rightarrow> bool" where
  "commits_inv w \<longleftrightarrow>
     (transport_commit w \<noteq> 0 \<longrightarrow> last_recorded (engine_calls w) = Some (recorded_commit w, transport_commit w)) \<and>
     (\<forall>j token sample. pump w = Running j \<longrightarrow> job_work j = Do_record token sample \<longrightarrow> recorded_commit w = token) \<and>
     discards_right (engine_calls w)"

lemma snoc_split:
  "xs @ [x] = as @ y # bs \<Longrightarrow> (bs = [] \<and> xs = as \<and> x = y) \<or> (\<exists>cs. bs = cs @ [x] \<and> xs = as @ y # cs)"
  by (cases bs rule: rev_cases) auto

lemma discards_right_snoc:
  assumes "discards_right calls" "\<And>token t. c = Engine_discard token t \<Longrightarrow> t \<noteq> 0 \<and> last_recorded calls = Some (token, t)"
  shows "discards_right (calls @ [c])"
  unfolding discards_right_def
proof (intro allI impI)
  fix as token t bs
  assume "calls @ [c] = as @ Engine_discard token t # bs"
  from snoc_split [OF this] show "t \<noteq> 0 \<and> last_recorded as = Some (token, t)"
  proof
    assume "bs = [] \<and> calls = as \<and> c = Engine_discard token t"
    then show ?thesis using assms(2) [of token t] by simp
  next
    assume "\<exists>cs. bs = cs @ [c] \<and> calls = as @ Engine_discard token t # cs"
    then obtain cs where "calls = as @ Engine_discard token t # cs" by blast
    then show ?thesis using assms(1) unfolding discards_right_def by blast
  qed
qed

lemma commits_inv_take:
  assumes "commits_inv w"
  shows "commits_inv (take_job w)"
proof (cases "pump w = Waiting \<and> jobs w \<noteq> [] \<and> \<not> stopping w")
  case True
  then obtain j js where j: "jobs w = j # js" by (cases "jobs w") auto
  let ?w = "w\<lparr>jobs := js, pump := Running j\<rparr>"
  have step: "take_job w = start_job j ?w" using True j by (simp add: take_job_def)
  show ?thesis
  proof (cases "job_work j")
    case (Do_record token sample)
    then show ?thesis
      using assms discards_right_snoc [of "engine_calls w" "Engine_record token sample"]
      by (simp add: step start_job_def commits_inv_def after_call_def)
  next
    case (Do_discard token)
    then show ?thesis
      using assms discards_right_snoc [of "engine_calls w" "Engine_discard token (transport_commit w)"]
      by (auto simp: step start_job_def commits_inv_def after_call_def)
  qed (use assms in \<open>auto simp: step start_job_def commits_inv_def\<close>)
next
  case False
  then have "take_job w = w" by (auto simp: take_job_def split: pump.split list.split)
  then show ?thesis using assms by simp
qed

lemma commits_inv_finish:
  assumes "commits_inv w"
  shows "commits_inv (finish_job outcome backend w)"
proof (cases "pump w")
  case (Running j)
  show ?thesis
  proof (cases "\<exists>token sample t. job_work j = Do_record token sample \<and> outcome = Answered_token t")
    case True
    then obtain token sample t where a: "job_work j = Do_record token sample" "outcome = Answered_token t" by blast
    have "recorded_commit w = token" using assms Running a(1) by (simp add: commits_inv_def)
    then show ?thesis
      using assms Running a discards_right_snoc [of "engine_calls w" "Engine_recorded token t"]
      by (auto simp: finish_job_def Let_def commits_inv_def after_call_def)
  next
    case False
    then show ?thesis
      using assms Running by (auto simp: finish_job_def Let_def commits_inv_def split: job_work.split engine_answer.split)
  qed
qed (use assms in \<open>simp_all add: finish_job_def\<close>)

lemma commits_inv_frame:
  "commits_inv w \<Longrightarrow> engine_calls w' = engine_calls w \<Longrightarrow> recorded_commit w' = recorded_commit w \<Longrightarrow>
   transport_commit w' = transport_commit w \<Longrightarrow> (\<And>j. pump w' = Running j \<Longrightarrow> pump w = Running j) \<Longrightarrow> commits_inv w'"
  unfolding commits_inv_def by simp

lemma run_task_commits [simp]:
  "engine_calls (run_task t w) = engine_calls w" "recorded_commit (run_task t w) = recorded_commit w"
  "transport_commit (run_task t w) = transport_commit w" "pump (run_task t w) = pump w"
  by (simp_all add: run_task_def query_mode_def Let_def split: ui_task.split)

lemma commits_inv_step: "commits_inv w \<Longrightarrow> commits_inv (worker_step e w)"
proof (cases e)
  case Take
  then show "commits_inv w \<Longrightarrow> ?thesis" by (simp add: worker_step_def commits_inv_take)
next
  case (Finish outcome backend)
  then show "commits_inv w \<Longrightarrow> ?thesis" by (simp add: worker_step_def commits_inv_finish)
qed (auto simp: worker_step_def refresh_input_mode_def query_mode_def toggle_input_mode_def worker_ready_def
      worker_prefill_def worker_predict_def record_commit_def discard_commit_def post_next_def
      retry_timeout_def deliver_def thread_ends_def destroy_worker_def Let_def
      elim!: commits_inv_frame split: pump.split list.split if_splits)

lemma commits_inv_run: "commits_inv w \<Longrightarrow> commits_inv (worker_run es w)"
  by (induction es arbitrary: w) (simp_all add: commits_inv_step)

text \<open>The tokens the user interface thread asked to take back.\<close>

definition asked_for :: "nat set \<Rightarrow> worker \<Rightarrow> bool" where
  "asked_for tokens w \<longleftrightarrow>
     (\<forall>j \<in> set (jobs w). \<forall>token. job_work j = Do_discard token \<longrightarrow> token \<in> tokens) \<and>
     (\<forall>token t. Engine_discard token t \<in> set (engine_calls w) \<longrightarrow> token \<in> tokens)"

fun asks :: "worker_event \<Rightarrow> nat set" where
  "asks (Send_discard token) = {token}"
| "asks _ = {}"

lemma asked_for_mono: "asked_for A w \<Longrightarrow> A \<subseteq> B \<Longrightarrow> asked_for B w"
  unfolding asked_for_def by blast

lemma asked_for_submit:
  "asked_for A w \<Longrightarrow> (\<And>token. job_work j = Do_discard token \<Longrightarrow> token \<in> A) \<Longrightarrow> asked_for A (submit j w)"
  by (auto simp: asked_for_def submit_def Let_def)

lemma asked_for_frame:
  "asked_for A w \<Longrightarrow> set (jobs w') \<subseteq> set (jobs w) \<Longrightarrow> engine_calls w' = engine_calls w \<Longrightarrow> asked_for A w'"
  unfolding asked_for_def by auto

lemma asked_for_plain:
  "asked_for A w \<Longrightarrow> (\<And>token. work = Do_discard token \<Longrightarrow> token \<in> A) \<Longrightarrow> asked_for A (submit (plain_job kind work) w)"
  by (rule asked_for_submit) (simp_all add: plain_job_def)

lemma asked_for_task: "asked_for A w \<Longrightarrow> asked_for A (run_task t w)"
proof (cases t)
  case Retry_query
  assume asked: "asked_for A w"
  have "asked_for A (w\<lparr>retry_posted := False\<rparr>)" by (rule asked_for_frame [OF asked]) simp_all
  then show ?thesis using Retry_query by (auto simp: run_task_def query_mode_def intro!: asked_for_plain)
qed (auto simp: run_task_def asked_for_def Let_def)

lemma asked_for_step:
  assumes "asked_for A w"
  shows "asked_for (A \<union> asks e) (worker_step e w)"
proof (cases e)
  case (Send_discard token)
  then show ?thesis using asked_for_mono [OF assms]
    by (auto simp: worker_step_def discard_commit_def intro!: asked_for_plain)
next
  case Toggle
  have "asked_for A (w\<lparr>ui_mode := m, mode_revision := r\<rparr>)" for m r by (rule asked_for_frame [OF assms]) simp_all
  then show ?thesis using Toggle by (auto simp: worker_step_def toggle_input_mode_def Let_def intro!: asked_for_plain)
next
  case (Send_record sample)
  have "asked_for A (w\<lparr>next_commit := n\<rparr>)" for n by (rule asked_for_frame [OF assms]) simp_all
  then show ?thesis using Send_record by (auto simp: worker_step_def record_commit_def Let_def intro!: asked_for_plain)
next
  case (Send_predict seq grp ctxt padding)
  then show ?thesis using assms by (auto simp: worker_step_def worker_predict_def intro!: asked_for_submit)
next
  case Take
  then show ?thesis
    using assms by (auto simp: worker_step_def take_job_def start_job_def asked_for_def split: pump.splits list.splits job_work.splits)
next
  case (Finish outcome backend)
  then show ?thesis
    using assms by (auto simp: worker_step_def finish_job_def Let_def asked_for_def split: pump.splits job_work.splits engine_answer.splits)
next
  case Deliver
  have "asked_for A (w\<lparr>tasks := ts\<rparr>)" for ts by (rule asked_for_frame [OF assms]) simp_all
  then show ?thesis using Deliver assms by (auto simp: worker_step_def deliver_def asked_for_task split: list.split)
next
  case Post
  then show ?thesis using assms by (auto simp: worker_step_def post_next_def asked_for_def split: pump.split list.split)
qed (use assms in \<open>auto simp: worker_step_def refresh_input_mode_def query_mode_def worker_ready_def worker_prefill_def
      retry_timeout_def thread_ends_def destroy_worker_def intro!: asked_for_plain,
      auto simp: asked_for_def\<close>)

lemma asked_for_run: "asked_for A w \<Longrightarrow> asked_for (A \<union> \<Union> (asks ` set es)) (worker_run es w)"
proof (induction es arbitrary: A w)
  case (Cons e es)
  from Cons.IH [OF asked_for_step [OF Cons.prems]] show ?case by (simp add: Un_assoc)
qed simp

lemma asks_iff: "token \<in> \<Union> (asks ` set es) \<longleftrightarrow> Send_discard token \<in> set es"
proof -
  have "token \<in> asks e \<longleftrightarrow> e = Send_discard token" for e by (cases e) auto
  then show ?thesis by auto
qed

text \<open>(C14) The worker only asks the engine to take a commit back when it was asked to take back that very
  commit, and only while it is the one recorded last: the token the user interface thread gave is the
  token of the last commit handed to the engine, and what the engine is told is the number it returned
  for it.\<close>

theorem discards_the_last_commit:
  assumes "engine_calls (worker_run es new_worker) = as @ Engine_discard token t # bs"
  shows "Send_discard token \<in> set es \<and> t \<noteq> 0 \<and> last_recorded as = Some (token, t)"
proof -
  have "commits_inv new_worker" "asked_for {} new_worker"
    by (simp_all add: commits_inv_def asked_for_def new_worker_def discards_right_def)
  then have "commits_inv (worker_run es new_worker)" "asked_for (\<Union> (asks ` set es)) (worker_run es new_worker)"
    using commits_inv_run asked_for_run [of "{}" new_worker es] by simp_all
  then have right: "discards_right (engine_calls (worker_run es new_worker))"
    and asked: "Engine_discard token t \<in> set (engine_calls (worker_run es new_worker)) \<Longrightarrow> token \<in> \<Union> (asks ` set es)"
    unfolding commits_inv_def asked_for_def by blast+
  from asked have "Send_discard token \<in> set es" unfolding asks_iff by (simp add: assms)
  moreover have "t \<noteq> 0 \<and> last_recorded as = Some (token, t)" using right assms unfolding discards_right_def by blast
  ultimately show ?thesis by blast
qed

definition one_commit :: "worker_event list" where
  "one_commit = [Send_record \<lparr>context_text = [], answer = [1], commit_input = []\<rparr>, Send_discard 1, Take,
     Finish (Answered_token 9) Connected, Take]"

theorem discards_the_last_commit_witness:
  "Send_discard 1 \<in> set one_commit \<and>
    last_recorded [Engine_record 1 \<lparr>context_text = [], answer = [1], commit_input = []\<rparr>, Engine_recorded 1 9] = Some (1, 9)"
proof -
  have "engine_calls (worker_run one_commit new_worker) =
      [Engine_record 1 \<lparr>context_text = [], answer = [1], commit_input = []\<rparr>, Engine_recorded 1 9] @ Engine_discard 1 9 # []"
    by (simp add: one_commit_def new_worker_def worker_step_def record_commit_def discard_commit_def submit_def Let_def plain_job_def
        take_job_def start_job_def finish_job_def job_posts_def)
  from discards_the_last_commit [OF this] show ?thesis by blast
qed

section \<open>The input mode\<close>

lemma worker_step_revision: "mode_revision w \<le> mode_revision (worker_step e w)"
  by (cases e) (auto simp: worker_step_def refresh_input_mode_def query_mode_def toggle_input_mode_def worker_ready_def
      worker_prefill_def worker_predict_def record_commit_def discard_commit_def take_job_def finish_job_def post_next_def
      retry_timeout_def deliver_def thread_ends_def destroy_worker_def start_job_def run_task_def Let_def
      split: pump.split list.split job_work.split engine_answer.split ui_task.split)

lemma worker_run_revision: "mode_revision w \<le> mode_revision (worker_run es w)"
proof (induction es arbitrary: w)
  case (Cons e es)
  then show ?case using worker_step_revision [of w e] by (simp add: le_trans)
qed simp

text \<open>Once the user has switched the mode, no answer to a question asked before can undo it, however
  late it arrives.\<close>

theorem toggle_outlives_older_answers:
  assumes "asked \<le> mode_revision w"
  shows "run_task (Publish_mode mode asked) (worker_run es (worker_step Toggle w)) = worker_run es (worker_step Toggle w)"
proof -
  have "mode_revision w < mode_revision (worker_step Toggle w)"
    by (simp add: worker_step_def toggle_input_mode_def Let_def)
  then have "asked \<noteq> mode_revision (worker_run es (worker_step Toggle w))"
    using assms worker_run_revision [of "worker_step Toggle w" es] by simp
  then show ?thesis by (simp add: run_task_def)
qed

theorem toggle_outlives_older_answers_witness:
  "ui_mode (run_task (Publish_mode English 0) (worker_run [Take] (worker_step Toggle new_worker))) = Chinese"
proof -
  have "(0 :: nat) \<le> mode_revision new_worker" by simp
  from toggle_outlives_older_answers [OF this, of English "[Take]"] show ?thesis
    by (simp add: new_worker_def worker_step_def toggle_input_mode_def submit_def plain_job_def take_job_def start_job_def Let_def)
qed

end
