(* ===== verification/Training_Format.thy ===== *)
theory Training_Format
  imports Prediction_Server
begin

text \<open>
  What is stored of a commit (service/src/service/training_data_writer.cpp) and how it is sealed
  (service/src/service/commit_crypto.hpp). A \<open>std::string\<close> is a list of bytes, written as characters. The UTF
  conversions and the calls of libsodium are other code: they are the fields of \<open>text_codec\<close> and \<open>sodium\<close>, and
  what is relied on is \<open>sodium_ok\<close>. A sealed box draws a fresh key for each call; nothing compares two boxes, so
  here the draw is fixed by the message.
\<close>

record text_codec =
  to_utf8 :: "u16string \<Rightarrow> exn + string"
  to_utf16 :: "string \<Rightarrow> exn + u16string"

record sodium =
  box_seal :: "string \<Rightarrow> string \<Rightarrow> string option"
  box_open :: "string \<Rightarrow> string \<Rightarrow> string \<Rightarrow> string option"
  bin2hex :: "string \<Rightarrow> string"
  hex2bin :: "string \<Rightarrow> string option"
  pwhash :: "string \<Rightarrow> string \<Rightarrow> string option"
  seed_keypair :: "string \<Rightarrow> string \<times> string"

record public_parameters =
  salt :: string
  public_key :: string

section \<open>Sealing\<close>

definition box_seal_bytes :: nat where "box_seal_bytes = 48"

definition derive :: "sodium \<Rightarrow> string \<Rightarrow> public_parameters \<Rightarrow> bool \<Rightarrow> exn + public_parameters \<times> string" where
  "derive K password P verify =
     (if password = [] then Inl Runtime_error
      else
        case pwhash K password (salt P) of
          None \<Rightarrow> Inl Runtime_error
        | Some seed \<Rightarrow>
            (case seed_keypair K seed of
               (pk, sk) \<Rightarrow> if verify \<and> pk \<noteq> public_key P then Inl Runtime_error else Inr (P\<lparr>public_key := pk\<rparr>, sk)))"

definition unhex :: "sodium \<Rightarrow> string \<Rightarrow> nat \<Rightarrow> exn + string" where
  "unhex K s n =
     (if length s \<noteq> n * 2 then Inl Runtime_error
      else case hex2bin K s of
             None \<Rightarrow> Inl Runtime_error
           | Some b \<Rightarrow> if length b = n then Inr b else Inl Runtime_error)"

definition seal_value :: "sodium \<Rightarrow> string \<Rightarrow> string \<Rightarrow> public_parameters \<Rightarrow> exn + string" where
  "seal_value K v identity P =
     (case box_seal K (public_key P) (identity @ CHR 0x00 # v) of
        None \<Rightarrow> Inl Runtime_error
      | Some c \<Rightarrow> Inr (bin2hex K c))"

definition open_value :: "sodium \<Rightarrow> string \<Rightarrow> string \<Rightarrow> public_parameters \<Rightarrow> string \<Rightarrow> exn + string" where
  "open_value K c identity P sk =
     (if odd (length c) \<or> length c div 2 < box_seal_bytes then Inl Runtime_error
      else
        rbind (unhex K c (length c div 2)) (\<lambda>binary.
          case box_open K (public_key P) sk binary of
            None \<Rightarrow> Inl Runtime_error
          | Some m \<Rightarrow>
              if length identity < length m \<and> take (length identity) m = identity \<and> m ! length identity = CHR 0x00
              then Inr (drop (Suc (length identity)) m)
              else Inl Runtime_error))"

text \<open>The documented behaviour of libsodium that the storage relies on.\<close>

definition sodium_ok :: "sodium \<Rightarrow> bool" where
  "sodium_ok K \<longleftrightarrow>
     (\<forall>b. hex2bin K (bin2hex K b) = Some b \<and> length (bin2hex K b) = 2 * length b) \<and>
     (\<forall>pk m c. box_seal K pk m = Some c \<longrightarrow> length c = length m + box_seal_bytes) \<and>
     (\<forall>seed m c. box_seal K (fst (seed_keypair K seed)) m = Some c \<longrightarrow>
        box_open K (fst (seed_keypair K seed)) (snd (seed_keypair K seed)) c = Some m)"

section \<open>The JSON of the syllables\<close>

definition hex_digit :: "nat \<Rightarrow> char" where
  "hex_digit n = ''0123456789abcdef'' ! n"

definition json_char :: "char \<Rightarrow> string" where
  "json_char ch =
     (if ch = CHR 0x22 then [CHR 0x5C, CHR 0x22]
      else if ch = CHR 0x5C then [CHR 0x5C, CHR 0x5C]
      else if ch = CHR 0x08 then [CHR 0x5C, CHR ''b'']
      else if ch = CHR 0x0C then [CHR 0x5C, CHR ''f'']
      else if ch = CHR 0x0A then [CHR 0x5C, CHR ''n'']
      else if ch = CHR 0x0D then [CHR 0x5C, CHR ''r'']
      else if ch = CHR 0x09 then [CHR 0x5C, CHR ''t'']
      else if (of_char ch :: nat) < 0x20
        then [CHR 0x5C, CHR ''u'', CHR ''0'', CHR ''0'', hex_digit (of_char ch div 16), hex_digit (of_char ch mod 16)]
      else [ch])"

definition json_string :: "string \<Rightarrow> string" where
  "json_string s = CHR 0x22 # concat (map json_char s) @ [CHR 0x22]"

definition tone_of :: "char16 \<Rightarrow> nat" where
  "tone_of c =
     (if c = 0x0020 then 1 else if c = 0x02CA then 2 else if c = 0x02C7 then 3
      else if c = 0x02CB then 4 else if c = 0x02D9 then 5 else 0)"

definition remove_tone :: "u16string \<Rightarrow> nat \<times> u16string" where
  "remove_tone reading =
     (if reading = [] \<or> tone_of (last reading) = 0 then (0, reading)
      else (if butlast reading = [] then 0 else tone_of (last reading), butlast reading))"

fun decimal :: "nat \<Rightarrow> string" where
  "decimal n = (if n < 10 then [char_of (48 + n)] else decimal (n div 10) @ [char_of (48 + n mod 10)])"

declare decimal.simps [simp del]

definition json_key :: "string \<Rightarrow> string" where
  "json_key k = CHR 0x7B # json_string k @ [CHR 0x3A]"

definition padding_object :: "text_codec \<Rightarrow> raw_commit_entry \<Rightarrow> exn + string" where
  "padding_object U e =
     (case remove_tone (raw_reading e) of
        (mark, syllable) \<Rightarrow>
          if mark \<noteq> 0
          then rbind (to_utf8 U syllable) (\<lambda>s.
            Inr (json_key ''syllable'' @ json_string s @ [CHR 0x2C] @ json_string ''tone'' @ [CHR 0x3A] @ decimal mark @ [CHR 0x7D]))
          else if raw_reading e = [] \<and> raw_output e \<noteq> []
          then rbind (to_utf8 U (raw_output e)) (\<lambda>s. Inr (json_key ''literal'' @ json_string s @ [CHR 0x7D]))
          else rbind (to_utf8 U (raw_reading e)) (\<lambda>s. Inr (json_key ''rawReading'' @ json_string s @ [CHR 0x7D])))"

fun comma_separated :: "string list \<Rightarrow> string" where
  "comma_separated [] = []"
| "comma_separated [x] = x"
| "comma_separated (x # xs) = x @ CHR 0x2C # comma_separated xs"

definition serialize_padding :: "text_codec \<Rightarrow> raw_commit_event \<Rightarrow> exn + string" where
  "serialize_padding U e =
     rbind (mapR (padding_object U) (event_input e)) (\<lambda>xs. Inr (CHR 0x5B # comma_separated xs @ [CHR 0x5D]))"

section \<open>What is asked of a commit\<close>

fun spaced :: "u16string list \<Rightarrow> u16string" where
  "spaced [] = []"
| "spaced [x] = x"
| "spaced (x # xs) = x @ 0x20 # spaced xs"

definition display_reading :: "raw_commit_event \<Rightarrow> u16string" where
  "display_reading e = spaced (map (\<lambda>x. if raw_reading x \<noteq> [] then raw_reading x else raw_output x) (event_input e))"

definition was_revised :: "raw_commit_event \<Rightarrow> bool" where
  "was_revised e = list_ex raw_manually_selected (event_input e)"

definition has_bopomofo :: "u16string \<Rightarrow> bool" where
  "has_bopomofo reading = list_ex (\<lambda>c. 0x3105 \<le> c \<and> c \<le> 0x3129) reading"

definition has_bopomofo_input :: "raw_commit_event \<Rightarrow> bool" where
  "has_bopomofo_input e = list_ex (\<lambda>x. has_bopomofo (raw_reading x)) (event_input e)"

definition event_id_of :: "string \<Rightarrow> u64 \<Rightarrow> string" where
  "event_id_of session sequence_number = session @ CHR 0x3A # decimal (unat sequence_number)"

section \<open>Sealing is undone by opening\<close>

lemma open_seal:
  assumes ok: "sodium_ok K" and seed: "pwhash K password (salt P) = Some seed" "seed_keypair K seed = (public_key P, sk)"
    and sealed: "seal_value K v identity P = Inr c"
  shows "open_value K c identity P sk = Inr v"
proof -
  let ?m = "identity @ CHR 0x00 # v"
  obtain b where b: "box_seal K (public_key P) ?m = Some b" "c = bin2hex K b"
    using sealed by (auto simp: seal_value_def split: option.splits)
  have hex: "hex2bin K c = Some b" "length c = 2 * length b" using ok b(2) by (simp_all add: sodium_ok_def)
  have len: "length b = length ?m + box_seal_bytes" using ok b(1) unfolding sodium_ok_def by blast
  have "box_open K (public_key P) sk b = Some ?m" using ok b(1) seed(2) unfolding sodium_ok_def by (metis fst_conv snd_conv)
  then show ?thesis using hex len by (simp add: open_value_def unhex_def nth_append)
qed

text \<open>An identity is written before the value, so what was sealed for one record and field opens for no other.\<close>

lemma open_seal_identity:
  assumes ok: "sodium_ok K" and seed: "seed_keypair K seed = (public_key P, sk)"
    and sealed: "seal_value K v identity P = Inr c" and opened: "open_value K c identity' P sk = Inr v'"
    and plain: "CHR 0x00 \<notin> set identity" "CHR 0x00 \<notin> set identity'"
  shows "identity' = identity \<and> v' = v"
proof -
  let ?m = "identity @ CHR 0x00 # v"
  obtain b where b: "box_seal K (public_key P) ?m = Some b" "c = bin2hex K b"
    using sealed by (auto simp: seal_value_def split: option.splits)
  have hex: "hex2bin K c = Some b" "length c = 2 * length b" using ok b(2) by (simp_all add: sodium_ok_def)
  have "box_open K (public_key P) sk b = Some ?m" using ok b(1) seed unfolding sodium_ok_def by (metis fst_conv snd_conv)
  then have m: "length identity' < length ?m" "take (length identity') ?m = identity'" "?m ! length identity' = CHR 0x00"
    "v' = drop (Suc (length identity')) ?m"
    using opened hex by (auto simp: open_value_def unhex_def split: if_splits)
  have len: "length identity' = length identity"
  proof (rule linorder_cases)
    assume less: "length identity' < length identity"
    then have "identity ! length identity' = CHR 0x00" using m(3) by (simp add: nth_append)
    then show ?thesis using plain(1) nth_mem [OF less] by simp
  next
    assume more: "length identity < length identity'"
    then have "identity' ! length identity = CHR 0x00"
      using m(2) nth_take [OF more, of ?m] by simp
    then show ?thesis using plain(2) nth_mem [OF more] by simp
  qed
  have "take (length identity) ?m = identity'" using m(2) unfolding len .
  moreover have "v' = drop (Suc (length identity)) ?m" using m(4) unfolding len .
  ultimately show ?thesis by simp
qed

section \<open>Identifiers of commits\<close>

definition digit :: "char \<Rightarrow> bool" where
  "digit c \<longleftrightarrow> 48 \<le> (of_char c :: nat) \<and> (of_char c :: nat) < 58"

definition number :: "string \<Rightarrow> nat" where
  "number = foldl (\<lambda>n c. n * 10 + (of_char c - 48)) 0"

lemma of_digit: "(n :: nat) < 10 \<Longrightarrow> (of_char (char_of (48 + n) :: char) :: nat) = 48 + n"
  by simp

lemma digit_char: "(n :: nat) < 10 \<Longrightarrow> digit (char_of (48 + n))"
  unfolding digit_def by (simp only: of_digit) simp

lemma decimal_digits: "\<forall>c \<in> set (decimal n). digit c"
proof (induction n rule: decimal.induct)
  case (1 n)
  show ?case
  proof (cases "n < 10")
    case True
    then show ?thesis using digit_char [OF True] by (subst decimal.simps) simp
  next
    case False
    have "digit (char_of (48 + n mod 10))" by (rule digit_char) simp
    then show ?thesis using 1 [OF False] False by (subst decimal.simps) simp
  qed
qed

lemma number_decimal: "number (decimal n) = n"
proof (induction n rule: decimal.induct)
  case (1 n)
  show ?case
  proof (cases "n < 10")
    case False
    have "number (decimal n) = number (decimal (n div 10)) * 10 + n mod 10"
      using False by (subst decimal.simps) (simp add: number_def)
    then show ?thesis using 1 False by simp
  qed (simp add: decimal.simps number_def)
qed

lemma split_at_last:
  assumes "as @ c # bs = as' @ c # bs'" "c \<notin> set bs" "c \<notin> set bs'"
  shows "as = as' \<and> bs = bs'"
  using assms by (auto simp: append_eq_append_conv2 append_eq_Cons_conv Cons_eq_append_conv)

lemma event_id_inj: "event_id_of s n = event_id_of s' n' \<longleftrightarrow> s = s' \<and> n = n'"
proof
  assume "event_id_of s n = event_id_of s' n'"
  moreover have "CHR 0x3A \<notin> set (decimal k)" for k using decimal_digits [of k] by (auto simp: digit_def)
  ultimately have split: "s = s' \<and> decimal (unat n) = decimal (unat n')"
    unfolding event_id_of_def by (intro split_at_last)
  then have "unat n = unat n'" using number_decimal by metis
  then show "s = s' \<and> n = n'" using split by (simp add: word_unat_eq_iff)
qed simp

end
