(* ===== verification/History_Forest.thy ===== *)
theory History_Forest
imports Prelude
begin

text \<open>
  The common ancestor of two LoRA training runs, as the training history computes it
  (service/src/settings/lora_history_lca.cpp): the runs are indexed, their children listed, and Tarjan's offline
  algorithm walks the tree with a stack of its own and a union-find whose sets carry the ancestor they hang from.
  Identifiers are 64 bit integers that are only compared, so they are plain integers here. Each loop that the
  code runs until a condition holds has a bound on its rounds; running out of it is the outer \<open>None\<close>, and
  \<open>History_Properties\<close> proves that it does not happen.
\<close>

section \<open>The runs and their index\<close>

record lora_history_parent =
  run_id :: int
  run_parent :: int

fun index_runs :: "lora_history_parent list \<Rightarrow> int list \<times> (int \<rightharpoonup> nat) \<Rightarrow> (int list \<times> (int \<rightharpoonup> nat)) option" where
  "index_runs [] t = Some t"
| "index_runs (r # rs) (ids, ix) =
     (if run_id r \<le> 0 \<or> ix (run_id r) \<noteq> None then None
      else index_runs rs (ids @ [run_id r], ix(run_id r \<mapsto> length ids)))"

fun index_roots :: "lora_history_parent list \<Rightarrow> int list \<times> (int \<rightharpoonup> nat) \<Rightarrow> int list \<times> (int \<rightharpoonup> nat)" where
  "index_roots [] t = t"
| "index_roots (r # rs) (ids, ix) =
     (if run_parent r < 0 \<and> ix (run_parent r) = None
      then index_roots rs (ids @ [run_parent r], ix(run_parent r \<mapsto> length ids))
      else index_roots rs (ids, ix))"

fun list_children ::
  "(int \<rightharpoonup> nat) \<Rightarrow> lora_history_parent list \<Rightarrow> nat \<Rightarrow> nat list list \<Rightarrow> nat list list option" where
  "list_children ix [] offset ch = Some ch"
| "list_children ix (r # rs) offset ch =
     (case ix (run_parent r) of
        None \<Rightarrow> None
      | Some p \<Rightarrow> list_children ix rs (offset + 1) (ch[p := ch ! p @ [offset + 1]]))"

section \<open>Disjoint sets\<close>

text \<open>\<open>find_set\<close> climbs to the root and then hangs every node of the way under it.\<close>

fun climb :: "nat \<Rightarrow> nat list \<Rightarrow> nat \<Rightarrow> nat option" where
  "climb 0 d node = None"
| "climb (Suc left) d node = (if d ! node = node then Some node else climb left d (d ! node))"

fun compress :: "nat \<Rightarrow> nat list \<Rightarrow> nat \<Rightarrow> nat \<Rightarrow> nat list option" where
  "compress 0 d root node = None"
| "compress (Suc left) d root node =
     (if d ! node = node then Some d else compress left (d[node := root]) root (d ! node))"

definition find_set :: "nat list \<Rightarrow> nat \<Rightarrow> (nat \<times> nat list) option" where
  "find_set d node =
     (case climb (Suc (length d)) d node of
        None \<Rightarrow> None
      | Some root \<Rightarrow> map_option (Pair root) (compress (Suc (length d)) d root node))"

definition unite :: "nat list \<times> nat list \<Rightarrow> nat \<Rightarrow> nat \<Rightarrow> (nat list \<times> nat list) option" where
  "unite t left right =
     (case t of (d0, sizes) \<Rightarrow>
        case find_set d0 left of None \<Rightarrow> None | Some (l, d1) \<Rightarrow>
        case find_set d1 right of None \<Rightarrow> None | Some (r, d2) \<Rightarrow>
        if l = r then Some (d2, sizes)
        else
          let (l', r') = (if sizes ! l < sizes ! r then (r, l) else (l, r)) in
          Some (d2[r' := l'], sizes[l' := sizes ! l' + sizes ! r']))"

section \<open>The walk\<close>

record walk =
  disjoint_parent :: "nat list"
  set_size :: "nat list"
  ancestor :: "nat list"
  black :: "bool list"
  visited :: nat
  answer_node :: "nat option"
  frames :: "(nat \<times> nat) list"

definition new_walk :: "nat \<Rightarrow> walk" where
  "new_walk n = \<lparr>disjoint_parent = [0..<n], set_size = replicate n 1, ancestor = (replicate n 0)[0 := 0],
    black = replicate n False, visited = 0, answer_node = None, frames = [(0, 0)]\<rparr>"

text \<open>\<open>ancestor[find_set(node)] = value\<close>.\<close>

definition label_set :: "nat \<Rightarrow> nat \<Rightarrow> walk \<Rightarrow> walk option" where
  "label_set node value s =
     (case find_set (disjoint_parent s) node of
        None \<Rightarrow> None
      | Some (root, d) \<Rightarrow> Some (s\<lparr>disjoint_parent := d, ancestor := (ancestor s)[root := value]\<rparr>))"

text \<open>\<open>answer = ancestor[find_set(node)]\<close>.\<close>

definition answer_from :: "nat \<Rightarrow> walk \<Rightarrow> walk option" where
  "answer_from node s =
     (case find_set (disjoint_parent s) node of
        None \<Rightarrow> None
      | Some (root, d) \<Rightarrow> Some (s\<lparr>disjoint_parent := d, answer_node := Some (ancestor s ! root)\<rparr>))"

definition enter_child :: "nat \<Rightarrow> nat \<Rightarrow> (nat \<times> nat) list \<Rightarrow> nat \<Rightarrow> walk \<Rightarrow> walk option" where
  "enter_child node k below child s =
     map_option (\<lambda>t. t\<lparr>frames := (child, 0) # (node, k + 1) # below\<rparr>) (label_set child child s)"

definition settle_query :: "nat \<Rightarrow> nat \<Rightarrow> nat \<Rightarrow> walk \<Rightarrow> walk option" where
  "settle_query a b node s =
     (if node = a \<and> black s ! b then answer_from b s
      else if node = b \<and> black s ! a then answer_from a s
      else Some s)"

definition leave_node :: "nat \<Rightarrow> (nat \<times> nat) list \<Rightarrow> walk \<Rightarrow> walk option" where
  "leave_node node below s =
     (case below of
        [] \<Rightarrow> Some (s\<lparr>frames := []\<rparr>)
      | (parent, _) # _ \<Rightarrow>
          case unite (disjoint_parent s, set_size s) parent node of
            None \<Rightarrow> None
          | Some (d, sizes) \<Rightarrow>
              label_set parent parent (s\<lparr>disjoint_parent := d, set_size := sizes, frames := below\<rparr>))"

definition walk_step :: "nat list list \<Rightarrow> nat \<Rightarrow> nat \<Rightarrow> walk \<Rightarrow> walk option" where
  "walk_step ch a b s =
     (case frames s of
        [] \<Rightarrow> Some s
      | (node, k) # below \<Rightarrow>
          if k < length (ch ! node) then enter_child node k below (ch ! node ! k) s
          else
            (case settle_query a b node (s\<lparr>black := (black s)[node := True], visited := visited s + 1\<rparr>) of
               None \<Rightarrow> None
             | Some t \<Rightarrow> leave_node node below t))"

fun walk_run :: "nat \<Rightarrow> nat list list \<Rightarrow> nat \<Rightarrow> nat \<Rightarrow> walk \<Rightarrow> walk option" where
  "walk_run 0 ch a b s = (if frames s = [] then Some s else None)"
| "walk_run (Suc left) ch a b s =
     (if frames s = [] then Some s
      else case walk_step ch a b s of None \<Rightarrow> None | Some t \<Rightarrow> walk_run left ch a b t)"

text \<open>The inner result is the code's: an identifier, or nothing.\<close>

definition tarjan_lca :: "lora_history_parent list \<Rightarrow> int \<Rightarrow> int \<Rightarrow> int option option" where
  "tarjan_lca runs first_id second_id =
     (case index_runs runs ([0], [0 \<mapsto> 0]) of
        None \<Rightarrow> Some None
      | Some t \<Rightarrow>
          case index_roots runs t of (ids, ix) \<Rightarrow>
          case (ix first_id, ix second_id) of
            (Some a, Some b) \<Rightarrow>
              (case list_children ix runs 0 ((replicate (length ids) [])[0 := [length runs + 1..<length ids]]) of
                 None \<Rightarrow> Some None
               | Some ch \<Rightarrow>
                   (case walk_run (2 * length ids) ch a b (new_walk (length ids)) of
                      None \<Rightarrow> None
                    | Some s \<Rightarrow>
                        if visited s \<noteq> length ids then Some None
                        else (case answer_node s of
                                None \<Rightarrow> Some None
                              | Some c \<Rightarrow>
                                  let forest = list_ex (\<lambda>r. run_parent r < 0) runs in
                                  if forest \<and> ids ! c = 0 then Some None else Some (Some (ids ! c)))))
          | _ \<Rightarrow> Some None)"

end
