(* ===== verification/History_Sets.thy ===== *)
theory History_Sets
imports History_Forest
begin

text \<open>
  The union-find of the ancestor search: a ranking of the nodes shows that climbing ends, and \<open>set_root\<close> is the
  representative a node has. Finding keeps every representative, uniting two sets maps both representatives to
  one of them and keeps the others.
\<close>

definition ranked :: "(nat \<Rightarrow> nat) \<Rightarrow> nat list \<Rightarrow> bool" where
  "ranked m d \<longleftrightarrow> (\<forall>u < length d. d ! u < length d \<and> (d ! u \<noteq> u \<longrightarrow> m (d ! u) < m u))"

definition sets_ok :: "nat list \<Rightarrow> bool" where
  "sets_ok d \<longleftrightarrow> (\<exists>m. ranked m d)"

definition set_root :: "nat list \<Rightarrow> nat \<Rightarrow> nat" where
  "set_root d u = the (climb (Suc (length d)) d u)"

lemma rankedD:
  assumes "ranked m d" "u < length d"
  shows "d ! u < length d" "d ! u \<noteq> u \<Longrightarrow> m (d ! u) < m u"
  using assms by (auto simp: ranked_def)

text \<open>The nodes passed so far all have a higher rank, so there are fewer of them than nodes.\<close>

lemma fewer_passed:
  assumes "V \<subseteq> {..<n}" "n < card V + k"
  shows "0 < k"
  using card_mono [OF finite_lessThan assms(1)] assms(2) by simp

lemma climb_ends:
  assumes "ranked m d" "u < length d" "V \<subseteq> {..<length d}" "\<forall>v \<in> V. m u < m v" "length d < card V + k"
  shows "\<exists>r. climb k d u = Some r"
  using assms(2-)
proof (induction k arbitrary: u V)
  case 0
  then show ?case using fewer_passed [of V "length d" 0] by simp
next
  case (Suc k)
  show ?case
  proof (cases "d ! u = u")
    case False
    have fin: "finite V" "u \<notin> V" using Suc.prems(2,3) finite_subset by auto
    have lt: "d ! u < length d" "m (d ! u) < m u" using rankedD [OF assms(1) Suc.prems(1)] False by simp_all
    have "\<exists>r. climb k d (d ! u) = Some r"
      using lt Suc.prems fin by (intro Suc.IH [of _ "insert u V"]) (auto intro: less_trans)
    then show ?thesis using False by simp
  qed simp
qed

lemma climb_more: "climb k d u = Some r \<Longrightarrow> climb (Suc k) d u = Some r"
proof (induction k arbitrary: u)
  case (Suc k)
  show ?case
  proof (cases "d ! u = u")
    case False
    then have "climb k d (d ! u) = Some r" using Suc.prems by simp
    from Suc.IH [OF this] show ?thesis using False by (subst climb.simps(2)) simp
  qed (use Suc.prems in simp)
qed simp

lemma climb_root:
  assumes "ranked m d" "u < length d"
  shows "climb (Suc (length d)) d u = Some (set_root d u)"
  using climb_ends [OF assms, of "{}" "Suc (length d)"] by (auto simp: set_root_def)

lemma set_root_self [simp]: "d ! u = u \<Longrightarrow> set_root d u = u"
  by (simp add: set_root_def)

lemma set_root_step:
  assumes "ranked m d" "u < length d"
  shows "set_root d (d ! u) = set_root d u"
proof (cases "d ! u = u")
  case False
  have "climb (length d) d (d ! u) = Some (set_root d u)" using climb_root [OF assms] False by simp
  from climb_more [OF this] show ?thesis
    using climb_root [OF assms(1) rankedD(1) [OF assms]] by simp
qed simp

lemma rank_induct [consumes 2, case_names root step]:
  assumes "ranked m d" "u < length d"
    and "\<And>u. u < length d \<Longrightarrow> d ! u = u \<Longrightarrow> P u"
    and "\<And>u. u < length d \<Longrightarrow> d ! u \<noteq> u \<Longrightarrow> P (d ! u) \<Longrightarrow> P u"
  shows "P u"
  using assms(2)
proof (induction "m u" arbitrary: u rule: less_induct)
  case less
  then show ?case using assms(3,4) rankedD [OF assms(1) less.prems] by blast
qed

lemma set_root_is_root:
  assumes "ranked m d" "u < length d"
  shows "set_root d u < length d" "d ! set_root d u = set_root d u" "m (set_root d u) \<le> m u"
proof -
  have "set_root d u < length d \<and> d ! set_root d u = set_root d u \<and> m (set_root d u) \<le> m u"
    using assms
  proof (induction rule: rank_induct)
    case (step u)
    then show ?case using set_root_step [OF assms(1) step(1)] rankedD [OF assms(1) step(1)] by auto
  qed simp
  then show "set_root d u < length d" "d ! set_root d u = set_root d u" "m (set_root d u) \<le> m u" by simp_all
qed

lemma set_root_unique:
  assumes "ranked m d" "u < length d"
    and "\<And>u. u < length d \<Longrightarrow> d ! u = u \<Longrightarrow> f u = u" "\<And>u. u < length d \<Longrightarrow> f (d ! u) = f u"
  shows "set_root d u = f u"
  using assms(1,2)
proof (induction rule: rank_induct)
  case (step u)
  then show ?case using set_root_step [OF assms(1) step(1)] assms(4) [OF step(1)] by simp
qed (use assms(3) in simp)

section \<open>Finding\<close>

lemma hang_under_root:
  assumes ok: "ranked m d" and u: "u < length d" "d ! u \<noteq> u"
  shows "ranked m (d[u := set_root d u])" "v < length d \<Longrightarrow> set_root (d[u := set_root d u]) v = set_root d v"
proof -
  let ?r = "set_root d u"
  have step: "set_root d (d ! u) = ?r" by (rule set_root_step [OF ok u(1)])
  have r: "?r < length d" "d ! ?r = ?r" using set_root_is_root [OF ok u(1)] by simp_all
  have "m ?r \<le> m (d ! u)" using set_root_is_root(3) [OF ok rankedD(1) [OF ok u(1)]] step by simp
  then have less: "m ?r < m u" using rankedD(2) [OF ok u(1) u(2)] by simp
  show ranked: "ranked m (d[u := ?r])"
    unfolding ranked_def
  proof (intro allI impI)
    fix v assume "v < length (d[u := ?r])"
    then have "v < length d" by simp
    from rankedD [OF ok this] show "d[u := ?r] ! v < length (d[u := ?r]) \<and> (d[u := ?r] ! v \<noteq> v \<longrightarrow> m (d[u := ?r] ! v) < m v)"
      using r(1) less u(1) by (cases "v = u") simp_all
  qed
  have neq: "?r \<noteq> u" using less by auto
  show "set_root (d[u := ?r]) v = set_root d v" if "v < length d"
  proof (rule set_root_unique [OF ranked])
    show "v < length (d[u := ?r])" using that by simp
    show "set_root d w = w" if "w < length (d[u := ?r])" "d[u := ?r] ! w = w" for w
      using that u(1) neq by (cases "w = u") simp_all
    show "set_root d (d[u := ?r] ! w) = set_root d w" if "w < length (d[u := ?r])" for w
      using that u(1) r set_root_step [OF ok, of w] by (cases "w = u") simp_all
  qed
qed

lemma compress_keeps:
  assumes "ranked m d" "u < length d" "V \<subseteq> {..<length d}" "\<forall>v \<in> V. m u < m v" "length d < card V + k"
    and "r = set_root d u"
  shows "\<exists>d'. compress k d r u = Some d' \<and> ranked m d' \<and> length d' = length d \<and>
    (\<forall>v < length d. set_root d' v = set_root d v)"
  using assms
proof (induction k arbitrary: d u V)
  case 0
  then show ?case using fewer_passed [of V "length d" 0] by simp
next
  case (Suc k)
  show ?case
  proof (cases "d ! u = u")
    case False
    let ?d = "d[u := r]"
    have fin: "finite V" "u \<notin> V" using Suc.prems(3,4) finite_subset by auto
    have lt: "d ! u < length d" "m (d ! u) < m u" using rankedD [OF Suc.prems(1,2)] False by simp_all
    note hang = hang_under_root [OF Suc.prems(1,2) False, folded Suc.prems(6)]
    have same: "r = set_root ?d (d ! u)"
      using hang(2) [OF lt(1)] set_root_step [OF Suc.prems(1,2)] Suc.prems(6) by simp
    have "\<exists>d'. compress k ?d r (d ! u) = Some d' \<and> ranked m d' \<and> length d' = length ?d \<and>
        (\<forall>v < length ?d. set_root d' v = set_root ?d v)"
      using lt Suc.prems fin same hang(1) by (intro Suc.IH [of _ _ "insert u V"]) (auto intro: less_trans)
    then show ?thesis using False hang(2) by auto
  qed (use Suc.prems in simp)
qed

lemma find_set_keeps:
  assumes "sets_ok d" "u < length d"
  obtains d' where "find_set d u = Some (set_root d u, d')" "sets_ok d'" "length d' = length d"
    "\<And>v. v < length d \<Longrightarrow> set_root d' v = set_root d v"
proof -
  obtain m where ok: "ranked m d" using assms(1) by (auto simp: sets_ok_def)
  show ?thesis
    using that climb_root [OF ok assms(2)] compress_keeps [OF ok assms(2), of "{}" "Suc (length d)"] 
    by (auto simp: find_set_def sets_ok_def simp del: climb.simps compress.simps)
qed

lemma sets_ok_root:
  assumes "sets_ok d" "u < length d"
  shows "set_root d u < length d" "d ! set_root d u = set_root d u" "set_root d (set_root d u) = set_root d u"
  using assms set_root_is_root by (auto simp: sets_ok_def)

section \<open>Uniting\<close>

lemma link_roots:
  assumes ok: "ranked m d" and x: "x < length d" "d ! x = x" and y: "y < length d" "d ! y = y" and "x \<noteq> y"
  shows "ranked (\<lambda>v. m v + (if set_root d v = y then Suc (m x) else 0)) (d[y := x])" (is "ranked ?m ?d")
    and "v < length d \<Longrightarrow> set_root (d[y := x]) v = (if set_root d v = y then x else set_root d v)"
proof -
  show ranked: "ranked ?m ?d"
    unfolding ranked_def
  proof (intro allI impI)
    fix u assume "u < length ?d"
    then have u: "u < length d" by simp
    show "?d ! u < length ?d \<and> (?d ! u \<noteq> u \<longrightarrow> ?m (?d ! u) < ?m u)"
      using x y \<open>x \<noteq> y\<close> rankedD [OF ok u] set_root_step [OF ok u] u by (cases "u = y") auto
  qed
  let ?f = "\<lambda>v. if set_root d v = y then x else set_root d v"
  show "set_root ?d v = ?f v" if v: "v < length d"
  proof (rule set_root_unique [OF ranked])
    show "v < length ?d" using v by simp
    show "?f u = u" if "u < length ?d" "?d ! u = u" for u
      using that x y \<open>x \<noteq> y\<close> by (cases "u = y") auto
    show "?f (?d ! u) = ?f u" if "u < length ?d" for u
      using that x y \<open>x \<noteq> y\<close> set_root_step [OF ok, of u] by (cases "u = y") auto
  qed
qed

lemma unite_merges:
  assumes "sets_ok d" "l < length d" "r < length d"
  obtains d' sizes' w where "unite (d, sizes) l r = Some (d', sizes')" "sets_ok d'" "length d' = length d"
    "w = set_root d l \<or> w = set_root d r"
    "\<And>v. v < length d \<Longrightarrow> set_root d' v =
      (if set_root d v = set_root d l \<or> set_root d v = set_root d r then w else set_root d v)"
proof -
  obtain d1 where d1: "find_set d l = Some (set_root d l, d1)" "sets_ok d1" "length d1 = length d"
    "\<And>v. v < length d \<Longrightarrow> set_root d1 v = set_root d v" using find_set_keeps [OF assms(1,2)] by blast
  have "r < length d1" using assms(3) d1(3) by simp
  from find_set_keeps [OF d1(2) this] obtain d2 where
    "find_set d1 r = Some (set_root d1 r, d2)" "sets_ok d2" "length d2 = length d1"
    "\<And>v. v < length d1 \<Longrightarrow> set_root d2 v = set_root d1 v" by blast
  then have d2: "find_set d1 r = Some (set_root d r, d2)" "sets_ok d2" "length d2 = length d"
    "\<And>v. v < length d \<Longrightarrow> set_root d2 v = set_root d v" using d1 assms(3) by simp_all
  let ?l = "set_root d l" and ?r = "set_root d r"
  have roots: "?l < length d2" "d2 ! ?l = ?l" "?r < length d2" "d2 ! ?r = ?r"
    using sets_ok_root [OF d2(2), of l] sets_ok_root [OF d2(2), of r] assms d2(3,4) by simp_all
  show ?thesis
  proof (cases "?l = ?r")
    case True
    then show ?thesis using that [of d2 sizes ?l] d1 d2 by (simp add: unite_def)
  next
    case False
    define p where "p = (if sizes ! ?l < sizes ! ?r then (?r, ?l) else (?l, ?r))"
    obtain x y where xy: "p = (x, y)" by (cases p)
    then have or: "x = ?l \<and> y = ?r \<or> x = ?r \<and> y = ?l" by (auto simp: p_def split: if_splits)
    have *: "x < length d2" "d2 ! x = x" "y < length d2" "d2 ! y = y" "x \<noteq> y" using or roots False by auto
    obtain m where m: "ranked m d2" using d2(2) by (auto simp: sets_ok_def)
    note link = link_roots [OF m *]
    have eq: "unite (d, sizes) l r = Some (d2[y := x], sizes[x := sizes ! x + sizes ! y])"
      using d1(1) d2(1) False xy by (simp add: unite_def p_def [symmetric])
    have "sets_ok (d2[y := x])" using link(1) by (auto simp: sets_ok_def)
    then show ?thesis
      using or d2(3,4) link(2) by (intro that [OF eq, of x]) auto
  qed
qed

end
