(* ===== verification/History_Walk.thy ===== *)
theory History_Walk
imports History_Sets
begin

text \<open>
  The walk of the ancestor search. A node is touched once it has been pushed; the stack is the way from the
  root to the node visited. \<open>shape\<close> says how stack and finished nodes lie in the tree, \<open>labels\<close> that the set of a
  touched node carries the lowest node of the stack above it. Each step keeps both, so the label of the other
  query node is the common ancestor when the second one is finished.
\<close>

section \<open>The tree\<close>

definition tree :: "nat list list \<Rightarrow> (nat \<Rightarrow> nat) \<Rightarrow> bool" where
  "tree ch par \<longleftrightarrow> 0 < length ch \<and> (\<forall>c < length ch. par c < length ch) \<and>
     (\<forall>v < length ch. distinct (ch ! v) \<and> set (ch ! v) = {c. 0 < c \<and> c < length ch \<and> par c = v})"

inductive lies_above :: "(nat \<Rightarrow> nat) \<Rightarrow> nat \<Rightarrow> nat \<Rightarrow> bool" for par where
  above_self [simp, intro]: "lies_above par u u"
| above_up: "0 < u \<Longrightarrow> lies_above par v (par u) \<Longrightarrow> lies_above par v u"

inductive_simps above_root [simp]: "lies_above par v 0"

lemma above_iff: "0 < u \<Longrightarrow> lies_above par v u \<longleftrightarrow> v = u \<or> lies_above par v (par u)"
  by (auto intro: above_up elim: lies_above.cases)

definition common_ancestor :: "(nat \<Rightarrow> nat) \<Rightarrow> nat \<Rightarrow> nat \<Rightarrow> nat \<Rightarrow> bool" where
  "common_ancestor par a b c \<longleftrightarrow> lies_above par c a \<and> lies_above par c b \<and>
     (\<forall>v. lies_above par v a \<and> lies_above par v b \<longrightarrow> lies_above par v c)"

lemma common_ancestor_commute: "common_ancestor par a b c = common_ancestor par b a c"
  by (auto simp: common_ancestor_def)

section \<open>Stack and finished nodes\<close>

fun linked :: "(nat \<Rightarrow> nat) \<Rightarrow> (nat \<times> nat) list \<Rightarrow> bool" where
  "linked par [] = True"
| "linked par [(v, k)] = (v = 0)"
| "linked par ((v, k) # (p, j) # fs) = (0 < v \<and> par v = p \<and> linked par ((p, j) # fs))"

definition on_stack :: "(nat \<times> nat) list \<Rightarrow> nat set" where
  "on_stack fs = fst ` set fs"

lemma on_stack_simps [simp]: "on_stack [] = {}" "on_stack ((v, k) # fs) = insert v (on_stack fs)"
  by (auto simp: on_stack_def)

definition touched :: "(nat \<times> nat) list \<Rightarrow> bool list \<Rightarrow> nat \<Rightarrow> bool" where
  "touched fs bl u \<longleftrightarrow> bl ! u \<or> u \<in> on_stack fs"

lemma linked_above: "linked par ((v, k) # fs) \<Longrightarrow> on_stack ((v, k) # fs) = {u. lies_above par u v}"
proof (induction fs arbitrary: v k)
  case (Cons f fs)
  obtain p j where f: "f = (p, j)" by (cases f)
  then have "0 < v" "par v = p" "on_stack ((p, j) # fs) = {u. lies_above par u p}" using Cons by auto
  then show ?case using above_iff [of v par] f by auto
qed auto

lemma linked_tl: "linked par (f # fs) \<Longrightarrow> linked par fs"
  by (cases "(par, f # fs)" rule: linked.cases) auto

definition shape :: "nat list list \<Rightarrow> (nat \<Rightarrow> nat) \<Rightarrow> (nat \<times> nat) list \<Rightarrow> bool list \<Rightarrow> bool" where
  "shape ch par fs bl \<longleftrightarrow> length bl = length ch \<and> linked par fs \<and> distinct (map fst fs) \<and>
     (\<forall>u < length ch. u \<in> on_stack fs \<longrightarrow> \<not> bl ! u) \<and> on_stack fs \<subseteq> {..<length ch} \<and> touched fs bl 0 \<and>
     (\<forall>(p, k) \<in> set fs. k \<le> length (ch ! p) \<and> (\<forall>j < length (ch ! p). touched fs bl (ch ! p ! j) \<longleftrightarrow> j < k)) \<and>
     (\<forall>u < length ch. touched fs bl u \<longrightarrow> lies_above par 0 u \<and> (0 < u \<longrightarrow> touched fs bl (par u))) \<and>
     (\<forall>u < length ch. bl ! u \<longrightarrow> (\<forall>c \<in> set (ch ! u). touched fs bl c))"

lemma shapeD:
  assumes "shape ch par fs bl"
  shows "length bl = length ch" "linked par fs" "distinct (map fst fs)" "on_stack fs \<subseteq> {..<length ch}"
    "u < length ch \<Longrightarrow> u \<in> on_stack fs \<Longrightarrow> \<not> bl ! u" "touched fs bl 0"
    "(p, k) \<in> set fs \<Longrightarrow> k \<le> length (ch ! p)"
    "(p, k) \<in> set fs \<Longrightarrow> j < length (ch ! p) \<Longrightarrow> touched fs bl (ch ! p ! j) \<longleftrightarrow> j < k"
    "u < length ch \<Longrightarrow> touched fs bl u \<Longrightarrow> lies_above par 0 u"
    "u < length ch \<Longrightarrow> touched fs bl u \<Longrightarrow> 0 < u \<Longrightarrow> touched fs bl (par u)"
    "u < length ch \<Longrightarrow> bl ! u \<Longrightarrow> c \<in> set (ch ! u) \<Longrightarrow> touched fs bl c"
  using assms unfolding shape_def by blast+

lemma shapeI:
  assumes "length bl = length ch" "linked par fs" "distinct (map fst fs)" "on_stack fs \<subseteq> {..<length ch}"
    "\<And>u. u < length ch \<Longrightarrow> u \<in> on_stack fs \<Longrightarrow> \<not> bl ! u" "touched fs bl 0"
    "\<And>p k. (p, k) \<in> set fs \<Longrightarrow> k \<le> length (ch ! p) \<and> (\<forall>j < length (ch ! p). touched fs bl (ch ! p ! j) \<longleftrightarrow> j < k)"
    "\<And>u. u < length ch \<Longrightarrow> touched fs bl u \<Longrightarrow> lies_above par 0 u \<and> (0 < u \<longrightarrow> touched fs bl (par u))"
    "\<And>u c. u < length ch \<Longrightarrow> bl ! u \<Longrightarrow> c \<in> set (ch ! u) \<Longrightarrow> touched fs bl c"
  shows "shape ch par fs bl"
  using assms unfolding shape_def by blast

lemma treeD:
  assumes "tree ch par" "v < length ch"
  shows "distinct (ch ! v)" "c \<in> set (ch ! v) \<longleftrightarrow> 0 < c \<and> c < length ch \<and> par c = v" "par v < length ch"
  using assms unfolding tree_def by blast+

lemma shape_push:
  assumes tree: "tree ch par" and shape: "shape ch par ((p, k) # below) bl" and k: "k < length (ch ! p)"
  defines "c \<equiv> ch ! p ! k"
  shows "shape ch par ((c, 0) # (p, Suc k) # below) bl" "\<not> touched ((p, k) # below) bl c"
    "0 < c" "c < length ch" "par c = p"
proof -
  let ?fs = "(p, k) # below" and ?fs' = "(c, 0) # (p, Suc k) # below"
  have p: "p < length ch" using shapeD(4) [OF shape] by simp
  have "c \<in> set (ch ! p)" using k by (simp add: c_def)
  then show c: "0 < c" "c < length ch" "par c = p" using treeD(2) [OF tree p] by simp_all
  show new: "\<not> touched ?fs bl c" using shapeD(8) [OF shape, of p k k] k by (simp add: c_def)
  have touched: "touched ?fs' bl u \<longleftrightarrow> touched ?fs bl u \<or> u = c" for u by (auto simp: touched_def)
  have inj: "ch ! p ! j = c \<longleftrightarrow> j = k" if "j < length (ch ! p)" for j
    using nth_eq_iff_index_eq [OF treeD(1) [OF tree p] that k] by (simp add: c_def)
  have other: "ch ! q ! j \<noteq> c" if "q < length ch" "q \<noteq> p" "j < length (ch ! q)" for q j
  proof -
    have "par (ch ! q ! j) = q" using treeD(2) [OF tree that(1), of "ch ! q ! j"] that(3) by simp
    then show ?thesis using that(2) c(3) by auto
  qed
  have positions: "j \<le> length (ch ! q) \<and> (\<forall>i < length (ch ! q). touched ?fs' bl (ch ! q ! i) \<longleftrightarrow> i < j)"
    if "(q, j) \<in> set ?fs'" for q j
  proof -
    have "q = c \<and> j = 0 \<or> q = p \<and> j = Suc k \<or> (q, j) \<in> set below" using that by auto
    then consider "q = c" "j = 0" | "q = p" "j = Suc k" | "(q, j) \<in> set below" by blast
    then show ?thesis
    proof cases
      case 1
      have "\<not> touched ?fs' bl (ch ! c ! i)" if "i < length (ch ! c)" for i
      proof -
        have d: "0 < ch ! c ! i" "ch ! c ! i < length ch" "par (ch ! c ! i) = c"
          using treeD(2) [OF tree c(2), of "ch ! c ! i"] that by simp_all
        then have "\<not> touched ?fs bl (ch ! c ! i)" using shapeD(10) [OF shape, of "ch ! c ! i"] new by auto
        moreover have "ch ! c ! i \<noteq> c"
        proof
          assume "ch ! c ! i = c"
          then have "p = c" using d(3) c(3) by simp
          then show False using new by (simp add: touched_def)
        qed
        ultimately show ?thesis by (simp add: touched)
      qed
      then show ?thesis using 1 by simp
    next
      case 2
      then show ?thesis using shapeD(8) [OF shape, of p k] inj k by (auto simp: touched less_Suc_eq)
    next
      case 3
      have "q \<in> on_stack below" using 3 by (force simp: on_stack_def)
      then have "q < length ch" "q \<noteq> p"
        using shapeD(3,4) [OF shape] by (auto simp: on_stack_def)
      then show ?thesis using shapeD(7,8) [OF shape, of q j] 3 other by (auto simp: touched)
    qed
  qed
  have "c \<notin> on_stack ?fs" "\<not> bl ! c" using new by (auto simp: touched_def)
  then show "shape ch par ?fs' bl"
  proof (intro shapeI)
    show "lies_above par 0 u \<and> (0 < u \<longrightarrow> touched ?fs' bl (par u))" if "u < length ch" "touched ?fs' bl u" for u
      using that
    proof (cases "u = c")
      case True
      have "touched ?fs bl p" by (simp add: touched_def)
      moreover have "lies_above par 0 c" 
        by (rule above_up) (simp_all add: c(1) c(3) shapeD(9) [OF shape p \<open>touched ?fs bl p\<close>])
      ultimately show ?thesis using True c(3) by (simp add: touched)
    qed (use shapeD(9,10) [OF shape, of u] in \<open>simp add: touched\<close>)
    show "touched ?fs' bl v" if "u < length ch" "bl ! u" "v \<in> set (ch ! u)" for u v
      using shapeD(11) [OF shape that] by (simp add: touched)
    show "linked par ?fs'" using shapeD(2) [OF shape] c by (cases below) auto
    show "touched ?fs' bl 0" using shapeD(6) [OF shape] by (simp add: touched)
    show "distinct (map fst ?fs')" using shapeD(3) [OF shape] \<open>c \<notin> on_stack ?fs\<close> by (simp add: on_stack_def)
    show "\<not> bl ! u" if "u < length ch" "u \<in> on_stack ?fs'" for u
      using that \<open>\<not> bl ! c\<close> shapeD(5) [OF shape that(1)] by auto
  qed (use positions shapeD(1,4) [OF shape] c in auto)
qed

lemma shape_pop:
  assumes tree: "tree ch par" and shape: "shape ch par ((p, k) # below) bl" and k: "\<not> k < length (ch ! p)"
  shows "shape ch par below (bl[p := True])" "p < length ch"
    "touched below (bl[p := True]) u \<longleftrightarrow> touched ((p, k) # below) bl u"
proof -
  show p: "p < length ch" using shapeD(4) [OF shape] by simp
  have len: "p < length bl" using p shapeD(1) [OF shape] by simp
  show touched: "touched below (bl[p := True]) u \<longleftrightarrow> touched ((p, k) # below) bl u" for u
    using len by (cases "u = p") (auto simp: touched_def)
  have whole: "touched ((p, k) # below) bl c" if "c \<in> set (ch ! p)" for c
  proof -
    obtain j where j: "j < length (ch ! p)" "c = ch ! p ! j" using \<open>c \<in> set (ch ! p)\<close> by (auto simp: in_set_conv_nth)
    then show ?thesis using shapeD(8) [OF shape, of p k j] k by simp
  qed
  have notin: "p \<notin> on_stack below" using shapeD(3) [OF shape] by (auto simp: on_stack_def)
  have stack: "\<not> bl[p := True] ! u" if "u < length ch" "u \<in> on_stack below" for u
    using that notin shapeD(5) [OF shape that(1)] by (cases "u = p") auto
  have finished: "touched ((p, k) # below) bl c" if "u < length ch" "bl[p := True] ! u" "c \<in> set (ch ! u)" for u c
    using that whole shapeD(11) [OF shape that(1) _ that(3)] by (cases "u = p") auto
  show "shape ch par below (bl[p := True])"
  proof (intro shapeI)
    show "k \<le> length (ch ! q) \<and> (\<forall>j < length (ch ! q). touched below (bl[p := True]) (ch ! q ! j) \<longleftrightarrow> j < k)"
      if "(q, k) \<in> set below" for q k
      using shapeD(7,8) [OF shape, of q k] that by (simp add: touched)
    show "touched below (bl[p := True]) u \<Longrightarrow> u < length ch \<Longrightarrow>
        lies_above par 0 u \<and> (0 < u \<longrightarrow> touched below (bl[p := True]) (par u))" for u
      using shapeD(9,10) [OF shape, of u] by (simp add: touched)
    show "touched below (bl[p := True]) v" if "u < length ch" "bl[p := True] ! u" "v \<in> set (ch ! u)" for u v
      using finished [OF that] by (simp add: touched)
  qed (use shapeD(1,3,4,6) [OF shape] linked_tl [OF shapeD(2) [OF shape]] stack in \<open>auto simp: touched\<close>)
qed

end
