(* ===== verification/History_Labels.thy ===== *)
theory History_Labels
imports History_Walk
begin

text \<open>
  What the labels of the ancestor search say, kept by every step of the walk, and the answer read off them.
\<close>

section \<open>Labels\<close>

definition labels ::
  "nat \<Rightarrow> (nat \<Rightarrow> nat) \<Rightarrow> (nat \<times> nat) list \<Rightarrow> bool list \<Rightarrow> (nat \<Rightarrow> nat) \<Rightarrow> (nat \<Rightarrow> nat) \<Rightarrow> bool" where
  "labels n par fs bl rt label \<longleftrightarrow>
     (\<forall>u \<in> on_stack fs. label u = u) \<and> (\<forall>u < n. bl ! u \<longrightarrow> label u = label (par u)) \<and>
     (\<forall>u < n. \<forall>v < n. touched fs bl u \<longrightarrow> touched fs bl v \<longrightarrow> label u = label v \<longrightarrow> rt u = rt v) \<and>
     (\<forall>u < n. \<forall>v < n. rt u = rt v \<longrightarrow> label u = label v) \<and>
     (\<forall>u < n. if touched fs bl u then touched fs bl (rt u) else rt u = u)"

lemma labelsD:
  assumes "labels n par fs bl rt label"
  shows "u \<in> on_stack fs \<Longrightarrow> label u = u" "u < n \<Longrightarrow> bl ! u \<Longrightarrow> label u = label (par u)"
    "u < n \<Longrightarrow> v < n \<Longrightarrow> touched fs bl u \<Longrightarrow> touched fs bl v \<Longrightarrow> label u = label v \<Longrightarrow> rt u = rt v"
    "u < n \<Longrightarrow> v < n \<Longrightarrow> rt u = rt v \<Longrightarrow> label u = label v"
    "u < n \<Longrightarrow> touched fs bl u \<Longrightarrow> touched fs bl (rt u)"
    "u < n \<Longrightarrow> \<not> touched fs bl u \<Longrightarrow> rt u = u"
  using assms unfolding labels_def by metis+

lemma labelsI:
  assumes "\<And>u. u \<in> on_stack fs \<Longrightarrow> label u = u" "\<And>u. u < n \<Longrightarrow> bl ! u \<Longrightarrow> label u = label (par u)"
    "\<And>u v. u < n \<Longrightarrow> v < n \<Longrightarrow> touched fs bl u \<Longrightarrow> touched fs bl v \<Longrightarrow> label u = label v \<Longrightarrow> rt u = rt v"
    "\<And>u v. u < n \<Longrightarrow> v < n \<Longrightarrow> rt u = rt v \<Longrightarrow> label u = label v"
    "\<And>u. u < n \<Longrightarrow> if touched fs bl u then touched fs bl (rt u) else rt u = u"
  shows "labels n par fs bl rt label"
  using assms unfolding labels_def by blast

text \<open>The label of a touched node is the lowest node of the stack above it.\<close>

lemma label_is_lowest:
  assumes tree: "tree ch par" and shape: "shape ch par fs bl" and lab: "labels (length ch) par fs bl rt label"
    and zero: "0 \<in> on_stack fs" and u: "u < length ch" "touched fs bl u"
  shows "label u \<in> on_stack fs" "lies_above par (label u) u" "v \<in> on_stack fs \<Longrightarrow> lies_above par v u \<Longrightarrow> lies_above par v (label u)"
proof -
  have "lies_above par 0 u" by (rule shapeD(9) [OF shape u])
  then have "label u \<in> on_stack fs \<and> lies_above par (label u) u \<and>
      (\<forall>v \<in> on_stack fs. lies_above par v u \<longrightarrow> lies_above par v (label u))"
    using u
  proof (induction "0::nat" u rule: lies_above.induct)
    case above_self
    then show ?case using labelsD(1) [OF lab zero] zero by simp
  next
    case (above_up u)
    show ?case
    proof (cases "u \<in> on_stack fs")
      case True
      then show ?thesis using labelsD(1) [OF lab True] by simp
    next
      case False
      then have "bl ! u" using above_up.prems by (simp add: touched_def)
      then have eq: "label u = label (par u)" using labelsD(2) [OF lab above_up.prems(1)] by simp
      have "par u < length ch" "touched fs bl (par u)"
        using treeD(3) [OF tree above_up.prems(1)] shapeD(10) [OF shape above_up.prems above_up.hyps(1)] by simp_all
      from above_up.hyps(3) [OF this] show ?thesis
        using False eq above_iff [OF above_up.hyps(1), of par] by auto
    qed
  qed
  then show "label u \<in> on_stack fs" "lies_above par (label u) u" "v \<in> on_stack fs \<Longrightarrow> lies_above par v u \<Longrightarrow> lies_above par v (label u)"
    by auto
qed

lemma root_on_stack:
  assumes "linked par fs" "fs \<noteq> []"
  shows "0 \<in> on_stack fs"
  using assms
proof (induction par fs rule: linked.induct)
  case (3 par v k p j fs)
  then have "0 \<in> on_stack ((p, j) # fs)" by simp
  then show ?case by (simp add: on_stack_def)
qed simp_all

lemma label_is_answer:
  assumes "tree ch par" "shape ch par ((p, k) # below) bl" "labels (length ch) par ((p, k) # below) bl rt label"
    and "u < length ch" "touched ((p, k) # below) bl u"
  shows "common_ancestor par p u (label u)"
proof -
  have linked: "linked par ((p, k) # below)" by (rule shapeD(2) [OF assms(2)])
  have "0 \<in> on_stack ((p, k) # below)" using root_on_stack [OF linked] by simp
  note low = label_is_lowest [OF assms(1-3) this assms(4,5)]
  show ?thesis
    using low linked_above [OF linked] unfolding common_ancestor_def by blast
qed

section \<open>Labels along the walk\<close>

lemma labels_cong:
  assumes "tree ch par" "shape ch par fs bl" "labels (length ch) par fs bl rt label"
    and "\<And>u. u < length ch \<Longrightarrow> rt' u = rt u" "\<And>u. u < length ch \<Longrightarrow> label' u = label u"
  shows "labels (length ch) par fs bl rt' label'"
proof (rule labelsI)
  show "label' u = u" if "u \<in> on_stack fs" for u
    using that labelsD(1) [OF assms(3) that] shapeD(4) [OF assms(2)] assms(5) [of u] by auto
  show "label' u = label' (par u)" if "u < length ch" "bl ! u" for u
    using labelsD(2) [OF assms(3) that] assms(5) that(1) treeD(3) [OF assms(1) that(1)] by simp
  show "rt' u = rt' v" if "u < length ch" "v < length ch" "touched fs bl u" "touched fs bl v" "label' u = label' v" for u v
    using labelsD(3) [OF assms(3) that(1-4)] assms(4,5) that by simp
  show "label' u = label' v" if "u < length ch" "v < length ch" "rt' u = rt' v" for u v
    using labelsD(4) [OF assms(3) that(1,2)] assms(4,5) that by simp
  show "if touched fs bl u then touched fs bl (rt' u) else rt' u = u" if "u < length ch" for u
    using labelsD(5,6) [OF assms(3) that] assms(4) [OF that] by simp
qed

lemma labels_push:
  assumes tree: "tree ch par" and shape: "shape ch par ((p, k) # below) bl" and k: "k < length (ch ! p)"
    and lab: "labels (length ch) par ((p, k) # below) bl rt label"
  defines "c \<equiv> ch ! p ! k"
  shows "labels (length ch) par ((c, 0) # (p, Suc k) # below) bl rt (\<lambda>u. if rt u = rt c then c else label u)"
proof -
  let ?fs = "(p, k) # below" and ?fs' = "(c, 0) # (p, Suc k) # below"
  note push = shape_push [OF tree shape k, folded c_def]
  have new: "\<not> touched ?fs bl c" "rt c = c" using push(2) labelsD(6) [OF lab push(4)] by simp_all
  have touched: "touched ?fs' bl u \<longleftrightarrow> touched ?fs bl u \<or> u = c" for u by (auto simp: touched_def)
  have old: "rt u \<noteq> c" if "u < length ch" "touched ?fs bl u" for u
    using labelsD(5) [OF lab that] new(1) by auto
  have zero: "0 \<in> on_stack ?fs" using root_on_stack [OF shapeD(2) [OF shape]] by simp
  have label: "label u \<noteq> c" if "u < length ch" "touched ?fs bl u" for u
    using label_is_lowest(1) [OF tree shape lab zero that] new(1) by (auto simp: touched_def)
  show ?thesis
  proof (rule labelsI)
    show "(if rt u = rt c then c else label u) = u" if "u \<in> on_stack ?fs'" for u
    proof (cases "u = c")
      case False
      then have "u \<in> on_stack ?fs" using that by simp
      then show ?thesis using labelsD(1) [OF lab] old [of u] shapeD(4) [OF shape] new(2) by (auto simp: touched_def)
    qed (use new in simp)
    show "(if rt u = rt c then c else label u) = (if rt (par u) = rt c then c else label (par u))"
      if "u < length ch" "bl ! u" for u
    proof -
      have t: "touched ?fs bl u" using that(2) by (simp add: touched_def)
      have "u \<noteq> 0" using zero shapeD(5) [OF shape that(1)] that(2) by metis
      then have "touched ?fs bl (par u)" using shapeD(10) [OF shape that(1) t] by simp
      then show ?thesis
        using labelsD(2) [OF lab that] old [OF that(1) t] old [OF treeD(3) [OF tree that(1)]] new(2) by simp
    qed
    show "rt u = rt v"
      if "u < length ch" "v < length ch" "touched ?fs' bl u" "touched ?fs' bl v"
        "(if rt u = rt c then c else label u) = (if rt v = rt c then c else label v)" for u v
      using that old label new(2) labelsD(3) [OF lab that(1,2)] unfolding touched by (cases "u = c"; cases "v = c") auto
    show "(if rt u = rt c then c else label u) = (if rt v = rt c then c else label v)"
      if "u < length ch" "v < length ch" "rt u = rt v" for u v
      using labelsD(4) [OF lab that] that(3) by simp
    show "if touched ?fs' bl u then touched ?fs' bl (rt u) else rt u = u" if "u < length ch" for u
      using labelsD(5,6) [OF lab that] new(2) unfolding touched by auto
  qed
qed

lemma labels_pop:
  assumes tree: "tree ch par" and shape: "shape ch par ((p, k) # (q, j) # below) bl" and k: "\<not> k < length (ch ! p)"
    and lab: "labels (length ch) par ((p, k) # (q, j) # below) bl rt label"
    and w: "w = rt q \<or> w = rt p"
    and rt': "\<And>v. v < length ch \<Longrightarrow> rt' v = (if rt v = rt q \<or> rt v = rt p then w else rt v)"
    and label': "\<And>v. v < length ch \<Longrightarrow> label' v = (if rt' v = w then q else label v)"
  shows "labels (length ch) par ((q, j) # below) (bl[p := True]) rt' label'"
proof -
  let ?fs = "(p, k) # (q, j) # below" and ?fs' = "(q, j) # below"
  note pop = shape_pop [OF tree shape k]
  have touched: "touched ?fs' (bl[p := True]) u \<longleftrightarrow> touched ?fs bl u" for u by (rule pop(3))
  have q: "q < length ch" "p < length ch" "par p = q" "0 < p" "p \<noteq> q"
    using shapeD(2-4) [OF shape] by auto
  have tpq: "touched ?fs bl p" "touched ?fs bl q" by (simp_all add: touched_def)
  have self: "label p = p" "label q = q" using labelsD(1) [OF lab] by simp_all
  have merged: "rt' u = w \<longleftrightarrow> label u = p \<or> label u = q" if "u < length ch" "touched ?fs bl u" for u
  proof -
    have "rt u = rt p \<longleftrightarrow> label u = p" "rt u = rt q \<longleftrightarrow> label u = q"
      using labelsD(3) [OF lab that(1) _ that(2)] labelsD(4) [OF lab that(1)] q tpq self by metis+
    then show ?thesis using rt' [OF that(1)] w by auto
  qed
  have new: "label' u = (if label u = p then q else label u)" if "u < length ch" "touched ?fs bl u" for u
    using label' [OF that(1)] merged [OF that] by auto
  have zero: "0 \<in> on_stack ?fs" using root_on_stack [OF shapeD(2) [OF shape]] by simp
  show ?thesis
  proof (rule labelsI)
    show "label' u = u" if "u \<in> on_stack ?fs'" for u
    proof -
      have "u < length ch" "touched ?fs bl u" "u \<noteq> p" "label u = u"
        using that shapeD(3,4) [OF shape] labelsD(1) [OF lab, of u] by (auto simp: touched_def on_stack_def)
      then show ?thesis using new by simp
    qed
    show "label' u = label' (par u)" if "u < length ch" "bl[p := True] ! u" for u
    proof (cases "u = p")
      case True
      then show ?thesis using new [OF q(2) tpq(1)] new [OF q(1) tpq(2)] self q(3) by simp
    next
      case False
      then have bl: "bl ! u" using that(2) by simp
      then have t: "touched ?fs bl u" by (simp add: touched_def)
      have "u \<noteq> 0" using zero shapeD(5) [OF shape that(1)] bl by metis
      then have "touched ?fs bl (par u)" using shapeD(10) [OF shape that(1) t] by simp
      then show ?thesis
        using new [OF that(1) t] new [OF treeD(3) [OF tree that(1)]] labelsD(2) [OF lab that(1) bl] by simp
    qed
    show "rt' u = rt' v"
      if "u < length ch" "v < length ch" "touched ?fs' (bl[p := True]) u" "touched ?fs' (bl[p := True]) v"
        "label' u = label' v" for u v
    proof -
      have t: "touched ?fs bl u" "touched ?fs bl v" using that(3,4) unfolding touched by simp_all
      show ?thesis
      proof (cases "rt' u = w \<or> rt' v = w")
        case True
        have "rt' u = w \<longleftrightarrow> rt' v = w"
          using that(5) new [OF that(1) t(1)] new [OF that(2) t(2)] merged [OF that(1) t(1)] merged [OF that(2) t(2)]
          by (auto split: if_splits)
        then show ?thesis using True by auto
      next
        case False
        then have "label u = label v"
          using that(5) new [OF that(1) t(1)] new [OF that(2) t(2)] merged [OF that(1) t(1)] merged [OF that(2) t(2)] by simp
        then show ?thesis using labelsD(3) [OF lab that(1,2) t] rt' [OF that(1)] rt' [OF that(2)] by simp
      qed
    qed
    show "label' u = label' v" if "u < length ch" "v < length ch" "rt' u = rt' v" for u v
    proof (cases "rt' u = w")
      case False
      then have "rt u = rt v" using that rt' [OF that(1)] rt' [OF that(2)] by (auto split: if_splits)
      then show ?thesis using labelsD(4) [OF lab that(1,2)] label' that by simp
    qed (use label' that in simp)
    show "if touched ?fs' (bl[p := True]) u then touched ?fs' (bl[p := True]) (rt' u) else rt' u = u" if "u < length ch" for u
    proof (cases "touched ?fs bl u")
      case True
      then show ?thesis
        using labelsD(5) [OF lab that] labelsD(5) [OF lab q(1) tpq(2)] labelsD(5) [OF lab q(2) tpq(1)] rt' [OF that] w
        unfolding touched by auto
    next
      case False
      then have "rt u = u" "rt p \<noteq> u" "rt q \<noteq> u"
        using labelsD(6) [OF lab that] labelsD(5) [OF lab q(1) tpq(2)] labelsD(5) [OF lab q(2) tpq(1)] by auto
      then show ?thesis using False rt' [OF that] unfolding touched by auto
    qed
  qed
qed

end
