(* ===== verification/History_Steps.thy ===== *)
theory History_Steps
imports History_Labels
begin

text \<open>
  The invariant of the walk over its record, the measure that makes it end, and what a finished walk holds.
\<close>

definition answered :: "(nat \<Rightarrow> nat) \<Rightarrow> nat \<Rightarrow> nat \<Rightarrow> bool list \<Rightarrow> nat option \<Rightarrow> bool" where
  "answered par a b bl ans \<longleftrightarrow>
     (if bl ! a \<and> bl ! b then \<exists>c. ans = Some c \<and> common_ancestor par a b c else ans = None)"

abbreviation label_of :: "walk \<Rightarrow> nat \<Rightarrow> nat" where
  "label_of s u \<equiv> ancestor s ! set_root (disjoint_parent s) u"

definition walk_inv :: "nat list list \<Rightarrow> (nat \<Rightarrow> nat) \<Rightarrow> nat \<Rightarrow> nat \<Rightarrow> walk \<Rightarrow> bool" where
  "walk_inv ch par a b s \<longleftrightarrow> shape ch par (frames s) (black s) \<and>
     sets_ok (disjoint_parent s) \<and> length (disjoint_parent s) = length ch \<and> length (ancestor s) = length ch \<and>
     (frames s \<noteq> [] \<longrightarrow>
        labels (length ch) par (frames s) (black s) (set_root (disjoint_parent s)) (label_of s)) \<and>
     visited s = card {u. u < length ch \<and> black s ! u} \<and> answered par a b (black s) (answer_node s)"

lemma label_set_does:
  assumes "sets_ok d0" "node < length d0" "length anc = length d0" "disjoint_parent s = d0" "ancestor s = anc"
  obtains d where "label_set node value s = Some (s\<lparr>disjoint_parent := d, ancestor := anc[set_root d0 node := value]\<rparr>)"
    "sets_ok d" "length d = length d0" "\<And>u. u < length d0 \<Longrightarrow> set_root d u = set_root d0 u"
    "\<And>u. u < length d0 \<Longrightarrow> anc[set_root d0 node := value] ! set_root d u =
      (if set_root d0 u = set_root d0 node then value else anc ! set_root d0 u)"
proof -
  from find_set_keeps [OF assms(1,2)] obtain d where d: "find_set d0 node = Some (set_root d0 node, d)"
    "sets_ok d" "length d = length d0" "\<And>v. v < length d0 \<Longrightarrow> set_root d v = set_root d0 v" by blast
  have "set_root d0 node < length anc" using sets_ok_root(1) [OF assms(1,2)] assms(3) by simp
  then show ?thesis
    using d assms(4,5) by (intro that [of d]) (simp_all add: label_set_def nth_list_update eq_commute)
qed

lemma answer_from_does:
  assumes "sets_ok (disjoint_parent s)" "node < length (disjoint_parent s)"
  obtains d where "answer_from node s = Some (s\<lparr>disjoint_parent := d, answer_node := Some (label_of s node)\<rparr>)"
    "sets_ok d" "length d = length (disjoint_parent s)"
    "\<And>u. u < length d \<Longrightarrow> set_root d u = set_root (disjoint_parent s) u"
proof -
  from find_set_keeps [OF assms(1,2)] obtain d where d: "find_set (disjoint_parent s) node = Some (set_root (disjoint_parent s) node, d)"
    "sets_ok d" "length d = length (disjoint_parent s)"
    "\<And>v. v < length (disjoint_parent s) \<Longrightarrow> set_root d v = set_root (disjoint_parent s) v" by blast
  then show ?thesis by (intro that [of d]) (simp_all add: answer_from_def)
qed

section \<open>A child is entered\<close>

lemma enter_child_keeps:
  assumes tree: "tree ch par" and inv: "walk_inv ch par a b s" and frames: "frames s = (p, k) # below" and k: "k < length (ch ! p)"
  obtains t where "enter_child p k below (ch ! p ! k) s = Some t" "walk_inv ch par a b t"
    "frames t = (ch ! p ! k, 0) # (p, Suc k) # below" "black t = black s"
proof -
  let ?c = "ch ! p ! k" and ?n = "length ch"
  have shape: "shape ch par ((p, k) # below) (black s)" and ok: "sets_ok (disjoint_parent s)"
    and len: "length (disjoint_parent s) = ?n" "length (ancestor s) = ?n"
    and lab: "labels ?n par ((p, k) # below) (black s) (set_root (disjoint_parent s)) (label_of s)"
    using inv frames by (simp_all add: walk_inv_def)
  note push = shape_push [OF tree shape k]
  have *: "?c < length (disjoint_parent s)" "length (ancestor s) = length (disjoint_parent s)" using push(4) len by simp_all
  from label_set_does [OF ok * refl refl, of ?c] obtain d where d: "label_set ?c ?c s =
      Some (s\<lparr>disjoint_parent := d, ancestor := (ancestor s)[set_root (disjoint_parent s) ?c := ?c]\<rparr>)"
    "sets_ok d" "length d = ?n"
    "\<And>u. u < ?n \<Longrightarrow> set_root d u = set_root (disjoint_parent s) u"
    "\<And>u. u < ?n \<Longrightarrow> (ancestor s)[set_root (disjoint_parent s) ?c := ?c] ! set_root d u =
      (if set_root (disjoint_parent s) u = set_root (disjoint_parent s) ?c then ?c else label_of s u)"
    using len by metis
  have "labels ?n par ((?c, 0) # (p, Suc k) # below) (black s) (set_root d)
      (\<lambda>u. (ancestor s)[set_root (disjoint_parent s) ?c := ?c] ! set_root d u)"
    by (rule labels_cong [OF tree push(1) labels_push [OF tree shape k lab] d(4,5)])
  then show ?thesis
    using d(1-3) inv len push(1)
    by (intro that [of "s\<lparr>disjoint_parent := d, ancestor := (ancestor s)[set_root (disjoint_parent s) ?c := ?c],
          frames := (?c, 0) # (p, Suc k) # below\<rparr>"])
      (simp_all add: enter_child_def walk_inv_def)
qed

section \<open>A node is finished\<close>

lemma settle_query_does:
  assumes tree: "tree ch par" and inv: "walk_inv ch par a b s" and frames: "frames s = (p, k) # below"
    and ab: "a < length ch" "b < length ch"
  obtains d ans where "settle_query a b p (s\<lparr>black := (black s)[p := True], visited := visited s + 1\<rparr>) =
      Some (s\<lparr>black := (black s)[p := True], visited := visited s + 1, disjoint_parent := d, answer_node := ans\<rparr>)"
    "sets_ok d" "length d = length ch" "\<And>u. u < length ch \<Longrightarrow> set_root d u = set_root (disjoint_parent s) u"
    "answered par a b ((black s)[p := True]) ans"
proof -
  note result = that
  let ?n = "length ch" and ?s = "s\<lparr>black := (black s)[p := True], visited := visited s + 1\<rparr>"
  have shape: "shape ch par ((p, k) # below) (black s)" and ok: "sets_ok (disjoint_parent s)"
    and len: "length (disjoint_parent s) = ?n" "length (ancestor s) = ?n"
    and lab: "labels ?n par ((p, k) # below) (black s) (set_root (disjoint_parent s)) (label_of s)"
    and ans: "answered par a b (black s) (answer_node s)"
    using inv frames by (simp_all add: walk_inv_def)
  have p: "p < ?n" "\<not> black s ! p" "length (black s) = ?n"
    using shapeD(4) [OF shape] shapeD(5) [OF shape, of p] shapeD(1) [OF shape] by auto
  have reply: ?thesis if u: "u < ?n" "(black s)[p := True] ! u" "settle_query a b p ?s = answer_from u ?s"
    "a = p \<and> b = u \<or> b = p \<and> a = u" for u
  proof -
    have "sets_ok (disjoint_parent ?s)" "u < length (disjoint_parent ?s)" using ok len u(1) by simp_all
    from answer_from_does [OF this] obtain d where d:
      "answer_from u ?s = Some (?s\<lparr>disjoint_parent := d, answer_node := Some (label_of s u)\<rparr>)"
      "sets_ok d" "length d = ?n" "\<And>v. v < ?n \<Longrightarrow> set_root d v = set_root (disjoint_parent s) v" using len by auto
    have "touched ((p, k) # below) (black s) u" using u(2) p by (cases "u = p") (simp_all add: touched_def)
    from label_is_answer [OF tree shape lab u(1) this]
    have "common_ancestor par a b (label_of s u)" using u(4) common_ancestor_commute by metis
    then have "answered par a b ((black s)[p := True]) (Some (label_of s u))"
      using u p by (auto simp: answered_def)
    then show ?thesis using d u(3) by (intro result [of "Some (label_of s u)" d]) simp_all
  qed
  have bl: "(black s)[p := True] ! v \<longleftrightarrow> v = p \<or> black s ! v" if "v < ?n" for v
    using that p by (auto simp: nth_list_update)
  consider "p = a" "(black s)[p := True] ! b" | "p = b" "(black s)[p := True] ! a" "\<not> (p = a \<and> (black s)[p := True] ! b)"
    | "\<not> (p = a \<and> (black s)[p := True] ! b)" "\<not> (p = b \<and> (black s)[p := True] ! a)" by blast
  then show ?thesis
  proof cases
    case 1
    then show ?thesis using reply [OF ab(2)] by (simp add: settle_query_def)
  next
    case 2
    then show ?thesis using reply [OF ab(1)] by (auto simp: settle_query_def)
  next
    case 3
    then have "answered par a b ((black s)[p := True]) (answer_node s)"
      using ans p(2) bl [OF ab(1)] bl [OF ab(2)] by (auto simp: answered_def)
    then show ?thesis using 3 ok len by (intro that [of "answer_node s" "disjoint_parent s"]) (auto simp: settle_query_def)
  qed
qed

lemma card_blacken:
  assumes "p < length bl" "\<not> bl ! p" "length bl = n"
  shows "card {u. u < n \<and> bl[p := True] ! u} = Suc (card {u. u < n \<and> bl ! u})"
proof -
  have "{u. u < n \<and> bl[p := True] ! u} = insert p {u. u < n \<and> bl ! u}"
    using assms by (auto simp: nth_list_update)
  then show ?thesis using assms(2) by simp
qed

lemma leave_node_keeps:
  assumes tree: "tree ch par" and inv: "walk_inv ch par a b s" and frames: "frames s = (p, k) # below"
    and k: "\<not> k < length (ch ! p)" and d: "sets_ok d" "length d = length ch"
    "\<And>u. u < length ch \<Longrightarrow> set_root d u = set_root (disjoint_parent s) u"
    and ans: "answered par a b ((black s)[p := True]) ans"
  obtains t where "leave_node p below (s\<lparr>black := (black s)[p := True], visited := visited s + 1,
      disjoint_parent := d, answer_node := ans\<rparr>) = Some t" "walk_inv ch par a b t" "frames t = below"
    "black t = (black s)[p := True]"
proof -
  let ?n = "length ch" and ?s = "s\<lparr>black := (black s)[p := True], visited := visited s + 1, disjoint_parent := d, answer_node := ans\<rparr>"
  have shape: "shape ch par ((p, k) # below) (black s)"
    and len: "length (disjoint_parent s) = ?n" "length (ancestor s) = ?n"
    and lab: "labels ?n par ((p, k) # below) (black s) (set_root (disjoint_parent s)) (label_of s)"
    using inv frames by (simp_all add: walk_inv_def)
  note pop = shape_pop [OF tree shape k]
  have p: "p < length (black s)" "\<not> black s ! p" "length (black s) = ?n"
    using pop(2) shapeD(5) [OF shape, of p] shapeD(1) [OF shape] by auto
  have count: "visited s + 1 = card {u. u < ?n \<and> (black s)[p := True] ! u}"
    using card_blacken [OF p] inv by (simp add: walk_inv_def)
  show ?thesis
  proof (cases below)
    case Nil
    have "leave_node p below ?s = Some (?s\<lparr>frames := []\<rparr>)" using Nil by (simp add: leave_node_def)
    moreover have "walk_inv ch par a b (?s\<lparr>frames := []\<rparr>)"
      using pop(1) Nil d len count ans by (simp add: walk_inv_def)
    ultimately show ?thesis using that Nil by simp
  next
    case (Cons f fs)
    then obtain q j where below: "below = (q, j) # fs" by (cases f) auto
    have q: "q < ?n" "p < ?n" using shapeD(4) [OF shape] below by auto
    have qp: "q < length d" "p < length d" using q d(2) by simp_all
    obtain e sizes' w where e: "unite (d, set_size s) q p = Some (e, sizes')" "sets_ok e" "length e = ?n"
      "w = set_root d q \<or> w = set_root d p"
      "\<And>v. v < ?n \<Longrightarrow> set_root e v = (if set_root d v = set_root d q \<or> set_root d v = set_root d p then w else set_root d v)"
      using unite_merges [OF d(1) qp, of "set_size s"] d(2) by metis
    let ?t = "?s\<lparr>disjoint_parent := e, set_size := sizes', frames := below\<rparr>"
    have t: "q < length e" "length (ancestor s) = length e" using e len q by simp_all
    have "disjoint_parent ?t = e" "ancestor ?t = ancestor s" by simp_all
    from label_set_does [OF e(2) t this, of q] obtain g where "label_set q q ?t =
        Some (?t\<lparr>disjoint_parent := g, ancestor := (ancestor s)[set_root e q := q]\<rparr>)"
      "sets_ok g" "length g = length e" "\<And>u. u < length e \<Longrightarrow> set_root g u = set_root e u"
      "\<And>u. u < length e \<Longrightarrow> (ancestor s)[set_root e q := q] ! set_root g u =
        (if set_root e u = set_root e q then q else ancestor s ! set_root e u)" by blast
    note g = this [unfolded e(3)]
    have w: "w = set_root (disjoint_parent s) q \<or> w = set_root (disjoint_parent s) p"
      using e(4) d(3) q by simp
    have root: "set_root g v = (if set_root (disjoint_parent s) v = set_root (disjoint_parent s) q \<or>
        set_root (disjoint_parent s) v = set_root (disjoint_parent s) p then w else set_root (disjoint_parent s) v)" if "v < ?n" for v
      using e(5) [OF that] g(4) [OF that] d(3) that q by simp
    have rw: "set_root e q = w" using e(5) [OF q(1)] by simp
    have label: "(ancestor s)[w := q] ! set_root g v = (if set_root g v = w then q else label_of s v)" if "v < ?n" for v
      using g(5) [OF that] g(4) [OF that] root [OF that] rw by (auto split: if_splits)
    have "labels ?n par ((q, j) # fs) ((black s)[p := True]) (set_root g) (\<lambda>u. (ancestor s)[w := q] ! set_root g u)"
      by (rule labels_pop [OF tree shape [unfolded below] k lab [unfolded below] w root label])
    then have "walk_inv ch par a b (?t\<lparr>disjoint_parent := g, ancestor := (ancestor s)[set_root e q := q]\<rparr>)"
      using pop(1) g(2,3) len count ans below rw by (simp add: walk_inv_def)
    moreover have "leave_node p below ?s = Some (?t\<lparr>disjoint_parent := g, ancestor := (ancestor s)[set_root e q := q]\<rparr>)"
      using e(1) g(1) below by (simp add: leave_node_def)
    ultimately show ?thesis using that by simp
  qed
qed

section \<open>The walk ends\<close>

definition walk_left :: "nat list list \<Rightarrow> walk \<Rightarrow> nat" where
  "walk_left ch s = 2 * card {u. u < length ch \<and> \<not> touched (frames s) (black s) u} + length (frames s)"

lemma walk_step_keeps:
  assumes tree: "tree ch par" and inv: "walk_inv ch par a b s" and "frames s \<noteq> []" "a < length ch" "b < length ch"
  obtains t where "walk_step ch a b s = Some t" "walk_inv ch par a b t" "walk_left ch t < walk_left ch s"
proof -
  obtain p k below where frames: "frames s = (p, k) # below" using assms(3) by (cases "frames s") auto
  have shape: "shape ch par ((p, k) # below) (black s)" using inv frames by (simp add: walk_inv_def)
  show ?thesis
  proof (cases "k < length (ch ! p)")
    case True
    obtain t where t: "enter_child p k below (ch ! p ! k) s = Some t" "walk_inv ch par a b t"
      "frames t = (ch ! p ! k, 0) # (p, Suc k) # below" "black t = black s"
      using enter_child_keeps [OF tree inv frames True] by blast
    note push = shape_push [OF tree shape True]
    let ?old = "{u. u < length ch \<and> \<not> touched (frames s) (black s) u}"
    have "{u. u < length ch \<and> \<not> touched (frames t) (black t) u} = ?old - {ch ! p ! k}"
      using t frames by (auto simp: touched_def)
    moreover have "ch ! p ! k \<in> ?old" using push(2,4) frames by simp
    moreover have "finite ?old" by simp
    ultimately have "Suc (card {u. u < length ch \<and> \<not> touched (frames t) (black t) u}) = card ?old"
      by (metis card_Suc_Diff1)
    then have "walk_left ch t < walk_left ch s" using t(3) frames by (simp add: walk_left_def)
    then show ?thesis using that t frames True by (simp add: walk_step_def)
  next
    case False
    obtain d ans where q: "settle_query a b p (s\<lparr>black := (black s)[p := True], visited := visited s + 1\<rparr>) =
        Some (s\<lparr>black := (black s)[p := True], visited := visited s + 1, disjoint_parent := d, answer_node := ans\<rparr>)"
      "sets_ok d" "length d = length ch" "\<And>u. u < length ch \<Longrightarrow> set_root d u = set_root (disjoint_parent s) u"
      "answered par a b ((black s)[p := True]) ans"
      using settle_query_does [OF tree inv frames assms(4,5)] by blast
    obtain t where t: "leave_node p below (s\<lparr>black := (black s)[p := True], visited := visited s + 1,
        disjoint_parent := d, answer_node := ans\<rparr>) = Some t" "walk_inv ch par a b t" "frames t = below"
      "black t = (black s)[p := True]"
      using leave_node_keeps [OF tree inv frames False q(2-5)] by blast
    have "walk_left ch t < walk_left ch s"
      using shape_pop(3) [OF tree shape False] t(3,4) frames by (simp add: walk_left_def)
    then show ?thesis using that t(1,2) q(1) frames False by (simp add: walk_step_def)
  qed
qed

lemma walk_run_ends:
  assumes tree: "tree ch par" and "walk_inv ch par a b s" "a < length ch" "b < length ch" "walk_left ch s \<le> left"
  obtains t where "walk_run left ch a b s = Some t" "walk_inv ch par a b t" "frames t = []"
proof -
  have "\<exists>t. walk_run left ch a b s = Some t \<and> walk_inv ch par a b t \<and> frames t = []"
    using assms(2,5)
  proof (induction left arbitrary: s)
    case (Suc left)
    show ?case
    proof (cases "frames s = []")
      case False
      obtain t where t: "walk_step ch a b s = Some t" "walk_inv ch par a b t" "walk_left ch t < walk_left ch s"
        using walk_step_keeps [OF tree Suc.prems(1) False assms(3,4)] by blast
      have "walk_left ch t \<le> left" using t(3) Suc.prems(2) by simp
      from Suc.IH [OF t(2) this] show ?thesis using False t(1) by simp
    qed (use Suc.prems in simp)
  qed (simp add: walk_left_def)
  then show ?thesis using that by blast
qed

lemma new_walk_inv:
  assumes "tree ch par" "a < length ch"
  shows "walk_inv ch par a b (new_walk (length ch))" "walk_left ch (new_walk (length ch)) \<le> 2 * length ch"
proof -
  let ?n = "length ch"
  have n: "0 < ?n" using assms(1) by (simp add: tree_def)
  have touched: "touched [(0, 0)] (replicate ?n False) u \<longleftrightarrow> u = 0" if "u < ?n" for u
    using that by (auto simp: touched_def)
  have child: "0 < c \<and> c < ?n" if "c \<in> set (ch ! v)" "v < ?n" for v c
    using treeD(2) [OF assms(1) that(2)] that(1) by simp
  have shape: "shape ch par [(0, 0)] (replicate ?n False)"
    using n child [of _ 0] touched by (intro shapeI) (auto simp: touched_def)
  have d: "ranked (\<lambda>_. 0) [0..<?n]" by (simp add: ranked_def)
  have root: "set_root [0..<?n] u = u" if "u < ?n" for u using that by simp
  have "labels ?n par [(0, 0)] (replicate ?n False) (set_root [0..<?n]) (\<lambda>u. (replicate ?n 0)[0 := 0] ! set_root [0..<?n] u)"
    using n root touched by (intro labelsI) auto
  then show "walk_inv ch par a b (new_walk ?n)"
    using shape d n assms(2) by (auto simp: walk_inv_def new_walk_def sets_ok_def answered_def)
  have "card {u. u < ?n \<and> \<not> touched [(0, 0)] (replicate ?n False) u} \<le> card {1..<?n}"
    using touched by (intro card_mono) auto
  moreover have "walk_left ch (new_walk ?n) = 2 * card {u. u < ?n \<and> \<not> touched [(0, 0)] (replicate ?n False) u} + 1"
    by (simp add: walk_left_def new_walk_def)
  ultimately show "walk_left ch (new_walk ?n) \<le> 2 * ?n" using n by (simp only: card_atLeastLessThan)
qed

section \<open>A finished walk\<close>

text \<open>Every node below the root has been visited, and no other.\<close>

lemma finished_walk:
  assumes tree: "tree ch par" and inv: "walk_inv ch par a b s" and "frames s = []" and u: "u < length ch"
  shows "black s ! u \<longleftrightarrow> lies_above par 0 u"
proof
  have shape: "shape ch par [] (black s)" using inv assms(3) by (simp add: walk_inv_def)
  show "lies_above par 0 u" if "black s ! u" using shapeD(9) [OF shape u] that by (simp add: touched_def)
  show "black s ! u" if "lies_above par 0 u"
    using that u
  proof (induction "0::nat" u rule: lies_above.induct)
    case above_self
    then show ?case using shapeD(6) [OF shape] by (simp add: touched_def)
  next
    case (above_up u)
    have "par u < length ch" by (rule treeD(3) [OF tree above_up.prems])
    moreover from this have "u \<in> set (ch ! par u)" using treeD(2) [OF tree] above_up.hyps(1) above_up.prems by simp
    ultimately show ?case using shapeD(11) [OF shape _ above_up.hyps(3)] by (simp add: touched_def)
  qed
qed

lemma walk_result:
  assumes tree: "tree ch par" and "a < length ch" "b < length ch"
  obtains s where "walk_run (2 * length ch) ch a b (new_walk (length ch)) = Some s"
    "visited s = length ch \<longleftrightarrow> (\<forall>u < length ch. lies_above par 0 u)"
    "visited s = length ch \<Longrightarrow> \<exists>c. answer_node s = Some c \<and> common_ancestor par a b c"
proof -
  obtain s where s: "walk_run (2 * length ch) ch a b (new_walk (length ch)) = Some s" "walk_inv ch par a b s" "frames s = []"
    using walk_run_ends [OF tree new_walk_inv(1) [OF tree assms(2)] assms(2,3) new_walk_inv(2) [OF tree assms(2)]] by blast
  have count: "visited s = card {u. u < length ch \<and> black s ! u}" using s(2) by (simp add: walk_inv_def)
  have all: "card {u. u < length ch \<and> black s ! u} = length ch \<longleftrightarrow> (\<forall>u < length ch. black s ! u)"
  proof
    assume "card {u. u < length ch \<and> black s ! u} = length ch"
    then have "{u. u < length ch \<and> black s ! u} = {..<length ch}" by (intro card_subset_eq) auto
    then show "\<forall>u < length ch. black s ! u" by blast
  next
    assume "\<forall>u < length ch. black s ! u"
    then have "{u. u < length ch \<and> black s ! u} = {..<length ch}" by auto
    then show "card {u. u < length ch \<and> black s ! u} = length ch" by simp
  qed
  have "\<exists>c. answer_node s = Some c \<and> common_ancestor par a b c" if "visited s = length ch"
    using that all count assms(2,3) s(2) by (auto simp: walk_inv_def answered_def)
  then show ?thesis
    using that [OF s(1)] all count finished_walk [OF tree s(2,3)] by simp
qed

end
