(* ===== verification/History_Properties.thy ===== *)
theory History_Properties
imports History_Steps
begin

text \<open>
  The ancestor search against the ancestry the runs describe: the index is a bijection, the children lists are
  the tree of that ancestry, and the result is the lowest common ancestor exactly where there is one to give.
\<close>

section \<open>The ancestry\<close>

text \<open>A run comes from its parent; a base model, which has a negative identifier, hangs under the virtual root.\<close>

definition lineage :: "lora_history_parent list \<Rightarrow> (int \<times> int) set" where
  "lineage runs = {(run_id r, run_parent r) | r. r \<in> set runs} \<union> {(run_parent r, 0) | r. r \<in> set runs \<and> run_parent r < 0}"

definition history_nodes :: "lora_history_parent list \<Rightarrow> int set" where
  "history_nodes runs = insert 0 (run_id ` set runs \<union> {x \<in> run_parent ` set runs. x < 0})"

definition valid_history :: "lora_history_parent list \<Rightarrow> bool" where
  "valid_history runs \<longleftrightarrow> (\<forall>r \<in> set runs. 0 < run_id r) \<and> distinct (map run_id runs) \<and>
     (\<forall>r \<in> set runs. (run_id r, 0) \<in> (lineage runs)\<^sup>*)"

definition lowest_common :: "lora_history_parent list \<Rightarrow> int \<Rightarrow> int \<Rightarrow> int \<Rightarrow> bool" where
  "lowest_common runs a b c \<longleftrightarrow> (a, c) \<in> (lineage runs)\<^sup>* \<and> (b, c) \<in> (lineage runs)\<^sup>* \<and>
     (\<forall>v. (a, v) \<in> (lineage runs)\<^sup>* \<and> (b, v) \<in> (lineage runs)\<^sup>* \<longrightarrow> (c, v) \<in> (lineage runs)\<^sup>*)"

section \<open>The index\<close>

definition index_ok :: "int list \<Rightarrow> (int \<rightharpoonup> nat) \<Rightarrow> bool" where
  "index_ok ids ix \<longleftrightarrow> distinct ids \<and> (\<forall>x i. ix x = Some i \<longleftrightarrow> i < length ids \<and> ids ! i = x)"

lemma index_ok_None: "index_ok ids ix \<Longrightarrow> ix x = None \<longleftrightarrow> x \<notin> set ids"
  unfolding index_ok_def in_set_conv_nth by (metis not_None_eq)

lemma index_ok_add:
  assumes "index_ok ids ix" "ix x = None"
  shows "index_ok (ids @ [x]) (ix(x \<mapsto> length ids))"
  using assms index_ok_None [OF assms(1), of x]
  by (auto simp: index_ok_def nth_append less_Suc_eq split: if_splits)

lemma index_runs_Some:
  "index_ok ids ix \<Longrightarrow> index_runs rs (ids, ix) = Some (ids', ix') \<Longrightarrow>
    ids' = ids @ map run_id rs \<and> index_ok ids' ix' \<and> (\<forall>r \<in> set rs. 0 < run_id r)"
proof (induction rs arbitrary: ids ix)
  case (Cons r rs)
  then have "0 < run_id r" "ix (run_id r) = None"
    "index_runs rs (ids @ [run_id r], ix(run_id r \<mapsto> length ids)) = Some (ids', ix')"
    by (simp_all split: if_splits)
  with Cons.IH [OF index_ok_add [OF Cons.prems(1) this(2)] this(3)] show ?case by auto
qed simp

lemma index_runs_None:
  "index_ok ids ix \<Longrightarrow> index_runs rs (ids, ix) = None \<Longrightarrow> \<not> ((\<forall>r \<in> set rs. 0 < run_id r) \<and> distinct (ids @ map run_id rs))"
proof (induction rs arbitrary: ids ix)
  case (Cons r rs)
  show ?case
  proof (cases "run_id r \<le> 0 \<or> ix (run_id r) \<noteq> None")
    case True
    then show ?thesis using index_ok_None [OF Cons.prems(1), of "run_id r"] by auto
  next
    case False
    then have "index_runs rs (ids @ [run_id r], ix(run_id r \<mapsto> length ids)) = None" using Cons.prems(2) by simp
    from Cons.IH [OF index_ok_add [OF Cons.prems(1)] this] False show ?thesis by simp
  qed
qed simp

lemma index_roots_ok:
  "index_ok ids ix \<Longrightarrow> index_roots rs (ids, ix) = (ids', ix') \<Longrightarrow>
    index_ok ids' ix' \<and> (\<exists>roots. ids' = ids @ roots \<and> set roots = {x \<in> run_parent ` set rs. x < 0} - set ids)"
proof (induction rs arbitrary: ids ix)
  case (Cons r rs)
  show ?case
  proof (cases "run_parent r < 0 \<and> ix (run_parent r) = None")
    case True
    then have *: "ix (run_parent r) = None" "index_roots rs (ids @ [run_parent r], ix(run_parent r \<mapsto> length ids)) = (ids', ix')"
      using Cons.prems(2) by simp_all
    from Cons.IH [OF index_ok_add [OF Cons.prems(1) *(1)] *(2)] obtain roots where
      ok: "index_ok ids' ix'" "ids' = (ids @ [run_parent r]) @ roots"
      and roots: "set roots = {x \<in> run_parent ` set rs. x < 0} - set (ids @ [run_parent r])" by blast
    have "run_parent r \<notin> set ids" using True index_ok_None [OF Cons.prems(1)] by simp
    then have "ids' = ids @ (run_parent r # roots) \<and>
        set (run_parent r # roots) = {x \<in> run_parent ` set (r # rs). x < 0} - set ids"
      using ok(2) roots True by auto
    then show ?thesis using ok(1) by blast
  next
    case False
    then have "index_roots rs (ids, ix) = (ids', ix')" using Cons.prems(2) by auto
    from Cons.IH [OF Cons.prems(1) this] obtain roots where
      ok: "index_ok ids' ix'" "ids' = ids @ roots" "set roots = {x \<in> run_parent ` set rs. x < 0} - set ids" by blast
    have "run_parent r < 0 \<Longrightarrow> run_parent r \<in> set ids" using False index_ok_None [OF Cons.prems(1)] by auto
    then have "set roots = {x \<in> run_parent ` set (r # rs). x < 0} - set ids" using ok(3) by auto
    then show ?thesis using ok(1,2) by blast
  qed
qed auto

section \<open>The children\<close>

lemma list_children_None:
  "list_children ix rs offset ch = None \<longleftrightarrow> (\<exists>r \<in> set rs. ix (run_parent r) = None)"
  by (induction rs arbitrary: offset ch) (auto split: option.splits)

lemma list_children_Some:
  assumes "list_children ix rs offset ch = Some ch'" "\<forall>x i. ix x = Some i \<longrightarrow> i < length ch"
  shows "length ch' = length ch" "v < length ch \<Longrightarrow>
    ch' ! v = ch ! v @ map (\<lambda>i. offset + 1 + i) (filter (\<lambda>i. ix (run_parent (rs ! i)) = Some v) [0..<length rs])"
proof -
  have "length ch' = length ch \<and> (v < length ch \<longrightarrow>
    ch' ! v = ch ! v @ map (\<lambda>i. offset + 1 + i) (filter (\<lambda>i. ix (run_parent (rs ! i)) = Some v) [0..<length rs]))"
    using assms
  proof (induction rs arbitrary: offset ch)
    case (Cons r rs)
    obtain p where p: "ix (run_parent r) = Some p" "p < length ch" using Cons.prems by (auto split: option.splits)
    have "list_children ix rs (offset + 1) (ch[p := ch ! p @ [offset + 1]]) = Some ch'" using Cons.prems(1) p(1) by simp
    from Cons.IH [OF this] Cons.prems(2)
    have IH: "length ch' = length ch \<and> (v < length ch \<longrightarrow> ch' ! v = ch[p := ch ! p @ [offset + 1]] ! v @
        map (\<lambda>i. offset + 1 + 1 + i) (filter (\<lambda>i. ix (run_parent (rs ! i)) = Some v) [0..<length rs]))" by simp
    have "[0..<length (r # rs)] = 0 # map Suc [0..<length rs]" by (simp add: upt_conv_Cons map_Suc_upt del: upt_Suc)
    then show ?case using IH p by (auto simp: filter_map o_def nth_list_update)
  qed simp
  then show "length ch' = length ch" "v < length ch \<Longrightarrow>
    ch' ! v = ch ! v @ map (\<lambda>i. offset + 1 + i) (filter (\<lambda>i. ix (run_parent (rs ! i)) = Some v) [0..<length rs])" by simp_all
qed

section \<open>From indexes to runs\<close>

text \<open>A table of a valid run list: what the two indexing passes and the children pass leave behind.\<close>

definition parent_index :: "lora_history_parent list \<Rightarrow> (int \<rightharpoonup> nat) \<Rightarrow> nat \<Rightarrow> nat" where
  "parent_index runs ix u = (if u = 0 \<or> length runs < u then 0 else the (ix (run_parent (runs ! (u - 1)))))"

lemma tables:
  assumes runs: "index_runs runs ([0], [0 \<mapsto> 0]) = Some t" and roots: "index_roots runs t = (ids, ix)"
  obtains rest where "ids = 0 # map run_id runs @ rest" "index_ok ids ix" "\<forall>r \<in> set runs. 0 < run_id r"
    "set rest = {x \<in> run_parent ` set runs. x < 0}" "set ids = history_nodes runs"
proof -
  obtain ids0 ix0 where t: "t = (ids0, ix0)" by (cases t)
  have "index_ok [0] [0 \<mapsto> 0]" by (auto simp: index_ok_def)
  from index_runs_Some [OF this runs [unfolded t]]
  have a: "ids0 = 0 # map run_id runs" "index_ok ids0 ix0" "\<forall>r \<in> set runs. 0 < run_id r" by auto
  from index_roots_ok [OF a(2) roots [unfolded t]] obtain rest where
    b: "index_ok ids ix" "ids = ids0 @ rest" "set rest = {x \<in> run_parent ` set runs. x < 0} - set ids0" by blast
  have "x \<notin> set ids0" if "x < 0" for x using that a(1,3) by force
  then have "set rest = {x \<in> run_parent ` set runs. x < 0}" using b(3) by auto
  then show ?thesis using that a b by (auto simp: history_nodes_def)
qed

text \<open>The facts about the tables the rest needs.\<close>

definition tables_ok :: "lora_history_parent list \<Rightarrow> int list \<Rightarrow> (int \<rightharpoonup> nat) \<Rightarrow> nat list list \<Rightarrow> bool" where
  "tables_ok runs ids ix ch \<longleftrightarrow> index_ok ids ix \<and> (\<forall>r \<in> set runs. 0 < run_id r) \<and> set ids = history_nodes runs \<and>
     (\<exists>rest. ids = 0 # map run_id runs @ rest \<and> set rest = {x \<in> run_parent ` set runs. x < 0}) \<and>
     list_children ix runs 0 ((replicate (length ids) [])[0 := [length runs + 1..<length ids]]) = Some ch"

lemma parent_index_run:
  assumes "tables_ok runs ids ix ch" "i < length runs"
  shows "ix (run_parent (runs ! i)) = Some (parent_index runs ix (Suc i))" "parent_index runs ix (Suc i) < length ids"
    "ids ! parent_index runs ix (Suc i) = run_parent (runs ! i)"
proof -
  have "list_children ix runs 0 ((replicate (length ids) [])[0 := [length runs + 1..<length ids]]) \<noteq> None"
    using assms(1) by (simp add: tables_ok_def)
  then have "ix (run_parent (runs ! i)) \<noteq> None" using assms(2) list_children_None by (metis nth_mem)
  then show *: "ix (run_parent (runs ! i)) = Some (parent_index runs ix (Suc i))"
    using assms(2) by (auto simp: parent_index_def)
  then show "parent_index runs ix (Suc i) < length ids" "ids ! parent_index runs ix (Suc i) = run_parent (runs ! i)"
    using assms(1) unfolding tables_ok_def index_ok_def by blast+
qed

lemma tables_tree:
  assumes ok: "tables_ok runs ids ix ch"
  shows "tree ch (parent_index runs ix)" "length ch = length ids"
proof -
  let ?n = "length ids" and ?m = "length runs" and ?par = "parent_index runs ix"
  obtain rest where ids: "ids = 0 # map run_id runs @ rest" using ok by (auto simp: tables_ok_def)
  have n: "0 < ?n" "?m < ?n" using ids by simp_all
  let ?ch0 = "(replicate ?n [])[0 := [?m + 1..<?n]]"
  have some: "list_children ix runs 0 ?ch0 = Some ch" using ok by (simp add: tables_ok_def)
  have range: "\<forall>x i. ix x = Some i \<longrightarrow> i < length ?ch0" using ok by (auto simp: tables_ok_def index_ok_def)
  note ch = list_children_Some [OF some range]
  show len: "length ch = ?n" using ch(1) by simp
  have par: "?par c < ?n" for c
    using parent_index_run(2) [OF ok, of "c - 1"] n by (cases "c = 0 \<or> ?m < c") (auto simp: parent_index_def)
  have lists: "ch ! v = (if v = 0 then [?m + 1..<?n] else []) @
      map Suc (filter (\<lambda>i. ?par (Suc i) = v) [0..<?m])" if "v < ?n" for v
  proof -
    have "filter (\<lambda>i. ix (run_parent (runs ! i)) = Some v) [0..<?m] = filter (\<lambda>i. ?par (Suc i) = v) [0..<?m]"
      using parent_index_run(1) [OF ok] by (intro filter_cong) auto
    then show ?thesis using ch(2) [of v] that n by auto
  qed
  have "distinct (ch ! v) \<and> set (ch ! v) = {c. 0 < c \<and> c < ?n \<and> ?par c = v}" if v: "v < ?n" for v
  proof
    show "distinct (ch ! v)" unfolding lists [OF v] by (auto simp: distinct_map)
    have run: "c \<in> Suc ` {i \<in> {0..<?m}. ?par (Suc i) = v} \<longleftrightarrow> 0 < c \<and> c \<le> ?m \<and> ?par c = v" for c
      by (cases c) auto
    have root: "?par c = 0" if "?m < c" for c using that by (simp add: parent_index_def)
    show "set (ch ! v) = {c. 0 < c \<and> c < ?n \<and> ?par c = v}"
    proof (intro set_eqI)
      fix c
      have "c \<in> set (ch ! v) \<longleftrightarrow> v = 0 \<and> ?m < c \<and> c < ?n \<or> 0 < c \<and> c \<le> ?m \<and> ?par c = v"
        unfolding lists [OF v] run [symmetric] by auto
      also have "\<dots> \<longleftrightarrow> 0 < c \<and> c < ?n \<and> ?par c = v"
        using root [of c] n(2) by (cases "?m < c") auto
      finally show "c \<in> set (ch ! v) \<longleftrightarrow> c \<in> {c. 0 < c \<and> c < ?n \<and> ?par c = v}" by simp
    qed
  qed
  then show "tree ch ?par" using par n len by (simp add: tree_def)
qed

lemma lineage_step:
  assumes ok: "tables_ok runs ids ix ch" and u: "u < length ids"
  shows "(ids ! u, y) \<in> lineage runs \<longleftrightarrow> 0 < u \<and> y = ids ! parent_index runs ix u"
proof -
  obtain rest where ids: "ids = 0 # map run_id runs @ rest" and rest: "set rest = {x \<in> run_parent ` set runs. x < 0}"
    using ok by (auto simp: tables_ok_def)
  have pos: "\<forall>r \<in> set runs. 0 < run_id r" and dist: "distinct ids" using ok by (auto simp: tables_ok_def index_ok_def)
  consider "u = 0" | i where "u = Suc i" "i < length runs" | "length runs < u"
    by (metis Suc_lessI less_Suc_eq not_less_eq not0_implies_Suc)
  then show ?thesis
  proof cases
    case 1
    then show ?thesis using ids pos by (auto simp: lineage_def)
  next
    case 2
    have *: "ids ! u = run_id (runs ! i)" using ids 2 by (simp add: nth_append)
    have "0 < ids ! u" using * pos 2(2) nth_mem by metis
    then have "(ids ! u, y) \<in> lineage runs \<longleftrightarrow> (\<exists>r \<in> set runs. run_id r = ids ! u \<and> y = run_parent r)"
      by (auto simp: lineage_def)
    also have "\<dots> \<longleftrightarrow> y = run_parent (runs ! i)"
    proof
      assume "\<exists>r \<in> set runs. run_id r = ids ! u \<and> y = run_parent r"
      then obtain j where j: "j < length runs" "run_id (runs ! j) = ids ! u" "y = run_parent (runs ! j)"
        by (auto simp: in_set_conv_nth)
      have "distinct (map run_id runs)" using dist ids by simp
      then have "j = i" using j(1,2) 2(2) * by (simp add: distinct_conv_nth) metis
      then show "y = run_parent (runs ! i)" using j(3) by simp
    qed (use 2(2) * in auto)
    finally show ?thesis using parent_index_run(3) [OF ok 2(2)] 2(1) by simp
  next
    case 3
    have "ids ! u \<in> set rest" using ids 3 u by (auto simp: nth_Cons' nth_append)
    then have neg: "ids ! u < 0" "ids ! u \<in> run_parent ` set runs" using rest by auto
    have "parent_index runs ix u = 0" using 3 by (simp add: parent_index_def)
    then show ?thesis using neg pos ids 3 by (force simp: lineage_def)
  qed
qed

lemma lineage_above:
  assumes ok: "tables_ok runs ids ix ch" and "u < length ids" "v < length ids"
  shows "(ids ! u, ids ! v) \<in> (lineage runs)\<^sup>* \<longleftrightarrow> lies_above (parent_index runs ix) v u"
proof
  let ?par = "parent_index runs ix"
  have par: "?par w < length ids" if "w < length ids" for w
    using treeD(3) [OF tables_tree(1) [OF ok]] that tables_tree(2) [OF ok] by simp
  show "(ids ! u, ids ! v) \<in> (lineage runs)\<^sup>*" if "lies_above ?par v u"
    using that assms(2)
  proof (induction rule: lies_above.induct)
    case (above_up u v)
    then have "(ids ! u, ids ! ?par u) \<in> lineage runs" using lineage_step [OF ok above_up.prems] by simp
    then show ?case using above_up.IH [OF par [OF above_up.prems]] by (rule converse_rtrancl_into_rtrancl)
  qed simp
  show "lies_above ?par v u" if "(ids ! u, ids ! v) \<in> (lineage runs)\<^sup>*"
    using that assms(2)
  proof (induction "ids ! u" arbitrary: u rule: converse_rtrancl_induct)
    case base
    have "distinct ids" using ok by (simp add: tables_ok_def index_ok_def)
    then have "v = u" using base assms(3) by (simp add: nth_eq_iff_index_eq)
    then show ?case by simp
  next
    case (step z)
    then have z: "0 < u" "z = ids ! ?par u" using lineage_step [OF ok step.prems] by simp_all
    from step.hyps(3) [OF z(2) par [OF step.prems]] show ?case by (rule above_up [OF z(1)])
  qed
qed

section \<open>One ancestor\<close>

lemma no_way_back:
  assumes single: "\<And>x y z. (x, y) \<in> R \<Longrightarrow> (x, z) \<in> R \<Longrightarrow> y = z" and top: "t \<notin> Domain R"
    and "(x, t) \<in> R\<^sup>*"
  shows "(x, x) \<notin> R\<^sup>+"
  using assms(3)
proof (induction rule: converse_rtrancl_induct)
  case base
  then show ?case using top by (auto dest: tranclD)
next
  case (step x y)
  show ?case
  proof
    assume "(x, x) \<in> R\<^sup>+"
    then obtain z where z: "(x, z) \<in> R" "(z, x) \<in> R\<^sup>*" by (auto dest: tranclD)
    then have "(y, x) \<in> R\<^sup>*" using single [OF z(1) step.hyps(1)] by simp
    then have "(y, y) \<in> R\<^sup>+" using step.hyps(1) by (rule rtrancl_into_trancl1)
    then show False using step.IH by blast
  qed
qed

lemma lineage_single:
  assumes "\<forall>r \<in> set runs. 0 < run_id r" "distinct (map run_id runs)" "(x, y) \<in> lineage runs" "(x, z) \<in> lineage runs"
  shows "y = z"
proof -
  have "r = q" if "r \<in> set runs" "q \<in> set runs" "run_id r = run_id q" for r q
    using that assms(2) by (auto simp: distinct_map inj_on_def)
  then show ?thesis using assms(1,3,4) by (force simp: lineage_def)
qed

lemma node_reaches_root:
  assumes "valid_history runs" "x \<in> history_nodes runs"
  shows "(x, 0) \<in> (lineage runs)\<^sup>*"
proof -
  have "(run_parent r, 0) \<in> lineage runs" if "r \<in> set runs" "run_parent r < 0" for r
    using that by (auto simp: lineage_def)
  then show ?thesis using assms by (auto simp: valid_history_def history_nodes_def)
qed

lemma lowest_common_unique:
  assumes valid: "valid_history runs" and "a \<in> history_nodes runs" "lowest_common runs a b c" "lowest_common runs a b d"
  shows "c = d"
proof -
  let ?L = "lineage runs"
  have pos: "\<forall>r \<in> set runs. 0 < run_id r" and dist: "distinct (map run_id runs)" using valid by (simp_all add: valid_history_def)
  have zero: "0 \<notin> Domain ?L" using pos by (auto simp: lineage_def)
  have single: "(x, y) \<in> ?L \<Longrightarrow> (x, z) \<in> ?L \<Longrightarrow> y = z" for x y z by (rule lineage_single [OF pos dist])
  have "(a, 0) \<in> ?L\<^sup>*" by (rule node_reaches_root [OF valid assms(2)])
  moreover have "(a, c) \<in> ?L\<^sup>*" using assms(3) by (simp add: lowest_common_def)
  ultimately have "(c, 0) \<in> ?L\<^sup>*"
  proof (induction a rule: converse_rtrancl_induct)
    case base
    then have "c = 0" using zero by (metis Domain.DomainI converse_rtranclE)
    then show ?case by simp
  next
    case (step x y)
    show ?case
    proof (cases "x = c")
      case True
      then show ?thesis using step.hyps by (meson converse_rtrancl_into_rtrancl)
    next
      case False
      then obtain z where z: "(x, z) \<in> ?L" "(z, c) \<in> ?L\<^sup>*" using step.prems by (metis converse_rtranclE)
      then show ?thesis using step.IH single [OF z(1) step.hyps(1)] by simp
    qed
  qed
  from no_way_back [OF single zero this] have "(c, c) \<notin> ?L\<^sup>+" .
  moreover have "(c, d) \<in> ?L\<^sup>*" "(d, c) \<in> ?L\<^sup>*" using assms(3,4) by (auto simp: lowest_common_def)
  ultimately show ?thesis by (metis rtranclD rtrancl_trancl_trancl)
qed

lemma common_ancestor_lowest:
  assumes ok: "tables_ok runs ids ix ch" and ab: "a < length ids" "b < length ids"
    and c: "common_ancestor (parent_index runs ix) a b c" and up: "\<forall>u < length ids. lies_above (parent_index runs ix) 0 u"
  shows "c < length ids" "lowest_common runs (ids ! a) (ids ! b) (ids ! c)"
proof -
  let ?par = "parent_index runs ix"
  have par: "?par w < length ids" if "w < length ids" for w
    using treeD(3) [OF tables_tree(1) [OF ok]] that tables_tree(2) [OF ok] by simp
  have below: "v < length ids" if "lies_above ?par v u" "u < length ids" for u v
    using that by (induction rule: lies_above.induct) (auto intro: par)
  show len: "c < length ids" using below c ab(1) by (auto simp: common_ancestor_def)
  have named: "\<exists>v < length ids. y = ids ! v" if "(ids ! u, y) \<in> (lineage runs)\<^sup>*" "u < length ids" for u y
    using that
  proof (induction rule: rtrancl_induct)
    case (step y z)
    then obtain v where v: "v < length ids" "y = ids ! v" by blast
    then show ?case using lineage_step [OF ok v(1), of z] step.hyps(2) par [OF v(1)] by auto
  qed auto
  show "lowest_common runs (ids ! a) (ids ! b) (ids ! c)"
    unfolding lowest_common_def
  proof (intro conjI allI impI)
    show "(ids ! a, ids ! c) \<in> (lineage runs)\<^sup>*" "(ids ! b, ids ! c) \<in> (lineage runs)\<^sup>*"
      using lineage_above [OF ok _ len] ab c by (auto simp: common_ancestor_def)
    fix y assume y: "(ids ! a, y) \<in> (lineage runs)\<^sup>* \<and> (ids ! b, y) \<in> (lineage runs)\<^sup>*"
    then obtain v where v: "v < length ids" "y = ids ! v" using named ab(1) by blast
    then show "(ids ! c, y) \<in> (lineage runs)\<^sup>*"
      using y c lineage_above [OF ok _ v(1)] ab len by (auto simp: common_ancestor_def)
  qed
qed

lemma missing_parent:
  assumes "index_ok ids ix" "set ids = history_nodes runs" "r \<in> set runs" "ix (run_parent r) = None"
    "\<forall>q \<in> set runs. 0 < run_id q" "distinct (map run_id runs)"
  shows "\<not> valid_history runs"
proof
  assume "valid_history runs"
  then have "(run_id r, 0) \<in> (lineage runs)\<^sup>*" "0 < run_id r" using assms(3) by (auto simp: valid_history_def)
  then obtain y where y: "(run_id r, y) \<in> lineage runs" "(y, 0) \<in> (lineage runs)\<^sup>*" by (metis converse_rtranclE less_irrefl)
  have "(run_id r, run_parent r) \<in> lineage runs" using assms(3) by (auto simp: lineage_def)
  then have "y = run_parent r" using lineage_single [OF assms(5,6) y(1)] by simp
  moreover have "run_parent r \<notin> history_nodes runs" using index_ok_None [OF assms(1)] assms(2,4) by simp
  moreover have "y \<in> history_nodes runs"
    using y(2)
  proof (cases rule: converse_rtranclE)
    case (step z)
    then show ?thesis by (auto simp: lineage_def history_nodes_def)
  qed (simp add: history_nodes_def)
  ultimately show False by simp
qed

lemma valid_iff_above:
  assumes ok: "tables_ok runs ids ix ch"
  shows "valid_history runs \<longleftrightarrow> (\<forall>u < length ids. lies_above (parent_index runs ix) 0 u)"
proof -
  obtain rest where ids: "ids = 0 # map run_id runs @ rest" using ok by (auto simp: tables_ok_def)
  have root: "ids ! 0 = 0" "0 < length ids" using ids by simp_all
  have pos: "\<forall>r \<in> set runs. 0 < run_id r" and nodes: "set ids = history_nodes runs" and "distinct ids"
    using ok by (auto simp: tables_ok_def index_ok_def)
  then have dist: "distinct (map run_id runs)" using ids by simp
  show ?thesis
  proof
    assume v: "valid_history runs"
    show "\<forall>u < length ids. lies_above (parent_index runs ix) 0 u"
    proof (intro allI impI)
      fix u assume u: "u < length ids"
      then have "ids ! u \<in> history_nodes runs" using nodes nth_mem by blast
      then have "(ids ! u, ids ! 0) \<in> (lineage runs)\<^sup>*"
        using node_reaches_root [OF v] root by simp
      then show "lies_above (parent_index runs ix) 0 u" using lineage_above [OF ok u root(2)] by simp
    qed
  next
    assume all: "\<forall>u < length ids. lies_above (parent_index runs ix) 0 u"
    have "(run_id r, 0) \<in> (lineage runs)\<^sup>*" if "r \<in> set runs" for r
    proof -
      have "run_id r \<in> set ids" using that ids by simp
      then obtain u where "u < length ids" "ids ! u = run_id r" by (auto simp: in_set_conv_nth)
      then show ?thesis using all lineage_above [OF ok _ root(2), of u] root(1) by simp
    qed
    then show "valid_history runs" using pos dist by (simp add: valid_history_def)
  qed
qed

lemma tarjan_lca_result:
  "\<exists>res. tarjan_lca runs a b = Some res \<and>
     (\<forall>c. res = Some c \<longleftrightarrow> valid_history runs \<and> a \<in> history_nodes runs \<and> b \<in> history_nodes runs \<and>
        lowest_common runs a b c \<and> \<not> ((\<exists>r \<in> set runs. run_parent r < 0) \<and> c = 0))"
proof (cases "index_runs runs ([0], [0 \<mapsto> 0])")
  case None
  have "index_ok [0] [0 \<mapsto> 0]" by (auto simp: index_ok_def)
  from index_runs_None [OF this None] have "\<not> valid_history runs" by (force simp: valid_history_def)
  then show ?thesis using None by (simp add: tarjan_lca_def)
next
  case (Some t)
  obtain ids ix where t: "index_roots runs t = (ids, ix)" by fastforce
  obtain rest where ids: "ids = 0 # map run_id runs @ rest" and ix: "index_ok ids ix" and pos: "\<forall>r \<in> set runs. 0 < run_id r"
    and rest: "set rest = {x \<in> run_parent ` set runs. x < 0}" and nodes: "set ids = history_nodes runs"
    using tables [OF Some t] by blast
  have dist: "distinct (map run_id runs)" using ix ids by (simp add: index_ok_def)
  show ?thesis
  proof (cases "ix a = None \<or> ix b = None")
    case True
    then have "a \<notin> history_nodes runs \<or> b \<notin> history_nodes runs" using index_ok_None [OF ix] nodes by auto
    moreover have "tarjan_lca runs a b = Some None" using True Some t by (auto simp: tarjan_lca_def split: option.splits)
    ultimately show ?thesis by auto
  next
    case False
    then obtain i j where ij: "ix a = Some i" "ix b = Some j" by auto
    then have at: "i < length ids" "ids ! i = a" "j < length ids" "ids ! j = b" using ix by (auto simp: index_ok_def)
    have known: "a \<in> history_nodes runs" "b \<in> history_nodes runs" using at nth_mem nodes by blast+
    let ?ch = "list_children ix runs 0 ((replicate (length ids) [])[0 := [length runs + 1..<length ids]])"
    show ?thesis
    proof (cases ?ch)
      case None
      then obtain r where "r \<in> set runs" "ix (run_parent r) = None" using list_children_None by blast
      from missing_parent [OF ix nodes this pos dist] have "\<not> valid_history runs" .
      moreover have "tarjan_lca runs a b = Some None" using None Some t ij by (simp add: tarjan_lca_def)
      ultimately show ?thesis by simp
    next
      case (Some ch)
      let ?par = "parent_index runs ix"
      have ok: "tables_ok runs ids ix ch" using ix pos nodes ids rest Some by (auto simp: tables_ok_def)
      note tree = tables_tree [OF ok]
      have ij': "i < length ch" "j < length ch" using at tree(2) by simp_all
      obtain s where s: "walk_run (2 * length ids) ch i j (new_walk (length ids)) = Some s"
        "visited s = length ids \<longleftrightarrow> (\<forall>u < length ids. lies_above ?par 0 u)"
        "visited s = length ids \<Longrightarrow> \<exists>c. answer_node s = Some c \<and> common_ancestor ?par i j c"
        using walk_result [OF tree(1) ij'] tree(2) by metis
      have lca: "tarjan_lca runs a b = Some (if visited s \<noteq> length ids then None
          else case answer_node s of None \<Rightarrow> None
            | Some c \<Rightarrow> if list_ex (\<lambda>r. run_parent r < 0) runs \<and> ids ! c = 0 then None else Some (ids ! c))"
        using \<open>index_runs runs ([0], [0 \<mapsto> 0]) = Some t\<close> t ij Some s(1)
        by (simp add: tarjan_lca_def split: option.split)
      note valid = valid_iff_above [OF ok]
      show ?thesis
      proof (cases "visited s = length ids")
        case False
        then show ?thesis using lca valid s(2) by simp
      next
        case True
        then obtain c where c: "answer_node s = Some c" "common_ancestor ?par i j c" using s(3) by blast
        have up: "\<forall>u < length ids. lies_above ?par 0 u" using True s(2) by simp
        have low: "lowest_common runs a b (ids ! c)"
          using common_ancestor_lowest(2) [OF ok at(1,3) c(2) up] at by simp
        have v: "valid_history runs" using up valid by simp
        have "lowest_common runs a b d \<longleftrightarrow> d = ids ! c" for d
          using lowest_common_unique [OF v known(1)] low by blast
        then show ?thesis using lca True c(1) v known by (auto simp: list_ex_iff)
      qed
    qed
  qed
qed

text \<open>(C16) The search always ends. It gives an identifier exactly when the ancestry is sound, both nodes are known and
  not in the trees of two base models; the identifier is then the lowest common ancestor of the two.\<close>

theorem common_ancestor_found:
  "\<exists>res. tarjan_lca runs a b = Some res \<and>
     (\<forall>c. res = Some c \<longleftrightarrow> valid_history runs \<and> a \<in> history_nodes runs \<and> b \<in> history_nodes runs \<and>
        lowest_common runs a b c \<and> \<not> ((\<exists>r \<in> set runs. run_parent r < 0) \<and> c = 0))"
  by (rule tarjan_lca_result)

end
