(* ===== verification/History_Bases.thy ===== *)
theory History_Bases
imports History_Properties
begin

text \<open>
  The base models of the training history (service/src/settings/lora_history_base.hpp) and the part of the
  history tree that asks for a common ancestor (service/src/settings/lora_history_tree.cpp): every base model
  gets a negative identifier of its own, the runs without a parent hang under the one with their fingerprint,
  and the footer of the tree offers the common ancestor of the two latest runs.
\<close>

section \<open>Base models\<close>

text \<open>Of a run only the fields these functions read; of a base model all of them.\<close>

record history_run =
  history_id :: int
  history_parent :: int
  base_fingerprint :: "u8 list"
  base_revision :: "u8 list"

record history_base =
  base_id :: int
  fingerprint :: "u8 list"
  revision_name :: "u8 list"
  output_path :: u16string
  current_base :: bool

definition find_lora_base_selection :: "int list \<Rightarrow> u8 list list \<Rightarrow> int \<Rightarrow> u8 list \<Rightarrow> nat" where
  "find_lora_base_selection ids fingerprints run root =
     (if 0 < run
      then (case find_index (\<lambda>x. x = run) ids of Some i \<Rightarrow> i | None \<Rightarrow> 0)
      else if root \<noteq> []
      then (case find_index (\<lambda>x. x = root) fingerprints of Some i \<Rightarrow> i | None \<Rightarrow> 0)
      else 0)"

definition named_base :: "history_base list \<Rightarrow> u8 list \<Rightarrow> bool" where
  "named_base bases name \<longleftrightarrow> list_ex (\<lambda>b. fingerprint b = name) bases"

definition next_base_id :: "history_base list \<Rightarrow> int" where
  "next_base_id bases = - 2 - int (length bases)"

text \<open>The optional current base is changed in place; the catalog loop reads the changed one.\<close>

definition marked_current :: "history_base option \<Rightarrow> history_base option" where
  "marked_current cur =
     (case cur of
        Some b \<Rightarrow> if fingerprint b \<noteq> [] then Some (b\<lparr>base_id := - 2, current_base := True\<rparr>) else Some b
      | None \<Rightarrow> None)"

definition first_bases :: "history_base option \<Rightarrow> history_base list" where
  "first_bases cur = (case marked_current cur of Some b \<Rightarrow> if fingerprint b \<noteq> [] then [b] else [] | None \<Rightarrow> [])"

definition add_known :: "history_base option \<Rightarrow> history_base list \<Rightarrow> history_base \<Rightarrow> history_base list" where
  "add_known cur bases known =
     (if fingerprint known = [] \<or> named_base bases (fingerprint known) then bases
      else bases @ [known\<lparr>base_id := next_base_id bases,
        current_base := (case cur of Some b \<Rightarrow> fingerprint known = fingerprint b | None \<Rightarrow> False)\<rparr>])"

definition add_run_base :: "history_base list \<Rightarrow> history_run \<Rightarrow> history_base list" where
  "add_run_base bases r =
     (if named_base bases (base_fingerprint r) then bases
      else bases @ [\<lparr>base_id = next_base_id bases, fingerprint = base_fingerprint r, revision_name = base_revision r,
        output_path = [], current_base = False\<rparr>])"

definition lora_history_bases :: "history_run list \<Rightarrow> history_base option \<Rightarrow> history_base list \<Rightarrow> history_base list" where
  "lora_history_bases runs cur catalog =
     foldl add_run_base (foldl (add_known (marked_current cur)) (first_bases cur) catalog) runs"

section \<open>The tree\<close>

definition tree_bases :: "history_run list \<Rightarrow> history_base option \<Rightarrow> history_base list \<Rightarrow> history_base list" where
  "tree_bases runs cur catalog =
     (let bases = lora_history_bases runs cur catalog in
      if bases = []
      then [\<lparr>base_id = 0, fingerprint = [], revision_name = [], output_path = [], current_base = False\<rparr>] else bases)"

text \<open>\<open>emplace\<close> keeps the first base of a fingerprint; \<open>at\<close> throws for one that has none.\<close>

fun root_by_fingerprint :: "history_base list \<Rightarrow> u8 list \<Rightarrow> int option" where
  "root_by_fingerprint [] name = None"
| "root_by_fingerprint (b # bases) name = (if fingerprint b = name then Some (base_id b) else root_by_fingerprint bases name)"

definition root_at :: "history_base list \<Rightarrow> u8 list \<Rightarrow> exn + int" where
  "root_at bases name = (case root_by_fingerprint bases name of Some i \<Rightarrow> Inr i | None \<Rightarrow> Inl Out_of_range)"

definition drawn_parent :: "history_base list \<Rightarrow> history_run list \<Rightarrow> history_run \<Rightarrow> exn + int" where
  "drawn_parent bases runs r =
     (if history_parent r \<noteq> 0 \<and> list_ex (\<lambda>q. history_id q = history_parent r) runs then Inr (history_parent r)
      else root_at bases (base_fingerprint r))"

definition lineage_entry :: "history_base list \<Rightarrow> history_run \<Rightarrow> exn + lora_history_parent" where
  "lineage_entry bases r =
     rbind (if history_parent r \<noteq> 0 then Inr (history_parent r) else root_at bases (base_fingerprint r))
       (\<lambda>p. Inr \<lparr>run_id = history_id r, run_parent = p\<rparr>)"

text \<open>The node the footer's button selects, when there is a button.\<close>

definition ancestor_button :: "history_base list \<Rightarrow> history_run list \<Rightarrow> exn + int option" where
  "ancestor_button bases runs =
     (if length runs < 2 then Inr None
      else
        rbind (mapR (lineage_entry bases) runs) (\<lambda>entries.
          let latest = history_id (last runs); previous = history_id (runs ! (length runs - 2)) in
          case tarjan_lca entries latest previous of
            None \<Rightarrow> Inl Runtime_error
          | Some found \<Rightarrow>
              Inr (case found of
                     Some c \<Rightarrow> if c \<noteq> latest \<and> c \<noteq> previous then Some c else None
                   | None \<Rightarrow> None)))"

section \<open>Every run has its base\<close>

definition bases_ok :: "history_base list \<Rightarrow> bool" where
  "bases_ok bases \<longleftrightarrow> map base_id bases = map (\<lambda>i. - 2 - int i) [0..<length bases] \<and> distinct (map fingerprint bases)"

lemma named_base_iff: "named_base bases name \<longleftrightarrow> name \<in> fingerprint ` set bases"
  by (auto simp: named_base_def list_ex_iff)

lemma bases_ok_add:
  assumes "bases_ok bases" "\<not> named_base bases (fingerprint b)" "base_id b = next_base_id bases"
  shows "bases_ok (bases @ [b])"
  using assms by (auto simp: bases_ok_def named_base_iff next_base_id_def)

lemma bases_ok_first: "bases_ok (first_bases cur)"
  by (auto simp: first_bases_def marked_current_def bases_ok_def split: option.split)

lemma bases_ok_known: "bases_ok bases \<Longrightarrow> bases_ok (foldl (add_known cur) bases catalog)"
proof (induction catalog arbitrary: bases)
  case (Cons b catalog)
  have "bases_ok (add_known cur bases b)" using Cons.prems by (auto simp: add_known_def intro!: bases_ok_add)
  from Cons.IH [OF this] show ?case by simp
qed simp

lemma bases_ok_runs: "bases_ok bases \<Longrightarrow> bases_ok (foldl add_run_base bases runs)"
proof (induction runs arbitrary: bases)
  case (Cons r runs)
  have "bases_ok (add_run_base bases r)" using Cons.prems by (auto simp: add_run_base_def intro!: bases_ok_add)
  from Cons.IH [OF this] show ?case by simp
qed simp

lemma lora_history_bases_ok: "bases_ok (lora_history_bases runs cur catalog)"
  unfolding lora_history_bases_def by (intro bases_ok_runs bases_ok_known bases_ok_first)

lemma run_bases_grow: "named_base bases name \<Longrightarrow> named_base (foldl add_run_base bases runs) name"
  by (induction runs arbitrary: bases) (auto simp: add_run_base_def named_base_iff)

lemma run_bases_cover: "r \<in> set runs \<Longrightarrow> named_base (foldl add_run_base bases runs) (base_fingerprint r)"
proof (induction runs arbitrary: bases)
  case (Cons q runs)
  have "named_base (add_run_base bases q) (base_fingerprint q)" by (auto simp: add_run_base_def named_base_iff)
  then show ?case using Cons run_bases_grow by auto
qed simp

lemma root_by_fingerprint_Some:
  "name \<in> fingerprint ` set bases \<Longrightarrow> \<exists>b \<in> set bases. root_by_fingerprint bases name = Some (base_id b) \<and> fingerprint b = name"
  by (induction bases) auto

lemma tree_root:
  assumes "r \<in> set runs"
  shows "\<exists>b \<in> set (lora_history_bases runs cur catalog). fingerprint b = base_fingerprint r \<and> base_id b \<le> - 2 \<and>
    root_at (tree_bases runs cur catalog) (base_fingerprint r) = Inr (base_id b)"
proof -
  let ?bases = "lora_history_bases runs cur catalog"
  have "base_fingerprint r \<in> fingerprint ` set ?bases"
    using run_bases_cover [OF assms] by (simp add: lora_history_bases_def named_base_iff)
  then obtain b where b: "b \<in> set ?bases" "root_by_fingerprint ?bases (base_fingerprint r) = Some (base_id b)"
    "fingerprint b = base_fingerprint r" using root_by_fingerprint_Some by blast
  have "base_id b \<in> set (map base_id ?bases)" using b(1) by simp
  also have "set (map base_id ?bases) = set (map (\<lambda>i. - 2 - int i) [0..<length ?bases])"
    using lora_history_bases_ok [of runs cur catalog] by (simp only: bases_ok_def)
  finally have "base_id b \<le> - 2" by auto
  moreover have "?bases \<noteq> []" using b(1) by auto
  ultimately show ?thesis using b by (auto simp: tree_bases_def root_at_def Let_def)
qed

lemma tree_bases_some: "r \<in> set runs \<Longrightarrow> tree_bases runs cur catalog = lora_history_bases runs cur catalog"
  using tree_root [of r runs cur catalog] by (auto simp: tree_bases_def Let_def)

lemma bases_ok_ids:
  assumes "bases_ok bases"
  shows "distinct (map base_id bases)" "\<And>b. b \<in> set bases \<Longrightarrow> base_id b < 0"
proof -
  have ids: "map base_id bases = map (\<lambda>i. - 2 - int i) [0..<length bases]" using assms by (simp add: bases_ok_def)
  show "distinct (map base_id bases)" unfolding ids by (simp add: distinct_map inj_on_def)
  fix b assume "b \<in> set bases"
  then have "base_id b \<in> set (map base_id bases)" by simp
  then show "base_id b < 0" unfolding ids by auto
qed

text \<open>(C17) The base models of the tree have identifiers of their own, all negative, and different fingerprints.
  A run whose parent is among the runs is drawn under that parent, and every other run under the base
  model it was trained from; no look-up of a base model throws.\<close>

theorem every_run_has_its_base:
  assumes "r \<in> set runs" "bases = tree_bases runs cur catalog"
  shows "(\<forall>b \<in> set bases. base_id b < 0) \<and> distinct (map base_id bases) \<and> distinct (map fingerprint bases) \<and>
    (if history_parent r \<noteq> 0 \<and> history_parent r \<in> history_id ` set runs
     then drawn_parent bases runs r = Inr (history_parent r)
     else \<exists>b \<in> set bases. fingerprint b = base_fingerprint r \<and> drawn_parent bases runs r = Inr (base_id b))"
proof -
  have ok: "bases_ok bases" using assms tree_bases_some lora_history_bases_ok by simp
  have known: "list_ex (\<lambda>q. history_id q = history_parent r) runs \<longleftrightarrow> history_parent r \<in> history_id ` set runs"
    by (force simp: list_ex_iff image_iff)
  obtain b where "b \<in> set bases" "fingerprint b = base_fingerprint r" "root_at bases (base_fingerprint r) = Inr (base_id b)"
    using tree_root [OF assms(1), of cur catalog] tree_bases_some [OF assms(1), of cur catalog] assms(2) by auto
  then have "if history_parent r \<noteq> 0 \<and> history_parent r \<in> history_id ` set runs
     then drawn_parent bases runs r = Inr (history_parent r)
     else \<exists>b \<in> set bases. fingerprint b = base_fingerprint r \<and> drawn_parent bases runs r = Inr (base_id b)"
    unfolding drawn_parent_def known by auto
  moreover have "distinct (map fingerprint bases)" using ok by (simp add: bases_ok_def)
  ultimately show ?thesis using bases_ok_ids [OF ok] by blast
qed

definition orphan_run :: history_run where
  "orphan_run = \<lparr>history_id = 1, history_parent = 7, base_fingerprint = [65], base_revision = []\<rparr>"

definition child_run :: history_run where
  "child_run = \<lparr>history_id = 2, history_parent = 1, base_fingerprint = [66], base_revision = []\<rparr>"

theorem every_run_has_its_base_witness:
  "drawn_parent (tree_bases [orphan_run, child_run] None []) [orphan_run, child_run] child_run = Inr 1 \<and>
    (\<exists>b \<in> set (tree_bases [orphan_run, child_run] None []).
      drawn_parent (tree_bases [orphan_run, child_run] None []) [orphan_run, child_run] orphan_run = Inr (base_id b))"
  using every_run_has_its_base [of child_run "[orphan_run, child_run]" _ None "[]"]
    every_run_has_its_base [of orphan_run "[orphan_run, child_run]" _ None "[]"]
  by (auto simp: orphan_run_def child_run_def)

section \<open>The button\<close>

text \<open>The ancestry the tree hands to the search.\<close>

definition tree_lineage :: "history_base list \<Rightarrow> history_run list \<Rightarrow> lora_history_parent list" where
  "tree_lineage bases runs =
     map (\<lambda>r. \<lparr>run_id = history_id r,
       run_parent = (if history_parent r \<noteq> 0 then history_parent r else the (root_by_fingerprint bases (base_fingerprint r)))\<rparr>) runs"

lemma lineage_entries:
  "mapR (lineage_entry (tree_bases runs cur catalog)) runs = Inr (tree_lineage (tree_bases runs cur catalog) runs)"
  unfolding tree_lineage_def
proof (rule mapR_Inr)
  fix r assume "r \<in> set runs"
  from tree_root [OF this, of cur catalog] obtain b :: history_base where
    "root_at (tree_bases runs cur catalog) (base_fingerprint r) = Inr (base_id b)" by blast
  then show "lineage_entry (tree_bases runs cur catalog) r = Inr \<lparr>run_id = history_id r,
    run_parent = (if history_parent r \<noteq> 0 then history_parent r
      else the (root_by_fingerprint (tree_bases runs cur catalog) (base_fingerprint r)))\<rparr>"
    by (auto simp: lineage_entry_def root_at_def split: option.splits)
qed

lemma lineage_node:
  assumes "r \<in> set runs"
  shows "history_id r \<in> history_nodes (tree_lineage bases runs)"
proof -
  have "history_id r \<in> run_id ` set (tree_lineage bases runs)" using assms by (simp add: tree_lineage_def image_image)
  then show ?thesis by (simp add: history_nodes_def)
qed

lemma lineage_parent_nonzero:
  assumes "e \<in> set (tree_lineage (tree_bases runs cur catalog) runs)"
  shows "run_parent e \<noteq> 0"
proof -
  obtain r where r: "r \<in> set runs" "e = \<lparr>run_id = history_id r, run_parent = (if history_parent r \<noteq> 0 then history_parent r
      else the (root_by_fingerprint (tree_bases runs cur catalog) (base_fingerprint r)))\<rparr>"
    using assms by (auto simp: tree_lineage_def)
  from tree_root [OF r(1), of cur catalog] obtain b :: history_base where
    "root_at (tree_bases runs cur catalog) (base_fingerprint r) = Inr (base_id b)" "base_id b \<le> - 2" by blast
  then show ?thesis using r(2) by (auto simp: root_at_def split: option.splits)
qed

lemma sound_lineage_has_base:
  assumes "valid_history entries" "entries \<noteq> []" "\<forall>e \<in> set entries. run_parent e \<noteq> 0"
  shows "\<exists>e \<in> set entries. run_parent e < 0"
proof -
  obtain e where e: "e \<in> set entries" using assms(2) by (cases entries) auto
  then have "(run_id e, 0) \<in> (lineage entries)\<^sup>*" "run_id e \<noteq> 0" using assms(1) by (auto simp: valid_history_def)
  then obtain y where "(y, 0) \<in> lineage entries" by (metis rtranclE)
  then show ?thesis using assms(3) by (auto simp: lineage_def)
qed

text \<open>(C20) The footer of the tree offers a node exactly when the recorded ancestry is sound and the two latest runs
  have a lowest common ancestor below the virtual root that is neither of the two; nothing is thrown.\<close>

theorem button_selects_common_ancestor:
  "\<exists>res. ancestor_button (tree_bases runs cur catalog) runs = Inr res \<and>
     (\<forall>c. res = Some c \<longleftrightarrow> 2 \<le> length runs \<and> valid_history (tree_lineage (tree_bases runs cur catalog) runs) \<and>
        lowest_common (tree_lineage (tree_bases runs cur catalog) runs) (history_id (last runs))
          (history_id (runs ! (length runs - 2))) c \<and>
        c \<noteq> 0 \<and> c \<noteq> history_id (last runs) \<and> c \<noteq> history_id (runs ! (length runs - 2)))"
proof (cases "length runs < 2")
  case False
  let ?entries = "tree_lineage (tree_bases runs cur catalog) runs"
  let ?a = "history_id (last runs)" and ?b = "history_id (runs ! (length runs - 2))"
  have ne: "runs \<noteq> []" "length runs - 2 < length runs" using False by auto
  have nodes: "?a \<in> history_nodes ?entries" "?b \<in> history_nodes ?entries"
    using lineage_node [OF last_in_set [OF ne(1)]] lineage_node [OF nth_mem [OF ne(2)]] by blast+
  obtain res where res: "tarjan_lca ?entries ?a ?b = Some res"
    "\<And>c. res = Some c \<longleftrightarrow> valid_history ?entries \<and> ?a \<in> history_nodes ?entries \<and> ?b \<in> history_nodes ?entries \<and>
        lowest_common ?entries ?a ?b c \<and> \<not> ((\<exists>r \<in> set ?entries. run_parent r < 0) \<and> c = 0)"
    using tarjan_lca_result [of ?entries ?a ?b] by blast
  have "?entries \<noteq> []" using False by (auto simp: tree_lineage_def)
  then have forest: "valid_history ?entries \<Longrightarrow> \<exists>r \<in> set ?entries. run_parent r < 0"
    using sound_lineage_has_base lineage_parent_nonzero by blast
  define shown where "shown = (case res of Some c \<Rightarrow> if c \<noteq> ?a \<and> c \<noteq> ?b then Some c else None | None \<Rightarrow> None)"
  have button: "ancestor_button (tree_bases runs cur catalog) runs = Inr shown"
    using False res(1) by (simp add: ancestor_button_def lineage_entries shown_def)
  have shown: "shown = Some c \<longleftrightarrow> res = Some c \<and> c \<noteq> ?a \<and> c \<noteq> ?b" for c by (auto simp: shown_def split: option.split)
  have found: "res = Some c \<longleftrightarrow> valid_history ?entries \<and> lowest_common ?entries ?a ?b c \<and> c \<noteq> 0" for c
    using forest unfolding res(2) by (simp only: nodes simp_thms) blast
  have "2 \<le> length runs" using False by simp
  then show ?thesis unfolding button by (intro exI [of _ shown] conjI allI refl) (simp add: shown found)
qed (simp add: ancestor_button_def)

end
