(* ===== verification/Training_Database.thy ===== *)
theory Training_Database
  imports Training_Format History_Bases Complex_Main
begin

text \<open>
  The database of the training data (service/src/service/training_data_writer.cpp), its tables as lists in the
  order of their keys and its SQL statements as functions on them. A statement does what its SQL says: the CHECK
  and UNIQUE constraints refuse it, \<open>ON DELETE CASCADE\<close> follows a deletion, and a transaction that throws leaves
  the database as it was. Disk errors are not modelled. \<open>json_valid\<close> and \<open>json_remove\<close> are SQLite's own.
\<close>

record json_functions =
  json_valid :: "string \<Rightarrow> bool"
  without_strength :: "string \<Rightarrow> string option"

datatype training_state = Pending | Excluded | Trained

record commit_row =
  commit_id :: nat
  commit_event :: string
  commit_schema :: nat
  commit_context :: string
  commit_answer :: string
  commit_padding :: string
  commit_reading :: string
  commit_revised :: bool
  commit_time :: string
  commit_state :: training_state

text \<open>\<open>LoraTrainingRun\<close>. A \<open>double\<close> that is a number is a rational.\<close>

record lora_run =
  lora_id :: int
  lora_parent :: int
  lora_fingerprint :: string
  lora_revision :: string
  lora_adapter :: u16string
  lora_output :: u16string
  lora_completed :: string
  lora_records :: u64
  lora_cumulative :: u64
  lora_steps :: int
  lora_rank :: int
  lora_alpha :: rat
  lora_dropout :: rat
  lora_modules :: u16string
  lora_request :: string

record run_row =
  row_id :: int
  row_parent :: "int option"
  row_fingerprint :: "string option"
  row_revision :: string
  row_adapter :: string
  row_output :: string
  row_completed :: string
  row_records :: u64
  row_cumulative :: u64
  row_steps :: int
  row_rank :: int
  row_alpha :: rat
  row_dropout :: rat
  row_modules :: string
  row_request :: "string option"

record protection_row =
  salt_hex :: string
  key_hex :: string
  recording :: bool

record base_model =
  model_fingerprint :: string
  model_revision :: string
  model_path :: u16string

record base_row =
  base_key :: string
  base_row_revision :: string
  base_row_path :: string

record training_db =
  commits :: "commit_row list"
  next_commit :: nat
  runs :: "run_row list"
  next_run :: int
  run_commits :: "(int \<times> nat) list"
  legacy_unknown :: "nat list"
  base_models :: "base_row list"
  legacy_fingerprint :: "string option"
  protection :: "protection_row option"

definition new_database :: training_db where
  "new_database = \<lparr>commits = [], next_commit = 1, runs = [], next_run = 1, run_commits = [], legacy_unknown = [],
     base_models = [], legacy_fingerprint = None, protection = None\<rparr>"

section \<open>Which commits a run may train on\<close>

definition find_run :: "run_row list \<Rightarrow> int \<Rightarrow> run_row option" where
  "find_run rs i = find (\<lambda>r. row_id r = i) rs"

text \<open>The recursive query from a run up to its ancestors; each step goes to an older row.\<close>

fun lineage_up :: "nat \<Rightarrow> run_row list \<Rightarrow> int \<Rightarrow> int list" where
  "lineage_up 0 rs i = []"
| "lineage_up (Suc n) rs i =
     (case find_run rs i of
        None \<Rightarrow> []
      | Some r \<Rightarrow> i # (case row_parent r of None \<Rightarrow> [] | Some p \<Rightarrow> lineage_up n rs p))"

definition lineage_of :: "training_db \<Rightarrow> int \<Rightarrow> int list" where
  "lineage_of db base = lineage_up (length (runs db)) (runs db) base"

definition used_in :: "training_db \<Rightarrow> int list \<Rightarrow> nat \<Rightarrow> bool" where
  "used_in db up k = list_ex (\<lambda>(r, c). r \<in> set up \<and> c = k) (run_commits db)"

definition eligible :: "training_db \<Rightarrow> int \<Rightarrow> commit_row \<Rightarrow> bool" where
  "eligible db base c \<longleftrightarrow>
     commit_state c = Pending \<and> commit_id c \<notin> set (legacy_unknown db) \<and> \<not> used_in db (lineage_of db base) (commit_id c)"

definition validate_base_run :: "training_db \<Rightarrow> int \<Rightarrow> exn + unit" where
  "validate_base_run db base =
     (if base = 0 then Inr ()
      else if base < 0 \<or> find_run (runs db) base = None then Inl Invalid_argument
      else Inr ())"

definition available_count :: "training_db \<Rightarrow> int \<Rightarrow> exn + nat" where
  "available_count db base =
     rbind (validate_base_run db base) (\<lambda>_. Inr (length (filter (eligible db base) (commits db))))"

section \<open>Runs\<close>

definition read_run :: "text_codec \<Rightarrow> run_row \<Rightarrow> exn + lora_run" where
  "read_run U r =
     rbind (to_utf16 U (row_adapter r)) (\<lambda>adapter.
     rbind (to_utf16 U (row_output r)) (\<lambda>out.
     rbind (to_utf16 U (row_modules r)) (\<lambda>modules.
       Inr \<lparr>lora_id = row_id r, lora_parent = (case row_parent r of None \<Rightarrow> 0 | Some p \<Rightarrow> p),
         lora_fingerprint = (case row_fingerprint r of None \<Rightarrow> [] | Some f \<Rightarrow> f), lora_revision = row_revision r,
         lora_adapter = adapter, lora_output = out, lora_completed = row_completed r, lora_records = row_records r,
         lora_cumulative = row_cumulative r, lora_steps = row_steps r, lora_rank = row_rank r, lora_alpha = row_alpha r,
         lora_dropout = row_dropout r, lora_modules = modules,
         lora_request = (case row_request r of None \<Rightarrow> [] | Some q \<Rightarrow> q)\<rparr>)))"

definition last_row :: "run_row list \<Rightarrow> run_row option" where
  "last_row rs = (if rs = [] then None else Some (last rs))"

definition latest_lora_training_run :: "text_codec \<Rightarrow> training_db \<Rightarrow> exn + lora_run option" where
  "latest_lora_training_run U db =
     (case last_row (runs db) of None \<Rightarrow> Inr None | Some r \<Rightarrow> rbind (read_run U r) (\<lambda>x. Inr (Some x)))"

definition latest_run_of_base :: "text_codec \<Rightarrow> training_db \<Rightarrow> string \<Rightarrow> exn + lora_run option" where
  "latest_run_of_base U db label =
     (if label = [] then Inr None
      else case last_row (filter (\<lambda>r. row_fingerprint r = Some label) (runs db)) of
             None \<Rightarrow> Inr None
           | Some r \<Rightarrow> rbind (read_run U r) (\<lambda>x. Inr (Some x)))"

definition lora_training_run :: "text_codec \<Rightarrow> training_db \<Rightarrow> int \<Rightarrow> exn + lora_run option" where
  "lora_training_run U db i =
     (if i \<le> 0 then Inr None
      else case find_run (runs db) i of None \<Rightarrow> Inr None | Some r \<Rightarrow> rbind (read_run U r) (\<lambda>x. Inr (Some x)))"

definition lora_training_history :: "text_codec \<Rightarrow> training_db \<Rightarrow> lora_run list" where
  "lora_training_history U db = (case mapR (read_run U) (runs db) of Inl e \<Rightarrow> [] | Inr xs \<Rightarrow> xs)"

definition lower_hex :: "char \<Rightarrow> bool" where
  "lower_hex c \<longleftrightarrow> c \<in> set ''0123456789abcdef''"

definition is_fingerprint :: "string \<Rightarrow> bool" where
  "is_fingerprint s \<longleftrightarrow> length s = 64 \<and> list_all lower_hex s"

definition parent_total :: "training_db \<Rightarrow> lora_run \<Rightarrow> exn + u64" where
  "parent_total db run =
     (if lora_parent run = 0 then Inr 0
      else case find_run (runs db) (lora_parent run) of
             None \<Rightarrow> Inl Invalid_argument
           | Some p \<Rightarrow>
               if (case row_fingerprint p of None \<Rightarrow> [] | Some f \<Rightarrow> f) \<noteq> lora_fingerprint run \<or> row_revision p \<noteq> lora_revision run
               then Inl Invalid_argument else Inr (row_cumulative p))"

text \<open>The INSERT of a run: the row it makes, when the columns' checks accept it.\<close>

definition run_row_of :: "json_functions \<Rightarrow> text_codec \<Rightarrow> training_db \<Rightarrow> lora_run \<Rightarrow> exn + run_row" where
  "run_row_of J U db run =
     rbind (to_utf8 U (lora_adapter run)) (\<lambda>adapter.
     rbind (to_utf8 U (lora_output run)) (\<lambda>out.
     rbind (to_utf8 U (lora_modules run)) (\<lambda>modules.
       if lora_request run = [] then Inl Invalid_argument
       else case without_strength J (lora_request run) of
         None \<Rightarrow> Inl Runtime_error
       | Some request \<Rightarrow>
           if 0 < sint (lora_records run) \<and> 0 < sint (lora_cumulative run) \<and> 0 \<le> lora_steps run \<and> 0 < lora_rank run \<and>
              0 < lora_alpha run \<and> 0 \<le> lora_dropout run \<and> lora_dropout run < 1 \<and> json_valid J request
           then Inr \<lparr>row_id = next_run db, row_parent = (if lora_parent run = 0 then None else Some (lora_parent run)),
             row_fingerprint = Some (lora_fingerprint run), row_revision = lora_revision run, row_adapter = adapter,
             row_output = out, row_completed = lora_completed run, row_records = lora_records run,
             row_cumulative = lora_cumulative run, row_steps = lora_steps run, row_rank = lora_rank run,
             row_alpha = lora_alpha run, row_dropout = lora_dropout run, row_modules = modules, row_request = Some request\<rparr>
           else Inl Runtime_error)))"

fun link_commits :: "text_codec \<Rightarrow> int \<Rightarrow> int \<Rightarrow> u16string list \<Rightarrow> training_db \<Rightarrow> exn + training_db" where
  "link_commits U base run [] db = Inr db"
| "link_commits U base run (e # es) db =
     rbind (to_utf8 U e) (\<lambda>label.
       case find (\<lambda>c. eligible db base c \<and> commit_event c = label) (commits db) of
         None \<Rightarrow> Inl Runtime_error
       | Some c \<Rightarrow>
           if (run, commit_id c) \<in> set (run_commits db) then Inl Runtime_error
           else link_commits U base run es (db\<lparr>run_commits := run_commits db @ [(run, commit_id c)]\<rparr>))"

definition training_transaction ::
  "json_functions \<Rightarrow> text_codec \<Rightarrow> training_db \<Rightarrow> lora_run \<Rightarrow> u16string list \<Rightarrow> exn + training_db" where
  "training_transaction J U db run ids =
     rbind (parent_total db run) (\<lambda>inherited.
       if lora_records run = 0 \<or> lora_cumulative run \<noteq> inherited + lora_records run then Inl Invalid_argument
       else if \<not> is_fingerprint (lora_fingerprint run) then Inl Invalid_argument
       else rbind (run_row_of J U db run) (\<lambda>row.
         if lora_records run \<noteq> of_nat (length ids) then Inl Runtime_error
         else link_commits U (lora_parent run) (row_id row) ids
                (db\<lparr>runs := runs db @ [row], next_run := next_run db + 1\<rparr>)))"

definition complete_lora_training ::
  "json_functions \<Rightarrow> text_codec \<Rightarrow> training_db \<Rightarrow> lora_run \<Rightarrow> u16string list \<Rightarrow> bool \<times> training_db" where
  "complete_lora_training J U db run ids =
     (case training_transaction J U db run ids of Inl e \<Rightarrow> (False, db) | Inr db' \<Rightarrow> (True, db'))"

section \<open>Base models\<close>

definition register_lora_base_model :: "text_codec \<Rightarrow> training_db \<Rightarrow> base_model \<Rightarrow> bool \<Rightarrow> exn + training_db" where
  "register_lora_base_model U db m replace_existing =
     (if \<not> is_fingerprint (model_fingerprint m) \<or> model_revision m = [] \<or> model_path m = [] then Inl Invalid_argument
      else rbind (to_utf8 U (model_path m)) (\<lambda>path.
        let row = \<lparr>base_key = model_fingerprint m, base_row_revision = model_revision m, base_row_path = path\<rparr> in
        if list_ex (\<lambda>x. base_key x = model_fingerprint m) (base_models db)
        then Inr (if replace_existing
                  then db\<lparr>base_models := map (\<lambda>x. if base_key x = model_fingerprint m then row else x) (base_models db)\<rparr>
                  else db)
        else Inr (db\<lparr>base_models := base_models db @ [row]\<rparr>)))"

definition lora_base_models :: "text_codec \<Rightarrow> training_db \<Rightarrow> base_model list" where
  "lora_base_models U db =
     (case mapR (\<lambda>x. rbind (to_utf16 U (base_row_path x)) (\<lambda>path.
         Inr \<lparr>model_fingerprint = base_key x, model_revision = base_row_revision x, model_path = path\<rparr>)) (base_models db) of
        Inl e \<Rightarrow> []
      | Inr ms \<Rightarrow> ms)"

definition migrate_legacy_base_model_fingerprint :: "training_db \<Rightarrow> string \<Rightarrow> exn + training_db" where
  "migrate_legacy_base_model_fingerprint db label =
     (if \<not> is_fingerprint label then Inl Invalid_argument
      else
        let saved = (case legacy_fingerprint db of None \<Rightarrow> label | Some f \<Rightarrow> f) in
        Inr (db\<lparr>legacy_fingerprint := Some saved,
          runs := map (\<lambda>r. if row_fingerprint r = None then r\<lparr>row_fingerprint := Some saved\<rparr> else r) (runs db)\<rparr>))"

section \<open>Commits\<close>

text \<open>Rows that are deleted take their links and marks with them.\<close>

definition delete_commits :: "(commit_row \<Rightarrow> bool) \<Rightarrow> training_db \<Rightarrow> training_db" where
  "delete_commits P db =
     (let gone = map commit_id (filter P (commits db)) in
      db\<lparr>commits := filter (\<lambda>c. \<not> P c) (commits db),
        run_commits := filter (\<lambda>(r, k). k \<notin> set gone) (run_commits db),
        legacy_unknown := filter (\<lambda>k. k \<notin> set gone) (legacy_unknown db)\<rparr>)"

definition delete_pending :: "text_codec \<Rightarrow> training_db \<Rightarrow> u16string \<Rightarrow> bool \<times> training_db" where
  "delete_pending U db e =
     (case to_utf8 U e of
        Inl _ \<Rightarrow> (False, db)
      | Inr label \<Rightarrow>
          let P = (\<lambda>c. commit_event c = label \<and> commit_state c = Pending) in
          (length (filter P (commits db)) = 1, delete_commits P db))"

definition exclude_unselected :: "text_codec \<Rightarrow> training_db \<Rightarrow> u16string list \<Rightarrow> u16string list \<Rightarrow> bool \<times> training_db" where
  "exclude_unselected U db selected reviewed =
     (case rbind (mapR (to_utf8 U) selected) (\<lambda>s. rbind (mapR (to_utf8 U) reviewed) (\<lambda>r. Inr (s, r))) of
        Inl _ \<Rightarrow> (False, db)
      | Inr (s, r) \<Rightarrow>
          (True, db\<lparr>commits := map (\<lambda>c. if commit_state c = Pending \<and> commit_event c \<in> set r \<and> commit_event c \<notin> set s
             then c\<lparr>commit_state := Excluded\<rparr> else c) (commits db)\<rparr>))"

text \<open>INSERT OR IGNORE: nothing for an event that is stored already.\<close>

definition insert_commit :: "commit_row \<Rightarrow> training_db \<Rightarrow> nat \<times> training_db" where
  "insert_commit c db =
     (if list_ex (\<lambda>x. commit_event x = commit_event c) (commits db) then (0, db)
      else (1, db\<lparr>commits := commits db @ [c\<lparr>commit_id := next_commit db\<rparr>], next_commit := next_commit db + 1\<rparr>))"

section \<open>Protection\<close>

definition salt_bytes :: nat where "salt_bytes = 16"
definition key_bytes :: nat where "key_bytes = 32"

definition read_parameters :: "sodium \<Rightarrow> training_db \<Rightarrow> exn + public_parameters" where
  "read_parameters K db =
     (case protection db of
        None \<Rightarrow> Inl Runtime_error
      | Some p \<Rightarrow>
          rbind (unhex K (salt_hex p) salt_bytes) (\<lambda>s. rbind (unhex K (key_hex p) key_bytes) (\<lambda>k. Inr \<lparr>salt = s, public_key = k\<rparr>)))"

definition protection_status :: "training_db \<Rightarrow> bool \<times> bool" where
  "protection_status db = (case protection db of None \<Rightarrow> (False, False) | Some p \<Rightarrow> (True, recording p))"

definition field_identity :: "string \<Rightarrow> string \<Rightarrow> string" where
  "field_identity event label = event @ CHR 0x2F # label"

definition seal_row :: "sodium \<Rightarrow> public_parameters \<Rightarrow> commit_row \<Rightarrow> exn + commit_row" where
  "seal_row K P c =
     rbind (seal_value K (commit_context c) (field_identity (commit_event c) ''context'') P) (\<lambda>ctxt.
     rbind (seal_value K (commit_answer c) (field_identity (commit_event c) ''answer'') P) (\<lambda>text.
     rbind (seal_value K (commit_padding c) (field_identity (commit_event c) ''padding_json'') P) (\<lambda>padding.
     rbind (seal_value K (commit_reading c) (field_identity (commit_event c) ''reading'') P) (\<lambda>reading.
       Inr (c\<lparr>commit_schema := 2, commit_context := ctxt, commit_answer := text, commit_padding := padding,
         commit_reading := reading\<rparr>)))))"

definition configure_password :: "sodium \<Rightarrow> string \<Rightarrow> training_db \<Rightarrow> string \<Rightarrow> exn + training_db" where
  "configure_password K random_salt db password =
     (if fst (protection_status db) then Inl Runtime_error
      else
        rbind (derive K password \<lparr>salt = random_salt, public_key = replicate key_bytes (CHR 0x00)\<rparr> False) (\<lambda>(P, sk).
        rbind (mapR (\<lambda>c. if commit_schema c = 1 then seal_row K P c else Inr c) (commits db)) (\<lambda>cs.
          Inr (db\<lparr>commits := cs,
            protection := Some \<lparr>salt_hex = bin2hex K (salt P), key_hex = bin2hex K (public_key P), recording = True\<rparr>\<rparr>))))"

definition db_set_recording :: "sodium \<Rightarrow> training_db \<Rightarrow> bool \<Rightarrow> exn + training_db" where
  "db_set_recording K db enabled =
     rbind (if enabled then rbind (read_parameters K db) (\<lambda>_. Inr ()) else Inr ()) (\<lambda>_.
       Inr (db\<lparr>protection := map_option (\<lambda>p. p\<lparr>recording := enabled\<rparr>) (protection db)\<rparr>))"

definition db_reset :: "training_db \<Rightarrow> training_db" where
  "db_reset db = (delete_commits (\<lambda>_. True) db)\<lparr>protection := None\<rparr>"

section \<open>Reading them back\<close>

record training_item =
  item_event :: u16string
  item_context :: u16string
  item_answer :: u16string
  item_reading :: u16string
  item_revised :: bool

record training_record =
  record_event :: u16string
  record_context :: u16string
  record_answer :: u16string
  record_padding :: string
  record_revised :: bool

definition open_field :: "sodium \<Rightarrow> public_parameters \<Rightarrow> string \<Rightarrow> commit_row \<Rightarrow> string \<Rightarrow> string \<Rightarrow> exn + string" where
  "open_field K P sk c sealed label =
     (if commit_schema c \<noteq> 2 then Inl Runtime_error else open_value K sealed (field_identity (commit_event c) label) P sk)"

definition open_record :: "text_codec \<Rightarrow> sodium \<Rightarrow> public_parameters \<Rightarrow> string \<Rightarrow> commit_row \<Rightarrow> exn + training_record" where
  "open_record U K P sk c =
     rbind (to_utf16 U (commit_event c)) (\<lambda>event.
     rbind (rbind (open_field K P sk c (commit_context c) ''context'') (to_utf16 U)) (\<lambda>ctxt.
     rbind (rbind (open_field K P sk c (commit_answer c) ''answer'') (to_utf16 U)) (\<lambda>text.
     rbind (open_field K P sk c (commit_padding c) ''padding_json'') (\<lambda>padding.
       Inr \<lparr>record_event = event, record_context = ctxt, record_answer = text, record_padding = padding,
         record_revised = commit_revised c\<rparr>))))"

definition open_item :: "text_codec \<Rightarrow> sodium \<Rightarrow> public_parameters \<Rightarrow> string \<Rightarrow> commit_row \<Rightarrow> exn + training_item" where
  "open_item U K P sk c =
     rbind (to_utf16 U (commit_event c)) (\<lambda>event.
     rbind (rbind (open_field K P sk c (commit_context c) ''context'') (to_utf16 U)) (\<lambda>ctxt.
     rbind (rbind (open_field K P sk c (commit_answer c) ''answer'') (to_utf16 U)) (\<lambda>text.
     rbind (rbind (open_field K P sk c (commit_reading c) ''reading'') (to_utf16 U)) (\<lambda>reading.
       Inr \<lparr>item_event = event, item_context = ctxt, item_answer = text, item_reading = reading,
         item_revised = commit_revised c\<rparr>))))"

definition closed_item :: "text_codec \<Rightarrow> commit_row \<Rightarrow> exn + training_item" where
  "closed_item U c =
     rbind (to_utf16 U (commit_event c)) (\<lambda>event.
       Inr \<lparr>item_event = event, item_context = [], item_answer = [], item_reading = [], item_revised = commit_revised c\<rparr>)"

definition unlock :: "sodium \<Rightarrow> training_db \<Rightarrow> string \<Rightarrow> exn + public_parameters \<times> string" where
  "unlock K db password = rbind (read_parameters K db) (\<lambda>P. derive K password P True)"

definition pending_items :: "text_codec \<Rightarrow> sodium \<Rightarrow> training_db \<Rightarrow> string \<Rightarrow> int \<Rightarrow> exn + training_item list" where
  "pending_items U K db password base =
     rbind (validate_base_run db base) (\<lambda>_.
       if password = [] then mapR (closed_item U) (filter (eligible db base) (commits db))
       else rbind (unlock K db password) (\<lambda>(P, sk). mapR (open_item U K P sk) (filter (eligible db base) (commits db))))"

fun records_of ::
  "text_codec \<Rightarrow> sodium \<Rightarrow> public_parameters \<Rightarrow> string \<Rightarrow> training_db \<Rightarrow> int \<Rightarrow> u16string list \<Rightarrow> exn + training_record list" where
  "records_of U K P sk db base [] = Inr []"
| "records_of U K P sk db base (e # es) =
     rbind (to_utf8 U e) (\<lambda>label.
       case find (\<lambda>c. eligible db base c \<and> commit_event c = label) (commits db) of
         None \<Rightarrow> records_of U K P sk db base es
       | Some c \<Rightarrow> rbind (open_record U K P sk c) (\<lambda>r. rbind (records_of U K P sk db base es) (\<lambda>rs. Inr (r # rs))))"

definition pending_records :: "text_codec \<Rightarrow> sodium \<Rightarrow> training_db \<Rightarrow> u16string list \<Rightarrow> string \<Rightarrow> int \<Rightarrow> exn + training_record list" where
  "pending_records U K db ids password base =
     rbind (validate_base_run db base) (\<lambda>_. rbind (unlock K db password) (\<lambda>(P, sk). records_of U K P sk db base ids))"

end
