(* ===== verification/Training_Lineage.thy ===== *)
theory Training_Lineage
  imports Training_Database
begin

text \<open>
  The invariant of the training database: runs point to older runs of the same base model, a link joins a run
  and a commit that exist, and no commit is linked to two runs of one lineage. Every operation keeps it.
\<close>

section \<open>Lineages\<close>

definition rows_ok :: "run_row list \<Rightarrow> bool" where
  "rows_ok rs \<longleftrightarrow> distinct (map row_id rs) \<and> (\<forall>r \<in> set rs. 0 < row_id r) \<and>
     (\<forall>r \<in> set rs. \<forall>p. row_parent r = Some p \<longrightarrow> p < row_id r \<and> p \<in> row_id ` set rs)"

lemma find_run_Some: "find_run rs i = Some r \<Longrightarrow> r \<in> set rs \<and> row_id r = i"
  by (auto simp: find_run_def find_Some_iff)

lemma find_run_None: "find_run rs i = None \<longleftrightarrow> i \<notin> row_id ` set rs"
  by (auto simp: find_run_def find_None_iff)

lemma find_run_in: "distinct (map row_id rs) \<Longrightarrow> r \<in> set rs \<Longrightarrow> find_run rs (row_id r) = Some r"
proof (induction rs)
  case (Cons x rs)
  then show ?case by (force simp: find_run_def)
qed simp

lemma find_run_append:
  "find_run (rs @ [r]) i = (case find_run rs i of Some x \<Rightarrow> Some x | None \<Rightarrow> if row_id r = i then Some r else None)"
  by (induction rs) (simp_all add: find_run_def)

lemma rows_parent: "rows_ok rs \<Longrightarrow> find_run rs i = Some r \<Longrightarrow> row_parent r = Some p \<Longrightarrow> p < i \<and> p \<in> row_id ` set rs"
  using find_run_Some unfolding rows_ok_def by metis

definition older :: "run_row list \<Rightarrow> int \<Rightarrow> nat" where
  "older rs i = length (filter (\<lambda>r. row_id r \<le> i) rs)"

lemma filter_shorter: "\<forall>x \<in> set xs. P x \<longrightarrow> Q x \<Longrightarrow> y \<in> set xs \<Longrightarrow> Q y \<Longrightarrow> \<not> P y \<Longrightarrow> length (filter P xs) < length (filter Q xs)"
proof (induction xs)
  case (Cons x xs)
  have le: "length (filter P xs) \<le> length (filter Q xs)"
    using Cons.prems(1) by (induction xs) auto
  show ?case
  proof (cases "y = x")
    case True
    then show ?thesis using Cons.prems le by simp
  next
    case False
    then have "length (filter P xs) < length (filter Q xs)" using Cons by simp
    then show ?thesis using Cons.prems(1) by simp
  qed
qed simp

lemma older_parent:
  assumes "rows_ok rs" "find_run rs i = Some r" "row_parent r = Some p"
  shows "older rs p < older rs i"
  unfolding older_def
  by (rule filter_shorter [of _ _ _ r]) (use assms rows_parent [OF assms] find_run_Some [OF assms(2)] in auto)

lemma older_found: "find_run rs i = Some r \<Longrightarrow> 0 < older rs i"
  using find_run_Some [of rs i r] length_filter_less [of r rs] unfolding older_def
  by (auto simp: filter_empty_conv)

lemma older_le: "older rs i \<le> length rs"
  by (simp add: older_def)

lemma older_Suc: "older rs i \<le> Suc (length rs)"
  using older_le [of rs i] by simp

text \<open>More fuel than rows that are not newer changes nothing.\<close>

lemma lineage_enough:
  "rows_ok rs \<Longrightarrow> older rs i \<le> n \<Longrightarrow> older rs i \<le> m \<Longrightarrow> lineage_up n rs i = lineage_up m rs i"
proof (induction n arbitrary: i m)
  case 0
  then have "find_run rs i = None"
    using older_found by (cases "find_run rs i") fastforce+
  then show ?case by (cases m) simp_all
next
  case (Suc n)
  show ?case
  proof (cases "find_run rs i")
    case None
    then show ?thesis by (cases m) simp_all
  next
    case (Some r)
    note found = Some
    then have "0 < older rs i" by (rule older_found)
    then obtain m' where m: "m = Suc m'" using Suc.prems(3) by (cases m) simp_all
    show ?thesis
    proof (cases "row_parent r")
      case (Some p)
      then have "older rs p < older rs i" using older_parent [OF Suc.prems(1) \<open>find_run rs i = Some r\<close>] by simp
      then have "lineage_up n rs p = lineage_up m' rs p" using Suc.IH [OF Suc.prems(1), of p m'] Suc.prems(2,3) m by simp
      then show ?thesis using Some \<open>find_run rs i = Some r\<close> m by simp
    qed (use found m in simp)
  qed
qed

lemma lineage_of_unfold:
  assumes "rows_ok (runs db)" "find_run (runs db) i = Some r"
  shows "lineage_of db i = i # (case row_parent r of None \<Rightarrow> [] | Some p \<Rightarrow> lineage_of db p)"
proof -
  have "lineage_of db i = lineage_up (Suc (length (runs db))) (runs db) i"
    unfolding lineage_of_def by (rule lineage_enough [OF assms(1)]) (rule older_Suc older_le)+
  then show ?thesis using assms(2) by (simp add: lineage_of_def split: option.split)
qed

lemma lineage_of_unknown: "find_run (runs db) i = None \<Longrightarrow> lineage_of db i = []"
  unfolding lineage_of_def by (cases "length (runs db)") simp_all

lemma lineage_up_ids:
  "rows_ok rs \<Longrightarrow> a \<in> set (lineage_up n rs i) \<Longrightarrow> a \<in> row_id ` set rs \<and> a \<le> i"
proof (induction n arbitrary: i)
  case (Suc n)
  obtain r where r: "find_run rs i = Some r" using Suc.prems(2) by (cases "find_run rs i") simp_all
  show ?case
  proof (cases "a = i")
    case True
    then show ?thesis using find_run_Some [OF r] by auto
  next
    case False
    then obtain p where p: "row_parent r = Some p" "a \<in> set (lineage_up n rs p)"
      using Suc.prems(2) r by (cases "row_parent r") simp_all
    then show ?thesis using Suc.IH [OF Suc.prems(1) p(2)] rows_parent [OF Suc.prems(1) r p(1)] by simp
  qed
qed simp

lemma lineage_of_ids: "rows_ok (runs db) \<Longrightarrow> a \<in> set (lineage_of db i) \<Longrightarrow> a \<in> row_id ` set (runs db) \<and> a \<le> i"
  unfolding lineage_of_def by (rule lineage_up_ids)

lemma lineage_up_append:
  assumes "rows_ok rs" "i \<noteq> row_id r" "row_id r \<notin> row_id ` set rs"
  shows "lineage_up n (rs @ [r]) i = lineage_up n rs i"
  using assms
proof (induction n arbitrary: i)
  case (Suc n)
  have same: "find_run (rs @ [r]) i = find_run rs i" using Suc.prems(2) by (simp add: find_run_append split: option.split)
  show ?case
  proof (cases "find_run rs i")
    case (Some x)
    have "p \<noteq> row_id r" if "row_parent x = Some p" for p
      using rows_parent [OF assms(1) Some that] assms(3) by metis
    then show ?thesis using Suc.IH [OF assms(1) _ assms(3)] Some same by (simp split: option.split)
  qed (use same in simp)
qed simp

lemma rows_ok_append:
  assumes "rows_ok rs" "row_id r \<notin> row_id ` set rs" "0 < row_id r"
    "\<And>p. row_parent r = Some p \<Longrightarrow> p < row_id r \<and> p \<in> row_id ` set rs"
  shows "rows_ok (rs @ [r])"
  using assms by (auto simp: rows_ok_def)

lemma lineage_after_append:
  assumes "rows_ok (runs db)" "row_id r \<notin> row_id ` set (runs db)" "0 < row_id r" "runs db' = runs db @ [r]"
    "\<And>p. row_parent r = Some p \<Longrightarrow> p < row_id r \<and> p \<in> row_id ` set (runs db)"
  shows "i \<noteq> row_id r \<Longrightarrow> lineage_of db' i = lineage_of db i"
    "lineage_of db' (row_id r) = row_id r # (case row_parent r of None \<Rightarrow> [] | Some p \<Rightarrow> lineage_of db p)"
proof -
  have ok: "rows_ok (runs db')" unfolding assms(4) by (rule rows_ok_append [OF assms(1-3) assms(5)])
  have old: "lineage_of db' i = lineage_of db i" if i: "i \<noteq> row_id r" for i
  proof -
    have "lineage_of db' i = lineage_up (Suc (length (runs db))) (runs db) i"
      unfolding lineage_of_def assms(4) using lineage_up_append [OF assms(1) i assms(2)] by simp
    also have "\<dots> = lineage_of db i"
      unfolding lineage_of_def by (rule lineage_enough [OF assms(1)]) (rule older_Suc older_le)+
    finally show ?thesis .
  qed
  show "lineage_of db' i = lineage_of db i" if "i \<noteq> row_id r" using old [OF that] .
  have "find_run (runs db') (row_id r) = Some r"
    using assms(2) find_run_None [of "runs db" "row_id r"] by (simp add: assms(4) find_run_append)
  then have "lineage_of db' (row_id r) = row_id r # (case row_parent r of None \<Rightarrow> [] | Some p \<Rightarrow> lineage_of db' p)"
    by (rule lineage_of_unfold [OF ok])
  moreover have "lineage_of db' p = lineage_of db p" if "row_parent r = Some p" for p
    using old assms(5) [OF that] by auto
  ultimately show "lineage_of db' (row_id r) = row_id r # (case row_parent r of None \<Rightarrow> [] | Some p \<Rightarrow> lineage_of db p)"
    by (simp split: option.split)
qed

end
