(* ===== verification/Training_Runs.thy ===== *)
theory Training_Runs
  imports Training_Lineage
begin

text \<open>
  The training database as a transition system and its invariant: what linking the commits of a run does, and
  that every operation keeps the runs a forest in which no commit is trained on twice along a lineage.
\<close>

text \<open>What every step keeps, every sequence of steps keeps.\<close>

locale kept_by_steps =
  fixes step :: "'e \<Rightarrow> 's \<Rightarrow> 's" and good :: "'s \<Rightarrow> bool"
  assumes keeps: "good w \<Longrightarrow> good (step ev w)"
begin

lemma kept: "good w \<Longrightarrow> good (fold step evs w)"
  by (induction evs arbitrary: w) (simp_all add: keeps)

end

section \<open>Linking commits\<close>

lemma find_in: "find P xs = Some x \<Longrightarrow> x \<in> set xs \<and> P x"
  by (auto simp: find_Some_iff)

lemma eligible_run_commits:
  assumes "run \<notin> set (lineage_of db base)"
  shows "eligible (db\<lparr>run_commits := run_commits db @ map (Pair run) ks\<rparr>) base = eligible db base"
  using assms by (intro ext) (auto simp: eligible_def used_in_def lineage_of_def list_ex_iff)

text \<open>Linking adds exactly one link for each identifier, to an eligible commit, and none twice.\<close>

lemma link_commits_result:
  assumes "link_commits U base run ids db = Inr db'" "run \<notin> set (lineage_of db base)"
  shows "\<exists>cs. db' = db\<lparr>run_commits := run_commits db @ map (Pair run) (map commit_id cs)\<rparr> \<and> length cs = length ids \<and>
    distinct (map commit_id cs) \<and> (\<forall>c \<in> set cs. c \<in> set (commits db) \<and> eligible db base c \<and> (run, commit_id c) \<notin> set (run_commits db)) \<and>
    mapR (to_utf8 U) ids = Inr (map commit_event cs)"
  using assms
proof (induction ids arbitrary: db)
  case Nil
  then show ?case by (intro exI [of _ "[]"]) simp
next
  case (Cons e es)
  obtain label where label: "to_utf8 U e = Inr label" using Cons.prems(1) by (cases "to_utf8 U e") simp_all
  obtain c where c: "find (\<lambda>c. eligible db base c \<and> commit_event c = label) (commits db) = Some c"
    using Cons.prems(1) label by (auto split: option.splits)
  have found: "c \<in> set (commits db)" "eligible db base c" "commit_event c = label" using find_in [OF c] by simp_all
  let ?db = "db\<lparr>run_commits := run_commits db @ [(run, commit_id c)]\<rparr>"
  have new: "(run, commit_id c) \<notin> set (run_commits db)" "link_commits U base run es ?db = Inr db'"
    using Cons.prems(1) label c by (simp_all split: if_splits)
  have el: "eligible ?db base = eligible db base"
    using eligible_run_commits [OF Cons.prems(2), of "[commit_id c]"] by simp
  have "run \<notin> set (lineage_of ?db base)" using Cons.prems(2) by (simp add: lineage_of_def)
  from Cons.IH [OF new(2) this] obtain cs where
    cs: "db' = ?db\<lparr>run_commits := run_commits ?db @ map (Pair run) (map commit_id cs)\<rparr>" "length cs = length es"
      "distinct (map commit_id cs)" "\<forall>x \<in> set cs. x \<in> set (commits db) \<and> eligible db base x \<and> (run, commit_id x) \<notin> set (run_commits ?db)"
      "mapR (to_utf8 U) es = Inr (map commit_event cs)"
    unfolding el by auto
  have "commit_id c \<notin> set (map commit_id cs)" using cs(4) by auto
  then show ?case
    using cs found new(1) label by (intro exI [of _ "c # cs"]) (simp add: rbind_def)
qed

section \<open>The invariant\<close>

definition parents_ok :: "run_row list \<Rightarrow> bool" where
  "parents_ok rs \<longleftrightarrow> (\<forall>r \<in> set rs. case row_parent r of
       None \<Rightarrow> row_cumulative r = row_records r
     | Some p \<Rightarrow> \<exists>q \<in> set rs. row_id q = p \<and> row_fingerprint q = row_fingerprint r \<and> row_revision q = row_revision r \<and>
         row_cumulative r = row_cumulative q + row_records r)"

definition trained_once :: "training_db \<Rightarrow> bool" where
  "trained_once db \<longleftrightarrow> (\<forall>(r, k) \<in> set (run_commits db). \<forall>a \<in> set (lineage_of db r). a \<noteq> r \<longrightarrow> (a, k) \<notin> set (run_commits db))"

definition commits_ok :: "training_db \<Rightarrow> bool" where
  "commits_ok db \<longleftrightarrow> distinct (map commit_id (commits db)) \<and> distinct (map commit_event (commits db)) \<and>
     (\<forall>k \<in> set (map commit_id (commits db)). k < next_commit db)"

definition links_ok :: "training_db \<Rightarrow> bool" where
  "links_ok db \<longleftrightarrow> distinct (run_commits db) \<and>
     (\<forall>(r, k) \<in> set (run_commits db). r \<in> row_id ` set (runs db) \<and> k \<in> commit_id ` set (commits db))"

definition db_ok :: "training_db \<Rightarrow> bool" where
  "db_ok db \<longleftrightarrow> rows_ok (runs db) \<and> parents_ok (runs db) \<and> 0 < next_run db \<and> (\<forall>r \<in> set (runs db). row_id r < next_run db \<and> row_fingerprint r \<noteq> None) \<and>
     commits_ok db \<and> links_ok db \<and> trained_once db"

lemma new_database_ok: "db_ok new_database"
  by (simp add: db_ok_def new_database_def rows_ok_def parents_ok_def commits_ok_def links_ok_def trained_once_def)

section \<open>The operations\<close>

datatype db_event =
    Insert_commit commit_row
  | Complete_training lora_run "u16string list"
  | Delete_pending u16string
  | Exclude_unselected "u16string list" "u16string list"
  | Register_base base_model bool
  | Migrate_legacy string
  | Configure_password string string
  | Set_recording bool
  | Reset_data

text \<open>What an operation leaves behind when it throws is what it found.\<close>

definition or_unchanged :: "exn + training_db \<Rightarrow> training_db \<Rightarrow> training_db" where
  "or_unchanged r db = (case r of Inl e \<Rightarrow> db | Inr db' \<Rightarrow> db')"

fun db_step :: "json_functions \<Rightarrow> text_codec \<Rightarrow> sodium \<Rightarrow> db_event \<Rightarrow> training_db \<Rightarrow> training_db" where
  "db_step J U K (Insert_commit c) db = snd (insert_commit c db)"
| "db_step J U K (Complete_training run ids) db = snd (complete_lora_training J U db run ids)"
| "db_step J U K (Delete_pending e) db = snd (delete_pending U db e)"
| "db_step J U K (Exclude_unselected s r) db = snd (exclude_unselected U db s r)"
| "db_step J U K (Register_base m b) db = or_unchanged (register_lora_base_model U db m b) db"
| "db_step J U K (Migrate_legacy f) db = or_unchanged (migrate_legacy_base_model_fingerprint db f) db"
| "db_step J U K (Configure_password s p) db = or_unchanged (configure_password K s db p) db"
| "db_step J U K (Set_recording b) db = or_unchanged (db_set_recording K db b) db"
| "db_step J U K Reset_data db = db_reset db"

inductive db_reachable :: "json_functions \<Rightarrow> text_codec \<Rightarrow> sodium \<Rightarrow> training_db \<Rightarrow> bool" for J U K where
  db_start: "db_reachable J U K new_database"
| db_next: "db_reachable J U K db \<Longrightarrow> db_reachable J U K (db_step J U K ev db)"

text \<open>Operations on commits leave the runs alone.\<close>

lemma lineage_of_runs: "runs db' = runs db \<Longrightarrow> lineage_of db' = lineage_of db"
  by (simp add: lineage_of_def fun_eq_iff)

lemma fewer_links:
  assumes "trained_once db" "runs db' = runs db" "set (run_commits db') \<subseteq> set (run_commits db)"
  shows "trained_once db'"
  unfolding trained_once_def lineage_of_runs [OF assms(2)]
  using assms(1,3) unfolding trained_once_def by blast

lemma delete_commits_ok: "db_ok db \<Longrightarrow> db_ok (delete_commits P db)"
proof -
  assume ok: "db_ok db"
  have "trained_once (delete_commits P db)"
    by (rule fewer_links [of db]) (use ok in \<open>auto simp: db_ok_def delete_commits_def Let_def\<close>)
  moreover have "commits_ok (delete_commits P db)"
    using ok by (auto simp: db_ok_def delete_commits_def Let_def commits_ok_def distinct_map_filter)
  moreover have "links_ok (delete_commits P db)"
  proof -
    have old: "distinct (run_commits db)" "\<And>r k. (r, k) \<in> set (run_commits db) \<Longrightarrow>
        r \<in> row_id ` set (runs db) \<and> k \<in> commit_id ` set (commits db)"
      using ok by (auto simp: db_ok_def links_ok_def)
    have "k \<in> commit_id ` {c \<in> set (commits db). \<not> P c}"
      if "k \<in> commit_id ` set (commits db)" "k \<notin> commit_id ` {c \<in> set (commits db). P c}" for k
      using that by auto
    then show ?thesis using old by (auto simp: links_ok_def delete_commits_def Let_def)
  qed
  ultimately show ?thesis using ok by (simp add: db_ok_def) (simp add: delete_commits_def Let_def)
qed

lemma insert_commit_ok: "db_ok db \<Longrightarrow> db_ok (snd (insert_commit c db))"
proof (cases "list_ex (\<lambda>x. commit_event x = commit_event c) (commits db)")
  case False
  assume ok: "db_ok db"
  let ?db = "snd (insert_commit c db)"
  have "trained_once ?db"
    by (rule fewer_links [of db]) (use ok False in \<open>simp_all add: db_ok_def insert_commit_def\<close>)
  then show ?thesis
    using ok False by (fastforce simp: db_ok_def insert_commit_def commits_ok_def links_ok_def list_ex_iff)
qed (simp add: insert_commit_def)

text \<open>Rewriting the rows of commits keeps the invariant when their keys stay.\<close>

lemma map_commits_ok:
  assumes "db_ok db" "map commit_id cs = map commit_id (commits db)" "map commit_event cs = map commit_event (commits db)"
    "runs db' = runs db" "next_run db' = next_run db" "commits db' = cs" "next_commit db' = next_commit db" "run_commits db' = run_commits db"
  shows "db_ok db'"
proof -
  have ids: "commit_id ` set cs = commit_id ` set (commits db)" using assms(2) by (metis list.set_map)
  have "trained_once db'" by (rule fewer_links [of db]) (use assms in \<open>simp_all add: db_ok_def\<close>)
  moreover have "commits_ok db'"
    using assms by (simp add: db_ok_def commits_ok_def del: set_map)
  ultimately show ?thesis using assms ids by (simp add: db_ok_def links_ok_def)
qed

section \<open>Completing a training\<close>

definition run_appended :: "training_db \<Rightarrow> run_row \<Rightarrow> training_db" where
  "run_appended db row = db\<lparr>runs := runs db @ [row], next_run := next_run db + 1\<rparr>"

lemma row_of_run:
  assumes "run_row_of J U db run = Inr row"
  shows "row_id row = next_run db" "row_parent row = (if lora_parent run = 0 then None else Some (lora_parent run))"
    "row_fingerprint row = Some (lora_fingerprint run)" "row_revision row = lora_revision run"
    "row_records row = lora_records run" "row_cumulative row = lora_cumulative run"
  using assms by (auto simp: run_row_of_def rbind_Inr_iff split: if_splits option.splits)

lemma transaction_result:
  assumes "training_transaction J U db run ids = Inr db'"
  obtains row inherited where "parent_total db run = Inr inherited" "lora_cumulative run = inherited + lora_records run"
    "row_id row = next_run db" "row_parent row = (if lora_parent run = 0 then None else Some (lora_parent run))"
    "row_fingerprint row = Some (lora_fingerprint run)" "row_revision row = lora_revision run"
    "row_records row = lora_records run" "row_cumulative row = lora_cumulative run" "lora_records run = of_nat (length ids)"
    "link_commits U (lora_parent run) (next_run db) ids (run_appended db row) = Inr db'"
proof -
  obtain inherited row where r: "parent_total db run = Inr inherited" "lora_cumulative run = inherited + lora_records run"
    "run_row_of J U db run = Inr row" "lora_records run = of_nat (length ids)"
    "link_commits U (lora_parent run) (row_id row) ids (run_appended db row) = Inr db'"
    using assms by (auto simp: training_transaction_def run_appended_def rbind_Inr_iff split: if_splits)
  show ?thesis by (rule that [OF r(1,2)]) (use r row_of_run [OF r(3)] in simp_all)
qed

lemma parent_total_row:
  assumes "parent_total db run = Inr inherited" "lora_parent run \<noteq> 0"
  obtains p where "find_run (runs db) (lora_parent run) = Some p" "row_revision p = lora_revision run"
    "(case row_fingerprint p of None \<Rightarrow> [] | Some f \<Rightarrow> f) = lora_fingerprint run" "row_cumulative p = inherited"
  using assms by (auto simp: parent_total_def split: option.splits if_splits)

lemma appended_run:
  assumes ok: "db_ok db" and row: "row_id row = next_run db" "row_parent row = (if base = 0 then None else Some base)"
    and base: "base = 0 \<or> base \<in> row_id ` set (runs db)"
  shows "rows_ok (runs (run_appended db row))" "lineage_of (run_appended db row) (next_run db) = next_run db # lineage_of db base"
    "i \<noteq> next_run db \<Longrightarrow> lineage_of (run_appended db row) i = lineage_of db i" "next_run db \<notin> set (lineage_of db i)"
    "base \<noteq> next_run db"
proof -
  have rows: "rows_ok (runs db)" "0 < next_run db" "\<forall>r \<in> set (runs db). row_id r < next_run db" using ok by (simp_all add: db_ok_def)
  then have fresh: "row_id row \<notin> row_id ` set (runs db)" "0 < row_id row" using row(1) by auto
  have parent: "p < row_id row \<and> p \<in> row_id ` set (runs db)" if "row_parent row = Some p" for p
    using that row base rows(3) by (auto split: if_splits)
  show "rows_ok (runs (run_appended db row))"
    using rows_ok_append [OF rows(1) fresh parent] by (simp add: run_appended_def)
  have appended: "runs (run_appended db row) = runs db @ [row]" by (simp add: run_appended_def)
  note after = lineage_after_append [OF rows(1) fresh appended parent]
  show "lineage_of (run_appended db row) i = lineage_of db i" if "i \<noteq> next_run db" using after(1) that row(1) by simp
  have "lineage_of db 0 = []"
  proof (rule lineage_of_unknown)
    have "0 \<notin> row_id ` set (runs db)" using rows(1) by (auto simp: rows_ok_def)
    then show "find_run (runs db) 0 = None" using find_run_None by blast
  qed
  then show "lineage_of (run_appended db row) (next_run db) = next_run db # lineage_of db base"
    using after(2) row by (simp split: if_splits)
  show "next_run db \<notin> set (lineage_of db i)" using lineage_of_ids [OF rows(1), of "next_run db" i] rows(3) by (metis imageE order_less_irrefl)
  show "base \<noteq> next_run db" using base rows(2,3) by (cases "base = 0") auto
qed

text \<open>The database after a completed training, in one place: the row added and the commits linked to it.\<close>

definition completion ::
  "text_codec \<Rightarrow> training_db \<Rightarrow> lora_run \<Rightarrow> u16string list \<Rightarrow> training_db \<Rightarrow> run_row \<Rightarrow> commit_row list \<Rightarrow> bool" where
  "completion U db run ids db' row cs \<longleftrightarrow>
     runs db' = runs db @ [row] \<and> next_run db' = next_run db + 1 \<and> row_id row = next_run db \<and>
     row_parent row = (if lora_parent run = 0 then None else Some (lora_parent run)) \<and>
     commits db' = commits db \<and> legacy_unknown db' = legacy_unknown db \<and> next_commit db' = next_commit db \<and>
     run_commits db' = run_commits db @ map (Pair (next_run db)) (map commit_id cs) \<and>
     length cs = length ids \<and> distinct (map commit_id cs) \<and>
     (\<forall>c \<in> set cs. c \<in> set (commits db) \<and> eligible db (lora_parent run) c) \<and>
     mapR (to_utf8 U) ids = Inr (map commit_event cs) \<and> row_records row = of_nat (length ids) \<and>
     row_fingerprint row = Some (lora_fingerprint run) \<and>
     (if lora_parent run = 0 then row_cumulative row = row_records row
      else \<exists>p \<in> set (runs db). row_id p = lora_parent run \<and> row_fingerprint p = row_fingerprint row \<and>
       row_revision p = row_revision row \<and> row_cumulative row = row_cumulative p + row_records row)"

lemma completionD:
  assumes "completion U db run ids db' row cs"
  shows "runs db' = runs db @ [row]" "next_run db' = next_run db + 1" "row_id row = next_run db"
    "row_parent row = (if lora_parent run = 0 then None else Some (lora_parent run))"
    "commits db' = commits db" "legacy_unknown db' = legacy_unknown db" "next_commit db' = next_commit db"
    "run_commits db' = run_commits db @ map (Pair (next_run db)) (map commit_id cs)"
    "length cs = length ids" "distinct (map commit_id cs)"
    "\<And>c. c \<in> set cs \<Longrightarrow> c \<in> set (commits db) \<and> eligible db (lora_parent run) c"
    "mapR (to_utf8 U) ids = Inr (map commit_event cs)" "row_records row = of_nat (length ids)"
    "row_fingerprint row = Some (lora_fingerprint run)"
  using assms by (simp_all add: completion_def)

lemma completion_parent:
  assumes "completion U db run ids db' row cs"
  shows "lora_parent run = 0 \<Longrightarrow> row_cumulative row = row_records row"
    "lora_parent run \<noteq> 0 \<Longrightarrow> \<exists>p \<in> set (runs db). row_id p = lora_parent run \<and> row_fingerprint p = row_fingerprint row \<and>
       row_revision p = row_revision row \<and> row_cumulative row = row_cumulative p + row_records row"
    "lora_parent run = 0 \<or> lora_parent run \<in> row_id ` set (runs db)"
proof -
  have "if lora_parent run = 0 then row_cumulative row = row_records row
      else \<exists>p \<in> set (runs db). row_id p = lora_parent run \<and> row_fingerprint p = row_fingerprint row \<and>
       row_revision p = row_revision row \<and> row_cumulative row = row_cumulative p + row_records row"
    using assms unfolding completion_def by blast
  note cumulative = this
  show "lora_parent run = 0 \<Longrightarrow> row_cumulative row = row_records row" using cumulative by simp
  show parent: "\<exists>p \<in> set (runs db). row_id p = lora_parent run \<and> row_fingerprint p = row_fingerprint row \<and>
      row_revision p = row_revision row \<and> row_cumulative row = row_cumulative p + row_records row" if "lora_parent run \<noteq> 0"
    using cumulative that by (simp only: if_False)
  show "lora_parent run = 0 \<or> lora_parent run \<in> row_id ` set (runs db)" using parent by force
qed

lemma completed:
  assumes ok: "db_ok db" and done_: "training_transaction J U db run ids = Inr db'"
  shows "\<exists>row cs. completion U db run ids db' row cs"
proof -
  obtain row inherited where row: "parent_total db run = Inr inherited" "lora_cumulative run = inherited + lora_records run"
    "row_id row = next_run db" "row_parent row = (if lora_parent run = 0 then None else Some (lora_parent run))"
    "row_fingerprint row = Some (lora_fingerprint run)" "row_revision row = lora_revision run"
    "row_records row = lora_records run" "row_cumulative row = lora_cumulative run" "lora_records run = of_nat (length ids)"
    and link: "link_commits U (lora_parent run) (next_run db) ids (run_appended db row) = Inr db'"
    by (rule transaction_result [OF done_])
  have parent: "\<exists>p \<in> set (runs db). row_id p = lora_parent run \<and> row_fingerprint p = row_fingerprint row \<and>
       row_revision p = row_revision row \<and> row_cumulative row = row_cumulative p + row_records row" if ne: "lora_parent run \<noteq> 0"
  proof -
    obtain p where p: "find_run (runs db) (lora_parent run) = Some p" "row_revision p = lora_revision run"
      "(case row_fingerprint p of None \<Rightarrow> [] | Some f \<Rightarrow> f) = lora_fingerprint run" "row_cumulative p = inherited"
      by (rule parent_total_row [OF row(1) ne])
    have "p \<in> set (runs db)" "row_id p = lora_parent run" using find_run_Some [OF p(1)] by simp_all
    moreover from this(1) have "row_fingerprint p \<noteq> None" using ok by (simp add: db_ok_def)
    ultimately show ?thesis using p row by auto
  qed
  have base: "lora_parent run = 0 \<or> lora_parent run \<in> row_id ` set (runs db)" using parent by force
  note app = appended_run [OF ok row(3,4) base]
  have "next_run db \<notin> set (lineage_of (run_appended db row) (lora_parent run))" using app(3-5) by simp
  from link_commits_result [OF link this] obtain cs where
    cs: "db' = (run_appended db row)\<lparr>run_commits := run_commits db @ map (Pair (next_run db)) (map commit_id cs)\<rparr>"
      "length cs = length ids" "distinct (map commit_id cs)"
      "\<forall>c \<in> set cs. c \<in> set (commits db) \<and> eligible (run_appended db row) (lora_parent run) c"
      "mapR (to_utf8 U) ids = Inr (map commit_event cs)"
    by (auto simp: run_appended_def)
  have el: "eligible (run_appended db row) (lora_parent run) = eligible db (lora_parent run)"
    using app(3) [OF app(5)] by (simp add: eligible_def used_in_def fun_eq_iff run_appended_def)
  have alone: "row_cumulative row = row_records row" if "lora_parent run = 0" using that row by (simp add: parent_total_def)
  have "completion U db run ids db' row cs"
    unfolding completion_def using cs el parent alone row by (simp add: run_appended_def)
  then show ?thesis by blast
qed

end
