(* ===== verification/Training_Invariant.thy ===== *)
theory Training_Invariant
  imports Training_Runs
begin

text \<open>Every operation on the training database keeps its invariant.\<close>

lemma completed_ok:
  assumes ok: "db_ok db" and done_: "training_transaction J U db run ids = Inr db'"
  shows "db_ok db'"
proof -
  obtain row cs where c: "completion U db run ids db' row cs" using completed [OF ok done_] by blast
  note t = completionD [OF c] and base = completion_parent(3) [OF c]
  have db: "rows_ok (runs db)" "parents_ok (runs db)" "0 < next_run db" "\<And>r. r \<in> set (runs db) \<Longrightarrow> row_id r < next_run db \<and> row_fingerprint r \<noteq> None"
    "commits_ok db" "links_ok db" "trained_once db" using ok by (simp_all add: db_ok_def)
  note app = appended_run [OF ok t(3,4) base]
  have lineage: "lineage_of db' i = lineage_of (run_appended db row) i" for i
    by (simp add: lineage_of_def t(1) run_appended_def)
  have rows: "rows_ok (runs db')" using app(1) t(1) by (simp add: run_appended_def)
  have parents: "parents_ok (runs db')"
  proof -
    have "case row_parent r of None \<Rightarrow> row_cumulative r = row_records r
       | Some p \<Rightarrow> \<exists>q \<in> set (runs db'). row_id q = p \<and> row_fingerprint q = row_fingerprint r \<and> row_revision q = row_revision r \<and>
           row_cumulative r = row_cumulative q + row_records r" if r: "r \<in> set (runs db')" for r
    proof (cases "r = row")
      case True
      then show ?thesis using t(1,4) completion_parent [OF c] by (auto split: option.split)
    next
      case False
      then have "r \<in> set (runs db)" using r t(1) by simp
      then show ?thesis using db(2) t(1) unfolding parents_ok_def by (fastforce split: option.splits)
    qed
    then show ?thesis unfolding parents_ok_def by blast
  qed
  have fresh: "next_run db \<notin> row_id ` set (runs db)" using db(4) by force
  have old_run: "r \<in> row_id ` set (runs db)" "k \<in> commit_id ` set (commits db)" if "(r, k) \<in> set (run_commits db)" for r k
    using db(6) that unfolding links_ok_def by auto
  have fresh_links: "(next_run db, k) \<notin> set (run_commits db)" for k using old_run fresh by blast
  have linked: "(r, k) \<in> set (run_commits db') \<longleftrightarrow> (r, k) \<in> set (run_commits db) \<or> r = next_run db \<and> k \<in> commit_id ` set cs" for r k
    unfolding t(8) by auto
  have links: "links_ok db'"
  proof -
    have "distinct (run_commits db')"
      using db(6) t(10) fresh_links unfolding t(8) links_ok_def by (auto simp: distinct_map inj_on_def)
    moreover have "r \<in> row_id ` set (runs db') \<and> k \<in> commit_id ` set (commits db')" if "(r, k) \<in> set (run_commits db')" for r k
      using that old_run t(11) unfolding linked t(1,5) using t(3) by auto
    ultimately show ?thesis unfolding links_ok_def by blast
  qed
  have once: "(a, k) \<notin> set (run_commits db')" if rk: "(r, k) \<in> set (run_commits db')" and a: "a \<in> set (lineage_of db' r)" "a \<noteq> r" for r k a
  proof (cases "r = next_run db")
    case True
    then have a': "a \<in> set (lineage_of db (lora_parent run))" using a app(2) lineage by simp
    obtain c where c: "c \<in> set cs" "k = commit_id c" using rk True fresh_links unfolding linked by auto
    then have "\<not> used_in db (lineage_of db (lora_parent run)) k" using t(11) by (auto simp: eligible_def)
    then have "(a, k) \<notin> set (run_commits db)" using a' by (auto simp: used_in_def list_ex_iff)
    then show ?thesis using a(2) True unfolding linked by simp
  next
    case False
    then have rk': "(r, k) \<in> set (run_commits db)" using rk unfolding linked by simp
    have a': "a \<in> set (lineage_of db r)" using a(1) app(3) [OF False] lineage by simp
    then have "(a, k) \<notin> set (run_commits db)" using db(7) rk' a(2) unfolding trained_once_def by blast
    moreover have "a \<noteq> next_run db" using app(4) a' by metis
    ultimately show ?thesis unfolding linked by simp
  qed
  have "trained_once db'" unfolding trained_once_def using once by blast
  moreover have "commits_ok db'" using db(5) t(5,7) by (simp add: commits_ok_def)
  moreover have "\<forall>r \<in> set (runs db'). row_id r < next_run db' \<and> row_fingerprint r \<noteq> None"
    using db(4) t(1,2,3,14) by fastforce
  ultimately show ?thesis using rows parents links db(3) t(2) by (simp add: db_ok_def)
qed

lemma complete_ok: "db_ok db \<Longrightarrow> db_ok (snd (complete_lora_training J U db run ids))"
  using completed_ok by (simp add: complete_lora_training_def split: sum.split)

section \<open>The other operations\<close>

lemma mapR_keeps:
  "mapR f xs = Inr ys \<Longrightarrow> (\<And>x y. f x = Inr y \<Longrightarrow> g y = g x) \<Longrightarrow> map g ys = map g xs"
proof (induction xs arbitrary: ys)
  case (Cons x xs)
  then obtain z zs where z: "f x = Inr z" "mapR f xs = Inr zs" "ys = z # zs" by (auto simp: rbind_Inr_iff)
  then show ?case using Cons.IH [OF z(2) Cons.prems(2)] Cons.prems(2) [OF z(1)] by simp
qed simp

lemma seal_row_keys: "seal_row K P c = Inr c' \<Longrightarrow> commit_id c' = commit_id c \<and> commit_event c' = commit_event c"
  by (auto simp: seal_row_def rbind_Inr_iff)

lemma configure_rows:
  assumes "configure_password K s db password = Inr db'"
  shows "map commit_id (commits db') = map commit_id (commits db)" "map commit_event (commits db') = map commit_event (commits db)"
    "db' = db\<lparr>commits := commits db', protection := protection db'\<rparr>"
proof -
  obtain P sk cs where cs: "mapR (\<lambda>c. if commit_schema c = 1 then seal_row K P c else Inr c) (commits db) = Inr cs"
    and db': "db' = db\<lparr>commits := cs,
        protection := Some \<lparr>salt_hex = bin2hex K (salt P), key_hex = bin2hex K (public_key P), recording = True\<rparr>\<rparr>"
    using assms by (auto simp: configure_password_def rbind_Inr_iff split: if_splits)
  have keys: "commit_id y = commit_id x \<and> commit_event y = commit_event x"
    if "(if commit_schema x = 1 then seal_row K P x else Inr x) = Inr y" for x y
    using that seal_row_keys by (auto split: if_splits)
  have "map commit_id cs = map commit_id (commits db)" by (rule mapR_keeps [OF cs]) (use keys in blast)
  moreover have "map commit_event cs = map commit_event (commits db)" by (rule mapR_keeps [OF cs]) (use keys in blast)
  ultimately show "map commit_id (commits db') = map commit_id (commits db)" "map commit_event (commits db') = map commit_event (commits db)"
    "db' = db\<lparr>commits := commits db', protection := protection db'\<rparr>" by (simp_all add: db')
qed

lemma configure_ok:
  assumes "db_ok db" "configure_password K s db password = Inr db'"
  shows "db_ok db'"
proof -
  note rows = configure_rows [OF assms(2)]
  show ?thesis by (subst rows(3)) (rule map_commits_ok [OF assms(1) rows(1,2)]; simp)
qed

lemma rewritten_ok:
  assumes "db_ok db" "\<And>c. commit_id (f c) = commit_id c \<and> commit_event (f c) = commit_event c"
  shows "db_ok (db\<lparr>commits := map f (commits db)\<rparr>)"
  by (rule map_commits_ok [OF assms(1), of "map f (commits db)"]) (simp_all add: assms(2) comp_def)

lemma exclude_ok: "db_ok db \<Longrightarrow> db_ok (snd (exclude_unselected U db s r))"
  unfolding exclude_unselected_def
  by (cases "rbind (mapR (to_utf8 U) s) (\<lambda>s. rbind (mapR (to_utf8 U) r) (\<lambda>r. Inr (s, r)))") (auto intro!: rewritten_ok)

lemma migrate_ok:
  assumes "db_ok db" "migrate_legacy_base_model_fingerprint db f = Inr db'"
  shows "db_ok db'"
proof -
  have "map (\<lambda>r. if row_fingerprint r = None then r\<lparr>row_fingerprint := Some x\<rparr> else r) (runs db) = runs db" for x
    using assms(1) by (intro map_idI) (auto simp: db_ok_def)
  then have db': "db' = db\<lparr>legacy_fingerprint := legacy_fingerprint db'\<rparr>"
    using assms(2) by (auto simp: migrate_legacy_base_model_fingerprint_def Let_def split: if_splits)
  show ?thesis by (subst db') (rule map_commits_ok [OF assms(1)]; simp)
qed

lemma same_tables_ok:
  "db_ok db \<Longrightarrow> db_ok (db\<lparr>base_models := ms\<rparr>)" "db_ok db \<Longrightarrow> db_ok (db\<lparr>protection := p\<rparr>)"
  by (rule map_commits_ok; simp)+

lemma or_unchanged_ok: "db_ok db \<Longrightarrow> (\<And>db'. r = Inr db' \<Longrightarrow> db_ok db') \<Longrightarrow> db_ok (or_unchanged r db)"
  by (simp add: or_unchanged_def split: sum.split)

lemma db_step_ok: "db_ok db \<Longrightarrow> db_ok (db_step J U K ev db)"
proof (cases ev)
  case (Delete_pending e)
  assume "db_ok db"
  then show ?thesis unfolding Delete_pending by (simp add: delete_pending_def Let_def delete_commits_ok split: sum.split)
next
  case (Register_base m b)
  assume "db_ok db"
  then show ?thesis unfolding Register_base db_step.simps
    by (rule or_unchanged_ok) (use \<open>db_ok db\<close> in \<open>auto simp: register_lora_base_model_def same_tables_ok rbind_Inr_iff Let_def split: if_splits\<close>)
next
  case (Set_recording b)
  assume "db_ok db"
  then show ?thesis unfolding Set_recording db_step.simps
    by (rule or_unchanged_ok) (use \<open>db_ok db\<close> in \<open>auto simp: db_set_recording_def rbind_Inr_iff same_tables_ok\<close>)
next
  case (Migrate_legacy f)
  assume "db_ok db"
  then show ?thesis unfolding Migrate_legacy db_step.simps by (rule or_unchanged_ok) (rule migrate_ok [OF \<open>db_ok db\<close>])
next
  case (Configure_password s p)
  assume "db_ok db"
  then show ?thesis unfolding Configure_password db_step.simps by (rule or_unchanged_ok) (rule configure_ok [OF \<open>db_ok db\<close>])
qed (simp_all add: insert_commit_ok complete_ok exclude_ok db_reset_def same_tables_ok delete_commits_ok)

lemma db_reachable_ok: "db_reachable J U K db \<Longrightarrow> db_ok db"
  by (induction rule: db_reachable.induct) (simp_all add: new_database_ok db_step_ok)

interpretation reached: kept_by_steps "db_step J U K" "db_reachable J U K" for J U K
  by unfold_locales (rule db_reachable.db_next)

end
