(* ===== verification/Training_Properties.thy ===== *)
theory Training_Properties
  imports Training_Invariant
begin

text \<open>
  What the training database promises: the history it shows is always a sound ancestry, no commit is trained on
  twice along a lineage, the counts add up, and what was sealed opens again with the password.
\<close>

section \<open>Counting\<close>

lemma used_in_cons:
  assumes "\<And>k. (r, k) \<notin> set (run_commits db)"
  shows "used_in db (r # up) = used_in db up"
  using assms by (intro ext) (auto simp: used_in_def list_ex_iff)

lemma completed_eligible:
  assumes ok: "db_ok db" and c: "completion U db run ids db' row cs"
  shows "eligible db' (next_run db) x \<longleftrightarrow> eligible db (lora_parent run) x \<and> commit_id x \<notin> commit_id ` set cs"
    "eligible db' (lora_parent run) = eligible db (lora_parent run)"
proof -
  note t = completionD [OF c]
  note app = appended_run [OF ok t(3,4) completion_parent(3) [OF c]]
  have lineage: "lineage_of db' i = lineage_of (run_appended db row) i" for i
    by (simp add: lineage_of_def t(1) run_appended_def)
  have fresh: "(next_run db, k) \<notin> set (run_commits db)" for k
    using ok unfolding db_ok_def links_ok_def by force
  have used: "used_in db' up k \<longleftrightarrow> used_in db up k \<or> next_run db \<in> set up \<and> k \<in> commit_id ` set cs" for up k
    by (auto simp: used_in_def list_ex_iff t(8))
  have new: "lineage_of db' (next_run db) = next_run db # lineage_of db (lora_parent run)" using app(2) lineage by simp
  have base: "lineage_of db' (lora_parent run) = lineage_of db (lora_parent run)" using app(3) [OF app(5)] lineage by simp
  show "eligible db' (next_run db) x \<longleftrightarrow> eligible db (lora_parent run) x \<and> commit_id x \<notin> commit_id ` set cs"
    using used_in_cons [OF fresh] by (auto simp: eligible_def new used t(6))
  show "eligible db' (lora_parent run) = eligible db (lora_parent run)"
    using app(4) by (intro ext) (simp add: eligible_def base used t(6))
qed

lemma length_filter_split: "length (filter P xs) = length (filter (\<lambda>x. P x \<and> Q x) xs) + length (filter (\<lambda>x. P x \<and> \<not> Q x) xs)"
  by (induction xs) auto

lemma chosen_length:
  assumes "distinct (map f xs)" "distinct (map f cs)" "\<And>c. c \<in> set cs \<Longrightarrow> c \<in> set xs \<and> P c"
  shows "length (filter (\<lambda>x. P x \<and> f x \<in> f ` set cs) xs) = length cs"
proof -
  have "set (filter (\<lambda>x. P x \<and> f x \<in> f ` set cs) xs) = set cs"
  proof (intro set_eqI iffI)
    fix x assume x: "x \<in> set (filter (\<lambda>x. P x \<and> f x \<in> f ` set cs) xs)"
    then obtain c where c: "c \<in> set cs" "f x = f c" by auto
    then have "x = c" using x assms(1,3) by (auto simp: distinct_map dest: inj_onD)
    then show "x \<in> set cs" using c by simp
  qed (use assms(3) in auto)
  moreover have "distinct xs" "distinct cs" using assms(1,2) by (simp_all add: distinct_map)
  ultimately show ?thesis by (metis distinct_card distinct_filter)
qed

lemma completed_count:
  assumes ok: "db_ok db" and c: "completion U db run ids db' row cs"
  shows "length (filter (eligible db (lora_parent run)) (commits db)) =
    length ids + length (filter (eligible db' (next_run db)) (commits db'))"
proof -
  note t = completionD [OF c]
  have "distinct (map commit_id (commits db))" using ok by (simp add: db_ok_def commits_ok_def)
  then have "length (filter (\<lambda>x. eligible db (lora_parent run) x \<and> commit_id x \<in> commit_id ` set cs) (commits db)) = length cs"
    using chosen_length [of commit_id "commits db" cs "eligible db (lora_parent run)"] t(10,11) by simp
  then show ?thesis
    using length_filter_split [where P = "eligible db (lora_parent run)" and Q = "\<lambda>x. commit_id x \<in> commit_id ` set cs" and xs = "commits db"]
    by (simp add: completed_eligible(1) [OF ok c, abs_def] t(5,9))
qed

lemma parent_validates:
  assumes ok: "db_ok db" and c: "completion U db run ids db' row cs"
  shows "validate_base_run db (lora_parent run) = Inr ()" "validate_base_run db' (lora_parent run) = Inr ()"
    "validate_base_run db' (next_run db) = Inr ()"
proof -
  note t = completionD [OF c]
  have pos: "0 < row_id r" if "r \<in> set (runs db)" for r using that ok by (auto simp: db_ok_def rows_ok_def)
  have known: "lora_parent run = 0 \<or> 0 < lora_parent run \<and> find_run (runs db) (lora_parent run) \<noteq> None"
    using completion_parent(3) [OF c] pos find_run_None [of "runs db" "lora_parent run"] by auto
  then show "validate_base_run db (lora_parent run) = Inr ()" by (auto simp: validate_base_run_def)
  show "validate_base_run db' (lora_parent run) = Inr ()"
    using known by (auto simp: validate_base_run_def t(1) find_run_append split: option.split)
  have "find_run (runs db') (next_run db) \<noteq> None" using t(3) by (simp add: t(1) find_run_append split: option.split)
  moreover have "0 < next_run db" using ok by (simp add: db_ok_def)
  ultimately show "validate_base_run db' (next_run db) = Inr ()" by (simp add: validate_base_run_def)
qed

section \<open>The lineage adds up\<close>

definition records_along :: "training_db \<Rightarrow> int list \<Rightarrow> u64" where
  "records_along db up = sum_list (map (\<lambda>i. case find_run (runs db) i of None \<Rightarrow> 0 | Some r \<Rightarrow> row_records r) up)"

lemma cumulative_along:
  assumes ok: "rows_ok (runs db)" "parents_ok (runs db)"
  shows "r \<in> set (runs db) \<Longrightarrow> row_cumulative r = records_along db (lineage_of db (row_id r))"
proof (induction "older (runs db) (row_id r)" arbitrary: r rule: less_induct)
  case less
  have dist: "distinct (map row_id (runs db))" using ok(1) by (simp add: rows_ok_def)
  note found = find_run_in [OF dist less.prems]
  note unfold = lineage_of_unfold [OF ok(1) found]
  show ?case
  proof (cases "row_parent r")
    case None
    then have "row_cumulative r = row_records r" using ok(2) less.prems by (auto simp: parents_ok_def split: option.splits)
    then show ?thesis using unfold found None by (simp add: records_along_def)
  next
    case (Some p)
    then obtain q where q: "q \<in> set (runs db)" "row_id q = p" "row_cumulative r = row_cumulative q + row_records r"
      using ok(2) less.prems unfolding parents_ok_def by (fastforce split: option.splits)
    have "older (runs db) (row_id q) < older (runs db) (row_id r)"
      using older_parent [OF ok(1) found Some] q(2) by simp
    from less.hyps [OF this q(1)] show ?thesis using unfold found Some q(2,3) by (simp add: records_along_def)
  qed
qed

section \<open>The history it shows\<close>

text \<open>The history as the settings window takes it over (service/src/settings/settings_window.cpp).\<close>

definition bytes_of :: "string \<Rightarrow> u8 list" where
  "bytes_of s = map (\<lambda>c. of_nat (of_char c)) s"

definition history_view :: "lora_run \<Rightarrow> history_run" where
  "history_view r = \<lparr>history_id = lora_id r, history_parent = lora_parent r, base_fingerprint = bytes_of (lora_fingerprint r),
     base_revision = bytes_of (lora_revision r)\<rparr>"

definition load_lora_history_snapshot :: "lora_run list \<Rightarrow> history_run list" where
  "load_lora_history_snapshot raw = map history_view raw"

lemma read_run_keys:
  "read_run U r = Inr x \<Longrightarrow> (lora_id x, lora_parent x) = (row_id r, case row_parent r of None \<Rightarrow> 0 | Some p \<Rightarrow> p)"
  by (auto simp: read_run_def rbind_Inr_iff)

lemma mapR_image: "mapR f xs = Inr ys \<Longrightarrow> (\<And>x y. f x = Inr y \<Longrightarrow> g y = h x) \<Longrightarrow> map g ys = map h xs"
proof (induction xs arbitrary: ys)
  case (Cons x xs)
  then obtain z zs where z: "f x = Inr z" "mapR f xs = Inr zs" "ys = z # zs" by (auto simp: rbind_Inr_iff)
  then show ?case using Cons.IH [OF z(2) Cons.prems(2)] Cons.prems(2) [OF z(1)] by simp
qed simp

lemma history_keys:
  assumes "views = load_lora_history_snapshot (lora_training_history U db)"
  shows "views = [] \<or> map (\<lambda>v. (history_id v, history_parent v)) views =
    map (\<lambda>r. (row_id r, case row_parent r of None \<Rightarrow> 0 | Some p \<Rightarrow> p)) (runs db)"
proof (cases "mapR (read_run U) (runs db)")
  case (Inr xs)
  have "map (\<lambda>x. (lora_id x, lora_parent x)) xs = map (\<lambda>r. (row_id r, case row_parent r of None \<Rightarrow> 0 | Some p \<Rightarrow> p)) (runs db)"
    by (rule mapR_image [OF Inr]) (rule read_run_keys)
  then show ?thesis
    using Inr assms by (simp add: lora_training_history_def load_lora_history_snapshot_def history_view_def comp_def)
qed (use assms in \<open>simp add: lora_training_history_def load_lora_history_snapshot_def\<close>)

text \<open>Runs with older parents hang under the virtual root.\<close>

lemma older_parents_valid:
  assumes pos: "\<forall>v \<in> set views. 0 < history_id v" and dist: "distinct (map history_id views)"
    and parents: "\<forall>v \<in> set views. history_parent v \<noteq> 0 \<longrightarrow>
      history_parent v < history_id v \<and> history_parent v \<in> history_id ` set views"
  shows "valid_history (tree_lineage (tree_bases views shown_base catalog) views)"
proof -
  let ?bases = "tree_bases views shown_base catalog"
  let ?entries = "tree_lineage ?bases views"
  have entry: "\<lparr>run_id = history_id v, run_parent = (if history_parent v \<noteq> 0 then history_parent v
      else the (root_by_fingerprint ?bases (base_fingerprint v)))\<rparr> \<in> set ?entries" if "v \<in> set views" for v
    using that by (auto simp: tree_lineage_def)
  have step: "(history_id v, if history_parent v \<noteq> 0 then history_parent v
      else the (root_by_fingerprint ?bases (base_fingerprint v))) \<in> lineage ?entries" if "v \<in> set views" for v
    using entry [OF that] unfolding lineage_def by force
  have root: "(the (root_by_fingerprint ?bases (base_fingerprint v)), 0) \<in> lineage ?entries"
    if v: "v \<in> set views" "history_parent v = 0" for v
  proof -
    obtain b :: history_base where "root_at ?bases (base_fingerprint v) = Inr (base_id b)" "base_id b \<le> - 2"
      using tree_root [OF v(1), of shown_base catalog] by blast
    then have "the (root_by_fingerprint ?bases (base_fingerprint v)) < 0" by (auto simp: root_at_def split: option.splits)
    then show ?thesis using entry [OF v(1)] v(2) unfolding lineage_def by force
  qed
  have reach: "v \<in> set views \<Longrightarrow> (history_id v, 0) \<in> (lineage ?entries)\<^sup>*" for v
  proof (induction "nat (history_id v)" arbitrary: v rule: less_induct)
    case less
    show ?case
    proof (cases "history_parent v = 0")
      case True
      then have "(history_id v, the (root_by_fingerprint ?bases (base_fingerprint v))) \<in> lineage ?entries"
        using step [OF less.prems] by simp
      then show ?thesis using root [OF less.prems True] by (meson r_into_rtrancl rtrancl_trans)
    next
      case False
      then obtain q where q: "q \<in> set views" "history_id q = history_parent v" "history_parent v < history_id v"
        using parents less.prems by auto
      then have "nat (history_id q) < nat (history_id v)" using pos less.prems by (metis nat_less_eq_zless order_less_imp_le)
      from less.hyps [OF this q(1)] have "(history_parent v, 0) \<in> (lineage ?entries)\<^sup>*" using q(2) by simp
      moreover have "(history_id v, history_parent v) \<in> lineage ?entries" using step [OF less.prems] False by simp
      ultimately show ?thesis by (rule converse_rtrancl_into_rtrancl [rotated])
    qed
  qed
  have ids: "map run_id ?entries = map history_id views" by (simp add: tree_lineage_def)
  have "(run_id e, 0) \<in> (lineage ?entries)\<^sup>* \<and> 0 < run_id e" if "e \<in> set ?entries" for e
  proof -
    have "run_id e \<in> set (map run_id ?entries)" using that by simp
    then obtain v where "v \<in> set views" "run_id e = history_id v" unfolding ids by auto
    then show ?thesis using reach pos by simp
  qed
  then show ?thesis using dist ids by (simp add: valid_history_def)
qed

lemma database_history_valid:
  assumes ok: "db_ok db"
  shows "valid_history (tree_lineage
    (tree_bases (load_lora_history_snapshot (lora_training_history U db)) shown_base catalog)
    (load_lora_history_snapshot (lora_training_history U db)))"
proof -
  define views where "views = load_lora_history_snapshot (lora_training_history U db)"
  have rows: "rows_ok (runs db)" using ok by (simp add: db_ok_def)
  have "valid_history (tree_lineage (tree_bases views shown_base catalog) views)"
  proof (cases "views = []")
    case False
    let ?key = "\<lambda>v. (history_id v, history_parent v)"
    let ?row = "\<lambda>r. (row_id r, case row_parent r of None \<Rightarrow> 0 | Some p \<Rightarrow> p)"
    have keys: "map ?key views = map ?row (runs db)" using history_keys [OF views_def] False by blast
    then have "map fst (map ?key views) = map fst (map ?row (runs db))" by simp
    then have ids: "map history_id views = map row_id (runs db)" by (simp add: comp_def)
    then have "set (map history_id views) = set (map row_id (runs db))" by simp
    then have id_set: "history_id ` set views = row_id ` set (runs db)" by simp
    have each: "\<exists>r \<in> set (runs db). ?key v = ?row r" if "v \<in> set views" for v
    proof -
      have "?key v \<in> set (map ?row (runs db))" using that unfolding keys [symmetric] by simp
      then show ?thesis by auto
    qed
    show ?thesis
    proof (rule older_parents_valid)
      show "\<forall>v \<in> set views. 0 < history_id v" using each rows unfolding rows_ok_def by (metis fst_conv)
      show "distinct (map history_id views)" using rows by (simp add: ids rows_ok_def)
      show "\<forall>v \<in> set views. history_parent v \<noteq> 0 \<longrightarrow> history_parent v < history_id v \<and> history_parent v \<in> history_id ` set views"
      proof (intro ballI impI)
        fix v assume v: "v \<in> set views" "history_parent v \<noteq> 0"
        then obtain r where r: "r \<in> set (runs db)" "?key v = ?row r" using each by blast
        then have "row_parent r = Some (history_parent v)" using v(2) by (cases "row_parent r") auto
        then show "history_parent v < history_id v \<and> history_parent v \<in> history_id ` set views"
          using rows r unfolding id_set rows_ok_def by auto
      qed
    qed
  qed (simp add: valid_history_def tree_lineage_def)
  then show ?thesis unfolding views_def .
qed

end
