(* ===== verification/Training_Writer.thy ===== *)
theory Training_Writer
  imports Training_Invariant
begin

text \<open>
  The writer of the training data (service/src/service/training_data_writer.cpp): commits wait in a queue, are
  staged for a while so that Backspace can take the last one back, and are then sealed and stored by a thread of
  the writer. What the thread does between two locks is one step, and so is each call from outside; a call that
  holds \<open>protection_mutex_\<close> excludes \<open>persist\<close>. Times are ticks of the steady clock.
\<close>

section \<open>State\<close>

datatype queued_operation =
    Commit_operation raw_commit_event int nat
  | Discard_operation string u64 int
  | Clear_operation

record staged_commit =
  staged_event :: raw_commit_event
  staged_deadline :: int
  staged_generation :: nat

text \<open>
  Where the thread is: at the top of its loop, with an operation it took, woken by a deadline, writing what was
  due at a time it read, writing everything before it ends, ended.
\<close>

datatype writer_phase = At_top | Holding queued_operation | Woken | Flushing int | Finishing | Ended

record training_writer =
  writer_db :: training_db
  recording_enabled :: bool
  data_generation :: nat
  operations :: "queued_operation list"
  staged_commits :: "staged_commit list"
  at_work :: writer_phase
  writer_stopping :: bool
  cached_parameters :: "public_parameters option"
  cached_generation :: nat
  pending_count :: nat
  active_base :: string

text \<open>What the writer is built on: the libraries and its staging window.\<close>

record writer_env =
  sealing :: sodium
  codec_of :: text_codec
  json_of :: json_functions
  staging_window :: int

definition publish_pending_delta :: "int \<Rightarrow> training_writer \<Rightarrow> training_writer" where
  "publish_pending_delta delta w =
     w\<lparr>pending_count := (if 0 < delta then pending_count w + nat delta
       else pending_count w - min (pending_count w) (nat (- delta)))\<rparr>"

definition publish_latest_available_count :: "writer_env \<Rightarrow> training_writer \<Rightarrow> training_writer" where
  "publish_latest_available_count A w =
     (case rbind (if active_base w = [] then latest_lora_training_run (codec_of A) (writer_db w)
                  else latest_run_of_base (codec_of A) (writer_db w) (active_base w))
             (\<lambda>latest. available_count (writer_db w) (case latest of None \<Rightarrow> 0 | Some r \<Rightarrow> lora_id r)) of
        Inl e \<Rightarrow> w
      | Inr n \<Rightarrow> w\<lparr>pending_count := n\<rparr>)"

section \<open>Calls\<close>

definition enqueue_commit :: "raw_commit_event \<Rightarrow> int \<Rightarrow> training_writer \<Rightarrow> training_writer" where
  "enqueue_commit e now w =
     (if \<not> recording_enabled w \<or> writer_stopping w \<or> 256 \<le> length (operations w) then w
      else w\<lparr>operations := operations w @ [Commit_operation e now (data_generation w)]\<rparr>)"

definition discard_staged :: "string \<Rightarrow> u64 \<Rightarrow> int \<Rightarrow> training_writer \<Rightarrow> training_writer" where
  "discard_staged session n now w =
     (if \<not> recording_enabled w \<or> writer_stopping w then w
      else w\<lparr>operations := operations w @ [Discard_operation session n now]\<rparr>)"

definition set_recording_enabled :: "writer_env \<Rightarrow> bool \<Rightarrow> training_writer \<Rightarrow> training_writer" where
  "set_recording_enabled A enabled w =
     (case db_set_recording (sealing A) (writer_db w) enabled of
        Inl e \<Rightarrow> w
      | Inr db \<Rightarrow>
          let w = w\<lparr>writer_db := db, recording_enabled := enabled\<rparr> in
          if enabled then w else w\<lparr>operations := [Clear_operation]\<rparr>)"

text \<open>The code holds the lock of the protection throughout and takes that of the queue inside it.  The thread needs the
  first lock to store anything, and checks the generation under it, so the whole is one step here.\<close>

definition reset_conversation_data :: "training_writer \<Rightarrow> training_writer" where
  "reset_conversation_data w =
     publish_pending_delta (- int (pending_count w))
       (w\<lparr>recording_enabled := False, data_generation := data_generation w + 1, operations := [Clear_operation],
          writer_db := db_reset (writer_db w)\<rparr>)"

definition writer_configure_password :: "writer_env \<Rightarrow> string \<Rightarrow> string \<Rightarrow> training_writer \<Rightarrow> training_writer" where
  "writer_configure_password A random_salt password w =
     (case configure_password (sealing A) random_salt (writer_db w) password of
        Inl e \<Rightarrow> w
      | Inr db \<Rightarrow> w\<lparr>writer_db := db, recording_enabled := True\<rparr>)"

text \<open>The operations on the database alone; those that change what is available publish the count again.\<close>

definition counted :: "writer_env \<Rightarrow> bool \<times> training_db \<Rightarrow> training_writer \<Rightarrow> training_writer" where
  "counted A r w = (if fst r then publish_latest_available_count A (w\<lparr>writer_db := snd r\<rparr>) else w\<lparr>writer_db := snd r\<rparr>)"

section \<open>The thread\<close>

definition commit_row_of :: "sodium \<Rightarrow> text_codec \<Rightarrow> public_parameters \<Rightarrow> raw_commit_event \<Rightarrow> exn + commit_row" where
  "commit_row_of K U P e =
     (let event = event_id_of (event_session e) (event_sequence e) in
      rbind (rbind (to_utf8 U (event_context e)) (\<lambda>s. seal_value K s (field_identity event ''context'') P)) (\<lambda>ctxt.
      rbind (rbind (to_utf8 U (event_answer e)) (\<lambda>s. seal_value K s (field_identity event ''answer'') P)) (\<lambda>text.
      rbind (rbind (serialize_padding U e) (\<lambda>s. seal_value K s (field_identity event ''padding_json'') P)) (\<lambda>padding.
      rbind (rbind (to_utf8 U (display_reading e)) (\<lambda>s. seal_value K s (field_identity event ''reading'') P)) (\<lambda>reading.
        Inr \<lparr>commit_id = 0, commit_event = event, commit_schema = 2, commit_context = ctxt, commit_answer = text,
          commit_padding = padding, commit_reading = reading, commit_revised = was_revised e, commit_time = event_time e,
          commit_state = Pending\<rparr>)))))"

text \<open>The public parameters are read once for each generation.\<close>

definition cache_for :: "nat \<Rightarrow> training_writer \<Rightarrow> training_writer" where
  "cache_for g w =
     (if cached_generation w \<noteq> g then w\<lparr>cached_parameters := None, cached_generation := g\<rparr> else w)"

definition parameters_for :: "writer_env \<Rightarrow> training_writer \<Rightarrow> exn + public_parameters" where
  "parameters_for A w =
     (case cached_parameters w of None \<Rightarrow> read_parameters (sealing A) (writer_db w) | Some P \<Rightarrow> Inr P)"

definition store_commit :: "writer_env \<Rightarrow> public_parameters \<Rightarrow> raw_commit_event \<Rightarrow> training_writer \<Rightarrow> training_writer" where
  "store_commit A P e w =
     (case commit_row_of (sealing A) (codec_of A) P e of
        Inl x \<Rightarrow> w
      | Inr c \<Rightarrow>
          (case insert_commit c (writer_db w) of (inserted, db) \<Rightarrow> publish_pending_delta (int inserted) (w\<lparr>writer_db := db\<rparr>)))"

definition persist :: "writer_env \<Rightarrow> raw_commit_event \<Rightarrow> nat \<Rightarrow> training_writer \<Rightarrow> training_writer" where
  "persist A e g w =
     (if \<not> has_bopomofo_input e \<or> \<not> recording_enabled w \<or> g \<noteq> data_generation w then w
      else
        (case parameters_for A (cache_for g w) of
           Inl x \<Rightarrow> cache_for g w
         | Inr P \<Rightarrow> store_commit A P e ((cache_for g w)\<lparr>cached_parameters := Some P\<rparr>)))"

definition same_commit :: "string \<Rightarrow> u64 \<Rightarrow> raw_commit_event \<Rightarrow> bool" where
  "same_commit session n e \<longleftrightarrow> event_session e = session \<and> event_sequence e = n"

text \<open>Storing the commit before and staging the new one are one step here; the code releases the lock of the
  protection in between.  A reset that comes between the two raises the generation, so the commit staged after
  it is not stored either way.\<close>

definition process_operation :: "writer_env \<Rightarrow> queued_operation \<Rightarrow> training_writer \<Rightarrow> training_writer" where
  "process_operation A op w =
     (case op of
        Clear_operation \<Rightarrow> w\<lparr>staged_commits := []\<rparr>
      | Discard_operation session n queued_at \<Rightarrow>
          (case find_index (\<lambda>x. same_commit session n (staged_event x)) (staged_commits w) of
             Some i \<Rightarrow>
               if queued_at \<le> staged_deadline (staged_commits w ! i)
               then w\<lparr>staged_commits := list_erase i (staged_commits w)\<rparr> else w
           | None \<Rightarrow> w)
      | Commit_operation e queued_at g \<Rightarrow>
          let w = (case find_index (\<lambda>x. event_session (staged_event x) = event_session e) (staged_commits w) of
                     Some i \<Rightarrow>
                       persist A (staged_event (staged_commits w ! i)) (staged_generation (staged_commits w ! i))
                         (w\<lparr>staged_commits := list_erase i (staged_commits w)\<rparr>)
                   | None \<Rightarrow> w) in
          if recording_enabled w \<and> has_bopomofo_input e
          then w\<lparr>staged_commits := staged_commits w @
            [\<lparr>staged_event = e, staged_deadline = queued_at + staging_window A, staged_generation = g\<rparr>]\<rparr>
          else w)"

text \<open>One step of the thread at a time, when it can take it.\<close>

definition take_operation :: "training_writer \<Rightarrow> training_writer" where
  "take_operation w =
     (case (at_work w, operations w) of
        (At_top, op # ops) \<Rightarrow> w\<lparr>at_work := Holding op, operations := ops\<rparr>
      | _ \<Rightarrow> w)"

definition work_on_operation :: "writer_env \<Rightarrow> training_writer \<Rightarrow> training_writer" where
  "work_on_operation A w =
     (case at_work w of Holding op \<Rightarrow> (process_operation A op w)\<lparr>at_work := At_top\<rparr> | _ \<Rightarrow> w)"

definition wake :: "int \<Rightarrow> training_writer \<Rightarrow> training_writer" where
  "wake now w =
     (if at_work w = At_top \<and> operations w = [] \<and> \<not> writer_stopping w \<and> staged_commits w \<noteq> [] \<and>
         staged_deadline (hd (staged_commits w)) \<le> now
      then w\<lparr>at_work := Woken\<rparr> else w)"

definition begin_flush :: "int \<Rightarrow> training_writer \<Rightarrow> training_writer" where
  "begin_flush now w = (if at_work w = Woken then w\<lparr>at_work := Flushing now\<rparr> else w)"

definition flush_next :: "writer_env \<Rightarrow> training_writer \<Rightarrow> training_writer" where
  "flush_next A w =
     (case at_work w of
        Flushing now \<Rightarrow>
          (case staged_commits w of
             [] \<Rightarrow> w\<lparr>at_work := At_top\<rparr>
           | x # xs \<Rightarrow>
               if staged_deadline x \<le> now
               then persist A (staged_event x) (staged_generation x) (w\<lparr>staged_commits := xs\<rparr>)
               else w\<lparr>at_work := At_top\<rparr>)
      | _ \<Rightarrow> w)"

definition begin_finish :: "training_writer \<Rightarrow> training_writer" where
  "begin_finish w =
     (if at_work w = At_top \<and> operations w = [] \<and> writer_stopping w then w\<lparr>at_work := Finishing\<rparr> else w)"

definition finish_next :: "writer_env \<Rightarrow> training_writer \<Rightarrow> training_writer" where
  "finish_next A w =
     (if at_work w = Finishing then
        (case staged_commits w of
           [] \<Rightarrow> w\<lparr>at_work := Ended\<rparr>
         | x # xs \<Rightarrow> persist A (staged_event x) (staged_generation x) (w\<lparr>staged_commits := xs\<rparr>))
      else w)"

section \<open>Runs\<close>

datatype writer_event =
    Enqueue_event raw_commit_event int
  | Discard_event string u64 int
  | Record_event bool
  | Reset_event
  | Password_event string string
  | Train_event lora_run "u16string list"
  | Delete_event u16string
  | Exclude_event "u16string list" "u16string list"
  | Base_event base_model bool
  | Migrate_event string
  | Active_event string
  | Stop_event
  | Take_step
  | Work_step
  | Wake_step int
  | Begin_flush_step int
  | Flush_step
  | Begin_finish_step
  | Finish_step

fun writer_step :: "writer_env \<Rightarrow> writer_event \<Rightarrow> training_writer \<Rightarrow> training_writer" where
  "writer_step A (Enqueue_event e now) w = enqueue_commit e now w"
| "writer_step A (Discard_event s n now) w = discard_staged s n now w"
| "writer_step A (Record_event b) w = set_recording_enabled A b w"
| "writer_step A Reset_event w = reset_conversation_data w"
| "writer_step A (Password_event s p) w = writer_configure_password A s p w"
| "writer_step A (Train_event r ids) w = counted A (complete_lora_training (json_of A) (codec_of A) (writer_db w) r ids) w"
| "writer_step A (Delete_event e) w = counted A (delete_pending (codec_of A) (writer_db w) e) w"
| "writer_step A (Exclude_event s r) w = counted A (exclude_unselected (codec_of A) (writer_db w) s r) w"
| "writer_step A (Base_event m b) w = 
     w\<lparr>writer_db := or_unchanged (register_lora_base_model (codec_of A) (writer_db w) m b) (writer_db w)\<rparr>"
| "writer_step A (Migrate_event f) w =
     w\<lparr>writer_db := or_unchanged (migrate_legacy_base_model_fingerprint (writer_db w) f) (writer_db w)\<rparr>"
| "writer_step A (Active_event f) w = publish_latest_available_count A (w\<lparr>active_base := f\<rparr>)"
| "writer_step A Stop_event w = w\<lparr>writer_stopping := True\<rparr>"
| "writer_step A Take_step w = take_operation w"
| "writer_step A Work_step w = work_on_operation A w"
| "writer_step A (Wake_step now) w = wake now w"
| "writer_step A (Begin_flush_step now) w = begin_flush now w"
| "writer_step A Flush_step w = flush_next A w"
| "writer_step A Begin_finish_step w = begin_finish w"
| "writer_step A Finish_step w = finish_next A w"

text \<open>The constructor, on a database of the present version.\<close>

definition new_writer :: "writer_env \<Rightarrow> training_db \<Rightarrow> exn + training_writer" where
  "new_writer A db =
     rbind (latest_lora_training_run (codec_of A) db) (\<lambda>latest.
     rbind (available_count db (case latest of None \<Rightarrow> 0 | Some r \<Rightarrow> lora_id r)) (\<lambda>n.
       Inr \<lparr>writer_db = db, recording_enabled = snd (protection_status db), data_generation = 0, operations = [],
         staged_commits = [], at_work = At_top, writer_stopping = False, cached_parameters = None, cached_generation = 0,
         pending_count = n, active_base = []\<rparr>))"

definition run_writer :: "writer_env \<Rightarrow> writer_event list \<Rightarrow> training_writer \<Rightarrow> training_writer" where
  "run_writer A evs w = fold (writer_step A) evs w"

end
