(* ===== verification/Training_Queue.thy ===== *)
theory Training_Queue
  imports Training_Writer
begin

text \<open>
  What each step of the writer does to the commits on their way: \<open>carried\<close> are those queued, held or staged with
  the generation they were recorded in, \<open>stored\<close> the identifiers in the database. Nothing is carried that was
  not enqueued, and nothing stored that was not carried in the present generation.
\<close>

definition event_key :: "raw_commit_event \<Rightarrow> string" where
  "event_key e = event_id_of (event_session e) (event_sequence e)"

lemma event_key_same: "event_key e = event_id_of s n \<longleftrightarrow> same_commit s n e"
  by (auto simp: event_key_def same_commit_def event_id_inj)

definition pending_operations :: "training_writer \<Rightarrow> queued_operation list" where
  "pending_operations w = (case at_work w of Holding op \<Rightarrow> [op] | _ \<Rightarrow> []) @ operations w"

definition carried :: "training_writer \<Rightarrow> (raw_commit_event \<times> nat) set" where
  "carried w = {(e, g). \<exists>t. Commit_operation e t g \<in> set (pending_operations w)} \<union>
     {(staged_event x, staged_generation x) | x. x \<in> set (staged_commits w)}"

definition stored :: "training_writer \<Rightarrow> string set" where
  "stored w = commit_event ` set (commits (writer_db w))"

section \<open>Frames\<close>

lemma publish_frame [simp]:
  "writer_db (publish_pending_delta d w) = writer_db w" "operations (publish_pending_delta d w) = operations w"
  "staged_commits (publish_pending_delta d w) = staged_commits w" "at_work (publish_pending_delta d w) = at_work w"
  "data_generation (publish_pending_delta d w) = data_generation w" "recording_enabled (publish_pending_delta d w) = recording_enabled w"
  "writer_stopping (publish_pending_delta d w) = writer_stopping w"
  by (simp_all add: publish_pending_delta_def)

lemma publish_latest_frame [simp]:
  "writer_db (publish_latest_available_count A w) = writer_db w" "operations (publish_latest_available_count A w) = operations w"
  "staged_commits (publish_latest_available_count A w) = staged_commits w" "at_work (publish_latest_available_count A w) = at_work w"
  "data_generation (publish_latest_available_count A w) = data_generation w"
  "recording_enabled (publish_latest_available_count A w) = recording_enabled w"
  "writer_stopping (publish_latest_available_count A w) = writer_stopping w"
  by (simp_all add: publish_latest_available_count_def split: sum.split)

lemma cache_frame [simp]:
  "writer_db (cache_for g w) = writer_db w" "operations (cache_for g w) = operations w"
  "staged_commits (cache_for g w) = staged_commits w" "at_work (cache_for g w) = at_work w"
  "data_generation (cache_for g w) = data_generation w" "recording_enabled (cache_for g w) = recording_enabled w"
  "writer_stopping (cache_for g w) = writer_stopping w"
  by (simp_all add: cache_for_def)

lemma store_frame [simp]:
  "operations (store_commit A P e w) = operations w" "staged_commits (store_commit A P e w) = staged_commits w"
  "at_work (store_commit A P e w) = at_work w" "data_generation (store_commit A P e w) = data_generation w"
  "recording_enabled (store_commit A P e w) = recording_enabled w" "writer_stopping (store_commit A P e w) = writer_stopping w"
  by (simp_all add: store_commit_def case_prod_unfold split: sum.split)

lemma persist_frame [simp]:
  "operations (persist A e g w) = operations w" "staged_commits (persist A e g w) = staged_commits w"
  "at_work (persist A e g w) = at_work w" "data_generation (persist A e g w) = data_generation w"
  "recording_enabled (persist A e g w) = recording_enabled w" "writer_stopping (persist A e g w) = writer_stopping w"
  by (simp_all add: persist_def split: sum.split)

lemma commit_row_event: "commit_row_of K U P e = Inr c \<Longrightarrow> commit_event c = event_key e"
  by (auto simp: commit_row_of_def Let_def rbind_Inr_iff event_key_def)

lemma store_commit_stored: "stored (store_commit A P e w) \<subseteq> insert (event_key e) (stored w)"
proof (cases "commit_row_of (sealing A) (codec_of A) P e")
  case (Inr c)
  have "commit_event ` set (commits (snd (insert_commit c db))) \<subseteq> insert (commit_event c) (commit_event ` set (commits db))" for db
    by (auto simp: insert_commit_def)
  then show ?thesis using Inr commit_row_event [OF Inr] by (simp add: store_commit_def stored_def case_prod_unfold)
qed (auto simp: store_commit_def)

lemma persist_stored: "stored (persist A e g w) \<subseteq> stored w \<union> (if g = data_generation w then {event_key e} else {})"
proof (cases "\<not> has_bopomofo_input e \<or> \<not> recording_enabled w \<or> g \<noteq> data_generation w")
  case False
  have "stored ((cache_for g w)\<lparr>cached_parameters := p\<rparr>) = stored w" "stored (cache_for g w) = stored w" for p
    by (simp_all add: stored_def)
  then show ?thesis
    using False store_commit_stored [of A _ e "(cache_for g w)\<lparr>cached_parameters := Some _\<rparr>"]
    by (auto simp: persist_def split: sum.split)
qed (auto simp: persist_def)

lemma db_calls_stored:
  "commit_event ` set (commits (snd (complete_lora_training J U db r ids))) = commit_event ` set (commits db)"
  "commit_event ` set (commits (snd (delete_pending U db e))) \<subseteq> commit_event ` set (commits db)"
  "commit_event ` set (commits (snd (exclude_unselected U db s s'))) = commit_event ` set (commits db)"
  "commit_event ` set (commits (or_unchanged (register_lora_base_model U db m b) db)) = commit_event ` set (commits db)"
  "commit_event ` set (commits (or_unchanged (migrate_legacy_base_model_fingerprint db f) db)) = commit_event ` set (commits db)"
proof -
  have rewritten: "commit_event ` f ` S = commit_event ` S" if "\<And>c. commit_event (f c) = commit_event c" for f S
    by (simp add: image_image that)
  have link: "link_commits U base run ids db = Inr db' \<Longrightarrow> commits db' = commits db" for base run db' db
    by (induction ids arbitrary: db) (auto simp: rbind_Inr_iff split: option.splits if_splits)
  show "commit_event ` set (commits (snd (complete_lora_training J U db r ids))) = commit_event ` set (commits db)"
    using link by (auto simp: complete_lora_training_def training_transaction_def rbind_Inr_iff split: sum.split if_splits)
  show "commit_event ` set (commits (snd (delete_pending U db e))) \<subseteq> commit_event ` set (commits db)"
    by (auto simp: delete_pending_def delete_commits_def Let_def split: sum.split)
  show "commit_event ` set (commits (snd (exclude_unselected U db s s'))) = commit_event ` set (commits db)"
    by (simp add: exclude_unselected_def rewritten del: if_image_distrib split: sum.split)
  show "commit_event ` set (commits (or_unchanged (register_lora_base_model U db m b) db)) = commit_event ` set (commits db)"
    by (simp add: or_unchanged_def register_lora_base_model_def rbind_def Let_def split: sum.split)
  show "commit_event ` set (commits (or_unchanged (migrate_legacy_base_model_fingerprint db f) db)) = commit_event ` set (commits db)"
    by (simp add: or_unchanged_def migrate_legacy_base_model_fingerprint_def Let_def)
qed

lemma configure_stored: "configure_password K s db p = Inr db' \<Longrightarrow> commit_event ` set (commits db') = commit_event ` set (commits db)"
  using configure_rows(2) by (metis list.set_map)

section \<open>Steps\<close>

lemma carried_mono:
  assumes "\<And>e t g. Commit_operation e t g \<in> set (pending_operations w') \<Longrightarrow> Commit_operation e t g \<in> set (pending_operations w)"
    "set (staged_commits w') \<subseteq> set (staged_commits w)"
  shows "carried w' \<subseteq> carried w"
  using assms unfolding carried_def by blast

lemma pending_take: "pending_operations (take_operation w) = pending_operations w"
  by (simp add: take_operation_def pending_operations_def split: writer_phase.split list.split)

lemma pending_frame:
  "at_work w' = at_work w \<Longrightarrow> operations w' = operations w \<Longrightarrow> pending_operations w' = pending_operations w"
  by (simp add: pending_operations_def)

lemma flush_frame:
  "pending_operations (flush_next A w) = pending_operations w" "set (staged_commits (flush_next A w)) \<subseteq> set (staged_commits w)"
  "data_generation (flush_next A w) = data_generation w"
  by (auto simp: flush_next_def pending_operations_def split: writer_phase.split list.split)

lemma finish_frame:
  "pending_operations (finish_next A w) = pending_operations w" "set (staged_commits (finish_next A w)) \<subseteq> set (staged_commits w)"
  "data_generation (finish_next A w) = data_generation w"
  by (auto simp: finish_next_def pending_operations_def split: list.split)

lemma find_staged: "find_index P xs = Some i \<Longrightarrow> xs ! i \<in> set xs \<and> set (list_erase i xs) \<subseteq> set xs"
  using find_index_in_set set_list_erase_subset by fastforce

lemma process_staged:
  "set (staged_commits (process_operation A op w)) \<subseteq> set (staged_commits w) \<union>
    (case op of Commit_operation e t g \<Rightarrow> {\<lparr>staged_event = e, staged_deadline = t + staging_window A, staged_generation = g\<rparr>} | _ \<Rightarrow> {})"
  using find_staged
  by (auto simp: process_operation_def Let_def split: queued_operation.split option.splits if_splits; blast)

lemma process_frame:
  "operations (process_operation A op w) = operations w" "data_generation (process_operation A op w) = data_generation w"
  "recording_enabled (process_operation A op w) = recording_enabled w"
  "writer_stopping (process_operation A op w) = writer_stopping w"
  by (simp_all add: process_operation_def Let_def split: queued_operation.split option.split)

lemma process_stored:
  "stored (process_operation A op w) \<subseteq> stored w \<union> event_key ` {staged_event x | x. x \<in> set (staged_commits w) \<and> staged_generation x = data_generation w}"
proof (cases op)
  case (Commit_operation e t g)
  show ?thesis
  proof (cases "find_index (\<lambda>x. event_session (staged_event x) = event_session e) (staged_commits w)")
    case (Some i)
    let ?x = "staged_commits w ! i"
    have "stored (persist A (staged_event ?x) (staged_generation ?x) (w\<lparr>staged_commits := list_erase i (staged_commits w)\<rparr>)) \<subseteq>
        stored w \<union> (if staged_generation ?x = data_generation w then {event_key (staged_event ?x)} else {})"
      using persist_stored [of A "staged_event ?x" "staged_generation ?x" "w\<lparr>staged_commits := list_erase i (staged_commits w)\<rparr>"]
      by (simp add: stored_def)
    moreover have "?x \<in> set (staged_commits w)" using find_staged [OF Some] by simp
    ultimately show ?thesis using Some Commit_operation by (auto simp: process_operation_def Let_def stored_def split: if_splits)
  qed (auto simp: Commit_operation process_operation_def Let_def stored_def)
qed (auto simp: process_operation_def Let_def stored_def split: option.split)

lemma work_carried: "carried (work_on_operation A w) \<subseteq> carried w"
proof (cases "at_work w")
  case (Holding op)
  have "pending_operations (work_on_operation A w) = operations w"
    using Holding by (simp add: work_on_operation_def pending_operations_def process_frame)
  moreover have "pending_operations w = op # operations w" using Holding by (simp add: pending_operations_def)
  moreover have "staged_commits (work_on_operation A w) = staged_commits (process_operation A op w)"
    using Holding by (simp add: work_on_operation_def)
  moreover have "(staged_event x, staged_generation x) \<in> carried w" if "x \<in> set (staged_commits (process_operation A op w))" for x
    using that process_staged [of A op w] \<open>pending_operations w = op # operations w\<close> unfolding carried_def
    by (cases op) force+
  ultimately show ?thesis unfolding carried_def by auto
qed (simp_all add: work_on_operation_def)

lemma counted_frame:
  "pending_operations (counted A r w) = pending_operations w" "staged_commits (counted A r w) = staged_commits w"
  "data_generation (counted A r w) = data_generation w" "recording_enabled (counted A r w) = recording_enabled w"
  "stored (counted A r w) = commit_event ` set (commits (snd r))" "at_work (counted A r w) = at_work w"
  "operations (counted A r w) = operations w" "writer_stopping (counted A r w) = writer_stopping w"
  by (simp_all add: counted_def pending_operations_def stored_def)

lemma carried_step:
  "carried (writer_step A ev w) \<subseteq> carried w \<union> (case ev of Enqueue_event e t \<Rightarrow> {(e, data_generation w)} | _ \<Rightarrow> {})"
proof (cases ev)
  case (Enqueue_event e t)
  then show ?thesis by (auto simp: enqueue_commit_def carried_def pending_operations_def)
next
  case (Discard_event s n t)
  have "carried (discard_staged s n t w) \<subseteq> carried w"
    by (rule carried_mono) (auto simp: discard_staged_def pending_operations_def split: if_splits)
  then show ?thesis using Discard_event by simp
next
  case (Record_event b)
  have "carried (set_recording_enabled A b w) \<subseteq> carried w"
    by (rule carried_mono) (auto simp: set_recording_enabled_def pending_operations_def Let_def split: sum.splits if_splits)
  then show ?thesis using Record_event by simp
next
  case Reset_event
  have "carried (reset_conversation_data w) \<subseteq> carried w"
    by (rule carried_mono) (auto simp: reset_conversation_data_def pending_operations_def)
  then show ?thesis using Reset_event by simp
next
  case (Password_event s p)
  have "carried (writer_configure_password A s p w) \<subseteq> carried w"
    by (rule carried_mono) (auto simp: writer_configure_password_def pending_operations_def split: sum.splits)
  then show ?thesis using Password_event by simp
next
  case Take_step
  have "carried (take_operation w) \<subseteq> carried w"
    by (rule carried_mono) (simp add: pending_take, simp add: take_operation_def split: writer_phase.split list.split)
  then show ?thesis using Take_step by simp
next
  case Flush_step
  have "carried (flush_next A w) \<subseteq> carried w" by (rule carried_mono) (use flush_frame in auto)
  then show ?thesis using Flush_step by simp
next
  case Finish_step
  have "carried (finish_next A w) \<subseteq> carried w" by (rule carried_mono) (use finish_frame in auto)
  then show ?thesis using Finish_step by simp
next
  case (Wake_step now)
  then show ?thesis by (simp add: wake_def carried_def pending_operations_def)
next
  case (Begin_flush_step now)
  then show ?thesis by (simp add: begin_flush_def carried_def pending_operations_def)
next
  case Begin_finish_step
  then show ?thesis by (simp add: begin_finish_def carried_def pending_operations_def)
qed (use work_carried in \<open>simp_all add: carried_def counted_frame pending_operations_def\<close>)

lemma generation_step: "data_generation w \<le> data_generation (writer_step A ev w)"
  by (cases ev) (simp_all add: enqueue_commit_def discard_staged_def set_recording_enabled_def reset_conversation_data_def
      writer_configure_password_def counted_frame take_operation_def work_on_operation_def process_frame wake_def begin_flush_def
      flush_frame begin_finish_def finish_frame Let_def split: sum.split writer_phase.split list.split)

lemma flush_stored: "stored (flush_next A w) \<subseteq> stored w \<union> event_key ` {e. (e, data_generation w) \<in> carried w}"
proof (cases "at_work w")
  case (Flushing now)
  show ?thesis
  proof (cases "staged_commits w")
    case (Cons x xs)
    have "stored (persist A (staged_event x) (staged_generation x) (w\<lparr>staged_commits := xs\<rparr>)) \<subseteq>
        stored w \<union> (if staged_generation x = data_generation w then {event_key (staged_event x)} else {})"
      using persist_stored [of A "staged_event x" "staged_generation x" "w\<lparr>staged_commits := xs\<rparr>"] by (simp add: stored_def)
    moreover have "(staged_event x, staged_generation x) \<in> carried w" using Cons by (auto simp: carried_def)
    ultimately have "stored (persist A (staged_event x) (staged_generation x) (w\<lparr>staged_commits := xs\<rparr>)) \<subseteq>
        stored w \<union> event_key ` {e. (e, data_generation w) \<in> carried w}" by (auto split: if_splits)
    then show ?thesis using Flushing Cons by (auto simp: flush_next_def stored_def)
  qed (simp add: flush_next_def Flushing stored_def)
qed (auto simp: flush_next_def)

lemma finish_stored: "stored (finish_next A w) \<subseteq> stored w \<union> event_key ` {e. (e, data_generation w) \<in> carried w}"
proof (cases "at_work w = Finishing")
  case True
  show ?thesis
  proof (cases "staged_commits w")
    case (Cons x xs)
    have "stored (persist A (staged_event x) (staged_generation x) (w\<lparr>staged_commits := xs\<rparr>)) \<subseteq>
        stored w \<union> (if staged_generation x = data_generation w then {event_key (staged_event x)} else {})"
      using persist_stored [of A "staged_event x" "staged_generation x" "w\<lparr>staged_commits := xs\<rparr>"] by (simp add: stored_def)
    moreover have "(staged_event x, staged_generation x) \<in> carried w" using Cons by (auto simp: carried_def)
    ultimately have "stored (persist A (staged_event x) (staged_generation x) (w\<lparr>staged_commits := xs\<rparr>)) \<subseteq>
        stored w \<union> event_key ` {e. (e, data_generation w) \<in> carried w}" by (auto split: if_splits)
    then show ?thesis using True Cons by (auto simp: finish_next_def stored_def)
  qed (simp add: finish_next_def True stored_def)
qed (auto simp: finish_next_def)

lemma stored_frames:
  "stored (enqueue_commit e t w) = stored w" "stored (discard_staged s n t w) = stored w" "stored (wake t w) = stored w"
  "stored (begin_flush t w) = stored w" "stored (begin_finish w) = stored w"
  "stored (counted A (complete_lora_training J U (writer_db w) r ids) w) = stored w"
  "stored (counted A (exclude_unselected U (writer_db w) u u') w) = stored w"
  "stored (w\<lparr>writer_db := or_unchanged (register_lora_base_model U (writer_db w) m b) (writer_db w)\<rparr>) = stored w"
  "stored (w\<lparr>writer_db := or_unchanged (migrate_legacy_base_model_fingerprint (writer_db w) f) (writer_db w)\<rparr>) = stored w"
  "stored (publish_latest_available_count A (w\<lparr>active_base := f\<rparr>)) = stored w" "stored (w\<lparr>writer_stopping := b\<rparr>) = stored w"
  unfolding counted_frame
  by (simp_all add: stored_def db_calls_stored enqueue_commit_def discard_staged_def wake_def begin_flush_def begin_finish_def)

lemma stored_step: "stored (writer_step A ev w) \<subseteq> stored w \<union> event_key ` {e. (e, data_generation w) \<in> carried w}"
proof (cases ev)
  case Work_step
  show ?thesis
  proof (cases "at_work w")
    case (Holding op)
    have "stored (writer_step A ev w) = stored (process_operation A op w)"
      using Holding by (simp add: Work_step work_on_operation_def stored_def)
    also have "\<dots> \<subseteq> stored w \<union> event_key ` {staged_event x | x. x \<in> set (staged_commits w) \<and> staged_generation x = data_generation w}"
      by (rule process_stored)
    also have "\<dots> \<subseteq> stored w \<union> event_key ` {e. (e, data_generation w) \<in> carried w}"
      by (intro Un_mono subset_refl image_mono) (auto simp: carried_def)
    finally show ?thesis .
  qed (auto simp: Work_step work_on_operation_def)
next
  case (Password_event s p)
  show ?thesis
    using configure_stored by (auto simp: Password_event writer_configure_password_def stored_def split: sum.split)
next
  case Reset_event
  then show ?thesis by (simp add: reset_conversation_data_def stored_def db_reset_def delete_commits_def Let_def)
next
  case Take_step
  then show ?thesis by (auto simp: take_operation_def stored_def split: writer_phase.split list.split)
next
  case (Record_event b)
  then show ?thesis by (auto simp: set_recording_enabled_def db_set_recording_def rbind_Inr_iff stored_def Let_def split: sum.split)
next
  case (Delete_event e)
  have "stored (counted A (delete_pending (codec_of A) (writer_db w) e) w) \<subseteq> stored w"
    unfolding counted_frame unfolding stored_def by (rule db_calls_stored)
  then show ?thesis using Delete_event by auto
qed (use flush_stored finish_stored db_calls_stored(1,3-5) in
    \<open>auto simp: stored_frames\<close>)

section \<open>A reset forgets\<close>

text \<open>What is carried was recorded no later than now; after a reset nothing of before is stored.\<close>

definition no_later :: "training_writer \<Rightarrow> bool" where
  "no_later w \<longleftrightarrow> (\<forall>(e, g) \<in> carried w. g \<le> data_generation w)"

lemma no_later_step: "no_later w \<Longrightarrow> no_later (writer_step A ev w)"
proof -
  assume old: "no_later w"
  have "g \<le> data_generation w" if "(e, g) \<in> carried (writer_step A ev w)" for e g
    using subsetD [OF carried_step that] old by (auto simp: no_later_def split: writer_event.splits)
  then show ?thesis using generation_step [of w A ev] unfolding no_later_def by fastforce
qed

interpretation order_of_recording: kept_by_steps "writer_step A" no_later for A
  by unfold_locales (rule no_later_step)

lemma no_later_run: "no_later w \<Longrightarrow> no_later (run_writer A evs w)"
  unfolding run_writer_def by (rule order_of_recording.kept)

lemma no_later_new: "new_writer A db = Inr w \<Longrightarrow> no_later w"
  by (auto simp: new_writer_def rbind_Inr_iff no_later_def carried_def pending_operations_def)

text \<open>Of a generation on, only what is in \<open>E\<close> is on its way or stored.\<close>

definition only_from :: "nat \<Rightarrow> raw_commit_event set \<Rightarrow> training_writer \<Rightarrow> bool" where
  "only_from n E w \<longleftrightarrow>
     n \<le> data_generation w \<and> (\<forall>(e, g) \<in> carried w. n \<le> g \<longrightarrow> e \<in> E) \<and> stored w \<subseteq> event_key ` E"

lemma only_from_step:
  assumes "only_from n E w"
  shows "only_from n (E \<union> (case ev of Enqueue_event e t \<Rightarrow> {e} | _ \<Rightarrow> {})) (writer_step A ev w)"
proof -
  have now: "e \<in> E" if "(e, data_generation w) \<in> carried w" for e
    using assms that by (auto simp: only_from_def)
  have "stored (writer_step A ev w) \<subseteq> event_key ` E"
    using stored_step [of A ev w] assms now by (fastforce simp: only_from_def)
  moreover have "e \<in> E \<union> (case ev of Enqueue_event e t \<Rightarrow> {e} | _ \<Rightarrow> {})" if "(e, g) \<in> carried (writer_step A ev w)" "n \<le> g" for e g
    using subsetD [OF carried_step that(1)] that(2) assms by (auto simp: only_from_def split: writer_event.splits)
  ultimately show ?thesis
    using assms generation_step [of w A ev] by (auto simp: only_from_def)
qed

lemma only_from_run:
  "only_from n E w \<Longrightarrow> only_from n (E \<union> {e. \<exists>t. Enqueue_event e t \<in> set evs}) (run_writer A evs w)"
  unfolding run_writer_def
proof (induction evs arbitrary: w E)
  case (Cons ev evs)
  have "only_from n ((E \<union> (case ev of Enqueue_event e t \<Rightarrow> {e} | _ \<Rightarrow> {})) \<union> {e. \<exists>t. Enqueue_event e t \<in> set evs})
    (fold (writer_step A) evs (writer_step A ev w))"
    by (rule Cons.IH, rule only_from_step, rule Cons.prems)
  moreover have "(E \<union> (case ev of Enqueue_event e t \<Rightarrow> {e} | _ \<Rightarrow> {})) \<union> {e. \<exists>t. Enqueue_event e t \<in> set evs}
    = E \<union> {e. \<exists>t. Enqueue_event e t \<in> set (ev # evs)}"
    by (cases ev) auto
  ultimately show ?case by simp
qed simp

lemma only_from_reset: "no_later w \<Longrightarrow> only_from (Suc (data_generation w)) {} (reset_conversation_data w)"
proof -
  assume old: "no_later w"
  have "carried (reset_conversation_data w) \<subseteq> carried w" using carried_step [of A Reset_event w] by simp
  then have "g \<le> data_generation w" if "(e, g) \<in> carried (reset_conversation_data w)" for e g
    using that old unfolding no_later_def by blast
  moreover have "stored (reset_conversation_data w) = {}"
    by (simp add: reset_conversation_data_def stored_def db_reset_def delete_commits_def Let_def)
  moreover have "data_generation (reset_conversation_data w) = Suc (data_generation w)"
    by (simp add: reset_conversation_data_def)
  ultimately show ?thesis unfolding only_from_def by fastforce
qed

lemma reset_then_only:
  assumes "new_writer A db = Inr w0"
  shows "stored (run_writer A evs' (reset_conversation_data (run_writer A evs w0))) \<subseteq>
    event_key ` {e. \<exists>t. Enqueue_event e t \<in> set evs'}"
  using only_from_run [OF only_from_reset [OF no_later_run [OF no_later_new [OF assms]]], where evs = evs' and A = A]
  by (simp add: only_from_def)

end
