(* ===== verification/Training_Sealing.thy ===== *)
theory Training_Sealing
  imports Training_Queue
begin

text \<open>
  Every stored commit is sealed under the parameters of the database for the event it was recorded from, whatever
  the writer does in between, so the password opens all of them.
\<close>

section \<open>The parameters\<close>

definition same_row :: "commit_row \<Rightarrow> commit_row \<Rightarrow> bool" where
  "same_row c c' \<longleftrightarrow> c\<lparr>commit_id := 0, commit_state := Pending\<rparr> = c'\<lparr>commit_id := 0, commit_state := Pending\<rparr>"

lemma same_row_updates [simp]:
  "same_row c c" "same_row c (c'\<lparr>commit_id := i\<rparr>) = same_row c c'" "same_row c (c'\<lparr>commit_state := s\<rparr>) = same_row c c'"
  by (simp_all add: same_row_def)

lemma same_member: "c \<in> S \<Longrightarrow> \<exists>d \<in> S. same_row d c"
  using same_row_updates(1) by blast

definition sealed_in :: "writer_env \<Rightarrow> raw_commit_event set \<Rightarrow> training_db \<Rightarrow> bool" where
  "sealed_in A E db \<longleftrightarrow> (\<forall>c \<in> set (commits db). \<exists>P. read_parameters (sealing A) db = Inr P \<and>
     (\<exists>e \<in> E. \<exists>c'. commit_row_of (sealing A) (codec_of A) P e = Inr c' \<and> same_row c' c))"

definition cache_ok :: "writer_env \<Rightarrow> training_writer \<Rightarrow> bool" where
  "cache_ok A w \<longleftrightarrow> cached_generation w \<le> data_generation w \<and>
     (cached_generation w = data_generation w \<longrightarrow>
        (\<forall>P. cached_parameters w = Some P \<longrightarrow> read_parameters (sealing A) (writer_db w) = Inr P))"

lemma sealed_in_mono: "sealed_in A E db \<Longrightarrow> E \<subseteq> E' \<Longrightarrow> sealed_in A E' db"
  unfolding sealed_in_def by blast

lemma sealed_in_rows:
  assumes "sealed_in A E db" "read_parameters (sealing A) db' = read_parameters (sealing A) db"
    "\<And>c'. c' \<in> set (commits db') \<Longrightarrow> \<exists>c \<in> set (commits db). same_row c c'"
  shows "sealed_in A E db'"
proof -
  have "\<exists>P. read_parameters (sealing A) db' = Inr P \<and> (\<exists>e \<in> E. \<exists>x. commit_row_of (sealing A) (codec_of A) P e = Inr x \<and> same_row x c')"
    if new: "c' \<in> set (commits db')" for c'
  proof -
    obtain c where c: "c \<in> set (commits db)" "same_row c c'" using assms(3) [OF new] by blast
    then obtain P e x where "read_parameters (sealing A) db = Inr P" "e \<in> E" "commit_row_of (sealing A) (codec_of A) P e = Inr x"
      "same_row x c" using assms(1) unfolding sealed_in_def by blast
    then show ?thesis using c(2) assms(2) unfolding same_row_def by metis
  qed
  then show ?thesis unfolding sealed_in_def by blast
qed

lemma parameters_of_protection:
  "protection db' = protection db \<Longrightarrow> read_parameters K db' = read_parameters K db"
  by (simp add: read_parameters_def)

lemma recording_parameters: "read_parameters K (db\<lparr>protection := map_option (\<lambda>p. p\<lparr>recording := b\<rparr>) (protection db)\<rparr>) = read_parameters K db"
  by (simp add: read_parameters_def split: option.split)

section \<open>The calls on the database\<close>

lemma db_calls_protection:
  "protection (snd (complete_lora_training J U db r ids)) = protection db"
  "protection (snd (delete_pending U db e)) = protection db"
  "protection (snd (exclude_unselected U db s s')) = protection db"
  "protection (or_unchanged (register_lora_base_model U db m b) db) = protection db"
  "protection (or_unchanged (migrate_legacy_base_model_fingerprint db f) db) = protection db"
  "protection (snd (insert_commit c db)) = protection db"
proof -
  have link: "link_commits U base run ids db = Inr db' \<Longrightarrow> protection db' = protection db" for base run db' db
    by (induction ids arbitrary: db) (auto simp: rbind_Inr_iff split: option.splits if_splits)
  show "protection (snd (complete_lora_training J U db r ids)) = protection db"
    using link by (auto simp: complete_lora_training_def training_transaction_def rbind_Inr_iff split: sum.split if_splits)
qed (simp_all add: delete_pending_def delete_commits_def exclude_unselected_def or_unchanged_def register_lora_base_model_def
    migrate_legacy_base_model_fingerprint_def insert_commit_def rbind_def Let_def split: sum.split)

lemma db_calls_rows:
  "c' \<in> set (commits (snd (complete_lora_training J U db r ids))) \<Longrightarrow> c' \<in> set (commits db)"
  "c' \<in> set (commits (snd (delete_pending U db e))) \<Longrightarrow> c' \<in> set (commits db)"
  "c' \<in> set (commits (snd (exclude_unselected U db s s'))) \<Longrightarrow> \<exists>c \<in> set (commits db). same_row c c'"
  "commits (or_unchanged (register_lora_base_model U db m b) db) = commits db"
  "commits (or_unchanged (migrate_legacy_base_model_fingerprint db f) db) = commits db"
proof -
  have link: "link_commits U base run ids db = Inr db' \<Longrightarrow> commits db' = commits db" for base run db' db
    by (induction ids arbitrary: db) (auto simp: rbind_Inr_iff split: option.splits if_splits)
  show "c' \<in> set (commits (snd (complete_lora_training J U db r ids))) \<Longrightarrow> c' \<in> set (commits db)"
    using link by (auto simp: complete_lora_training_def training_transaction_def rbind_Inr_iff split: sum.splits if_splits)
  show "c' \<in> set (commits (snd (exclude_unselected U db s s'))) \<Longrightarrow> \<exists>c \<in> set (commits db). same_row c c'"
    by (auto simp: exclude_unselected_def split: sum.splits if_splits)
      (use same_row_updates in metis)+
qed (auto simp: delete_pending_def delete_commits_def or_unchanged_def register_lora_base_model_def
    migrate_legacy_base_model_fingerprint_def rbind_def Let_def split: sum.splits)

text \<open>A password is set only while there is none, and then nothing is stored.\<close>

lemma configure_sealed:
  assumes "sealed_in A E db" "configure_password (sealing A) s db p = Inr db'"
  shows "read_parameters (sealing A) db = Inl Runtime_error" "sealed_in A E db'"
proof -
  show none: "read_parameters (sealing A) db = Inl Runtime_error"
    using assms(2) by (auto simp: configure_password_def read_parameters_def protection_status_def split: if_splits option.splits)
  then have "commits db = []" using assms(1) by (cases "commits db") (auto simp: sealed_in_def)
  then have "commits db' = []" using assms(2) by (auto simp: configure_password_def rbind_Inr_iff split: if_splits)
  then show "sealed_in A E db'" by (simp add: sealed_in_def)
qed

section \<open>Storing\<close>

lemma store_sealed:
  assumes "sealed_in A E (writer_db w)" "read_parameters (sealing A) (writer_db w) = Inr P"
  shows "sealed_in A (insert e E) (writer_db (store_commit A P e w))"
    "protection (writer_db (store_commit A P e w)) = protection (writer_db w)"
    "cached_parameters (store_commit A P e w) = cached_parameters w" "cached_generation (store_commit A P e w) = cached_generation w"
proof -
  show "protection (writer_db (store_commit A P e w)) = protection (writer_db w)"
    using db_calls_protection(6) by (simp add: store_commit_def case_prod_unfold split: sum.split)
  show "sealed_in A (insert e E) (writer_db (store_commit A P e w))"
  proof (cases "commit_row_of (sealing A) (codec_of A) P e")
    case (Inr c)
    have old: "sealed_in A (insert e E) (writer_db w)" by (rule sealed_in_mono [OF assms(1)]) blast
    have row: "\<exists>e' \<in> insert e E. \<exists>x. commit_row_of (sealing A) (codec_of A) P e' = Inr x \<and> same_row x (c\<lparr>commit_id := i\<rparr>)" for i
      using Inr by auto
    have "sealed_in A (insert e E) (snd (insert_commit c (writer_db w)))"
      unfolding sealed_in_def parameters_of_protection [OF db_calls_protection(6)] assms(2)
    proof
      fix d assume "d \<in> set (commits (snd (insert_commit c (writer_db w))))"
      then consider "d \<in> set (commits (writer_db w))" | "d = c\<lparr>commit_id := next_commit (writer_db w)\<rparr>"
        by (auto simp: insert_commit_def split: if_splits)
      then show "\<exists>Q. Inr P = Inr Q \<and> (\<exists>e' \<in> insert e E. \<exists>x. commit_row_of (sealing A) (codec_of A) Q e' = Inr x \<and> same_row x d)"
      proof cases
        case 1
        then show ?thesis using old assms(2) unfolding sealed_in_def by (metis sum.inject(2))
      next
        case 2
        then show ?thesis using row by blast
      qed
    qed
    then show ?thesis using Inr by (simp add: store_commit_def case_prod_unfold)
  qed (use sealed_in_mono [OF assms(1), of "insert e E"] in \<open>auto simp: store_commit_def\<close>)
qed (simp_all add: store_commit_def case_prod_unfold publish_pending_delta_def split: sum.split)

definition writer_sealed :: "writer_env \<Rightarrow> raw_commit_event set \<Rightarrow> training_writer \<Rightarrow> bool" where
  "writer_sealed A E w \<longleftrightarrow> sealed_in A E (writer_db w) \<and> cache_ok A w \<and> fst ` carried w \<subseteq> E"

lemma persist_sealed:
  assumes "sealed_in A E (writer_db w)" "cache_ok A w" "e \<in> E"
  shows "sealed_in A E (writer_db (persist A e g w))" "cache_ok A (persist A e g w)"
proof -
  let ?w = "cache_for g w"
  have cache: "cache_ok A ?w" if "g = data_generation w" using assms(2) that by (auto simp: cache_ok_def cache_for_def)
  have gen: "cached_generation ?w = g" by (simp add: cache_for_def)
  have "sealed_in A E (writer_db (persist A e g w)) \<and> cache_ok A (persist A e g w)"
  proof (cases "\<not> has_bopomofo_input e \<or> \<not> recording_enabled w \<or> g \<noteq> data_generation w")
    case False
    then have g: "g = data_generation w" by simp
    show ?thesis
    proof (cases "parameters_for A ?w")
      case (Inl x)
      then show ?thesis using False assms(1) cache [OF g] by (simp add: persist_def)
    next
      case (Inr P)
      let ?v = "?w\<lparr>cached_parameters := Some P\<rparr>"
      have read: "read_parameters (sealing A) (writer_db ?v) = Inr P"
        using Inr cache [OF g] gen g by (auto simp: parameters_for_def cache_ok_def split: option.splits)
      have "sealed_in A E (writer_db ?v)" using assms(1) by simp
      note st = store_sealed [OF this read, of e]
      have "insert e E = E" using assms(3) by blast
      then have "sealed_in A E (writer_db (store_commit A P e ?v))" using st(1) by simp
      moreover have "cache_ok A (store_commit A P e ?v)"
        using read st(2-4) gen g parameters_of_protection [OF st(2)] by (simp add: cache_ok_def)
      ultimately show ?thesis using False Inr by (simp add: persist_def)
    qed
  qed (use assms in \<open>auto simp: persist_def\<close>)
  then show "sealed_in A E (writer_db (persist A e g w))" "cache_ok A (persist A e g w)" by simp_all
qed

section \<open>Steps\<close>

lemma staged_carried: "x \<in> set (staged_commits w) \<Longrightarrow> fst ` carried w \<subseteq> E \<Longrightarrow> staged_event x \<in> E"
  by (force simp: carried_def)

lemma persist_staged:
  assumes "writer_sealed A E w" "x \<in> set (staged_commits w)"
  shows "sealed_in A E (writer_db (persist A (staged_event x) g (w\<lparr>staged_commits := xs\<rparr>)))"
    "cache_ok A (persist A (staged_event x) g (w\<lparr>staged_commits := xs\<rparr>))"
  using persist_sealed [of A E "w\<lparr>staged_commits := xs\<rparr>" "staged_event x" g] assms staged_carried [OF assms(2)]
  by (simp_all add: writer_sealed_def cache_ok_def)

text \<open>What matters of a writer for being sealed.\<close>

lemma sealed_frame:
  assumes "writer_db w' = writer_db w" "cached_parameters w' = cached_parameters w" "cached_generation w' = cached_generation w"
    "data_generation w' = data_generation w"
  shows "sealed_in A E (writer_db w') = sealed_in A E (writer_db w)" "cache_ok A w' = cache_ok A w"
  using assms by (simp_all add: cache_ok_def)

lemma sealed_protection:
  assumes "protection (writer_db w') = protection (writer_db w)" "cached_parameters w' = cached_parameters w"
    "cached_generation w' = cached_generation w" "data_generation w' = data_generation w"
  shows "cache_ok A w' = cache_ok A w"
  using assms parameters_of_protection [OF assms(1)] by (simp add: cache_ok_def)

lemma process_sealed:
  assumes "writer_sealed A E w" "at_work w = Holding op"
  shows "sealed_in A E (writer_db (process_operation A op w))" "cache_ok A (process_operation A op w)"
proof -
  have plain: "sealed_in A E (writer_db w)" "cache_ok A w" using assms(1) by (simp_all add: writer_sealed_def)
  have "sealed_in A E (writer_db (process_operation A op w)) \<and> cache_ok A (process_operation A op w)"
  proof (cases op)
    case (Commit_operation e t g)
    show ?thesis
    proof (cases "find_index (\<lambda>x. event_session (staged_event x) = event_session e) (staged_commits w)")
      case (Some i)
      let ?x = "staged_commits w ! i"
      let ?v = "persist A (staged_event ?x) (staged_generation ?x) (w\<lparr>staged_commits := list_erase i (staged_commits w)\<rparr>)"
      have x: "?x \<in> set (staged_commits w)" using find_staged [OF Some] by simp
      note v = persist_staged [OF assms(1) x, of "staged_generation ?x" "list_erase i (staged_commits w)"]
      have "cache_ok A (?v\<lparr>staged_commits := ys\<rparr>)" for ys using v(2) by (simp add: cache_ok_def)
      then show ?thesis using v Some Commit_operation by (simp add: process_operation_def Let_def)
    next
      case None
      have "cache_ok A (w\<lparr>staged_commits := ys\<rparr>)" for ys using plain(2) by (simp add: cache_ok_def)
      then show ?thesis using None Commit_operation plain by (simp add: process_operation_def Let_def)
    qed
  next
    case (Discard_operation s n t)
    have "cache_ok A (w\<lparr>staged_commits := ys\<rparr>)" for ys using plain(2) by (simp add: cache_ok_def)
    then show ?thesis using plain Discard_operation by (simp add: process_operation_def split: option.split)
  next
    case Clear_operation
    then show ?thesis using plain by (simp add: process_operation_def cache_ok_def)
  qed
  then show "sealed_in A E (writer_db (process_operation A op w))" "cache_ok A (process_operation A op w)" by simp_all
qed

lemma publish_caches [simp]:
  "cached_parameters (publish_latest_available_count A w) = cached_parameters w"
  "cached_generation (publish_latest_available_count A w) = cached_generation w"
  "cached_parameters (publish_pending_delta d w) = cached_parameters w"
  "cached_generation (publish_pending_delta d w) = cached_generation w"
  by (simp_all add: publish_latest_available_count_def publish_pending_delta_def split: sum.split)

lemma counted_sealed:
  assumes "writer_sealed A E w" "protection (snd r) = protection (writer_db w)"
    "\<And>c'. c' \<in> set (commits (snd r)) \<Longrightarrow> \<exists>c \<in> set (commits (writer_db w)). same_row c c'"
  shows "sealed_in A E (writer_db (counted A r w))" "cache_ok A (counted A r w)"
proof -
  have db: "writer_db (counted A r w) = snd r" by (simp add: counted_def)
  show "sealed_in A E (writer_db (counted A r w))"
    unfolding db by (rule sealed_in_rows [OF _ parameters_of_protection [OF assms(2)] assms(3)])
      (use assms(1) in \<open>simp_all add: writer_sealed_def\<close>)
  have "cache_ok A (counted A r w) = cache_ok A w"
    by (rule sealed_protection) (simp_all add: db assms(2), simp_all add: counted_def)
  then show "cache_ok A (counted A r w)" using assms(1) by (simp add: writer_sealed_def)
qed

lemma database_call_sealed:
  assumes "writer_sealed A E w" "protection db = protection (writer_db w)" "commits db = commits (writer_db w)"
  shows "sealed_in A E (writer_db (w\<lparr>writer_db := db\<rparr>))" "cache_ok A (w\<lparr>writer_db := db\<rparr>)"
proof -
  have "sealed_in A E db"
    by (rule sealed_in_rows [OF _ parameters_of_protection [OF assms(2)]])
      (use assms in \<open>auto simp: writer_sealed_def intro: same_member\<close>)
  then show "sealed_in A E (writer_db (w\<lparr>writer_db := db\<rparr>))" by simp
  have "cache_ok A (w\<lparr>writer_db := db\<rparr>) = cache_ok A w" by (rule sealed_protection) (simp_all add: assms(2))
  then show "cache_ok A (w\<lparr>writer_db := db\<rparr>)" using assms(1) by (simp add: writer_sealed_def)
qed

lemma flush_sealed:
  assumes "writer_sealed A E w"
  shows "sealed_in A E (writer_db (flush_next A w)) \<and> cache_ok A (flush_next A w)"
proof (cases "at_work w")
  case (Flushing now)
  show ?thesis
  proof (cases "staged_commits w")
    case Nil
    then show ?thesis using assms Flushing by (simp add: flush_next_def writer_sealed_def cache_ok_def)
  next
    case (Cons x xs)
    have x: "x \<in> set (staged_commits w)" using Cons by simp
    show ?thesis
      using persist_staged [OF assms x, of "staged_generation x" xs] assms Flushing Cons
      by (simp add: flush_next_def writer_sealed_def cache_ok_def)
  qed
qed (use assms in \<open>simp_all add: flush_next_def writer_sealed_def\<close>)

lemma finish_sealed:
  assumes "writer_sealed A E w"
  shows "sealed_in A E (writer_db (finish_next A w)) \<and> cache_ok A (finish_next A w)"
proof (cases "at_work w = Finishing")
  case True
  show ?thesis
  proof (cases "staged_commits w")
    case Nil
    then show ?thesis using assms True by (simp add: finish_next_def writer_sealed_def cache_ok_def)
  next
    case (Cons x xs)
    have x: "x \<in> set (staged_commits w)" using Cons by simp
    show ?thesis
      using persist_staged [OF assms x, of "staged_generation x" xs] True Cons by (simp add: finish_next_def)
  qed
qed (use assms in \<open>simp_all add: finish_next_def writer_sealed_def\<close>)

lemma sealed_step:
  assumes "writer_sealed A E w"
  shows "sealed_in A E (writer_db (writer_step A ev w)) \<and> cache_ok A (writer_step A ev w)"
proof -
  have plain: "sealed_in A E (writer_db w)" "cache_ok A w" using assms by (simp_all add: writer_sealed_def)
  show ?thesis
  proof (cases ev)
    case (Record_event b)
    have "read_parameters (sealing A) (writer_db (set_recording_enabled A b w)) = read_parameters (sealing A) (writer_db w) \<and>
      commits (writer_db (set_recording_enabled A b w)) = commits (writer_db w)"
      by (auto simp: set_recording_enabled_def db_set_recording_def rbind_Inr_iff recording_parameters Let_def split: sum.split)
    moreover have "data_generation (set_recording_enabled A b w) = data_generation w"
      "cached_parameters (set_recording_enabled A b w) = cached_parameters w"
      "cached_generation (set_recording_enabled A b w) = cached_generation w"
      by (simp_all add: set_recording_enabled_def Let_def split: sum.split)
    ultimately show ?thesis using plain Record_event by (simp add: sealed_in_def cache_ok_def)
  next
    case Reset_event
    then show ?thesis
      using plain(2) by (simp add: reset_conversation_data_def sealed_in_def db_reset_def delete_commits_def Let_def cache_ok_def)
  next
    case (Password_event s p)
    show ?thesis
    proof (cases "configure_password (sealing A) s (writer_db w) p")
      case (Inr db)
      note c = configure_sealed [OF plain(1) Inr]
      have "cached_generation w = data_generation w \<Longrightarrow> cached_parameters w = None"
        using plain(2) c(1) by (cases "cached_parameters w") (simp_all add: cache_ok_def)
      then show ?thesis using c(2) plain(2) Inr Password_event by (simp add: writer_configure_password_def cache_ok_def)
    qed (simp add: Password_event writer_configure_password_def plain)
  next
    case (Train_event r ids)
    show ?thesis
      using counted_sealed [OF assms db_calls_protection(1) db_calls_rows(1) [THEN same_member], of "json_of A" "codec_of A" r ids]
      by (simp add: Train_event)
  next
    case (Delete_event e)
    show ?thesis
      using counted_sealed [OF assms db_calls_protection(2) db_calls_rows(2) [THEN same_member], of "codec_of A" e]
      by (simp add: Delete_event)
  next
    case (Exclude_event s r)
    show ?thesis
      using counted_sealed [OF assms db_calls_protection(3) db_calls_rows(3), of "codec_of A" s r] by (simp add: Exclude_event)
  next
    case (Base_event m b)
    show ?thesis
      using database_call_sealed [OF assms db_calls_protection(4) db_calls_rows(4)] by (simp add: Base_event)
  next
    case (Migrate_event f)
    show ?thesis
      using database_call_sealed [OF assms db_calls_protection(5) db_calls_rows(5)] by (simp add: Migrate_event)
  next
    case Work_step
    show ?thesis
    proof (cases "at_work w")
      case (Holding op)
      then show ?thesis using process_sealed [OF assms Holding] by (simp add: Work_step work_on_operation_def cache_ok_def)
    qed (simp_all add: Work_step work_on_operation_def plain)
  next
    case Flush_step
    then show ?thesis using flush_sealed [OF assms] by simp
  next
    case Finish_step
    then show ?thesis using finish_sealed [OF assms] by simp
  qed (use plain in \<open>simp_all add: enqueue_commit_def discard_staged_def take_operation_def wake_def begin_flush_def begin_finish_def
      cache_ok_def split: writer_phase.split list.split\<close>)
qed

definition enqueued :: "writer_event list \<Rightarrow> raw_commit_event set" where
  "enqueued evs = {e. \<exists>t. Enqueue_event e t \<in> set evs}"

lemma writer_sealed_step:
  "writer_sealed A E w \<Longrightarrow> writer_sealed A (E \<union> enqueued [ev]) (writer_step A ev w)"
proof -
  assume old: "writer_sealed A E w"
  have "fst ` carried (writer_step A ev w) \<subseteq> E \<union> enqueued [ev]"
  proof
    fix e assume "e \<in> fst ` carried (writer_step A ev w)"
    then obtain g where "(e, g) \<in> carried (writer_step A ev w)" by auto
    from subsetD [OF carried_step this] show "e \<in> E \<union> enqueued [ev]"
      using old by (force simp: writer_sealed_def enqueued_def split: writer_event.splits)
  qed
  then show ?thesis
    using sealed_step [OF old, of ev] sealed_in_mono [of A E "writer_db (writer_step A ev w)" "E \<union> enqueued [ev]"]
    by (simp add: writer_sealed_def)
qed

lemma writer_sealed_run: "writer_sealed A E w \<Longrightarrow> writer_sealed A (E \<union> enqueued evs) (run_writer A evs w)"
  unfolding run_writer_def
proof (induction evs arbitrary: w E)
  case (Cons ev evs)
  have "E \<union> enqueued [ev] \<union> enqueued evs = E \<union> enqueued (ev # evs)" by (auto simp: enqueued_def)
  then show ?case using Cons.IH [OF writer_sealed_step [OF Cons.prems, of ev]] by (simp del: Un_assoc)
qed (simp add: enqueued_def)

lemma new_writer_sealed: "new_writer A new_database = Inr w \<Longrightarrow> writer_sealed A {} w"
  by (auto simp: new_writer_def rbind_Inr_iff writer_sealed_def sealed_in_def cache_ok_def new_database_def carried_def
      pending_operations_def)

section \<open>Opening\<close>

definition codec_ok :: "text_codec \<Rightarrow> bool" where
  "codec_ok U \<longleftrightarrow> (\<forall>s b. to_utf8 U s = Inr b \<longrightarrow> to_utf16 U b = Inr s)"

definition shown_item :: "text_codec \<Rightarrow> raw_commit_event \<Rightarrow> exn + training_item" where
  "shown_item U e =
     rbind (to_utf16 U (event_key e)) (\<lambda>event.
       Inr \<lparr>item_event = event, item_context = event_context e, item_answer = event_answer e,
         item_reading = display_reading e, item_revised = was_revised e\<rparr>)"

lemma open_sealed_item:
  assumes ok: "sodium_ok K" "codec_ok U" and seed: "pwhash K password (salt P) = Some seed" "seed_keypair K seed = (public_key P, sk)"
    and row: "commit_row_of K U P e = Inr x" "same_row x c"
  shows "open_item U K P sk c = shown_item U e"
proof -
  have same: "commit_event c = commit_event x" "commit_schema c = commit_schema x" "commit_context c = commit_context x"
    "commit_answer c = commit_answer x" "commit_reading c = commit_reading x" "commit_revised c = commit_revised x"
    using row(2) by (cases c; cases x; simp add: same_row_def)+
  let ?id = "event_key e"
  from row(1) obtain ctxt answer reading where f: "commit_event x = ?id" "commit_schema x = 2" "commit_revised x = was_revised e"
    "to_utf8 U (event_context e) = Inr ctxt" "seal_value K ctxt (field_identity ?id ''context'') P = Inr (commit_context x)"
    "to_utf8 U (event_answer e) = Inr answer" "seal_value K answer (field_identity ?id ''answer'') P = Inr (commit_answer x)"
    "to_utf8 U (display_reading e) = Inr reading" "seal_value K reading (field_identity ?id ''reading'') P = Inr (commit_reading x)"
    by (auto simp: commit_row_of_def Let_def rbind_Inr_iff event_key_def)
  note opens = open_seal [OF ok(1) seed]
  have u: "to_utf16 U ctxt = Inr (event_context e)" "to_utf16 U answer = Inr (event_answer e)" "to_utf16 U reading = Inr (display_reading e)"
    using ok(2) f(4,6,8) unfolding codec_ok_def by blast+
  show ?thesis
    unfolding open_item_def shown_item_def open_field_def same
    by (simp add: f(1-3) opens [OF f(5)] opens [OF f(7)] opens [OF f(9)] u)
qed

lemma unlock_seed:
  assumes "unlock K db password = Inr (P, sk)"
  shows "read_parameters K db = Inr P" "\<exists>seed. pwhash K password (salt P) = Some seed \<and> seed_keypair K seed = (public_key P, sk)"
  using assms by (auto simp: unlock_def rbind_Inr_iff derive_def split: if_splits option.splits prod.splits)

lemma open_stored:
  assumes "sodium_ok (sealing A)" "codec_ok (codec_of A)" "unlock (sealing A) db password = Inr (P, sk)"
    and "sealed_in A E db" "c \<in> set (commits db)"
  shows "\<exists>e \<in> E. commit_event c = event_key e \<and> open_item (codec_of A) (sealing A) P sk c = shown_item (codec_of A) e"
proof -
  note k = unlock_seed [OF assms(3)]
  obtain e x where e: "e \<in> E" "commit_row_of (sealing A) (codec_of A) P e = Inr x" "same_row x c"
    using assms(4,5) k(1) unfolding sealed_in_def by fastforce
  have "commit_event c = commit_event x" using e(3) by (cases c; cases x; simp add: same_row_def)
  moreover have "commit_event x = event_key e" using commit_row_event [OF e(2)] .
  moreover obtain seed where "pwhash (sealing A) password (salt P) = Some seed" "seed_keypair (sealing A) seed = (public_key P, sk)"
    using k(2) by blast
  ultimately show ?thesis using open_sealed_item [OF assms(1,2) _ _ e(2,3)] e(1) by auto
qed

end
