(* ===== verification/Training_Undo.thy ===== *)
theory Training_Undo
  imports Training_Queue "HOL-Library.Sublist"
begin

text \<open>
  A commit that is taken back in time is never stored: from the moment its discard is queued, what waits before the
  discard keeps the commit the last of its session, so that nothing moves it out of the staging area.
\<close>

section \<open>One commit of each session is staged\<close>

definition one_each :: "training_writer \<Rightarrow> bool" where
  "one_each w \<longleftrightarrow> distinct (map (\<lambda>x. event_session (staged_event x)) (staged_commits w))"

lemma subseq_distinct: "subseq xs ys \<Longrightarrow> distinct ys \<Longrightarrow> distinct xs"
  by (induction xs ys rule: list_emb.induct) (auto dest: list_emb_set)

lemma one_each_subseq:
  "one_each w \<Longrightarrow> subseq (staged_commits w') (staged_commits w) \<Longrightarrow> one_each w'"
  unfolding one_each_def by (rule subseq_distinct [OF subseq_map])

lemma Suc_drop_eq: "drop i xs = take 1 (drop i xs) @ drop (Suc i) xs"
  by (metis append_take_drop_id drop_drop plus_1_eq_Suc)

lemma subseq_erase: "subseq (list_erase i xs) xs"
proof -
  have "subseq (take i xs @ drop (Suc i) xs) (take i xs @ drop i xs)"
    by (intro list_emb_append_mono suffix_imp_subseq) (use Suc_drop_eq in \<open>auto simp: suffix_def\<close>)
  then show ?thesis by (simp add: list_erase_def)
qed

lemma erase_removes:
  assumes "distinct (map f xs)" "find_index P xs = Some i"
  shows "f (xs ! i) \<notin> f ` set (list_erase i xs)"
proof -
  have i: "i < length xs" using find_index_SomeD [OF assms(2)] by simp
  have "map f xs = map f (take i xs) @ f (xs ! i) # map f (drop (Suc i) xs)"
    using id_take_nth_drop [OF i] by (metis list.simps(9) map_append)
  then have "distinct (map f (take i xs) @ f (xs ! i) # map f (drop (Suc i) xs))" using assms(1) by simp
  then show ?thesis by (simp add: list_erase_def image_Un)
qed

text \<open>What processing an operation stages.\<close>

lemma process_staged_form:
  "subseq (staged_commits (process_operation A op w)) (staged_commits w) \<or>
   (\<exists>e t g xs. op = Commit_operation e t g \<and> subseq xs (staged_commits w) \<and>
     (one_each w \<longrightarrow> event_session e \<notin> (\<lambda>x. event_session (staged_event x)) ` set xs) \<and>
     staged_commits (process_operation A op w) =
       xs @ [\<lparr>staged_event = e, staged_deadline = t + staging_window A, staged_generation = g\<rparr>])"
proof (cases op)
  case (Commit_operation e t g)
  let ?P = "\<lambda>x. event_session (staged_event x) = event_session e"
  show ?thesis
  proof (cases "find_index ?P (staged_commits w)")
    case None
    then have "event_session e \<notin> (\<lambda>x. event_session (staged_event x)) ` set (staged_commits w)"
      unfolding find_index_None by auto
    then show ?thesis using Commit_operation None by (cases "recording_enabled w \<and> has_bopomofo_input e")
      (auto simp: process_operation_def Let_def)
  next
    case (Some i)
    have "event_session e \<notin> (\<lambda>x. event_session (staged_event x)) ` set (list_erase i (staged_commits w))" if "one_each w"
      using erase_removes [OF that [unfolded one_each_def] Some] find_index_SomeD [OF Some] by simp
    then show ?thesis using Commit_operation Some subseq_erase [of i "staged_commits w"]
      by (simp add: process_operation_def Let_def)
  qed
qed (simp_all add: process_operation_def subseq_erase split: option.split)

lemma one_each_process: "one_each w \<Longrightarrow> one_each (process_operation A op w)"
  using process_staged_form [of A op w]
proof (elim disjE exE conjE)
  fix e t g xs
  assume old: "one_each w" and xs: "subseq xs (staged_commits w)"
    "one_each w \<longrightarrow> event_session e \<notin> (\<lambda>x. event_session (staged_event x)) ` set xs"
    "staged_commits (process_operation A op w) = xs @ [\<lparr>staged_event = e, staged_deadline = t + staging_window A, staged_generation = g\<rparr>]"
  have "distinct (map (\<lambda>x. event_session (staged_event x)) xs)"
    using old xs(1) unfolding one_each_def by (metis subseq_distinct subseq_map)
  then show ?thesis using xs old by (simp add: one_each_def)
qed (rule one_each_subseq)

lemma unstaged_frames:
  "staged_commits (enqueue_commit e t w) = staged_commits w" "staged_commits (discard_staged s n t w) = staged_commits w"
  "staged_commits (set_recording_enabled A b w) = staged_commits w" "staged_commits (reset_conversation_data w) = staged_commits w"
  "staged_commits (writer_configure_password A s p w) = staged_commits w" "staged_commits (take_operation w) = staged_commits w"
  "staged_commits (wake t w) = staged_commits w" "staged_commits (begin_flush t w) = staged_commits w"
  "staged_commits (begin_finish w) = staged_commits w"
  by (simp_all add: enqueue_commit_def discard_staged_def set_recording_enabled_def reset_conversation_data_def
      writer_configure_password_def take_operation_def wake_def begin_flush_def begin_finish_def Let_def
      split: sum.split writer_phase.split list.split)

lemma one_each_step: "one_each w \<Longrightarrow> one_each (writer_step A ev w)"
proof (cases ev)
  case Work_step
  assume old: "one_each w"
  show ?thesis
  proof (cases "at_work w")
    case (Holding op)
    have "one_each (process_operation A op w)" by (rule one_each_process [OF old])
    then show ?thesis using Work_step Holding by (simp add: work_on_operation_def one_each_def)
  qed (simp_all add: Work_step work_on_operation_def old)
next
  case Flush_step
  assume old: "one_each w"
  have "subseq (staged_commits (flush_next A w)) (staged_commits w)"
    by (auto simp: flush_next_def split: writer_phase.split list.split)
  then show ?thesis using one_each_subseq [OF old] Flush_step by simp
next
  case Finish_step
  assume old: "one_each w"
  have "subseq (staged_commits (finish_next A w)) (staged_commits w)"
    by (auto simp: finish_next_def split: list.split)
  then show ?thesis using one_each_subseq [OF old] Finish_step by simp
qed (simp_all add: one_each_def unstaged_frames counted_frame)

interpretation staging: kept_by_steps "writer_step A" one_each for A
  by unfold_locales (rule one_each_step)

lemma one_each_run: "one_each w \<Longrightarrow> one_each (run_writer A evs w)"
  unfolding run_writer_def by (rule staging.kept)

lemma one_each_new: "new_writer A db = Inr w \<Longrightarrow> one_each w"
  by (auto simp: new_writer_def rbind_Inr_iff one_each_def)

section \<open>The commits of a session on their way\<close>

definition line_entry :: "writer_env \<Rightarrow> string \<Rightarrow> queued_operation \<Rightarrow> (raw_commit_event \<times> int) list" where
  "line_entry A s op =
     (case op of Commit_operation e t g \<Rightarrow> if event_session e = s then [(e, t + staging_window A)] else [] | _ \<Rightarrow> [])"

definition staged_line :: "string \<Rightarrow> staged_commit list \<Rightarrow> (raw_commit_event \<times> int) list" where
  "staged_line s xs = map (\<lambda>x. (staged_event x, staged_deadline x)) (filter (\<lambda>x. event_session (staged_event x) = s) xs)"

definition session_line :: "writer_env \<Rightarrow> string \<Rightarrow> queued_operation list \<Rightarrow> staged_commit list \<Rightarrow> (raw_commit_event \<times> int) list" where
  "session_line A s ops xs = staged_line s xs @ concat (map (line_entry A s) ops)"

text \<open>The commit is on the line at most as the last, and its deadline is not over.\<close>

fun last_in_time :: "u64 \<Rightarrow> int \<Rightarrow> (raw_commit_event \<times> int) list \<Rightarrow> bool" where
  "last_in_time n now [] = True"
| "last_in_time n now ((e, d) # l) \<longleftrightarrow> (event_sequence e = n \<longrightarrow> now \<le> d \<and> l = []) \<and> last_in_time n now l"

lemma last_in_time_subseq: "last_in_time n now l \<Longrightarrow> subseq l' l \<Longrightarrow> last_in_time n now l'"
proof (induction l arbitrary: l')
  case (Cons x l)
  obtain e d where x: "x = (e, d)" by (cases x)
  show ?case
  proof (cases l')
    case (Cons y k)
    then show ?thesis
      using Cons.prems Cons.IH x by (cases "y = x") (auto simp: subseq_Cons2_iff)
  qed simp
qed (metis last_in_time.simps(1) list_emb_Nil2)

lemma last_in_time_before: "last_in_time n now (l @ y # r) \<Longrightarrow> (e, d) \<in> set l \<Longrightarrow> event_sequence e \<noteq> n"
  by (induction l) auto

lemma last_in_time_deadline: "last_in_time n now l \<Longrightarrow> (e, d) \<in> set l \<Longrightarrow> event_sequence e = n \<Longrightarrow> now \<le> d"
  by (induction l) auto

lemma staged_line_subseq: "subseq xs ys \<Longrightarrow> subseq (staged_line s xs) (staged_line s ys)"
  by (simp add: staged_line_def subseq_map)

lemma session_line_subseq: "subseq xs ys \<Longrightarrow> subseq (session_line A s ops xs) (session_line A s (ops @ ops') ys)"
  by (simp add: session_line_def staged_line_subseq list_emb_append_mono subseq_rev_drop_many)

section \<open>Waiting for the discard\<close>

definition flushing :: "training_writer \<Rightarrow> bool" where
  "flushing w \<longleftrightarrow> (case at_work w of At_top \<Rightarrow> False | Holding op \<Rightarrow> False | _ \<Rightarrow> True)"

definition forgotten :: "string \<Rightarrow> u64 \<Rightarrow> training_writer \<Rightarrow> bool" where
  "forgotten s n w \<longleftrightarrow> event_id_of s n \<notin> stored w \<and> (\<forall>(e, g) \<in> carried w. \<not> same_commit s n e)"

definition records :: "string \<Rightarrow> u64 \<Rightarrow> queued_operation \<Rightarrow> bool" where
  "records s n op = (case op of Commit_operation e t g \<Rightarrow> same_commit s n e | _ \<Rightarrow> False)"

definition barred :: "writer_env \<Rightarrow> string \<Rightarrow> u64 \<Rightarrow> int \<Rightarrow> queued_operation list \<Rightarrow> staged_commit list \<Rightarrow> bool" where
  "barred A s n now ops xs \<longleftrightarrow> (\<exists>before b post. ops = before @ b # post \<and> b \<in> {Clear_operation, Discard_operation s n now} \<and>
     last_in_time n now (session_line A s before xs) \<and> (\<forall>op \<in> set post. \<not> records s n op))"

definition guarded :: "writer_env \<Rightarrow> string \<Rightarrow> u64 \<Rightarrow> int \<Rightarrow> training_writer \<Rightarrow> bool" where
  "guarded A s n now w \<longleftrightarrow> \<not> flushing w \<and> one_each w \<and> event_id_of s n \<notin> stored w \<and>
     barred A s n now (pending_operations w) (staged_commits w)"

lemma barred_more: "barred A s n now ops xs \<Longrightarrow> \<not> records s n op \<Longrightarrow> barred A s n now (ops @ [op]) xs"
  unfolding barred_def by fastforce

text \<open>The queue is replaced by a \<open>clear\<close>; what is held stays first.\<close>

lemma barred_cleared:
  assumes "barred A s n now (front @ ops) xs" "length front \<le> 1"
  shows "barred A s n now (front @ [Clear_operation]) xs"
proof -
  obtain before b post where old: "front @ ops = before @ b # post" "b \<in> {Clear_operation, Discard_operation s n now}"
    "last_in_time n now (session_line A s before xs)" "\<forall>op \<in> set post. \<not> records s n op"
    using assms(1) unfolding barred_def by blast
  show ?thesis
  proof (cases "front = []")
    case True
    have "subseq (session_line A s [] xs) (session_line A s ([] @ before) xs)" by (rule session_line_subseq) simp
    then have "last_in_time n now (session_line A s [] xs)" using last_in_time_subseq [OF old(3)] by simp
    then show ?thesis unfolding True barred_def by (intro exI [of _ "[]"]) simp
  next
    case False
    then obtain op where op: "front = [op]" using assms(2) by (cases front) auto
    show ?thesis
    proof (cases before)
      case Nil
      then have "op = b" using old(1) op by simp
      then show ?thesis
        unfolding barred_def op using old(2,3) Nil
        by (intro exI [of _ "[]"] exI [of _ b] exI [of _ "[Clear_operation]"]) (simp add: records_def)
    next
      case (Cons a before')
      then have "before = [op] @ before'" using old(1) op by simp
      moreover have "subseq (session_line A s [op] xs) (session_line A s ([op] @ before') xs)" by (rule session_line_subseq) simp
      ultimately have "last_in_time n now (session_line A s [op] xs)" using last_in_time_subseq [OF old(3)] by simp
      then show ?thesis unfolding op barred_def by (intro exI [of _ "[op]"] exI [of _ Clear_operation] exI [of _ "[]"]) simp
    qed
  qed
qed

lemma stored_by_work:
  "stored (process_operation A op w) \<subseteq> stored w \<union>
     (case op of Commit_operation e t g \<Rightarrow>
        event_key ` staged_event ` {x \<in> set (staged_commits w). event_session (staged_event x) = event_session e}
      | _ \<Rightarrow> {})"
proof (cases op)
  case (Commit_operation e t g)
  show ?thesis
  proof (cases "find_index (\<lambda>x. event_session (staged_event x) = event_session e) (staged_commits w)")
    case (Some i)
    let ?x = "staged_commits w ! i"
    have "stored (persist A (staged_event ?x) (staged_generation ?x) (w\<lparr>staged_commits := list_erase i (staged_commits w)\<rparr>)) \<subseteq>
        stored w \<union> (if staged_generation ?x = data_generation w then {event_key (staged_event ?x)} else {})"
      using persist_stored [of A "staged_event ?x" "staged_generation ?x" "w\<lparr>staged_commits := list_erase i (staged_commits w)\<rparr>"]
      by (simp add: stored_def)
    moreover have "?x \<in> set (staged_commits w)" "event_session (staged_event ?x) = event_session e"
      using find_index_SomeD [OF Some] by simp_all
    ultimately show ?thesis using Some Commit_operation by (auto simp: process_operation_def Let_def stored_def split: if_splits)
  qed (auto simp: Commit_operation process_operation_def Let_def stored_def)
qed (auto simp: process_operation_def Let_def stored_def split: option.split)

text \<open>Working on what waits before the barrier keeps it; the barrier itself forgets the commit.\<close>

lemma work_before:
  assumes old: "one_each w" "event_id_of s n \<notin> stored w" and line: "last_in_time n now (session_line A s (op # before) (staged_commits w))"
  shows "last_in_time n now (session_line A s before (staged_commits (process_operation A op w)))"
    "event_id_of s n \<notin> stored (process_operation A op w)"
proof -
  let ?xs = "staged_commits w" and ?ys = "staged_commits (process_operation A op w)"
  have "subseq (session_line A s before ?ys) (session_line A s (op # before) ?xs)"
    using process_staged_form [of A op w]
  proof (elim disjE exE conjE)
    assume "subseq ?ys ?xs"
    then show ?thesis
      by (simp add: session_line_def list_emb_append_mono staged_line_subseq subseq_drop_many)
  next
    fix e t g xs
    assume new: "op = Commit_operation e t g" "subseq xs ?xs"
      "?ys = xs @ [\<lparr>staged_event = e, staged_deadline = t + staging_window A, staged_generation = g\<rparr>]"
    then have "staged_line s ?ys = staged_line s xs @ line_entry A s op" by (simp add: staged_line_def line_entry_def)
    then show ?thesis using staged_line_subseq [OF new(2)] by (simp add: session_line_def list_emb_append_mono)
  qed
  then show "last_in_time n now (session_line A s before ?ys)" by (rule last_in_time_subseq [OF line])
  have "event_id_of s n \<noteq> event_key (staged_event x)"
    if op: "op = Commit_operation e t g" and x: "x \<in> set ?xs" "event_session (staged_event x) = event_session e" for e t g x
  proof (cases "event_session e = s")
    case True
    then have "session_line A s (op # before) ?xs = staged_line s ?xs @ (e, t + staging_window A) # concat (map (line_entry A s) before)"
      using op by (simp add: session_line_def line_entry_def)
    then have "\<forall>(e', d) \<in> set (staged_line s ?xs). event_sequence e' \<noteq> n"
      using line last_in_time_before by fastforce
    moreover have "(staged_event x, staged_deadline x) \<in> set (staged_line s ?xs)" using x True by (auto simp: staged_line_def)
    ultimately show ?thesis by (auto simp: event_key_def event_id_inj)
  next
    case False
    then show ?thesis using x(2) by (simp add: event_key_def event_id_inj)
  qed
  then show "event_id_of s n \<notin> stored (process_operation A op w)"
  proof (intro notI)
    assume "\<And>e t g x. op = Commit_operation e t g \<Longrightarrow> x \<in> set ?xs \<Longrightarrow> event_session (staged_event x) = event_session e \<Longrightarrow>
      event_id_of s n \<noteq> event_key (staged_event x)" "event_id_of s n \<in> stored (process_operation A op w)"
    moreover from this(2) obtain e t g x where "op = Commit_operation e t g" "x \<in> set ?xs"
      "event_session (staged_event x) = event_session e" "event_id_of s n = event_key (staged_event x)"
      using stored_by_work [of A op w] old(2) by (cases op) auto
    ultimately show False by blast
  qed
qed

lemma work_at_barrier:
  assumes "one_each w" "b \<in> {Clear_operation, Discard_operation s n now}" "last_in_time n now (staged_line s (staged_commits w))"
  shows "\<forall>x \<in> set (staged_commits (process_operation A b w)). \<not> same_commit s n (staged_event x)"
    "stored (process_operation A b w) = stored w"
proof -
  show "stored (process_operation A b w) = stored w"
    using assms(2) by (auto simp: process_operation_def stored_def split: option.splits if_splits)
  show "\<forall>x \<in> set (staged_commits (process_operation A b w)). \<not> same_commit s n (staged_event x)"
  proof (cases "b = Clear_operation")
    case False
    let ?P = "\<lambda>x. same_commit s n (staged_event x)"
    have b: "b = Discard_operation s n now" using False assms(2) by simp
    show ?thesis
    proof (cases "find_index ?P (staged_commits w)")
      case None
      then show ?thesis using None [unfolded find_index_None] by (simp add: b process_operation_def)
    next
      case (Some i)
      let ?x = "staged_commits w ! i"
      have x: "?x \<in> set (staged_commits w)" "?P ?x" using find_index_SomeD [OF Some] by simp_all
      then have "(staged_event ?x, staged_deadline ?x) \<in> set (staged_line s (staged_commits w))"
        by (auto simp: staged_line_def same_commit_def)
      from last_in_time_deadline [OF assms(3) this] have "now \<le> staged_deadline ?x" using x(2) by (simp add: same_commit_def)
      moreover have "\<not> ?P y" if y: "y \<in> set (list_erase i (staged_commits w))" for y
      proof
        assume "?P y"
        then have "event_session (staged_event y) = event_session (staged_event ?x)" using x(2) by (simp add: same_commit_def)
        then show False
          using erase_removes [OF assms(1) [unfolded one_each_def] Some] imageI [OF y, of "\<lambda>x. event_session (staged_event x)"] by simp
      qed
      ultimately show ?thesis using b Some by (simp add: process_operation_def)
    qed
  qed (simp add: process_operation_def)
qed

section \<open>Steps\<close>

lemma forgotten_step:
  assumes "forgotten s n w" "\<And>e t. ev = Enqueue_event e t \<Longrightarrow> \<not> same_commit s n e"
  shows "forgotten s n (writer_step A ev w)"
proof -
  have "event_id_of s n \<notin> stored (writer_step A ev w)"
  proof
    assume "event_id_of s n \<in> stored (writer_step A ev w)"
    then consider "event_id_of s n \<in> stored w" | e where "event_id_of s n = event_key e" "(e, data_generation w) \<in> carried w"
      using stored_step [of A ev w] by blast
    then show False
    proof cases
      case 2
      then have "same_commit s n e" using event_key_same [of e s n] by simp
      then show False using 2(2) assms(1) by (auto simp: forgotten_def)
    qed (use assms(1) in \<open>simp add: forgotten_def\<close>)
  qed
  moreover have "\<not> same_commit s n e" if "(e, g) \<in> carried (writer_step A ev w)" for e g
    using subsetD [OF carried_step that] assms by (auto simp: forgotten_def split: writer_event.splits)
  ultimately show ?thesis unfolding forgotten_def by blast
qed

lemma guarded_work:
  assumes "guarded A s n now w" "at_work w = Holding op"
  shows "guarded A s n now (work_on_operation A w) \<or> forgotten s n (work_on_operation A w)"
proof -
  have g: "one_each w" "event_id_of s n \<notin> stored w" "barred A s n now (op # operations w) (staged_commits w)"
    using assms by (simp_all add: guarded_def pending_operations_def)
  then obtain before b post where old: "op # operations w = before @ b # post" "b \<in> {Clear_operation, Discard_operation s n now}"
    "last_in_time n now (session_line A s before (staged_commits w))" "\<forall>op \<in> set post. \<not> records s n op"
    unfolding barred_def by blast
  let ?v = "process_operation A op w"
  have v: "work_on_operation A w = ?v\<lparr>at_work := At_top\<rparr>" using assms(2) by (simp add: work_on_operation_def)
  have pending: "pending_operations (work_on_operation A w) = operations w"
    by (simp add: v pending_operations_def process_frame)
  have stored: "stored (work_on_operation A w) = stored ?v" by (simp add: v stored_def)
  show ?thesis
  proof (cases before)
    case Nil
    then have b: "op = b" "operations w = post" using old(1) by simp_all
    have line: "last_in_time n now (staged_line s (staged_commits w))" using old(3) Nil by (simp add: session_line_def)
    note gone = work_at_barrier [OF g(1) old(2) line]
    have "\<not> same_commit s n e" if "(e, k) \<in> carried (work_on_operation A w)" for e k
      using that gone(1) old(4) unfolding carried_def pending b(2) by (auto simp: v b(1) records_def split: queued_operation.splits)
    then have "forgotten s n (work_on_operation A w)" using gone(2) g(2) by (auto simp: forgotten_def stored b(1))
    then show ?thesis ..
  next
    case (Cons a before')
    then have rest: "a = op" "operations w = before' @ b # post" using old(1) by simp_all
    have line: "last_in_time n now (session_line A s (op # before') (staged_commits w))" using old(3) Cons rest(1) by simp
    note kept = work_before [OF g(1,2) line]
    have "barred A s n now (operations w) (staged_commits ?v)" unfolding barred_def rest(2) using kept(1) old(2,4) by blast
    moreover have "one_each ?v" by (rule one_each_process [OF g(1)])
    ultimately have "guarded A s n now (work_on_operation A w)"
      using kept(2) by (simp add: guarded_def pending stored) (simp add: v one_each_def flushing_def)
    then show ?thesis ..
  qed
qed

lemma barred_nonempty: "\<not> barred A s n now [] xs"
  by (simp add: barred_def)

lemma guarded_cleared:
  assumes "guarded A s n now w" "at_work w' = at_work w" "operations w' = [Clear_operation]" "staged_commits w' = staged_commits w"
    "stored w' \<subseteq> stored w"
  shows "guarded A s n now w'"
proof -
  let ?front = "case at_work w of Holding op \<Rightarrow> [op] | _ \<Rightarrow> []"
  have "barred A s n now (?front @ operations w) (staged_commits w)" using assms(1) by (simp add: guarded_def pending_operations_def)
  moreover have "length ?front \<le> 1" by (simp split: writer_phase.split)
  ultimately have "barred A s n now (?front @ [Clear_operation]) (staged_commits w)" by (rule barred_cleared)
  then have "barred A s n now (pending_operations w') (staged_commits w')" using assms(2-4) by (simp add: pending_operations_def)
  then show ?thesis
    using assms by (auto simp: guarded_def flushing_def one_each_def)
qed

lemma guarded_queued:
  assumes "guarded A s n now w" "at_work w' = at_work w" "operations w' = operations w \<or> operations w' = operations w @ [op]"
    "\<not> records s n op" "staged_commits w' = staged_commits w" "stored w' \<subseteq> stored w"
  shows "guarded A s n now w'"
proof -
  have "pending_operations w' = pending_operations w \<or> pending_operations w' = pending_operations w @ [op]"
    using assms(2,3) by (auto simp: pending_operations_def)
  moreover have old: "barred A s n now (pending_operations w) (staged_commits w)" using assms(1) by (simp add: guarded_def)
  ultimately have "barred A s n now (pending_operations w') (staged_commits w)"
    using barred_more [OF old assms(4)] by auto
  then show ?thesis using assms by (auto simp: guarded_def flushing_def one_each_def)
qed

lemma guarded_same:
  assumes "guarded A s n now w" "at_work w' = at_work w" "operations w' = operations w" "staged_commits w' = staged_commits w"
    "stored w' \<subseteq> stored w"
  shows "guarded A s n now w'"
  by (rule guarded_queued [where op = Clear_operation, OF assms(1,2) _ _ assms(4,5)]) (simp_all add: assms(3) records_def)

lemma guarded_idle:
  assumes "guarded A s n now w"
  shows "wake t w = w" "begin_flush t w = w" "begin_finish w = w" "flush_next A' w = w" "finish_next A' w = w"
proof -
  have "\<not> flushing w" "pending_operations w \<noteq> []" using assms barred_nonempty by (auto simp: guarded_def)
  then show "wake t w = w" "begin_flush t w = w" "begin_finish w = w" "flush_next A' w = w" "finish_next A' w = w"
    by (auto simp: wake_def begin_flush_def begin_finish_def flush_next_def finish_next_def flushing_def pending_operations_def
        split: writer_phase.splits)
qed

lemma guarded_step:
  assumes old: "guarded A s n now w" and other: "\<And>e t. ev = Enqueue_event e t \<Longrightarrow> \<not> same_commit s n e"
  shows "guarded A s n now (writer_step A ev w) \<or> forgotten s n (writer_step A ev w)"
proof (cases ev)
  case (Enqueue_event e t)
  then have "\<not> records s n (Commit_operation e t (data_generation w))" using other by (simp add: records_def)
  then have "guarded A s n now (enqueue_commit e t w)"
    by (rule guarded_queued [OF old, rotated 2]) (simp_all add: enqueue_commit_def stored_def)
  then show ?thesis using Enqueue_event by simp
next
  case (Discard_event s' n' t)
  have "guarded A s n now (discard_staged s' n' t w)"
    by (rule guarded_queued [OF old, where op = "Discard_operation s' n' t"])
      (simp_all add: discard_staged_def stored_def records_def)
  then show ?thesis using Discard_event by simp
next
  case (Record_event b)
  have st: "stored (set_recording_enabled A b w) = stored w"
    by (auto simp: set_recording_enabled_def db_set_recording_def rbind_Inr_iff stored_def Let_def split: sum.split)
  have frame: "at_work (set_recording_enabled A b w) = at_work w"
    "operations (set_recording_enabled A b w) = operations w \<or> operations (set_recording_enabled A b w) = [Clear_operation]"
    by (simp_all add: set_recording_enabled_def Let_def split: sum.split)
  from frame(2) have "guarded A s n now (set_recording_enabled A b w)"
  proof
    assume "operations (set_recording_enabled A b w) = operations w"
    then show ?thesis by (rule guarded_same [OF old frame(1)]) (simp_all add: unstaged_frames st)
  next
    assume "operations (set_recording_enabled A b w) = [Clear_operation]"
    then show ?thesis by (rule guarded_cleared [OF old frame(1)]) (simp_all add: unstaged_frames st)
  qed
  then show ?thesis using Record_event by simp
next
  case Reset_event
  have "guarded A s n now (reset_conversation_data w)"
    by (rule guarded_cleared [OF old])
      (simp_all add: reset_conversation_data_def stored_def db_reset_def delete_commits_def Let_def)
  then show ?thesis using Reset_event by simp
next
  case (Password_event salt_of p)
  have "stored (writer_configure_password A salt_of p w) = stored w"
    using configure_stored by (auto simp: writer_configure_password_def stored_def split: sum.split)
  then have "guarded A s n now (writer_configure_password A salt_of p w)"
    by (intro guarded_same [OF old]) (simp_all add: writer_configure_password_def split: sum.split)
  then show ?thesis using Password_event by simp
next
  case Take_step
  have "guarded A s n now (take_operation w)"
    using old unfolding guarded_def pending_take one_each_def unstaged_frames
    by (cases "at_work w"; cases "operations w") (simp_all add: take_operation_def flushing_def stored_def)
  then show ?thesis using Take_step by simp
next
  case Work_step
  show ?thesis
  proof (cases "at_work w")
    case (Holding op)
    show ?thesis using guarded_work [OF old Holding] Work_step by simp
  qed (use old in \<open>simp_all add: Work_step work_on_operation_def\<close>)
next
  case (Delete_event e)
  have "stored (counted A (delete_pending (codec_of A) (writer_db w) e) w) \<subseteq> stored w"
    unfolding counted_frame unfolding stored_def by (rule db_calls_stored)
  then have "guarded A s n now (counted A (delete_pending (codec_of A) (writer_db w) e) w)"
    by (intro guarded_same [OF old]) (simp_all add: counted_frame)
  then show ?thesis using Delete_event by simp
next
  case (Train_event r ids)
  have "guarded A s n now (writer_step A ev w)"
    unfolding Train_event writer_step.simps by (rule guarded_same [OF old]) (simp_all only: counted_frame(2,6,7) stored_frames subset_refl)
  then show ?thesis ..
next
  case (Exclude_event u u')
  have "guarded A s n now (writer_step A ev w)"
    unfolding Exclude_event writer_step.simps by (rule guarded_same [OF old]) (simp_all only: counted_frame(2,6,7) stored_frames subset_refl)
  then show ?thesis ..
qed (use guarded_idle [OF old] guarded_same [OF old] old in \<open>simp_all add: stored_frames\<close>)

lemma guarded_run:
  assumes "guarded A s n now w \<or> forgotten s n w" "\<And>e t. Enqueue_event e t \<in> set evs \<Longrightarrow> \<not> same_commit s n e"
  shows "guarded A s n now (run_writer A evs w) \<or> forgotten s n (run_writer A evs w)"
  using assms unfolding run_writer_def
proof (induction evs arbitrary: w)
  case (Cons ev evs)
  have "guarded A s n now (writer_step A ev w) \<or> forgotten s n (writer_step A ev w)"
    using Cons.prems guarded_step [of A s n now w ev] forgotten_step [of s n w ev A] by auto
  moreover have "\<And>e t. Enqueue_event e t \<in> set evs \<Longrightarrow> \<not> same_commit s n e" using Cons.prems(2) by auto
  ultimately show ?case using Cons.IH [of "writer_step A ev w"] by simp
qed simp

lemma discard_guards:
  assumes "recording_enabled w" "\<not> writer_stopping w" "\<not> flushing w" "one_each w" "event_id_of s n \<notin> stored w"
    "last_in_time n now (session_line A s (pending_operations w) (staged_commits w))"
  shows "guarded A s n now (discard_staged s n now w)"
proof -
  have "pending_operations (discard_staged s n now w) = pending_operations w @ [Discard_operation s n now]"
    using assms(1,2) by (simp add: discard_staged_def pending_operations_def)
  then have "barred A s n now (pending_operations (discard_staged s n now w)) (staged_commits w)"
    unfolding barred_def using assms(6) by (intro exI [of _ "pending_operations w"]) auto
  then show ?thesis
    using assms(1-5) by (simp add: guarded_def unstaged_frames one_each_def stored_frames)
      (simp add: flushing_def discard_staged_def)
qed

lemma discarded_for_good:
  assumes "new_writer A db = Inr w0" "w = run_writer A evs w0" "recording_enabled w" "\<not> writer_stopping w" "\<not> flushing w"
    "event_id_of s n \<notin> stored w" "last_in_time n now (session_line A s (pending_operations w) (staged_commits w))"
    "\<And>e t. Enqueue_event e t \<in> set evs' \<Longrightarrow> \<not> same_commit s n e"
  shows "event_id_of s n \<notin> stored (run_writer A evs' (discard_staged s n now w))"
proof -
  have one: "one_each w" unfolding assms(2) by (rule one_each_run [OF one_each_new [OF assms(1)]])
  have "guarded A s n now (discard_staged s n now w)" by (rule discard_guards [OF assms(3-5) one assms(6,7)])
  then have "guarded A s n now (run_writer A evs' (discard_staged s n now w)) \<or> forgotten s n (run_writer A evs' (discard_staged s n now w))"
    using guarded_run [of A s n now "discard_staged s n now w" evs'] assms(8) by blast
  then show ?thesis by (auto simp: guarded_def forgotten_def)
qed

end
