(* ===== verification/Training_Guarantees.thy ===== *)
theory Training_Guarantees
  imports Training_Properties Training_Sealing Training_Undo
begin

text \<open>
  What the writer of the training data promises, on libraries that keep their documented laws: here with a small
  concrete instance of them, on which the promises are applied.
\<close>

section \<open>Concrete libraries\<close>

definition digits :: "((bool \<times> bool \<times> bool \<times> bool) \<times> char) list" where
  "digits =
    [((False, False, False, False), CHR ''0''), ((False, False, False, True), CHR ''1''),
     ((False, False, True, False), CHR ''2''), ((False, False, True, True), CHR ''3''),
     ((False, True, False, False), CHR ''4''), ((False, True, False, True), CHR ''5''),
     ((False, True, True, False), CHR ''6''), ((False, True, True, True), CHR ''7''),
     ((True, False, False, False), CHR ''8''), ((True, False, False, True), CHR ''9''),
     ((True, False, True, False), CHR ''a''), ((True, False, True, True), CHR ''b''),
     ((True, True, False, False), CHR ''c''), ((True, True, False, True), CHR ''d''),
     ((True, True, True, False), CHR ''e''), ((True, True, True, True), CHR ''f'')]"

definition half :: "bool \<times> bool \<times> bool \<times> bool \<Rightarrow> char" where
  "half n = the (map_of digits n)"

definition nibble :: "char \<Rightarrow> (bool \<times> bool \<times> bool \<times> bool) option" where
  "nibble c = map_of (map (\<lambda>(n, d). (d, n)) digits) c"

definition hex_of :: "string \<Rightarrow> string" where
  "hex_of s = concat (map (\<lambda>c. case c of Char a b c d e f g h \<Rightarrow> [half (h, g, f, e), half (d, c, b, a)]) s)"

fun bytes_of_hex :: "string \<Rightarrow> string option" where
  "bytes_of_hex [] = Some []"
| "bytes_of_hex [c] = None"
| "bytes_of_hex (c # d # s) =
     (case (nibble c, nibble d, bytes_of_hex s) of
        (Some (h, g, f, e), Some (d, c, b, a), Some bs) \<Rightarrow> Some (Char a b c d e f g h # bs)
      | _ \<Rightarrow> None)"

definition example_sodium :: sodium where
  "example_sodium = \<lparr>
     box_seal = (\<lambda>pk m. Some (replicate box_seal_bytes (CHR ''#'') @ m)),
     box_open = (\<lambda>pk sk c. Some (drop box_seal_bytes c)),
     bin2hex = hex_of, hex2bin = bytes_of_hex,
     pwhash = (\<lambda>password s. Some (password @ s)),
     seed_keypair = (\<lambda>seed. (take 32 (seed @ replicate 32 (CHR ''-'')), seed))\<rparr>"

text \<open>UTF-8 of the basic plane; text outside it is refused.\<close>

definition utf8_of :: "int \<Rightarrow> string" where
  "utf8_of n =
     (if n < 0x80 then [char_of n]
      else if n < 0x800 then [char_of (0xC0 + n div 64), char_of (0x80 + n mod 64)]
      else [char_of (0xE0 + n div 4096), char_of (0x80 + n div 64 mod 64), char_of (0x80 + n mod 64)])"

fun utf8_units :: "int list \<Rightarrow> exn + u16string" where
  "utf8_units [] = Inr []"
| "utf8_units (a # s) =
     (if a < 0x80 then rbind (utf8_units s) (\<lambda>u. Inr (of_int a # u))
      else if 0xC0 \<le> a \<and> a < 0xE0
      then (case s of b # t \<Rightarrow> rbind (utf8_units t) (\<lambda>u. Inr (of_int ((a - 0xC0) * 64 + (b - 0x80)) # u)) | _ \<Rightarrow> Inl Runtime_error)
      else if 0xE0 \<le> a \<and> a < 0xF0
      then (case s of b # c # t \<Rightarrow>
              rbind (utf8_units t) (\<lambda>u. Inr (of_int ((a - 0xE0) * 4096 + (b - 0x80) * 64 + (c - 0x80)) # u))
            | _ \<Rightarrow> Inl Runtime_error)
      else Inl Runtime_error)"

definition basic_unit :: "char16 \<Rightarrow> bool" where
  "basic_unit c \<longleftrightarrow> c < 0xD800 \<or> 0xE000 \<le> c"

definition example_codec :: text_codec where
  "example_codec = \<lparr>
     to_utf8 = (\<lambda>s. if list_all basic_unit s then Inr (concat (map (\<lambda>c. utf8_of (uint c)) s)) else Inl Runtime_error),
     to_utf16 = (\<lambda>s. utf8_units (map of_char s))\<rparr>"

definition example_json :: json_functions where
  "example_json = \<lparr>json_valid = (\<lambda>_. True), without_strength = Some\<rparr>"

definition example_writer_env :: writer_env where
  "example_writer_env = \<lparr>sealing = example_sodium, codec_of = example_codec,
     json_of = example_json, staging_window = 30\<rparr>"

lemma nibble_half: "nibble (half n) = Some n"
proof -
  obtain a b c d where n: "n = (a, b, c, d)" by (cases n)
  show ?thesis unfolding n by (cases a; cases b; cases c; cases d) (simp_all add: half_def nibble_def digits_def)
qed

lemma hex_round_trip: "bytes_of_hex (hex_of b) = Some b"
proof (induction b)
  case (Cons c b)
  then show ?case by (cases c) (simp add: hex_of_def nibble_half)
qed (simp add: hex_of_def)

lemma length_hex: "length (hex_of b) = 2 * length b"
  by (induction b) (simp_all add: hex_of_def split: char.split)

lemma example_sodium_ok: "sodium_ok example_sodium"
  by (simp add: sodium_ok_def example_sodium_def hex_round_trip length_hex)

lemma utf8_unit:
  assumes "0 \<le> n" "n < 0x10000"
  shows "utf8_units (map of_char (utf8_of n) @ s) = rbind (utf8_units s) (\<lambda>u. Inr (of_int n # u))"
proof -
  have chars: "(of_char (char_of (k :: int) :: char) :: int) = k" if "0 \<le> k" "k < 256" for k using that by simp
  consider "n < 0x80" | "0x80 \<le> n" "n < 0x800" | "0x800 \<le> n" by linarith
  then show ?thesis
  proof cases
    case 1
    then show ?thesis using assms(1) by (simp add: utf8_of_def)
  next
    case 2
    define q r where "q = n div 64" and "r = n mod 64"
    have n: "n = q * 64 + r" "0 \<le> r" "r < 64" unfolding q_def r_def by simp_all
    then have "0 \<le> q" "q < 32" using 2 by linarith+
    moreover have "utf8_of n = [char_of (0xC0 + q), char_of (0x80 + r)]" using 2 by (simp add: utf8_of_def q_def r_def)
    ultimately show ?thesis using n by simp
  next
    case 3
    define m p q r where "m = n div 64" and "p = n div 4096" and "q = n div 64 mod 64" and "r = n mod 64"
    have n: "n = m * 64 + r" "0 \<le> r" "r < 64" unfolding m_def r_def by simp_all
    have "p = m div 64" unfolding p_def m_def by (simp add: zdiv_zmult2_eq [of 64 n 64, simplified])
    then have m: "m = p * 64 + q" "0 \<le> q" "q < 64" unfolding q_def m_def by simp_all
    have "0 \<le> p" "p < 16" using n m 3 assms by linarith+
    moreover have "utf8_of n = [char_of (0xE0 + p), char_of (0x80 + q), char_of (0x80 + r)]"
      using 3 by (simp add: utf8_of_def p_def q_def r_def)
    moreover have "n = p * 4096 + q * 64 + r" using n(1) m(1) by simp
    ultimately show ?thesis using n(2,3) m(2,3) by simp
  qed
qed

lemma example_codec_ok: "codec_ok example_codec"
proof -
  have "utf8_units (map of_char (concat (map (\<lambda>c. utf8_of (uint c)) s))) = Inr s" for s :: u16string
  proof (induction s)
    case (Cons c s)
    have "uint c < 0x10000" using uint_lt2p [of c] by simp
    from utf8_unit [OF _ this] show ?case using Cons by simp
  qed simp
  then show ?thesis by (auto simp: codec_ok_def example_codec_def split: if_splits)
qed

text \<open>Two commits of one session, and a run on each: the second continues the first.\<close>

definition example_event :: "u64 \<Rightarrow> raw_commit_event" where
  "example_event n = \<lparr>event_context = [0x61], event_answer = [0x62],
     event_input = [\<lparr>raw_reading = [0x3105, 0x20], raw_output = [0x62], raw_manually_selected = True\<rparr>,
       \<lparr>raw_reading = [], raw_output = [0x63], raw_manually_selected = False\<rparr>],
     event_session = ''s'', event_sequence = n, event_time = ''t''\<rparr>"

definition example_row :: "string \<Rightarrow> commit_row" where
  "example_row event = \<lparr>commit_id = 0, commit_event = event, commit_schema = 2, commit_context = ''c'', commit_answer = ''a'',
     commit_padding = ''p'', commit_reading = ''r'', commit_revised = False, commit_time = ''t'', commit_state = Pending\<rparr>"

definition example_run :: "int \<Rightarrow> u64 \<Rightarrow> lora_run" where
  "example_run parent so_far = \<lparr>lora_id = 0, lora_parent = parent, lora_fingerprint = replicate 64 (CHR ''a''), lora_revision = ''r'',
     lora_adapter = [0x61], lora_output = [0x62], lora_completed = ''t'', lora_records = 1, lora_cumulative = so_far,
     lora_steps = 1, lora_rank = 1, lora_alpha = 1, lora_dropout = 0, lora_modules = [0x63], lora_request = ''q''\<rparr>"

definition example_history :: "db_event list" where
  "example_history = [Insert_commit (example_row ''x''), Insert_commit (example_row ''y''),
     Complete_training (example_run 0 1) [[0x78]], Complete_training (example_run 1 2) [[0x79]]]"

definition example_db :: training_db where
  "example_db = fold (db_step example_json example_codec example_sodium) example_history new_database"

lemma example_db_reachable: "db_reachable example_json example_codec example_sodium example_db"
  unfolding example_db_def by (rule reached.kept) (rule db_reachable.db_start)

lemma example_links: "run_commits example_db = [(1, 1), (2, 2)]" "lineage_of example_db 2 = [2, 1]"
  by code_simp+

text \<open>A writer with a password and one commit staged; then the commit is stored when its time is over.\<close>

definition example_writer :: training_writer where
  "example_writer = (case new_writer example_writer_env new_database of Inr w \<Rightarrow> w)"

definition staging_run :: "writer_event list" where
  "staging_run = [Password_event (replicate 16 (CHR ''z'')) ''pw'', Enqueue_event (example_event 1) 0, Take_step, Work_step]"

definition storing_run :: "writer_event list" where
  "storing_run = staging_run @ [Wake_step 31, Begin_flush_step 31, Flush_step, Flush_step]"

definition waiting_run :: "writer_event list" where
  "waiting_run = [Take_step, Work_step, Wake_step 31, Begin_flush_step 31, Flush_step, Flush_step]"

lemma example_new: "new_writer example_writer_env new_database = Inr example_writer"
  by code_simp

definition example_staged :: training_writer where
  "example_staged = run_writer example_writer_env staging_run example_writer"

text \<open>What the two runs come to, each evaluated once.\<close>

definition staged_view :: "training_writer \<Rightarrow> (bool \<times> bool \<times> bool) \<times> commit_row list \<times> (raw_commit_event \<times> int) list" where
  "staged_view w = ((recording_enabled w, writer_stopping w, flushing w), commits (writer_db w),
     session_line example_writer_env ''s'' (pending_operations w) (staged_commits w))"

lemma staged_seen: "staged_view example_staged = ((True, False, False), [], [(example_event 1, 30)])"
  by code_simp

lemma staged_example:
  "recording_enabled example_staged" "\<not> writer_stopping example_staged" "\<not> flushing example_staged" "stored example_staged = {}"
  "session_line example_writer_env ''s'' (pending_operations example_staged) (staged_commits example_staged) = [(example_event 1, 30)]"
  using staged_seen by (simp_all add: staged_view_def stored_def)

definition example_stored :: training_db where
  "example_stored = writer_db (run_writer example_writer_env storing_run example_writer)"

definition stored_view :: "training_db \<Rightarrow> string list \<times> nat \<times> bool" where
  "stored_view db = (map commit_event (commits db), length (filter (eligible db 0) (commits db)),
     case unlock example_sodium db ''pw'' of Inl e \<Rightarrow> False | Inr r \<Rightarrow> True)"

lemma stored_seen: "stored_view example_stored = ([event_key (example_event 1)], 1, True)"
  by code_simp

lemma stored_example: "stored (run_writer example_writer_env storing_run example_writer) = {event_key (example_event 1)}"
proof -
  have "set (map commit_event (commits example_stored)) = {event_key (example_event 1)}"
    using stored_seen by (simp add: stored_view_def del: set_map)
  then show ?thesis by (simp add: stored_def example_stored_def)
qed

lemma unlocks_example: "\<exists>P sk. unlock example_sodium example_stored ''pw'' = Inr (P, sk)"
  using stored_seen by (auto simp: stored_view_def split: sum.splits)

section \<open>The database\<close>

text \<open>(C5) Whatever is done with the training database, a run is never trained on a commit that one of its ancestors
  was trained on, and only on commits that are stored.\<close>

theorem no_commit_trained_twice:
  assumes "db_reachable J U K db" "(r, k) \<in> set (run_commits db)"
  shows "k \<in> commit_id ` set (commits db) \<and> (\<forall>a \<in> set (lineage_of db r). a \<noteq> r \<longrightarrow> (a, k) \<notin> set (run_commits db))"
  using db_reachable_ok [OF assms(1)] assms(2) unfolding db_ok_def trained_once_def links_ok_def by blast

lemma no_commit_trained_twice_witness:
  "2 \<in> commit_id ` set (commits example_db) \<and> (1, 2) \<notin> set (run_commits example_db)"
  using no_commit_trained_twice [OF example_db_reachable, of 2 2] by (simp add: example_links)

lemma completion_uses_up:
  assumes ok: "db_ok db" and c: "completion U db run ids db' row cs"
  shows "filter (eligible db' (next_run db)) (commits db') = filter (\<lambda>x. eligible db (lora_parent run) x \<and> x \<notin> set cs) (commits db)"
proof -
  note t = completionD [OF c]
  have "inj_on commit_id (set (commits db))" using ok by (simp add: db_ok_def commits_ok_def distinct_map)
  then have "commit_id x \<in> commit_id ` set cs \<longleftrightarrow> x \<in> set cs" if "x \<in> set (commits db)" for x
    using that t(11) by (auto dest: inj_onD)
  then show ?thesis unfolding t(5) by (intro filter_cong refl) (simp add: completed_eligible(1) [OF ok c])
qed

text \<open>(C18) A completed training takes exactly the commits it names, one for each event identifier and all of
  them available on its parent, out of what is available on the new run, and leaves what is available on
  the parent; one that is refused changes nothing.\<close>

theorem training_uses_up:
  assumes "db_reachable J U K db"
  shows "case complete_lora_training J U db run ids of (completed, db') \<Rightarrow>
    if completed
    then \<exists>cs n. mapR (to_utf8 U) ids = Inr (map commit_event cs) \<and> distinct cs \<and>
         set cs \<subseteq> set (filter (eligible db (lora_parent run)) (commits db)) \<and>
         filter (eligible db' (next_run db)) (commits db') =
           filter (\<lambda>c. c \<notin> set cs) (filter (eligible db (lora_parent run)) (commits db)) \<and>
         filter (eligible db' (lora_parent run)) (commits db') = filter (eligible db (lora_parent run)) (commits db) \<and>
         available_count db (lora_parent run) = Inr (length ids + n) \<and> available_count db' (next_run db) = Inr n \<and>
         available_count db' (lora_parent run) = Inr (length ids + n)
    else db' = db"
proof (cases "training_transaction J U db run ids")
  case (Inr db')
  note ok = db_reachable_ok [OF assms]
  obtain row cs where c: "completion U db run ids db' row cs" using completed [OF ok Inr] by blast
  note valid = parent_validates [OF ok c] and t = completionD [OF c]
  have "distinct cs" using t(10) by (simp add: distinct_map)
  moreover have "set cs \<subseteq> set (filter (eligible db (lora_parent run)) (commits db))" using t(11) by auto
  moreover have "filter (eligible db' (next_run db)) (commits db') =
      filter (\<lambda>c. c \<notin> set cs) (filter (eligible db (lora_parent run)) (commits db))"
    by (simp add: completion_uses_up [OF ok c])
  moreover have "filter (eligible db' (lora_parent run)) (commits db') = filter (eligible db (lora_parent run)) (commits db)"
    by (simp add: completed_eligible(2) [OF ok c] t(5))
  moreover have "available_count db (lora_parent run) =
      Inr (length ids + length (filter (eligible db' (next_run db)) (commits db')))"
    by (simp add: available_count_def valid completed_count [OF ok c])
  moreover have "available_count db' (next_run db) = Inr (length (filter (eligible db' (next_run db)) (commits db')))"
    by (simp add: available_count_def valid)
  moreover have "available_count db' (lora_parent run) =
      Inr (length ids + length (filter (eligible db' (next_run db)) (commits db')))"
    using calculation(4) by (simp add: available_count_def valid completed_count [OF ok c])
  ultimately show ?thesis
    using t(12) by (simp only: complete_lora_training_def Inr sum.case prod.case if_True) blast
qed (simp add: complete_lora_training_def)

definition example_again :: "bool \<times> training_db" where
  "example_again = complete_lora_training example_json example_codec example_db (example_run 0 1) [[0x78]]"

lemma training_uses_up_witness:
  "fst (complete_lora_training example_json example_codec example_db (example_run 2 3) [[0x78]]) = False \<and>
   map commit_event (filter (eligible example_db 0) (commits example_db)) = [''x'', ''y''] \<and>
   (\<exists>cs. map commit_event cs = [''x''] \<and> filter (eligible (snd example_again) 3) (commits (snd example_again)) =
      filter (\<lambda>c. c \<notin> set cs) (filter (eligible example_db 0) (commits example_db)))"
proof -
  have run: "fst (complete_lora_training example_json example_codec example_db (example_run 2 3) [[0x78]]) = False"
    "map commit_event (filter (eligible example_db 0) (commits example_db)) = [''x'', ''y'']"
    "fst example_again" "next_run example_db = 3" "lora_parent (example_run 0 1) = 0"
    "mapR (to_utf8 example_codec) [[0x78]] = Inr [''x'']"
    by code_simp+
  obtain cs where "(Inr [''x''] :: exn + string list) = Inr (map commit_event cs)"
    "filter (eligible (snd example_again) 3) (commits (snd example_again)) =
      filter (\<lambda>c. c \<notin> set cs) (filter (eligible example_db 0) (commits example_db))"
    using training_uses_up [OF example_db_reachable, where run = "example_run 0 1" and ids = "[[0x78]]",
        folded example_again_def] run(3)
    unfolding case_prod_unfold run(4-6) by (simp only: if_True) (elim exE conjE, rule that, assumption+)
  then show ?thesis using run(1,2) by auto
qed

text \<open>(C19) The history the database shows is always an ancestry on which the search for a common ancestor works.\<close>

theorem recorded_history_is_valid:
  assumes "db_reachable J U K db" "views = load_lora_history_snapshot (lora_training_history U' db)"
  shows "valid_history (tree_lineage (tree_bases views shown_base catalog) views)"
  unfolding assms(2) by (rule database_history_valid [OF db_reachable_ok [OF assms(1)]])

lemma recorded_history_is_valid_witness:
  "length (lora_training_history example_codec example_db) = 2 \<and>
   valid_history (tree_lineage (tree_bases (load_lora_history_snapshot (lora_training_history example_codec example_db)) None [])
     (load_lora_history_snapshot (lora_training_history example_codec example_db)))"
proof -
  have "length (lora_training_history example_codec example_db) = 2" by code_simp
  then show ?thesis using recorded_history_is_valid [OF example_db_reachable refl, of example_codec None "[]"] by simp
qed

section \<open>The writer\<close>

text \<open>(C7) After a reset nothing recorded before it is ever stored, whatever the thread was doing: what is stored was
  enqueued after the reset.\<close>

theorem reset_forgets:
  assumes "new_writer A db = Inr w0"
  shows "stored (run_writer A evs' (reset_conversation_data (run_writer A evs w0))) \<subseteq> event_key ` enqueued evs'"
  using reset_then_only [OF assms, of evs' evs] by (simp add: enqueued_def)

lemma reset_forgets_witness:
  "stored (run_writer example_writer_env storing_run example_writer) \<noteq> {} \<and>
   stored (run_writer example_writer_env waiting_run (reset_conversation_data example_staged)) = {}"
  using reset_forgets [OF example_new, of waiting_run staging_run]
  by (simp add: stored_example example_staged_def) (simp add: enqueued_def waiting_run_def)

text \<open>(C8) A commit taken back before its deadline is never stored, when recording is on and the writer is not
  being stopped, the thread has not woken to write what is due, the commit is the last of its session on its
  way and not stored already, and it is not recorded again.\<close>

theorem discarded_in_time:
  assumes "new_writer A db = Inr w0" "w = run_writer A evs w0" "recording_enabled w" "\<not> writer_stopping w" "\<not> flushing w"
    "event_id_of s n \<notin> stored w" "last_in_time n now (session_line A s (pending_operations w) (staged_commits w))"
    "\<forall>e \<in> enqueued evs'. \<not> same_commit s n e"
  shows "event_id_of s n \<notin> stored (run_writer A evs' (discard_staged s n now w))"
  by (rule discarded_for_good [OF assms(1-7)]) (use assms(8) in \<open>auto simp: enqueued_def\<close>)

lemma discarded_in_time_witness:
  "event_id_of ''s'' 1 \<notin> stored (run_writer example_writer_env waiting_run (discard_staged ''s'' 1 30 example_staged))"
proof -
  have "last_in_time 1 30 (session_line example_writer_env ''s'' (pending_operations example_staged) (staged_commits example_staged))"
    by (simp add: staged_example)
  moreover have "\<forall>e \<in> enqueued waiting_run. \<not> same_commit ''s'' 1 e" by (simp add: enqueued_def waiting_run_def)
  ultimately show ?thesis
    using discarded_in_time [OF example_new example_staged_def] staged_example(1-4) by blast
qed

lemma mapR_choice:
  assumes "\<And>c. c \<in> set cs \<Longrightarrow> \<exists>e \<in> E. h c = k e \<and> f c = g e"
  shows "\<exists>es. set es \<subseteq> E \<and> map h cs = map k es \<and> mapR f cs = mapR g es"
  using assms
proof (induction cs)
  case (Cons c cs)
  obtain e where "e \<in> E" "h c = k e" "f c = g e" using Cons.prems by force
  moreover obtain es where "set es \<subseteq> E" "map h cs = map k es" "mapR f cs = mapR g es" using Cons by force
  ultimately show ?case by (intro exI [of _ "e # es"]) simp
qed simp

text \<open>(C6) With the password every commit that is stored opens, and shows exactly what was recorded of it: the list of
  available commits is that of recorded events, each with its own context, answer and reading.\<close>

theorem stored_commits_open:
  assumes "sodium_ok (sealing A)" "codec_ok (codec_of A)" "new_writer A new_database = Inr w0"
    "db = writer_db (run_writer A evs w0)" "unlock (sealing A) db password = Inr (P, sk)" "validate_base_run db base = Inr ()"
  shows "\<exists>es. set es \<subseteq> enqueued evs \<and> map commit_event (filter (eligible db base) (commits db)) = map event_key es \<and>
    pending_items (codec_of A) (sealing A) db password base = mapR (shown_item (codec_of A)) es"
proof -
  have "writer_sealed A (enqueued evs) (run_writer A evs w0)"
    using writer_sealed_run [OF new_writer_sealed [OF assms(3)], of evs] by simp
  then have sealed: "sealed_in A (enqueued evs) db" by (simp add: writer_sealed_def assms(4))
  have "password \<noteq> []" using assms(5) by (auto simp: unlock_def rbind_Inr_iff derive_def)
  then have "pending_items (codec_of A) (sealing A) db password base =
      mapR (open_item (codec_of A) (sealing A) P sk) (filter (eligible db base) (commits db))"
    using assms(5,6) by (simp add: pending_items_def)
  moreover have "\<exists>es. set es \<subseteq> enqueued evs \<and> map commit_event (filter (eligible db base) (commits db)) = map event_key es \<and>
      mapR (open_item (codec_of A) (sealing A) P sk) (filter (eligible db base) (commits db)) = mapR (shown_item (codec_of A)) es"
    by (rule mapR_choice) (use open_stored [OF assms(1,2,5) sealed] in auto)
  ultimately show ?thesis by simp
qed

lemma stored_commits_open_witness:
  "\<exists>es. set es \<subseteq> enqueued storing_run \<and> length es = 1 \<and>
     pending_items example_codec example_sodium example_stored ''pw'' 0 = mapR (shown_item example_codec) es"
proof -
  obtain P sk where key: "unlock example_sodium example_stored ''pw'' = Inr (P, sk)" using unlocks_example by blast
  have env: "sealing example_writer_env = example_sodium" "codec_of example_writer_env = example_codec"
    by (simp_all add: example_writer_env_def)
  have valid: "validate_base_run example_stored 0 = Inr ()" by (simp add: validate_base_run_def)
  obtain es where es: "set es \<subseteq> enqueued storing_run"
    "map commit_event (filter (eligible example_stored 0) (commits example_stored)) = map event_key es"
    "pending_items example_codec example_sodium example_stored ''pw'' 0 = mapR (shown_item example_codec) es"
    using stored_commits_open [of example_writer_env, OF _ _ example_new example_stored_def, unfolded env,
        OF example_sodium_ok example_codec_ok key valid] by blast
  have "length (filter (eligible example_stored 0) (commits example_stored)) = 1" using stored_seen by (simp add: stored_view_def)
  then have "length es = 1" using arg_cong [OF es(2), of length] by simp
  then show ?thesis using es by blast
qed

end
