(* ===== verification/Spec2Isabelle.thy ===== *)
theory Spec2Isabelle
  imports Sealed_Properties Text_Service_Keys Prediction_Properties Inference_Sessions Worker_Properties Training_Guarantees
begin

text \<open>
  A verification development for Llavon IME for Windows, a Bopomofo input method in two processes: a text service
  loaded into every application (src/frontend) and a service with the language model, the windows and the training
  data (src/service), joined by named pipes. What follows names files under src/.

  \<^bold>\<open>How the parts work together.\<close> A key reaches the text service (frontend/src/tsf/textService.cpp), which asks the
  key router what it means. Typing goes to the composition controller, which holds one composition: a buffer of
  syllables with a caret. When a syllable is complete the controller asks the engine worker for a conversion; the
  worker's own thread calls the engine, a client of the prediction pipe, and the answer is posted back and merged
  into the buffer. A composition that must end before its conversion is done is sealed: its segment stays in the
  document and is written when the answer comes. In the service one connection serves each text service: an
  inference session predicts, the custom names are put over the prediction, and committed text goes to the writer of
  the training data, which keeps it back for a while, seals it and stores it. From what is stored adapters are
  trained, and the settings window shows the training runs as a tree.

  \<^bold>\<open>The text service.\<close>
  \<^item> \<open>Bopomofo\<close> (core/bopomofo.hpp): the key layout, the character table, one syllable \<open>pos\<close>.
  \<^item> \<open>Composition_Buffer\<close> (core/buffer.hpp, core/training.hpp): \<open>comp_buffer\<close> with every operation, merging a
    conversion result included; \<open>Buffer_Evolution\<close> follows a buffer from the request to the answer.
  \<^item> \<open>Conversion\<close> (core/conversion.hpp, core/candidate_lock.hpp): outstanding conversions and the held-back result.
  \<^item> \<open>Sealed_Text\<close> (core/sealed_text.hpp and .cpp, core/composition_host.hpp): sealed segments and their queue. The
    document is the host's, so it is a parameter \<open>host\<close>; what the code does to it is a list of calls.
  \<^item> \<open>Controller\<close> (core/composition_controller.hpp and .cpp, and the edit queue of textService.cpp): \<open>world\<close> is the
    state of both, \<open>handle\<close> an event of the thread, a queued closure a value of \<open>edit\<close>.
  \<^item> \<open>Key_Router\<close> (tsf/key_router.hpp and .cpp), \<open>Text_Service\<close> (the key sinks of textService.cpp): the decision for a
    key, its test and its handling, the commit that Backspace may take back.
  \<^item> \<open>Candidate_List\<close> (tsf/candidateListUI.hpp, tsf/candidateUiController.cpp) and \<open>Candidate_Pipe\<close>
    (tsf/candidateUiClient.cpp, service/src/service/candidate_pipe_protocol.hpp and candidate_pipe_server.hpp).
  \<^item> \<open>Engine_Worker\<close> (engine/engine_worker.cpp): its queue, its coroutine and the tasks it posts, as steps of two
    threads that may come in any order.

  \<^bold>\<open>The service.\<close>
  \<^item> \<open>Byte_Codec\<close>, \<open>Prediction_Client\<close> (frontend/src/engine/impl/pipeEngine.hpp), \<open>Prediction_Server\<close> and
    \<open>Inference_Sessions\<close> (service/src/service/prediction_pipe_server.hpp): the bytes and both ends of the pipe, and
    which client has an inference context.
  \<^item> \<open>Custom_Names\<close> (service/src/service/custom_name_matcher.cpp): the automaton, compiled and applied.
  \<^item> \<open>Gpu_Lease\<close> (service/src/service/gpu_activity_lease.hpp): switching the driver on and off.
  \<^item> \<open>Training_Format\<close> (commit_crypto.hpp and the serialisation in training_data_writer.cpp), \<open>Training_Database\<close> (the
    tables and SQL of training_data_writer.cpp), \<open>Training_Writer\<close> (its queue, staging area and thread).
  \<^item> \<open>History_Forest\<close> (service/src/settings/lora_history_lca.cpp) and \<open>History_Bases\<close> (lora_history_base.hpp and what
    lora_history_tree.cpp takes from them): the common ancestor of two runs and the base models of the tree.

  \<^bold>\<open>How the state is kept.\<close> A class is a record of its fields, an operation a function on it, in the order of the
  source. An exception is \<open>Inl\<close> of \<open>exn\<close>; where it leaves state behind, the computation is a \<open>ctl\<close> of \<open>Effects\<close>, which
  keeps it. Threads are step functions over a state that holds where each thread is; what a lock covers is one step.
  Vectors and deques are lists, indices outside them the error the source has there. Words keep their width where
  the code can wrap or compares them as bytes; counters that count up by one from a small number are naturals.

  \<^bold>\<open>What is shown.\<close> The properties carry the numbers (C1) to (C40) in the order of their weight.
  \<^item> \<open>Controller_Invariant\<close> and \<open>Controller_Steps\<close> prove the invariant of the controller for every event, over the
    locales \<open>edit_runner\<close> and \<open>ui_runner\<close>; \<open>Text_Service_Steps\<close>, \<open>Text_Service_Properties\<close> and \<open>Text_Service_Keys\<close> carry it
    through the key sinks. Their properties are in \<open>Controller_Properties\<close>, \<open>Sealed_Properties\<close>, \<open>Buffer_Properties\<close>,
    \<open>Key_Properties\<close> and \<open>Text_Service_Keys\<close>: no exception escapes, nothing typed is lost, a key is taken as announced,
    and a granted session runs every edit that waits, which the relation \<open>session_runs\<close> spells out.
  \<^item> \<open>Candidate_Properties\<close>: the list stays on its page, and the window server repeats what the list did.
  \<^item> \<open>Worker_Properties\<close>: every conversion is answered exactly once, and the two threads come to rest apart from the probe
    the worker repeats while the service cannot be reached.
  \<^item> \<open>Prediction_Properties\<close>: a request, its answer and a commit survive both ends of the pipe; the locale \<open>codec\<close> is
    the contract of a writer and a reader of bytes, interpreted for every format.
  \<^item> \<open>Longest_Suffix\<close>, \<open>Name_Automaton\<close>, \<open>Name_Building\<close>, \<open>Name_Scan\<close> and \<open>Name_Properties\<close>: the automaton replaces what the
    leftmost-longest reference \<open>greedy\<close> replaces.
  \<^item> \<open>History_Sets\<close>, \<open>History_Labels\<close>, \<open>History_Walk\<close>, \<open>History_Steps\<close> and \<open>History_Properties\<close>: the search always ends with
    the lowest common ancestor, or with nothing exactly when the ancestry is unsound.
  \<^item> \<open>Training_Lineage\<close>, \<open>Training_Runs\<close> and \<open>Training_Invariant\<close> prove the invariant of the training database,
    \<open>Training_Properties\<close> what follows of it, \<open>Training_Queue\<close>, \<open>Training_Sealing\<close> and \<open>Training_Undo\<close> what each step of the
    writer keeps; \<open>Training_Guarantees\<close> has their properties.

  \<^bold>\<open>Bounds.\<close> \<open>run_queued\<close> has the weight of the queue as fuel (\<open>queue_fuel\<close>), and each turn takes at least one off it. The
  union-find of the history climbs at most the length of the forest plus one, and the walk takes two turns for each
  node; both are shown to end. \<open>lineage_up\<close> has one turn for each run and every parent is an older run.
  \<open>follow\<close>, \<open>link_loop\<close> and \<open>replace_matches\<close> have the number of nodes and of syllables, which the proofs about the
  automaton show to be enough. A connection and a window server have one turn for each byte sent, and each command
  takes at least one. A key that the list does not use is decided a second time with the list closed, so \<open>perform\<close> needs
  two turns.

  \<^bold>\<open>Parameters.\<close> The host application, the inference core, the driver, the parsed table, SQLite's JSON functions,
  libsodium and the UTF conversions are other code and are arguments of the definitions that use them, as is the
  order in which a hash map is visited. What is relied on of them is a named predicate (\<open>env_ok\<close>, \<open>sodium_ok\<close>,
  \<open>codec_ok\<close>), which a concrete instance is shown to fulfil.

  \<^bold>\<open>Not modelled.\<close> The user interface (settings window, candidate window, tray and language bar), the training manager
  (it drives a child process, directories and JSON files), user settings (a JSON file), the pipe transport, updates,
  registration and installation, the vendor drivers, the debug log: they are calls to Windows and third-party
  libraries around the parts above. Of the text service, activation, focus events, display attributes and the writing
  of text ranges are the host's. Of the training data writer, opening and upgrading an old database, disk errors and
  the callback of the count are left out, and publishing a recount is one step with the statement before it, which
  hides that \<open>persist\<close> may come in between. Of the history, the layout of the tree is left out.
\<close>

end
